(* ===== verification/Prelude.thy ===== *)
theory Prelude
  imports Main "HOL-Library.Word"
begin

text \<open>
  Shared material: the machine integer types of the C sources, the error numbers the code
  returns, memory copies on byte buffers, the little-endian layout of packed integers, and
  generic lemmas on lists and words that the component theories use.  The integers of the
  sources keep their width (\<open>safety_u8\<close>, \<open>safety_u16\<close>, \<open>safety_u32\<close> and the 64-bit kernel
  counters); a C buffer together with its length is a list of bytes.
\<close>

unbundle bit_operations_syntax

type_synonym u8 = "8 word"
type_synonym u16 = "16 word"
type_synonym u32 = "32 word"
type_synonym u64 = "64 word"
type_synonym bytes = "u8 list"

named_theorems proto_const "values of the protocol constants"
named_theorems layout "lengths of packed structures"
named_theorems crc_eval "evaluation of CRC-32 on concrete bytes"

text \<open>The error numbers of the kernel driver and of the firmware; the code returns them
  negated, here they are the left injection of a result.\<close>

datatype errno = EINVAL | EMSGSIZE | ENOSPC | EAGAIN | EFAULT | ENOTTY | ERESTARTSYS
  | ENODEV | ENOMEM | ENOSYS | ENOTSUP | EIO

type_synonym 'a result = "errno + 'a"

text \<open>\<open>memcpy (out + off, src, length src)\<close> on a buffer that is long enough.\<close>

definition memcpy_at :: "'a list \<Rightarrow> nat \<Rightarrow> 'a list \<Rightarrow> 'a list" where
  "memcpy_at out off src = take off out @ src @ drop (off + length src) out"

text \<open>Packed little-endian integers.\<close>

definition le16 :: "u16 \<Rightarrow> bytes" where
  "le16 w = [ucast w, ucast (drop_bit 8 w)]"

definition le32 :: "u32 \<Rightarrow> bytes" where
  "le32 w = [ucast w, ucast (drop_bit 8 w), ucast (drop_bit 16 w), ucast (drop_bit 24 w)]"

definition get16 :: "bytes \<Rightarrow> nat \<Rightarrow> u16" where
  "get16 bs i = ucast (bs ! i) OR push_bit 8 (ucast (bs ! Suc i))"

definition get32 :: "bytes \<Rightarrow> nat \<Rightarrow> u32" where
  "get32 bs i = ucast (bs ! i) OR push_bit 8 (ucast (bs ! Suc i))
     OR push_bit 16 (ucast (bs ! (i + 2))) OR push_bit 24 (ucast (bs ! (i + 3)))"

lemma length_le16 [simp, layout]: "length (le16 w) = 2"
  by (simp add: le16_def)

lemma length_le32 [simp, layout]: "length (le32 w) = 4"
  by (simp add: le32_def)

lemma xor_left_cancel [simp]: "(c :: 'a :: len word) XOR a = c XOR b \<longleftrightarrow> a = b"
  by (metis xor.assoc xor_self_eq xor.left_neutral)

lemma xor_right_cancel [simp]: "(a :: 'a :: len word) XOR c = b XOR c \<longleftrightarrow> a = b"
  by (metis xor.assoc xor_self_eq xor.right_neutral)

lemma bit_u8_less: "bit (a :: u8) n \<Longrightarrow> n < 8"
  by (auto dest: bit_imp_le_length)

lemma bit_u8_ge [simp]: "8 \<le> n \<Longrightarrow> \<not> bit (a :: u8) n"
  by (auto dest: bit_u8_less)

lemma join16: "(ucast (ucast (w :: u16) :: u8) :: u16) OR push_bit 8 (ucast (ucast (drop_bit 8 w) :: u8)) = w"
  by (rule bit_word_eqI) (auto simp: bit_simps)

lemma join32: "(ucast (ucast (w :: u32) :: u8) :: u32) OR push_bit 8 (ucast (ucast (drop_bit 8 w) :: u8))
   OR push_bit 16 (ucast (ucast (drop_bit 16 w) :: u8)) OR push_bit 24 (ucast (ucast (drop_bit 24 w) :: u8)) = w"
proof (rule bit_word_eqI)
  fix n assume "n < LENGTH(32)"
  then consider "n < 8" | "8 \<le> n" "n < 16" | "16 \<le> n" "n < 24" | "24 \<le> n" "n < 32" by fastforce
  then show "bit ((ucast (ucast w :: u8) :: u32) OR push_bit 8 (ucast (ucast (drop_bit 8 w) :: u8))
     OR push_bit 16 (ucast (ucast (drop_bit 16 w) :: u8))
     OR push_bit 24 (ucast (ucast (drop_bit 24 w) :: u8))) n = bit w n"
    by cases (auto simp: bit_simps)
qed

lemma split16_lo: "(ucast ((ucast (a :: u8) :: u16) OR push_bit 8 (ucast (b :: u8))) :: u8) = a"
  by (rule bit_word_eqI) (auto simp: bit_simps)

lemma split16_hi: "(ucast (drop_bit 8 ((ucast (a :: u8) :: u16) OR push_bit 8 (ucast (b :: u8)))) :: u8) = b"
  by (rule bit_word_eqI) (auto simp: bit_simps)

lemma get16_le16 [simp]: "get16 (le16 w @ bs) 0 = w"
  by (simp add: get16_def le16_def join16)

lemma get32_le32 [simp]: "get32 (le32 w @ bs) 0 = w"
  by (simp add: get32_def le32_def join32)

lemma get16_Cons [simp]: "get16 (b # bs) (Suc i) = get16 bs i"
  by (simp add: get16_def)

lemma get32_Cons [simp]: "get32 (b # bs) (Suc i) = get32 bs i"
  by (simp add: get32_def add.commute)

lemma get16_append: "i = length as + j \<Longrightarrow> get16 (as @ bs) i = get16 bs j"
  by (simp add: get16_def nth_append)

lemma get32_append: "i = length as + j \<Longrightarrow> get32 (as @ bs) i = get32 bs j"
  by (simp add: get32_def nth_append)

lemma get16_prefix: "Suc i < length as \<Longrightarrow> get16 (as @ bs) i = get16 as i"
  by (simp add: get16_def nth_append)

lemma get32_prefix: "i + 3 < length as \<Longrightarrow> get32 (as @ bs) i = get32 as i"
  by (simp add: get32_def nth_append)

lemma le16_get16: "Suc i < length bs \<Longrightarrow> le16 (get16 bs i) = [bs ! i, bs ! Suc i]"
  unfolding le16_def get16_def by (simp only: split16_lo split16_hi)

lemma le32_get32: "i + 3 < length bs \<Longrightarrow> le32 (get32 bs i) = [bs ! i, bs ! Suc i, bs ! (i + 2), bs ! (i + 3)]"
  unfolding le32_def get32_def
  by (auto intro!: bit_word_eqI simp: bit_simps)

lemma length_memcpy_at [simp]:
  "off + length src \<le> length out \<Longrightarrow> length (memcpy_at out off src) = length out"
  by (simp add: memcpy_at_def)

lemma take_memcpy_at [simp]:
  "off \<le> length out \<Longrightarrow> take (off + length src) (memcpy_at out off src) = take off out @ src"
  by (simp add: memcpy_at_def)

lemma get32_eq_nth:
  assumes "get32 xs i = get32 ys i" and "i + 3 < length xs" and "i + 3 < length ys" and "j < 4"
  shows "xs ! (i + j) = ys ! (i + j)"
proof -
  from assms have "[xs ! i, xs ! Suc i, xs ! (i + 2), xs ! (i + 3)]
      = [ys ! i, ys ! Suc i, ys ! (i + 2), ys ! (i + 3)]"
    by (metis le32_get32)
  moreover from assms(4) have "j = 0 \<or> j = 1 \<or> j = 2 \<or> j = 3" by linarith
  ultimately show ?thesis by auto
qed

lemma take_unfold_16:
  "16 \<le> length bs \<Longrightarrow> take 16 bs = [bs!0, bs!1, bs!2, bs!3, bs!4, bs!5, bs!6, bs!7,
     bs!8, bs!9, bs!10, bs!11, bs!12, bs!13, bs!14, bs!15]"
  by (auto simp: list_eq_iff_nth_eq less_Suc_eq numeral_eq_Suc)

lemma take_unfold_8:
  "8 \<le> length bs \<Longrightarrow> take 8 bs = [bs!0, bs!1, bs!2, bs!3, bs!4, bs!5, bs!6, bs!7]"
  by (auto simp: list_eq_iff_nth_eq less_Suc_eq numeral_eq_Suc)

lemma take_unfold_4: "4 \<le> length bs \<Longrightarrow> take 4 bs = [bs!0, bs!1, bs!2, bs!3]"
  by (auto simp: list_eq_iff_nth_eq less_Suc_eq numeral_eq_Suc)

lemma list4: "length xs = 4 \<Longrightarrow> \<exists>a b c d. xs = [a, b, c, d]"
  by (auto simp: length_Suc_conv numeral_eq_Suc)

lemma split_at: "xs = take k xs @ take n (drop k xs) @ drop (k + n) xs"
  by (metis append_take_drop_id drop_drop add.commute)

text \<open>Two buffers of the same length that agree outside a window of \<open>n\<close> bytes at offset \<open>k\<close>.\<close>

definition agree_outside :: "nat \<Rightarrow> nat \<Rightarrow> 'a list \<Rightarrow> 'a list \<Rightarrow> bool" where
  "agree_outside k n xs ys \<longleftrightarrow>
     length xs = length ys \<and> take k xs = take k ys \<and> drop (k + n) xs = drop (k + n) ys"

lemma agree_outside_split:
  assumes "agree_outside k n xs ys" and "k + n \<le> length xs"
  obtains p a b s where "xs = p @ a @ s" "ys = p @ b @ s" "length p = k" "length a = n" "length b = n"
proof
  show "xs = take k xs @ take n (drop k xs) @ drop (k + n) xs" by (rule split_at)
  show "ys = take k xs @ take n (drop k ys) @ drop (k + n) xs"
    using assms split_at [of ys k n] by (simp add: agree_outside_def)
qed (use assms in \<open>auto simp: agree_outside_def\<close>)

lemma agree_outside_nth:
  "agree_outside k n xs ys \<longleftrightarrow> length xs = length ys \<and>
     (\<forall>i < length xs. i < k \<or> k + n \<le> i \<longrightarrow> xs ! i = ys ! i)"
proof
  assume l: "agree_outside k n xs ys"
  have "xs ! i = ys ! i" if "i < k" for i
    using l that unfolding agree_outside_def by (metis nth_take)
  moreover have "xs ! i = ys ! i" if "k + n \<le> i" "i < length xs" for i
  proof -
    have "drop (k + n) xs ! (i - (k + n)) = drop (k + n) ys ! (i - (k + n))"
      using l by (simp add: agree_outside_def)
    then show ?thesis using that l by (simp add: agree_outside_def)
  qed
  ultimately show "length xs = length ys \<and>
      (\<forall>i < length xs. i < k \<or> k + n \<le> i \<longrightarrow> xs ! i = ys ! i)"
    using l by (auto simp: agree_outside_def)
qed (auto simp: agree_outside_def intro!: nth_equalityI)

section \<open>Numbers in text\<close>

text \<open>\<open>strtol\<close> with base 10: leading blanks, a sign, digits, saturation with \<open>ERANGE\<close>; the result is
  whether \<open>errno\<close> was set and the value.\<close>

definition is_blank :: "char \<Rightarrow> bool" where
  "is_blank c \<longleftrightarrow> c \<in> {CHR '' '', CHR 0x09, CHR 0x0A, CHR 0x0B, CHR 0x0C, CHR 0x0D}"

definition is_digit :: "char \<Rightarrow> bool" where
  "is_digit c \<longleftrightarrow> 48 \<le> (of_char c :: nat) \<and> (of_char c :: nat) \<le> 57"

fun digits_value :: "int \<Rightarrow> string \<Rightarrow> int" where
  "digits_value acc [] = acc"
| "digits_value acc (c # cs) = (if is_digit c then digits_value (10 * acc + (of_char c - 48)) cs else acc)"

definition strtol10 :: "string \<Rightarrow> bool \<times> int" where
  "strtol10 arg =
     (let s = dropWhile is_blank arg;
          (neg, s) = (case s of c # cs \<Rightarrow> if c = CHR ''-'' then (True, cs) else if c = CHR ''+'' then (False, cs)
                                          else (False, s)
                      | [] \<Rightarrow> (False, []));
          v = (if neg then - digits_value 0 s else digits_value 0 s)
      in if v < - (2 ^ 63) then (True, - (2 ^ 63)) else if 2 ^ 63 - 1 < v then (True, 2 ^ 63 - 1) else (False, v))"

text \<open>\<open>std::stol\<close> and \<open>std::stoul\<close>: the same conversions, \<open>None\<close> when they throw, for want of digits
  or out of range; \<open>strtoul\<close> negates modulo \<open>2 ^ 64\<close>.\<close>

definition has_digits :: "string \<Rightarrow> bool" where
  "has_digits arg =
     (let s = dropWhile is_blank arg;
          s = (case s of c # cs \<Rightarrow> if c = CHR ''-'' \<or> c = CHR ''+'' then cs else s | [] \<Rightarrow> [])
      in case s of c # cs \<Rightarrow> is_digit c | [] \<Rightarrow> False)"

definition stol :: "string \<Rightarrow> int option" where
  "stol arg = (if \<not> has_digits arg then None
     else let (erange, v) = strtol10 arg in if erange then None else Some v)"

definition stoul :: "string \<Rightarrow> u64 option" where
  "stoul arg = (if \<not> has_digits arg then None
     else let s = dropWhile is_blank arg;
              (neg, s) = (if hd s = CHR ''-'' then (True, tl s) else if hd s = CHR ''+'' then (False, tl s) else (False, s));
              v = digits_value 0 s
          in if 2 ^ 64 \<le> v then None else Some (if neg then - of_int v else of_int v))"

text \<open>What the command line parsers of the programs return; \<open>Stoul_throws\<close> is the exception of
  \<open>std::stoul\<close>, which none of them catches.\<close>

datatype 'a cmdline = Parsed 'a | Help | Usage_error | Stoul_throws

text \<open>\<open>std::to_string\<close>.\<close>

definition digit_char :: "nat \<Rightarrow> char" where
  "digit_char d = char_of (48 + d)"

function nat_to_string :: "nat \<Rightarrow> string" where
  "nat_to_string n = (if n < 10 then [digit_char n] else nat_to_string (n div 10) @ [digit_char (n mod 10)])"
  by pat_completeness auto
termination by (relation "measure (\<lambda>n. n)") auto

declare nat_to_string.simps [simp del]

definition int_to_string :: "int \<Rightarrow> string" where
  "int_to_string i = (if i < 0 then CHR ''-'' # nat_to_string (nat (- i)) else nat_to_string (nat i))"

text \<open>Reading a printed number back.\<close>

lemma of_char_digit [simp]: "d < 10 \<Longrightarrow> (of_char (digit_char d) :: nat) = 48 + d"
  by (simp add: digit_char_def of_char_of)

lemma of_char_digit_int [simp]: "d < 10 \<Longrightarrow> (of_char (digit_char d) :: int) = 48 + int d"
  using of_nat_of_char [of "digit_char d", where 'a = int] by simp

lemma is_digit_char [simp]: "d < 10 \<Longrightarrow> is_digit (digit_char d)"
  by (simp add: is_digit_def)

lemma nat_to_string_digits: "\<forall>c \<in> set (nat_to_string n). is_digit c"
  by (induction n rule: nat_to_string.induct) (subst nat_to_string.simps, auto)

lemma nat_to_string_not_Nil [simp]: "nat_to_string n \<noteq> []"
  by (subst nat_to_string.simps) simp

lemma digits_value_append:
  "\<forall>c \<in> set ds. is_digit c \<Longrightarrow> digits_value acc (ds @ cs) = digits_value (digits_value acc ds) cs"
  by (induction ds arbitrary: acc) simp_all

lemma digits_value_nat: "digits_value 0 (nat_to_string n) = int n"
proof (induction n rule: nat_to_string.induct)
  case (1 n)
  show ?case
  proof (cases "n < 10")
    case False
    then show ?thesis
      using 1 nat_to_string_digits [of "n div 10"]
      by (subst nat_to_string.simps) (simp add: digits_value_append zdiv_int zmod_int)
  qed (subst nat_to_string.simps, simp)
qed

lemma digit_not_sign:
  "is_digit c \<Longrightarrow> \<not> is_blank c \<and> c \<noteq> CHR ''-'' \<and> c \<noteq> CHR ''+'' \<and> c \<noteq> CHR 0x22"
  by (auto simp: is_digit_def is_blank_def)

lemma stol_int_to_string:
  assumes "- (2 ^ 63) \<le> i" and "i < 2 ^ 63"
  shows "stol (int_to_string i) = Some i"
proof -
  obtain c cs where n: "nat_to_string (nat \<bar>i\<bar>) = c # cs" by (cases "nat_to_string (nat \<bar>i\<bar>)") auto
  then have "is_digit c" using nat_to_string_digits [of "nat \<bar>i\<bar>"] by simp
  note c = this digit_not_sign [OF this]
  have v: "digits_value 0 (c # cs) = \<bar>i\<bar>" using digits_value_nat [of "nat \<bar>i\<bar>"] n by simp
  have m: "\<not> is_blank (CHR ''-'')" by (simp add: is_blank_def)
  show ?thesis
  proof (cases "i < 0")
    case True
    then have "int_to_string i = CHR ''-'' # c # cs" using n by (simp add: int_to_string_def)
    then show ?thesis using True c m v assms
      by (simp add: stol_def has_digits_def strtol10_def Let_def del: digits_value.simps)
  next
    case False
    then have "int_to_string i = c # cs" using n by (simp add: int_to_string_def)
    then show ?thesis using False c v assms
      by (simp add: stol_def has_digits_def strtol10_def Let_def del: digits_value.simps)
  qed
qed

lemma stoul_nat_to_string:
  assumes "n < 2 ^ 64"
  shows "stoul (nat_to_string n) = Some (of_nat n)"
proof -
  obtain c cs where n: "nat_to_string n = c # cs" by (cases "nat_to_string n") auto
  then have "is_digit c" using nat_to_string_digits [of n] by simp
  note c = this digit_not_sign [OF this]
  have v: "digits_value 0 (c # cs) = int n" using digits_value_nat [of n] n by simp
  show ?thesis using n c v assms
    by (simp add: stoul_def has_digits_def Let_def del: digits_value.simps)
qed

end
