(* ===== verification/Sections.thy ===== *)
theory Sections
  imports Prelude
begin

text \<open>
  Programs of atomic sections.  An operation that takes and releases a lock several times is a tree of
  atomic steps: each changes the shared state and chooses, from what it saw, how the operation goes on.
  Operations run in parallel by interleaving their steps.  The theory has the laws of these
  programs: run alone, in sequence, what every step keeps, and what a program is bound to do
  whatever the others do in between.
\<close>

section \<open>Definitions\<close>

text \<open>An operation is finished with its result, or it has an atomic section to run: the change of the shared
  state and the rest of the operation, both depending on the state in which the section runs.\<close>

datatype ('d, 'r) sections = Return 'r | Section "'d \<Rightarrow> 'd" "'d \<Rightarrow> ('d, 'r) sections"

text \<open>A section that calls a function with a result, and one without.\<close>

definition locked :: "('d \<Rightarrow> 'a \<times> 'd) \<Rightarrow> ('d, 'a) sections" where
  "locked f = Section (\<lambda>d. snd (f d)) (\<lambda>d. Return (fst (f d)))"

definition update :: "('d \<Rightarrow> 'd) \<Rightarrow> ('d, unit) sections" where
  "update f = Section f (\<lambda>_. Return ())"

primrec andthen :: "('d, 'a) sections \<Rightarrow> ('a \<Rightarrow> ('d, 'b) sections) \<Rightarrow> ('d, 'b) sections" where
  "andthen (Return r) c = c r"
| "andthen (Section g k) c = Section g (\<lambda>d. andthen (k d) c)"

text \<open>The operation without interference.\<close>

primrec run_alone :: "('d, 'r) sections \<Rightarrow> 'd \<Rightarrow> 'r \<times> 'd" where
  "run_alone (Return r) = (\<lambda>d. (r, d))"
| "run_alone (Section g k) = (\<lambda>d. run_alone (k d) (g d))"

text \<open>Every step, from any state, satisfies \<open>Q\<close> of the states before and after and of the rest of the operation.\<close>

primrec all_steps :: "('d \<Rightarrow> 'd \<Rightarrow> ('d, 'r) sections \<Rightarrow> bool) \<Rightarrow> ('d, 'r) sections \<Rightarrow> bool" where
  "all_steps Q (Return r) \<longleftrightarrow> True"
| "all_steps Q (Section g k) \<longleftrightarrow> (\<forall>d. Q d (g d) (k d) \<and> all_steps Q (k d))"

text \<open>The operation is bound to make a step that satisfies \<open>P\<close>, whatever happens between its steps.\<close>

primrec bound_to :: "('d \<Rightarrow> 'd \<Rightarrow> bool) \<Rightarrow> ('d, 'r) sections \<Rightarrow> bool" where
  "bound_to P (Return r) \<longleftrightarrow> False"
| "bound_to P (Section g k) \<longleftrightarrow> (\<forall>d. P d (g d) \<or> bound_to P (k d))"

section \<open>Lemmas\<close>

lemma andthen_locked: "andthen (locked f) c = Section (\<lambda>d. snd (f d)) (\<lambda>d. c (fst (f d)))"
  by (simp add: locked_def)

lemma andthen_update: "andthen (update f) c = Section f (\<lambda>_. c ())"
  by (simp add: update_def)

lemma run_andthen: "run_alone (andthen a c) d = (case run_alone a d of (r, d') \<Rightarrow> run_alone (c r) d')"
  by (induction a arbitrary: d) auto

lemma run_locked [simp]: "run_alone (locked f) d = f d"
  by (simp add: locked_def)

lemma run_update [simp]: "run_alone (update f) d = ((), f d)"
  by (simp add: update_def)

text \<open>What is to be shown of a sequence: the first part's steps with the rest attached, and the second part.\<close>

lemma all_steps_andthen:
  assumes "all_steps (\<lambda>d d' k. Q d d' (andthen k c)) a" and "\<And>r. all_steps Q (c r)"
  shows "all_steps Q (andthen a c)"
  using assms by (induction a) auto

lemma all_steps_mono: "all_steps Q a \<Longrightarrow> (\<And>d d' k. Q d d' k \<Longrightarrow> Q' d d' k) \<Longrightarrow> all_steps Q' a"
  by (induction a) auto

lemma bound_andthen: "bound_to P a \<Longrightarrow> bound_to P (andthen a c)"
  by (induction a) auto

lemma bound_andthen_rest: "(\<And>r. bound_to P (c r)) \<Longrightarrow> bound_to P (andthen a c)"
  by (induction a) auto

lemma bound_to_mono: "bound_to P a \<Longrightarrow> (\<And>d d'. P d d' \<Longrightarrow> P' d d') \<Longrightarrow> bound_to P' a"
  by (induction a) auto

end
