(* ===== verification/Protocol.thy ===== *)
theory Protocol
  imports Prelude
begin

text \<open>
  The wire protocol shared by the firmware, the kernel driver and the userspace programs
  (\<open>include/safety_protocol.h\<close>; the three consumer copies are byte-identical): the frame
  header, the payload structures and their packed little-endian layout, CRC-32, and the
  functions that initialise, pack and validate a frame.  The \<open>packed_struct\<close> locale is the
  contract of a packed structure that is copied in and out of byte buffers with \<open>memcpy\<close>; it
  is interpreted for the header and for every payload structure.
\<close>

unbundle bit_operations_syntax

section \<open>Constants\<close>

definition SAFETY_PROTO_MAGIC :: u16 where [proto_const]: "SAFETY_PROTO_MAGIC = 0x5346"
definition SAFETY_PROTO_VERSION :: u8 where [proto_const]: "SAFETY_PROTO_VERSION = 0x01"
definition SAFETY_MAX_PAYLOAD :: nat where [proto_const]: "SAFETY_MAX_PAYLOAD = 256"
definition SAFETY_HEADER_SIZE :: nat where [proto_const]: "SAFETY_HEADER_SIZE = 16"
definition SAFETY_MAX_FRAME_SIZE :: nat where
  [proto_const]: "SAFETY_MAX_FRAME_SIZE = SAFETY_HEADER_SIZE + SAFETY_MAX_PAYLOAD"

text \<open>\<open>enum safety_frame_type\<close>: values of the header's type byte.\<close>

definition SAFETY_FRAME_HEARTBEAT :: u8 where [proto_const]: "SAFETY_FRAME_HEARTBEAT = 0x01"
definition SAFETY_FRAME_TELEMETRY :: u8 where [proto_const]: "SAFETY_FRAME_TELEMETRY = 0x02"
definition SAFETY_FRAME_FAULT_EVENT :: u8 where [proto_const]: "SAFETY_FRAME_FAULT_EVENT = 0x03"
definition SAFETY_FRAME_COMMAND :: u8 where [proto_const]: "SAFETY_FRAME_COMMAND = 0x04"
definition SAFETY_FRAME_ACK :: u8 where [proto_const]: "SAFETY_FRAME_ACK = 0x05"
definition SAFETY_FRAME_NACK :: u8 where [proto_const]: "SAFETY_FRAME_NACK = 0x06"
definition SAFETY_FRAME_RECOVERY_REPORT :: u8 where
  [proto_const]: "SAFETY_FRAME_RECOVERY_REPORT = 0x07"

text \<open>\<open>enum safety_command_type\<close>.\<close>

definition SAFETY_CMD_GET_STATUS :: u8 where [proto_const]: "SAFETY_CMD_GET_STATUS = 0x01"
definition SAFETY_CMD_INJECT_FAULT :: u8 where [proto_const]: "SAFETY_CMD_INJECT_FAULT = 0x02"
definition SAFETY_CMD_REQUEST_RECOVERY :: u8 where
  [proto_const]: "SAFETY_CMD_REQUEST_RECOVERY = 0x03"
definition SAFETY_CMD_ENTER_SAFE_MODE :: u8 where
  [proto_const]: "SAFETY_CMD_ENTER_SAFE_MODE = 0x04"
definition SAFETY_CMD_RESET_FAULT_STATE :: u8 where
  [proto_const]: "SAFETY_CMD_RESET_FAULT_STATE = 0x05"

text \<open>\<open>enum safety_fault_type\<close>.\<close>

definition SAFETY_FAULT_NONE :: u8 where [proto_const]: "SAFETY_FAULT_NONE = 0x00"
definition SAFETY_FAULT_TASK_HANG :: u8 where [proto_const]: "SAFETY_FAULT_TASK_HANG = 0x01"
definition SAFETY_FAULT_CHECKSUM_ERROR :: u8 where
  [proto_const]: "SAFETY_FAULT_CHECKSUM_ERROR = 0x02"
definition SAFETY_FAULT_CRITICAL :: u8 where [proto_const]: "SAFETY_FAULT_CRITICAL = 0x03"

text \<open>\<open>enum safety_nack_reason\<close>.\<close>

definition SAFETY_NACK_CHECKSUM :: u8 where [proto_const]: "SAFETY_NACK_CHECKSUM = 0x01"
definition SAFETY_NACK_VERSION :: u8 where [proto_const]: "SAFETY_NACK_VERSION = 0x02"
definition SAFETY_NACK_SEQUENCE :: u8 where [proto_const]: "SAFETY_NACK_SEQUENCE = 0x03"
definition SAFETY_NACK_UNKNOWN_TYPE :: u8 where [proto_const]: "SAFETY_NACK_UNKNOWN_TYPE = 0x04"
definition SAFETY_NACK_PAYLOAD :: u8 where [proto_const]: "SAFETY_NACK_PAYLOAD = 0x05"

section \<open>Structures and their packed layout\<close>

record SafetyFrameHeader =
  magic :: u16
  version :: u8
  frame_type :: u8
  sequence_id :: u16
  payload_length :: u16
  timestamp_ms :: u32
  checksum :: u32

definition header_bytes :: "SafetyFrameHeader \<Rightarrow> bytes" where
  "header_bytes h = le16 (magic h) @ [version h, frame_type h] @ le16 (sequence_id h)
     @ le16 (payload_length h) @ le32 (timestamp_ms h) @ le32 (checksum h)"

definition header_of_bytes :: "bytes \<Rightarrow> SafetyFrameHeader" where
  "header_of_bytes bs = \<lparr>magic = get16 bs 0, version = bs ! 2, frame_type = bs ! 3,
     sequence_id = get16 bs 4, payload_length = get16 bs 6, timestamp_ms = get32 bs 8,
     checksum = get32 bs 12\<rparr>"

record SafetyHeartbeatPayload =
  uptime_ms :: u32
  beat_seq :: u32

definition heartbeat_bytes :: "SafetyHeartbeatPayload \<Rightarrow> bytes" where
  "heartbeat_bytes p = le32 (uptime_ms p) @ le32 (beat_seq p)"

definition heartbeat_of_bytes :: "bytes \<Rightarrow> SafetyHeartbeatPayload" where
  "heartbeat_of_bytes bs = \<lparr>uptime_ms = get32 bs 0, beat_seq = get32 bs 4\<rparr>"

record SafetyTelemetryPayload =
  temperature_c_x10 :: u16
  voltage_mv :: u16
  cpu_load_pct :: u16
  tm_fault_count :: u16

definition telemetry_bytes :: "SafetyTelemetryPayload \<Rightarrow> bytes" where
  "telemetry_bytes p = le16 (temperature_c_x10 p) @ le16 (voltage_mv p)
     @ le16 (cpu_load_pct p) @ le16 (tm_fault_count p)"

definition telemetry_of_bytes :: "bytes \<Rightarrow> SafetyTelemetryPayload" where
  "telemetry_of_bytes bs = \<lparr>temperature_c_x10 = get16 bs 0, voltage_mv = get16 bs 2,
     cpu_load_pct = get16 bs 4, tm_fault_count = get16 bs 6\<rparr>"

record SafetyFaultEventPayload =
  fe_fault_type :: u8
  severity :: u8
  detail_code :: u16
  fault_uptime_ms :: u32

definition fault_event_bytes :: "SafetyFaultEventPayload \<Rightarrow> bytes" where
  "fault_event_bytes p = [fe_fault_type p, severity p] @ le16 (detail_code p)
     @ le32 (fault_uptime_ms p)"

definition fault_event_of_bytes :: "bytes \<Rightarrow> SafetyFaultEventPayload" where
  "fault_event_of_bytes bs = \<lparr>fe_fault_type = bs ! 0, severity = bs ! 1,
     detail_code = get16 bs 2, fault_uptime_ms = get32 bs 4\<rparr>"

record SafetyCommandPayload =
  command :: u8
  arg8 :: u8
  arg16 :: u16
  arg32 :: u32

definition command_bytes :: "SafetyCommandPayload \<Rightarrow> bytes" where
  "command_bytes p = [command p, arg8 p] @ le16 (arg16 p) @ le32 (arg32 p)"

definition command_of_bytes :: "bytes \<Rightarrow> SafetyCommandPayload" where
  "command_of_bytes bs = \<lparr>command = bs ! 0, arg8 = bs ! 1, arg16 = get16 bs 2,
     arg32 = get32 bs 4\<rparr>"

record SafetyAckPayload =
  acked_sequence_id :: u16
  ack_reserved :: u16

definition ack_bytes :: "SafetyAckPayload \<Rightarrow> bytes" where
  "ack_bytes p = le16 (acked_sequence_id p) @ le16 (ack_reserved p)"

definition ack_of_bytes :: "bytes \<Rightarrow> SafetyAckPayload" where
  "ack_of_bytes bs = \<lparr>acked_sequence_id = get16 bs 0, ack_reserved = get16 bs 2\<rparr>"

record SafetyNackPayload =
  nacked_sequence_id :: u16
  reason :: u8
  nack_reserved :: u8

definition nack_bytes :: "SafetyNackPayload \<Rightarrow> bytes" where
  "nack_bytes p = le16 (nacked_sequence_id p) @ [reason p, nack_reserved p]"

definition nack_of_bytes :: "bytes \<Rightarrow> SafetyNackPayload" where
  "nack_of_bytes bs = \<lparr>nacked_sequence_id = get16 bs 0, reason = bs ! 2,
     nack_reserved = bs ! 3\<rparr>"

record SafetyRecoveryReportPayload =
  recovered :: u8
  new_state :: u8
  rr_reserved :: u16
  recovery_uptime_ms :: u32

definition recovery_report_bytes :: "SafetyRecoveryReportPayload \<Rightarrow> bytes" where
  "recovery_report_bytes p = [recovered p, new_state p] @ le16 (rr_reserved p)
     @ le32 (recovery_uptime_ms p)"

definition recovery_report_of_bytes :: "bytes \<Rightarrow> SafetyRecoveryReportPayload" where
  "recovery_report_of_bytes bs = \<lparr>recovered = bs ! 0, new_state = bs ! 1,
     rr_reserved = get16 bs 2, recovery_uptime_ms = get32 bs 4\<rparr>"

section \<open>CRC-32\<close>

text \<open>One iteration of the inner loop, the eight iterations for one byte, and the loop over a
  buffer.  \<open>NOT (crc AND 1) + 1\<close> is the source's branch-free mask.\<close>

definition crc_bit :: "u32 \<Rightarrow> u32" where
  "crc_bit crc = drop_bit 1 crc XOR (0xEDB88320 AND (NOT (crc AND 1) + 1))"

fun crc_bits :: "nat \<Rightarrow> u32 \<Rightarrow> u32" where
  "crc_bits 0 crc = crc"
| "crc_bits (Suc k) crc = crc_bits k (crc_bit crc)"

fun safety_crc32_step :: "u32 \<Rightarrow> bytes \<Rightarrow> u32" where
  "safety_crc32_step crc [] = crc"
| "safety_crc32_step crc (b # bs) = safety_crc32_step (crc_bits 8 (crc XOR ucast b)) bs"

definition safety_crc32 :: "bytes \<Rightarrow> u32" where
  "safety_crc32 bs = safety_crc32_step 0xFFFFFFFF bs XOR 0xFFFFFFFF"

text \<open>A \<open>const void *payload\<close> is \<open>None\<close> for the null pointer and otherwise the bytes from the
  pointer on; the callee reads \<open>payload_len\<close> of them.\<close>

definition safety_frame_compute_checksum :: "SafetyFrameHeader \<Rightarrow> bytes option \<Rightarrow> u16 \<Rightarrow> u32" where
  "safety_frame_compute_checksum hdr payload payload_len =
     (let tmp = hdr\<lparr>checksum := 0\<rparr>;
          crc = safety_crc32_step 0xFFFFFFFF (header_bytes tmp);
          crc = (case payload of
                   Some p \<Rightarrow> if payload_len \<noteq> 0
                             then safety_crc32_step crc (take (unat payload_len) p) else crc
                 | None \<Rightarrow> crc)
      in crc XOR 0xFFFFFFFF)"

section \<open>Building and checking frames\<close>

definition safety_frame_init :: "u8 \<Rightarrow> u16 \<Rightarrow> u16 \<Rightarrow> u32 \<Rightarrow> SafetyFrameHeader" where
  "safety_frame_init ty seq payload_len ts_ms =
     \<lparr>magic = SAFETY_PROTO_MAGIC, version = SAFETY_PROTO_VERSION, frame_type = ty,
      sequence_id = seq, payload_length = payload_len, timestamp_ms = ts_ms, checksum = 0\<rparr>"

text \<open>\<open>safety_frame_pack\<close> returns the total length (0 for a payload that is too long), the
  header with its checksum filled in, and the contents of the output buffer, which keeps its
  old bytes where nothing is copied.\<close>

definition safety_frame_pack ::
    "bytes \<Rightarrow> SafetyFrameHeader \<Rightarrow> bytes option \<Rightarrow> nat \<times> SafetyFrameHeader \<times> bytes" where
  "safety_frame_pack out hdr payload =
     (if SAFETY_MAX_PAYLOAD < unat (payload_length hdr) then (0, hdr, out)
      else
        let hdr = hdr\<lparr>checksum := safety_frame_compute_checksum hdr payload (payload_length hdr)\<rparr>;
            out = memcpy_at out 0 (header_bytes hdr);
            out = (case payload of
                     Some p \<Rightarrow> if payload_length hdr \<noteq> 0
                               then memcpy_at out SAFETY_HEADER_SIZE
                                      (take (unat (payload_length hdr)) p)
                               else out
                   | None \<Rightarrow> out)
        in (SAFETY_HEADER_SIZE + unat (payload_length hdr), hdr, out))"

datatype safety_validate_result = SAFETY_VALIDATE_OK | SAFETY_VALIDATE_BAD_MAGIC
  | SAFETY_VALIDATE_BAD_VERSION | SAFETY_VALIDATE_BAD_LENGTH | SAFETY_VALIDATE_BAD_CHECKSUM

definition safety_frame_validate :: "bytes \<Rightarrow> safety_validate_result" where
  "safety_frame_validate buf =
     (if length buf < SAFETY_HEADER_SIZE then SAFETY_VALIDATE_BAD_LENGTH
      else
        let hdr = header_of_bytes (take SAFETY_HEADER_SIZE buf) in
        if magic hdr \<noteq> SAFETY_PROTO_MAGIC then SAFETY_VALIDATE_BAD_MAGIC
        else if version hdr \<noteq> SAFETY_PROTO_VERSION then SAFETY_VALIDATE_BAD_VERSION
        else if SAFETY_MAX_PAYLOAD < unat (payload_length hdr) then SAFETY_VALIDATE_BAD_LENGTH
        else if length buf < SAFETY_HEADER_SIZE + unat (payload_length hdr)
          then SAFETY_VALIDATE_BAD_LENGTH
        else if safety_frame_compute_checksum hdr (Some (drop SAFETY_HEADER_SIZE buf))
                  (payload_length hdr) \<noteq> checksum hdr
          then SAFETY_VALIDATE_BAD_CHECKSUM
        else SAFETY_VALIDATE_OK)"

section \<open>The abstract frame\<close>

text \<open>What a frame on the wire is: the header with the CRC-32 of the zeroed header and the payload
  in its checksum field, followed by the payload.\<close>

definition wire_frame :: "SafetyFrameHeader \<Rightarrow> bytes \<Rightarrow> bytes" where
  "wire_frame h p =
     header_bytes (h\<lparr>checksum := safety_crc32 (header_bytes (h\<lparr>checksum := 0\<rparr>) @ p)\<rparr>) @ p"

definition header_ok :: "SafetyFrameHeader \<Rightarrow> bytes \<Rightarrow> bool" where
  "header_ok h p \<longleftrightarrow> magic h = SAFETY_PROTO_MAGIC \<and> version h = SAFETY_PROTO_VERSION
     \<and> unat (payload_length h) = length p \<and> length p \<le> SAFETY_MAX_PAYLOAD"

section \<open>Packed structures\<close>

locale packed_struct =
  fixes enc :: "'a \<Rightarrow> bytes" and dec :: "bytes \<Rightarrow> 'a" and sz :: nat
  assumes length_enc [simp]: "length (enc x) = sz"
    and dec_enc_append [simp]: "dec (enc x @ rest) = x"
    and enc_dec: "sz \<le> length bs \<Longrightarrow> enc (dec bs) = take sz bs"
begin

lemma dec_enc [simp]: "dec (enc x) = x"
  using dec_enc_append [of x "[]"] by simp

lemma enc_inj: "enc x = enc y \<Longrightarrow> x = y"
  by (metis dec_enc)

lemma dec_take: "sz \<le> length bs \<Longrightarrow> dec (take sz bs) = dec bs"
  by (metis dec_enc enc_dec)

lemma enc_dec_exact: "length bs = sz \<Longrightarrow> enc (dec bs) = bs"
  by (simp add: enc_dec)

lemma dec_eq_iff: "length bs = sz \<Longrightarrow> dec bs = x \<longleftrightarrow> bs = enc x"
  by (metis dec_enc enc_dec_exact)

end

lemmas layout_defs = le16_def le32_def get16_def get32_def join16 join32

interpretation hdr: packed_struct header_bytes header_of_bytes 16
proof unfold_locales
  fix x rest show "header_of_bytes (header_bytes x @ rest) = x"
    by (simp add: header_of_bytes_def header_bytes_def layout_defs)
  fix bs :: bytes assume "16 \<le> length bs"
  then show "header_bytes (header_of_bytes bs) = take 16 bs"
    by (simp add: header_of_bytes_def header_bytes_def le16_get16 le32_get32 take_unfold_16)
qed (simp add: header_bytes_def)

interpretation hb: packed_struct heartbeat_bytes heartbeat_of_bytes 8
proof unfold_locales
  fix x rest show "heartbeat_of_bytes (heartbeat_bytes x @ rest) = x"
    by (simp add: heartbeat_of_bytes_def heartbeat_bytes_def layout_defs)
  fix bs :: bytes assume "8 \<le> length bs"
  then show "heartbeat_bytes (heartbeat_of_bytes bs) = take 8 bs"
    by (simp only: take_unfold_8) (simp add: heartbeat_of_bytes_def heartbeat_bytes_def le16_get16 le32_get32 numeral_eq_Suc)
qed (simp add: heartbeat_bytes_def)

interpretation tm: packed_struct telemetry_bytes telemetry_of_bytes 8
proof unfold_locales
  fix x rest show "telemetry_of_bytes (telemetry_bytes x @ rest) = x"
    by (simp add: telemetry_of_bytes_def telemetry_bytes_def layout_defs)
  fix bs :: bytes assume "8 \<le> length bs"
  then show "telemetry_bytes (telemetry_of_bytes bs) = take 8 bs"
    by (simp only: take_unfold_8) (simp add: telemetry_of_bytes_def telemetry_bytes_def le16_get16 numeral_eq_Suc)
qed (simp add: telemetry_bytes_def)

interpretation fe: packed_struct fault_event_bytes fault_event_of_bytes 8
proof unfold_locales
  fix x rest show "fault_event_of_bytes (fault_event_bytes x @ rest) = x"
    by (simp add: fault_event_of_bytes_def fault_event_bytes_def layout_defs)
  fix bs :: bytes assume "8 \<le> length bs"
  then show "fault_event_bytes (fault_event_of_bytes bs) = take 8 bs"
    by (simp only: take_unfold_8) (simp add: fault_event_of_bytes_def fault_event_bytes_def le16_get16 le32_get32 numeral_eq_Suc)
qed (simp add: fault_event_bytes_def)

interpretation cmd: packed_struct command_bytes command_of_bytes 8
proof unfold_locales
  fix x rest show "command_of_bytes (command_bytes x @ rest) = x"
    by (simp add: command_of_bytes_def command_bytes_def layout_defs)
  fix bs :: bytes assume "8 \<le> length bs"
  then show "command_bytes (command_of_bytes bs) = take 8 bs"
    by (simp only: take_unfold_8) (simp add: command_of_bytes_def command_bytes_def le16_get16 le32_get32 numeral_eq_Suc)
qed (simp add: command_bytes_def)

interpretation ack: packed_struct ack_bytes ack_of_bytes 4
proof unfold_locales
  fix x rest show "ack_of_bytes (ack_bytes x @ rest) = x"
    by (simp add: ack_of_bytes_def ack_bytes_def layout_defs)
  fix bs :: bytes assume "4 \<le> length bs"
  then show "ack_bytes (ack_of_bytes bs) = take 4 bs"
    by (simp only: take_unfold_4) (simp add: ack_of_bytes_def ack_bytes_def le16_get16 le32_get32 numeral_eq_Suc)
qed (simp add: ack_bytes_def)

interpretation nack: packed_struct nack_bytes nack_of_bytes 4
proof unfold_locales
  fix x rest show "nack_of_bytes (nack_bytes x @ rest) = x"
    by (simp add: nack_of_bytes_def nack_bytes_def layout_defs)
  fix bs :: bytes assume "4 \<le> length bs"
  then show "nack_bytes (nack_of_bytes bs) = take 4 bs"
    by (simp only: take_unfold_4) (simp add: nack_of_bytes_def nack_bytes_def le16_get16 le32_get32 numeral_eq_Suc)
qed (simp add: nack_bytes_def)

interpretation rr: packed_struct recovery_report_bytes recovery_report_of_bytes 8
proof unfold_locales
  fix x rest show "recovery_report_of_bytes (recovery_report_bytes x @ rest) = x"
    by (simp add: recovery_report_of_bytes_def recovery_report_bytes_def layout_defs)
  fix bs :: bytes assume "8 \<le> length bs"
  then show "recovery_report_bytes (recovery_report_of_bytes bs) = take 8 bs"
    by (simp only: take_unfold_8) (simp add: recovery_report_of_bytes_def recovery_report_bytes_def le16_get16 le32_get32 numeral_eq_Suc)
qed (simp add: recovery_report_bytes_def)

section \<open>Evaluation of the checksum\<close>

lemma crc_bit_alt [crc_eval]:
  "crc_bit crc = (if bit crc 0 then drop_bit 1 crc XOR 0xEDB88320 else drop_bit 1 crc)"
  unfolding crc_bit_def by (auto simp: and_one_eq mod_2_eq_odd bit_0)

lemma crc_bits_8 [crc_eval]:
  "crc_bits 8 c = crc_bit (crc_bit (crc_bit (crc_bit (crc_bit (crc_bit (crc_bit (crc_bit c)))))))"
  by (simp add: eval_nat_numeral)

lemma crc_step_append:
  "safety_crc32_step c (as @ bs) = safety_crc32_step (safety_crc32_step c as) bs"
  by (induction as arbitrary: c) simp_all

lemma compute_checksum_crc32:
  "safety_frame_compute_checksum h (Some p) n =
     safety_crc32 (header_bytes (h\<lparr>checksum := 0\<rparr>) @ take (unat n) p)"
  by (simp add: safety_frame_compute_checksum_def safety_crc32_def crc_step_append Let_def)

lemma compute_checksum_None:
  "safety_frame_compute_checksum h None n = safety_crc32 (header_bytes (h\<lparr>checksum := 0\<rparr>))"
  by (simp add: safety_frame_compute_checksum_def safety_crc32_def)

lemma compute_checksum_upd [simp]:
  "safety_frame_compute_checksum (h\<lparr>checksum := c\<rparr>) p n = safety_frame_compute_checksum h p n"
  by (simp add: safety_frame_compute_checksum_def)

section \<open>Frames: packing and validation\<close>

lemma length_wire_frame [simp]: "length (wire_frame h p) = 16 + length p"
  by (simp add: wire_frame_def)

lemma wire_frame_not_Nil [simp]: "wire_frame h p \<noteq> []"
  using length_wire_frame [of h p] by (metis add_is_0 list.size(3) zero_neq_numeral)

lemma header_of_wire_frame [simp]:
  "header_of_bytes (wire_frame h p @ rest) =
     h\<lparr>checksum := safety_crc32 (header_bytes (h\<lparr>checksum := 0\<rparr>) @ p)\<rparr>"
  by (simp add: wire_frame_def)

lemma header_of_wire_frame_Nil [simp]:
  "header_of_bytes (wire_frame h p) =
     h\<lparr>checksum := safety_crc32 (header_bytes (h\<lparr>checksum := 0\<rparr>) @ p)\<rparr>"
  by (simp add: wire_frame_def)

lemma drop_16_wire_frame [simp]: "drop 16 (wire_frame h p) = p"
  by (simp add: wire_frame_def)

lemma validate_wire_frame_append:
  "header_ok h p \<Longrightarrow> safety_frame_validate (wire_frame h p @ rest) = SAFETY_VALIDATE_OK"
  using hdr.dec_take [of "wire_frame h p @ rest"] append_eq_conv_conj [of p rest "p @ rest"]
  by (simp add: safety_frame_validate_def header_ok_def compute_checksum_crc32
      SAFETY_HEADER_SIZE_def Let_def del: take_append)

lemma validate_wire_frame [simp]:
  "header_ok h p \<Longrightarrow> safety_frame_validate (wire_frame h p) = SAFETY_VALIDATE_OK"
  using validate_wire_frame_append [of h p "[]"] by simp

lemma validate_OK_D:
  assumes "safety_frame_validate buf = SAFETY_VALIDATE_OK"
  defines "h \<equiv> header_of_bytes buf"
  defines "n \<equiv> unat (payload_length h)"
  shows "16 + n \<le> length buf" and "header_ok h (take n (drop 16 buf))"
    and "checksum h = safety_crc32 (header_bytes (h\<lparr>checksum := 0\<rparr>) @ take n (drop 16 buf))"
    and "buf = wire_frame h (take n (drop 16 buf)) @ drop (16 + n) buf"
proof -
  have len: "16 \<le> length buf"
    using assms(1) by (auto simp: safety_frame_validate_def SAFETY_HEADER_SIZE_def split: if_splits)
  have h: "header_of_bytes (take 16 buf) = h"
    using len by (simp add: h_def hdr.dec_take)
  show *: "16 + n \<le> length buf" "header_ok h (take n (drop 16 buf))"
    "checksum h = safety_crc32 (header_bytes (h\<lparr>checksum := 0\<rparr>) @ take n (drop 16 buf))"
    using assms(1) h
    by (auto simp: safety_frame_validate_def SAFETY_HEADER_SIZE_def header_ok_def n_def
        compute_checksum_crc32 Let_def split: if_splits)
  have "header_bytes h = take 16 buf" using len by (simp add: h_def hdr.enc_dec)
  moreover have "h\<lparr>checksum := checksum h\<rparr> = h" by simp
  ultimately show "buf = wire_frame h (take n (drop 16 buf)) @ drop (16 + n) buf"
    using split_at [of buf 16 n] unfolding wire_frame_def *(3)[symmetric] by simp
qed

lemma validate_cases:
  assumes "16 \<le> length buf"
  defines "h \<equiv> header_of_bytes buf"
  shows "safety_frame_validate buf =
    (if magic h \<noteq> SAFETY_PROTO_MAGIC then SAFETY_VALIDATE_BAD_MAGIC
     else if version h \<noteq> SAFETY_PROTO_VERSION then SAFETY_VALIDATE_BAD_VERSION
     else if 256 < unat (payload_length h) \<or> length buf < 16 + unat (payload_length h)
       then SAFETY_VALIDATE_BAD_LENGTH
     else if checksum h \<noteq> safety_crc32 (header_bytes (h\<lparr>checksum := 0\<rparr>)
               @ take (unat (payload_length h)) (drop 16 buf))
       then SAFETY_VALIDATE_BAD_CHECKSUM
     else SAFETY_VALIDATE_OK)"
  using assms(1)
  by (auto simp: safety_frame_validate_def h_def hdr.dec_take SAFETY_HEADER_SIZE_def
      SAFETY_MAX_PAYLOAD_def compute_checksum_crc32 Let_def)

lemma pack_wire_frame:
  assumes "SAFETY_MAX_FRAME_SIZE \<le> length out" and "unat (payload_length h) = length p"
    and "length p \<le> SAFETY_MAX_PAYLOAD"
  obtains out' where "safety_frame_pack out h (Some p) =
      (16 + length p,
       h\<lparr>checksum := safety_crc32 (header_bytes (h\<lparr>checksum := 0\<rparr>) @ p)\<rparr>, out')"
    and "length out' = length out" and "take (16 + length p) out' = wire_frame h p"
    and "drop (16 + length p) out' = drop (16 + length p) out"
proof
  let ?h = "h\<lparr>checksum := safety_crc32 (header_bytes (h\<lparr>checksum := 0\<rparr>) @ p)\<rparr>"
  let ?o = "header_bytes ?h @ p @ drop (16 + length p) out"
  show "safety_frame_pack out h (Some p) = (16 + length p, ?h, ?o)"
    using assms by (auto simp: safety_frame_pack_def proto_const compute_checksum_crc32
        memcpy_at_def Let_def unat_eq_0 add.commute)
  show "length ?o = length out" using assms by (simp add: proto_const)
qed (simp_all add: wire_frame_def)

lemma frame_init_fields [simp]:
  "magic (safety_frame_init ty seq n ts) = SAFETY_PROTO_MAGIC"
  "version (safety_frame_init ty seq n ts) = SAFETY_PROTO_VERSION"
  "frame_type (safety_frame_init ty seq n ts) = ty"
  "sequence_id (safety_frame_init ty seq n ts) = seq"
  "payload_length (safety_frame_init ty seq n ts) = n"
  "timestamp_ms (safety_frame_init ty seq n ts) = ts"
  by (simp_all add: safety_frame_init_def)

lemma unat_length_payload:
  "length p \<le> SAFETY_MAX_PAYLOAD \<Longrightarrow> unat (of_nat (length p) :: u16) = length p"
  by (simp add: SAFETY_MAX_PAYLOAD_def unat_of_nat)

lemma header_ok_init [simp]:
  "length p \<le> SAFETY_MAX_PAYLOAD \<Longrightarrow>
     header_ok (safety_frame_init ty seq (of_nat (length p)) ts) p"
  by (simp add: header_ok_def unat_length_payload)

section \<open>Properties\<close>

text \<open>C5 (packing round trip).  Packing a payload of at most 256 bytes into a buffer of maximal
  frame size returns the frame's length, leaves the bytes behind the frame alone, and the bytes
  of the frame validate, decode to the header that was packed (with its checksum) and carry the
  payload.\<close>

theorem pack_validate_roundtrip:
  assumes "SAFETY_MAX_FRAME_SIZE \<le> length out" and "length p \<le> SAFETY_MAX_PAYLOAD"
    and "safety_frame_pack out (safety_frame_init ty seq (of_nat (length p)) ts) (Some p)
           = (n, hdr, out')"
  shows "n = SAFETY_HEADER_SIZE + length p \<and> length out' = length out
    \<and> drop n out' = drop n out
    \<and> safety_frame_validate (take n out') = SAFETY_VALIDATE_OK
    \<and> header_of_bytes (take n out') = hdr
    \<and> frame_type hdr = ty \<and> sequence_id hdr = seq \<and> timestamp_ms hdr = ts
    \<and> drop SAFETY_HEADER_SIZE (take n out') = p"
proof -
  let ?h = "safety_frame_init ty seq (of_nat (length p)) ts"
  have "unat (payload_length ?h) = length p" using assms(2) by (simp add: unat_length_payload)
  from pack_wire_frame [OF assms(1) this assms(2)] obtain o' where "safety_frame_pack out ?h (Some p) =
      (16 + length p, ?h\<lparr>checksum := safety_crc32 (header_bytes (?h\<lparr>checksum := 0\<rparr>) @ p)\<rparr>, o')"
    and "length o' = length out" and "take (16 + length p) o' = wire_frame ?h p"
    and "drop (16 + length p) o' = drop (16 + length p) out"
    by blast
  with assms(2,3) show ?thesis by (auto simp: SAFETY_HEADER_SIZE_def)
qed

theorem pack_validate_roundtrip_witness:
  "\<exists>n hdr out'. safety_frame_pack (replicate 272 0)
       (safety_frame_init SAFETY_FRAME_HEARTBEAT 7 (of_nat (length [1, 2, 3, 4, 5, 6, 7, 8 :: u8])) 99)
       (Some [1, 2, 3, 4, 5, 6, 7, 8]) = (n, hdr, out')
     \<and> n = 24 \<and> safety_frame_validate (take n out') = SAFETY_VALIDATE_OK"
proof -
  obtain n hdr out' where e: "safety_frame_pack (replicate 272 0)
       (safety_frame_init SAFETY_FRAME_HEARTBEAT 7 (of_nat (length [1, 2, 3, 4, 5, 6, 7, 8 :: u8])) 99)
       (Some [1, 2, 3, 4, 5, 6, 7, 8]) = (n, hdr, out')" by (metis prod_cases3)
  from pack_validate_roundtrip [OF _ _ e] e show ?thesis by (auto simp: proto_const)
qed

text \<open>C6 (validation accepts exactly the frames).  A buffer validates if and only if it starts with
  a well-formed frame: header with magic and version, a payload of at most 256 bytes of the
  announced length, and the CRC-32 of both in the checksum field.\<close>

theorem validate_OK_iff:
  "safety_frame_validate buf = SAFETY_VALIDATE_OK \<longleftrightarrow>
     (\<exists>h p rest. header_ok h p \<and> buf = wire_frame h p @ rest)"
  by (metis validate_OK_D(2,4) validate_wire_frame_append)

end
