(* ===== verification/Kfifo.thy ===== *)
theory Kfifo
  imports Protocol
begin

text \<open>
  The kernel's FIFO as the driver uses it.  The implementation (\<open>linux/kfifo.h\<close>) is not part of the
  repository, so the operations the driver calls are the fields of a record \<open>kfifo_ops\<close> that every
  driver operation takes as its argument, and what the driver relies on, the documented
  behaviour of a bounded first-in first-out buffer, is the locale \<open>kfifo\<close>.  The same interface
  serves the firmware's message queue.  \<open>bounded_list\<close> is a concrete FIFO that satisfies the laws.
\<close>

text \<open>\<open>kfifo_in\<close> and \<open>kfifo_out\<close> are called for one element: \<open>kfifo_in\<close> returns the number of elements
  copied, \<open>kfifo_out\<close> the elements copied out.\<close>

record ('a, 'q) kfifo_ops =
  kfifo_alloc :: "nat \<Rightarrow> 'q"
  kfifo_is_full :: "'q \<Rightarrow> bool"
  kfifo_is_empty :: "'q \<Rightarrow> bool"
  kfifo_in :: "'q \<Rightarrow> 'a \<Rightarrow> 'q \<times> nat"
  kfifo_out :: "'q \<Rightarrow> 'q \<times> 'a list"
  kfifo_len :: "'q \<Rightarrow> nat"
  kfifo_size :: "'q \<Rightarrow> nat"

locale kfifo =
  fixes K :: "('a, 'q) kfifo_ops" and elems :: "'q \<Rightarrow> 'a list" and wf :: "'q \<Rightarrow> bool"
  assumes wf_alloc: "2 \<le> n \<Longrightarrow> wf (kfifo_alloc K n)"
    and elems_alloc: "2 \<le> n \<Longrightarrow> elems (kfifo_alloc K n) = []"
    and size_alloc: "n = 2 ^ Suc i \<Longrightarrow> kfifo_size K (kfifo_alloc K n) = n"
    and len: "wf q \<Longrightarrow> kfifo_len K q = length (elems q)"
    and bound: "wf q \<Longrightarrow> length (elems q) \<le> kfifo_size K q"
    and is_full: "wf q \<Longrightarrow> kfifo_is_full K q \<longleftrightarrow> length (elems q) = kfifo_size K q"
    and is_empty: "wf q \<Longrightarrow> kfifo_is_empty K q \<longleftrightarrow> elems q = []"
    and put: "wf q \<Longrightarrow> length (elems q) < kfifo_size K q \<Longrightarrow>
        \<exists>q'. kfifo_in K q x = (q', 1) \<and> wf q' \<and> elems q' = elems q @ [x]
             \<and> kfifo_size K q' = kfifo_size K q"
    and get: "wf q \<Longrightarrow> elems q = x # xs \<Longrightarrow>
        \<exists>q'. kfifo_out K q = (q', [x]) \<and> wf q' \<and> elems q' = xs \<and> kfifo_size K q' = kfifo_size K q"
begin

lemma not_full: "wf q \<Longrightarrow> \<not> kfifo_is_full K q \<longleftrightarrow> length (elems q) < kfifo_size K q"
  using bound is_full by fastforce

lemma put_cases:
  assumes "wf q"
  obtains (full) "kfifo_is_full K q" "length (elems q) = kfifo_size K q"
  | (room) q' where "\<not> kfifo_is_full K q" "length (elems q) < kfifo_size K q"
      "kfifo_in K q x = (q', 1)" "wf q'"
      "elems q' = elems q @ [x]" "kfifo_size K q' = kfifo_size K q"
  using assms is_full not_full put by metis

lemma get_cases:
  assumes "wf q"
  obtains (empty) "kfifo_is_empty K q" "elems q = []"
  | (some) x xs q' where "\<not> kfifo_is_empty K q" "elems q = x # xs" "kfifo_out K q = (q', [x])"
      "wf q'" "elems q' = xs" "kfifo_size K q' = kfifo_size K q"
  using assms is_empty get by (metis list.exhaust)

end

text \<open>A bounded list: capacity and contents.\<close>

type_synonym 'a blist = "nat \<times> 'a list"

definition bounded_list :: "('a, 'a blist) kfifo_ops" where
  "bounded_list = \<lparr>
     kfifo_alloc = (\<lambda>n. (n, [])),
     kfifo_is_full = (\<lambda>(n, xs). length xs = n),
     kfifo_is_empty = (\<lambda>(n, xs). xs = []),
     kfifo_in = (\<lambda>(n, xs) x. if length xs < n then ((n, xs @ [x]), 1) else ((n, xs), 0)),
     kfifo_out = (\<lambda>(n, xs). case xs of [] \<Rightarrow> ((n, []), []) | x # xs \<Rightarrow> ((n, xs), [x])),
     kfifo_len = (\<lambda>(n, xs). length xs),
     kfifo_size = fst\<rparr>"

definition blist_wf :: "'a blist \<Rightarrow> bool" where
  "blist_wf q \<longleftrightarrow> length (snd q) \<le> fst q"

interpretation blist: kfifo bounded_list snd blist_wf
  by unfold_locales (auto simp: bounded_list_def blist_wf_def)

lemmas kfifo_bounded_list = blist.kfifo_axioms

end
