(* ===== verification/Driver_State.thy ===== *)
theory Driver_State
  imports Kfifo
begin

text \<open>
  The state of the kernel driver (\<open>linux/drivers/safety_copro/safety_copro.h\<close>) and the per-CPU
  statistics of \<open>safety_copro_percpu.c\<close>.  One device structure holds everything; the fields
  that are kernel objects without a value of their own (lock, wait queues, timer, work item,
  misc device, debugfs directory) do not appear, and the calls the driver makes on them are
  recorded, in order, in \<open>kcalls\<close>.  The 64-bit clock and the CPU a per-CPU access runs on are
  read from an environment, one value per access.
\<close>

section \<open>Definitions\<close>

text \<open>The tracepoints of \<open>safety_copro_trace.h\<close> with their recorded fields.\<close>

datatype trace_event =
    safety_frame_received u16 u8 u32
  | safety_frame_dropped u16 u8
  | safety_timeout_detected u32 u32
  | safety_recovery_queued u32
  | safety_poll_wakeup u32

datatype kcall = Trace trace_event | Wake_up_rx | Wake_up_tx | Hrtimer_init | Hrtimer_start u32
  | Hrtimer_cancel | Init_work | Schedule_work | Cancel_work_sync

record kenv =
  ktime_get_ns :: "nat \<Rightarrow> u64"
  this_cpu :: "nat \<Rightarrow> nat"

named_theorems dev_upd "driver helpers as updates of the device structure"

text \<open>Every CPU number the environment gives belongs to a possible CPU; the environment after \<open>k\<close> clock readings.\<close>

definition env_ok :: "kenv \<Rightarrow> nat \<Rightarrow> bool" where
  "env_ok e ncpu \<longleftrightarrow> (\<forall>i. this_cpu e i < ncpu)"

definition later :: "kenv \<Rightarrow> nat \<Rightarrow> kenv" where
  "later e k = e\<lparr>ktime_get_ns := (\<lambda>i. ktime_get_ns e (k + i))\<rparr>"

definition SAFETY_DEFAULT_HB_TIMEOUT_MS :: u32 where
  [proto_const]: "SAFETY_DEFAULT_HB_TIMEOUT_MS = 350"
definition SAFETY_DEFAULT_FIFO_DEPTH :: u32 where [proto_const]: "SAFETY_DEFAULT_FIFO_DEPTH = 64"
definition SAFETY_TIMELINE_DEPTH :: nat where [proto_const]: "SAFETY_TIMELINE_DEPTH = 64"

text \<open>A queue slot; only the \<open>len\<close> bytes that were copied in are kept, the rest of the array is
  never read.\<close>

record safety_fifo_slot =
  slot_len :: u16
  slot_data :: bytes

datatype safety_link_state = SAFETY_LINK_BOOTING | SAFETY_LINK_HB_OK | SAFETY_LINK_HB_TIMEOUT
  | SAFETY_LINK_RECOVERING

fun link_state_code :: "safety_link_state \<Rightarrow> nat" where
  "link_state_code SAFETY_LINK_BOOTING = 0"
| "link_state_code SAFETY_LINK_HB_OK = 1"
| "link_state_code SAFETY_LINK_HB_TIMEOUT = 2"
| "link_state_code SAFETY_LINK_RECOVERING = 3"

datatype safety_timeline_event = SAFETY_TL_NONE | SAFETY_TL_FRAME_RX | SAFETY_TL_FRAME_DROP
  | SAFETY_TL_HEARTBEAT | SAFETY_TL_TIMEOUT | SAFETY_TL_RECOVERY | SAFETY_TL_FAULT_INJECT

record safety_timeline_entry =
  ts_ns :: u64
  event :: safety_timeline_event
  tl_seq :: u16

record safety_copro_pcpu =
  rx_frames :: u64
  dropped :: u64
  pc_bytes :: u64

record 'q safety_copro_dev =
  rx_fifo :: 'q
  tx_fifo :: 'q
  fifo_depth :: u32
  fifo_high_watermark :: u32
  state :: safety_link_state
  heartbeat_count :: u32
  fault_count :: u32
  dropped_frame_count :: u32
  timeout_count :: u32
  retry_count :: u32
  protocol_error_count :: u32
  synth_seq :: u16
  hb_timeout_ms :: u32
  last_fault_type :: u8
  last_fault_detail :: u16
  last_fault_ts_ns :: u64
  last_proto_err :: safety_validate_result
  proto_err_magic :: u32
  proto_err_version :: u32
  proto_err_length :: u32
  proto_err_checksum :: u32
  timeline :: "safety_timeline_entry list"
  timeline_head :: nat
  timeline_filled :: nat
  pcpu :: "safety_copro_pcpu list"
  kcalls :: "kcall list"

definition kcall :: "kcall \<Rightarrow> 'q safety_copro_dev \<Rightarrow> 'q safety_copro_dev" where
  [dev_upd]: "kcall c dev = dev\<lparr>kcalls := kcalls dev @ [c]\<rparr>"

text \<open>The structure as \<open>kzalloc\<close> returns it: every field zero.  The queues, not yet allocated, are
  the argument.\<close>

definition tl_zero :: safety_timeline_entry where
  "tl_zero = \<lparr>ts_ns = 0, event = SAFETY_TL_NONE, tl_seq = 0\<rparr>"

definition kzalloc_dev :: "'q \<Rightarrow> 'q safety_copro_dev" where
  "kzalloc_dev q = \<lparr>rx_fifo = q, tx_fifo = q, fifo_depth = 0, fifo_high_watermark = 0,
     state = SAFETY_LINK_BOOTING, heartbeat_count = 0, fault_count = 0, dropped_frame_count = 0,
     timeout_count = 0, retry_count = 0, protocol_error_count = 0, synth_seq = 0, hb_timeout_ms = 0,
     last_fault_type = 0, last_fault_detail = 0, last_fault_ts_ns = 0,
     last_proto_err = SAFETY_VALIDATE_OK, proto_err_magic = 0, proto_err_version = 0,
     proto_err_length = 0, proto_err_checksum = 0,
     timeline = replicate SAFETY_TIMELINE_DEPTH tl_zero, timeline_head = 0, timeline_filled = 0,
     pcpu = [], kcalls = []\<rparr>"

text \<open>The structure after a successful initialisation, with its queues, its depth, the number of
  CPUs and the watchdog period.\<close>

definition ready_dev :: "'q \<Rightarrow> 'q \<Rightarrow> u32 \<Rightarrow> nat \<Rightarrow> u32 \<Rightarrow> 'q safety_copro_dev" where
  "ready_dev rxq txq depth ncpu ms = (kzalloc_dev rxq)\<lparr>tx_fifo := txq, fifo_depth := depth,
     hb_timeout_ms := ms, pcpu := replicate ncpu \<lparr>rx_frames = 0, dropped = 0, pc_bytes = 0\<rparr>\<rparr>"

text \<open>\<open>safety_now_ms\<close> of \<open>safety_copro_main.c\<close>: monotonic milliseconds truncated to 32 bits.\<close>

definition safety_now_ms :: "u64 \<Rightarrow> u32" where
  "safety_now_ms ns = ucast (ns div 1000000)"

subsection \<open>Per-CPU statistics\<close>

definition pcpu_zero :: safety_copro_pcpu where
  "pcpu_zero = \<lparr>rx_frames = 0, dropped = 0, pc_bytes = 0\<rparr>"

text \<open>\<open>safety_percpu_init\<close>: \<open>alloc_percpu\<close> may fail.\<close>

definition safety_percpu_init ::
    "nat \<Rightarrow> bool \<Rightarrow> 'q safety_copro_dev \<Rightarrow> unit result \<times> 'q safety_copro_dev" where
  "safety_percpu_init ncpu alloc_ok dev =
     (if \<not> alloc_ok then (Inl ENOMEM, dev)
      else (Inr (), dev\<lparr>pcpu := replicate ncpu pcpu_zero\<rparr>))"

definition safety_percpu_destroy :: "'q safety_copro_dev \<Rightarrow> 'q safety_copro_dev" where
  "safety_percpu_destroy dev = dev\<lparr>pcpu := []\<rparr>"

definition pcpu_upd ::
    "nat \<Rightarrow> (safety_copro_pcpu \<Rightarrow> safety_copro_pcpu) \<Rightarrow> 'q safety_copro_dev \<Rightarrow> 'q safety_copro_dev" where
  [dev_upd]: "pcpu_upd c f dev = dev\<lparr>pcpu := (pcpu dev)[c := f (pcpu dev ! c)]\<rparr>"

definition safety_percpu_inc_rx :: "kenv \<Rightarrow> u32 \<Rightarrow> 'q safety_copro_dev \<Rightarrow> 'q safety_copro_dev" where
  [dev_upd]: "safety_percpu_inc_rx e n dev =
     (let dev = pcpu_upd (this_cpu e 0) (\<lambda>p. p\<lparr>rx_frames := rx_frames p + 1\<rparr>) dev
      in pcpu_upd (this_cpu e 1) (\<lambda>p. p\<lparr>pc_bytes := pc_bytes p + ucast n\<rparr>) dev)"

definition safety_percpu_inc_dropped :: "kenv \<Rightarrow> 'q safety_copro_dev \<Rightarrow> 'q safety_copro_dev" where
  [dev_upd]: "safety_percpu_inc_dropped e dev =
     pcpu_upd (this_cpu e 2) (\<lambda>p. p\<lparr>dropped := dropped p + 1\<rparr>) dev"

definition safety_percpu_reset :: "'q safety_copro_dev \<Rightarrow> 'q safety_copro_dev" where
  [dev_upd]: "safety_percpu_reset dev = dev\<lparr>pcpu := map (\<lambda>_. pcpu_zero) (pcpu dev)\<rparr>"

text \<open>\<open>safety_percpu_sum\<close> accumulates over all possible CPUs.\<close>

fun percpu_sum_loop :: "safety_copro_pcpu \<Rightarrow> safety_copro_pcpu list \<Rightarrow> safety_copro_pcpu" where
  "percpu_sum_loop out [] = out"
| "percpu_sum_loop out (p # ps) = percpu_sum_loop
     \<lparr>rx_frames = rx_frames out + rx_frames p, dropped = dropped out + dropped p,
      pc_bytes = pc_bytes out + pc_bytes p\<rparr> ps"

definition safety_percpu_sum :: "'q safety_copro_dev \<Rightarrow> safety_copro_pcpu" where
  "safety_percpu_sum dev = percpu_sum_loop pcpu_zero (pcpu dev)"

section \<open>Lemmas\<close>

lemma percpu_sum_loop_sum:
  "percpu_sum_loop out ps = \<lparr>rx_frames = rx_frames out + sum_list (map rx_frames ps),
     dropped = dropped out + sum_list (map dropped ps),
     pc_bytes = pc_bytes out + sum_list (map pc_bytes ps)\<rparr>"
  by (induction ps arbitrary: out) (simp_all add: add.assoc)

lemma percpu_sum_fields [simp]:
  "rx_frames (safety_percpu_sum dev) = sum_list (map rx_frames (pcpu dev))"
  "dropped (safety_percpu_sum dev) = sum_list (map dropped (pcpu dev))"
  "pc_bytes (safety_percpu_sum dev) = sum_list (map pc_bytes (pcpu dev))"
  by (simp_all add: safety_percpu_sum_def percpu_sum_loop_sum pcpu_zero_def)

lemma sum_list_map_update:
  fixes f :: "'a \<Rightarrow> 'b :: ab_group_add"
  assumes "i < length xs"
  shows "sum_list (map f (xs[i := y])) = sum_list (map f xs) - f (xs ! i) + f y"
  using assms
proof (induction xs arbitrary: i)
  case (Cons x xs)
  then show ?case by (cases i) (simp_all add: algebra_simps)
qed simp

lemma later_later [simp]: "later (later e i) j = later e (i + j)"
  by (simp add: later_def add.assoc)

lemma ktime_later [simp]: "ktime_get_ns (later e i) j = ktime_get_ns e (i + j)"
  by (simp add: later_def)

lemma env_ok_later [simp]: "env_ok (later e k) n = env_ok e n"
  by (simp add: env_ok_def later_def)

lemma inc_rx_sum:
  assumes "env_ok e (length (pcpu dev))"
  shows "rx_frames (safety_percpu_sum (safety_percpu_inc_rx e n dev)) = rx_frames (safety_percpu_sum dev) + 1"
    and "pc_bytes (safety_percpu_sum (safety_percpu_inc_rx e n dev)) = pc_bytes (safety_percpu_sum dev) + ucast n"
    and "dropped (safety_percpu_sum (safety_percpu_inc_rx e n dev)) = dropped (safety_percpu_sum dev)"
  using assms by (simp_all add: env_ok_def dev_upd sum_list_map_update Let_def)

lemma inc_dropped_sum:
  assumes "env_ok e (length (pcpu dev))"
  shows "rx_frames (safety_percpu_sum (safety_percpu_inc_dropped e dev)) = rx_frames (safety_percpu_sum dev)"
    and "pc_bytes (safety_percpu_sum (safety_percpu_inc_dropped e dev)) = pc_bytes (safety_percpu_sum dev)"
    and "dropped (safety_percpu_sum (safety_percpu_inc_dropped e dev)) = dropped (safety_percpu_sum dev) + 1"
  using assms by (simp_all add: env_ok_def dev_upd sum_list_map_update)

lemma percpu_reset_sum: "safety_percpu_sum (safety_percpu_reset dev) = pcpu_zero"
  by (simp add: safety_percpu_sum_def percpu_sum_loop_sum dev_upd pcpu_zero_def comp_def)

end
