(* ===== verification/Driver_Queue.thy ===== *)
theory Driver_Queue
  imports Driver_State
begin

text \<open>
  The frame queues of the driver (\<open>safety_copro_kfifo.c\<close>): the event timeline, the RX queue from
  the link daemon to the supervisor, the TX queue in the other direction, and the frames the
  driver makes up itself.  Every helper that takes the device lock does all of its work on the
  shared state inside it, so one application of a definition is one critical section followed by
  the statistics, tracepoint and wake-up the code does after it.  The interface \<open>frame_queue\<close> states
  what both queues promise, and is established for each of them over any \<open>kfifo\<close>.
\<close>

section \<open>Definitions\<close>

definition safety_timeline_record_locked ::
    "kenv \<Rightarrow> safety_timeline_event \<Rightarrow> u16 \<Rightarrow> 'q safety_copro_dev \<Rightarrow> 'q safety_copro_dev" where
  "safety_timeline_record_locked e ev seq dev =
     (let dev = dev\<lparr>timeline := (timeline dev)[timeline_head dev :=
                    \<lparr>ts_ns = ktime_get_ns e 0, event = ev, tl_seq = seq\<rparr>]\<rparr>;
          dev = dev\<lparr>timeline_head := (timeline_head dev + 1) mod SAFETY_TIMELINE_DEPTH\<rparr>
      in if timeline_filled dev < SAFETY_TIMELINE_DEPTH
         then dev\<lparr>timeline_filled := timeline_filled dev + 1\<rparr> else dev)"

definition safety_fifo_len :: "(safety_fifo_slot, 'q) kfifo_ops \<Rightarrow> 'q safety_copro_dev \<Rightarrow> u32" where
  "safety_fifo_len K dev = of_nat (kfifo_len K (rx_fifo dev))"

definition safety_tx_fifo_len :: "(safety_fifo_slot, 'q) kfifo_ops \<Rightarrow> 'q safety_copro_dev \<Rightarrow> u32" where
  "safety_tx_fifo_len K dev = of_nat (kfifo_len K (tx_fifo dev))"

definition safety_fifo_push_frame ::
    "(safety_fifo_slot, 'q) kfifo_ops \<Rightarrow> kenv \<Rightarrow> bytes \<Rightarrow> u16 \<Rightarrow> u16 \<Rightarrow> u8 \<Rightarrow> safety_timeline_event
     \<Rightarrow> 'q safety_copro_dev \<Rightarrow> unit result \<times> 'q safety_copro_dev" where
  "safety_fifo_push_frame K e frame len seq ty tl_ev dev =
     (if len = 0 \<or> SAFETY_MAX_FRAME_SIZE < unat len then (Inl EMSGSIZE, dev)
      else let slot = \<lparr>slot_len = len, slot_data = take (unat len) frame\<rparr> in
      if kfifo_is_full K (rx_fifo dev) then (Inl ENOSPC, dev)
      else let (q, ret) = kfifo_in K (rx_fifo dev) slot; dev = dev\<lparr>rx_fifo := q\<rparr> in
      if ret \<noteq> 1 then (Inl ENOSPC, dev)
      else let qlen = of_nat (kfifo_len K (rx_fifo dev));
               dev = (if fifo_high_watermark dev < qlen then dev\<lparr>fifo_high_watermark := qlen\<rparr> else dev);
               dev = safety_timeline_record_locked e tl_ev seq dev;
               dev = safety_percpu_inc_rx e (ucast len) dev;
               dev = kcall (Trace (safety_frame_received seq ty qlen)) dev
           in (Inr (), kcall Wake_up_rx dev))"

text \<open>\<open>safety_fifo_pop_frame\<close> returns the length, 0 when nothing was popped, and fills the caller's
  slot: here the slot itself, if there was one.\<close>

definition safety_fifo_pop_frame ::
    "(safety_fifo_slot, 'q) kfifo_ops \<Rightarrow> 'q safety_copro_dev
     \<Rightarrow> u16 \<times> safety_fifo_slot option \<times> 'q safety_copro_dev" where
  "safety_fifo_pop_frame K dev =
     (if \<not> kfifo_is_empty K (rx_fifo dev)
      then case kfifo_out K (rx_fifo dev) of
             (q, [slot]) \<Rightarrow> (slot_len slot, Some slot, dev\<lparr>rx_fifo := q\<rparr>)
           | (q, _) \<Rightarrow> (0, None, dev\<lparr>rx_fifo := q\<rparr>)
      else (0, None, dev))"

definition safety_fifo_push_tx_frame ::
    "(safety_fifo_slot, 'q) kfifo_ops \<Rightarrow> kenv \<Rightarrow> bytes \<Rightarrow> u16 \<Rightarrow> u16 \<Rightarrow> u8
     \<Rightarrow> 'q safety_copro_dev \<Rightarrow> unit result \<times> 'q safety_copro_dev" where
  "safety_fifo_push_tx_frame K e frame len seq ty dev =
     (if len = 0 \<or> SAFETY_MAX_FRAME_SIZE < unat len then (Inl EMSGSIZE, dev)
      else let slot = \<lparr>slot_len = len, slot_data = take (unat len) frame\<rparr> in
      if kfifo_is_full K (tx_fifo dev) then (Inl ENOSPC, dev)
      else let (q, ret) = kfifo_in K (tx_fifo dev) slot; dev = dev\<lparr>tx_fifo := q\<rparr> in
      if ret \<noteq> 1 then (Inl ENOSPC, dev)
      else let dev = safety_timeline_record_locked e SAFETY_TL_RECOVERY seq dev;
               dev = kcall (Trace (safety_frame_received seq ty (safety_tx_fifo_len K dev))) dev
           in (Inr (), kcall Wake_up_tx dev))"

definition safety_fifo_pop_tx_frame ::
    "(safety_fifo_slot, 'q) kfifo_ops \<Rightarrow> 'q safety_copro_dev
     \<Rightarrow> u16 \<times> safety_fifo_slot option \<times> 'q safety_copro_dev" where
  "safety_fifo_pop_tx_frame K dev =
     (if \<not> kfifo_is_empty K (tx_fifo dev)
      then case kfifo_out K (tx_fifo dev) of
             (q, [slot]) \<Rightarrow> (slot_len slot, Some slot, dev\<lparr>tx_fifo := q\<rparr>)
           | (q, _) \<Rightarrow> (0, None, dev\<lparr>tx_fifo := q\<rparr>)
      else (0, None, dev))"

text \<open>\<open>safety_synth_and_push\<close>: the frame buffer is a stack array; the bytes it holds before packing
  are never read, and are zero here.\<close>

definition safety_synth_and_push ::
    "(safety_fifo_slot, 'q) kfifo_ops \<Rightarrow> kenv \<Rightarrow> u8 \<Rightarrow> bytes \<Rightarrow> u16 \<Rightarrow> safety_timeline_event
     \<Rightarrow> 'q safety_copro_dev \<Rightarrow> unit result \<times> 'q safety_copro_dev" where
  "safety_synth_and_push K e ty payload payload_len tl_ev dev =
     (if SAFETY_MAX_PAYLOAD < unat payload_len then (Inl EMSGSIZE, dev)
      else let seq = synth_seq dev;
               dev = dev\<lparr>synth_seq := synth_seq dev + 1\<rparr>;
               hdr = safety_frame_init ty seq payload_len (safety_now_ms (ktime_get_ns e 0));
               (total, hdr, frame) =
                 safety_frame_pack (replicate SAFETY_MAX_FRAME_SIZE 0) hdr (Some payload)
           in if total = 0 then (Inl EMSGSIZE, dev)
      else let (rc, dev) = safety_fifo_push_frame K (later e 1) frame (of_nat total) seq ty tl_ev dev
           in if rc = Inl ENOSPC
              then let dev = dev\<lparr>dropped_frame_count := dropped_frame_count dev + 1\<rparr>;
                       dev = safety_percpu_inc_dropped e dev
                   in (rc, kcall (Trace (safety_frame_dropped seq ty)) dev)
              else (rc, dev))"

definition safety_synth_fault_event ::
    "(safety_fifo_slot, 'q) kfifo_ops \<Rightarrow> kenv \<Rightarrow> u8 \<Rightarrow> u8 \<Rightarrow> u16
     \<Rightarrow> 'q safety_copro_dev \<Rightarrow> unit result \<times> 'q safety_copro_dev" where
  "safety_synth_fault_event K e ft sev detail dev =
     (let pl = \<lparr>fe_fault_type = ft, severity = sev, detail_code = detail,
                fault_uptime_ms = safety_now_ms (ktime_get_ns e 0)\<rparr>
      in safety_synth_and_push K (later e 1) SAFETY_FRAME_FAULT_EVENT (fault_event_bytes pl) 8
           SAFETY_TL_FAULT_INJECT dev)"

definition safety_synth_recovery_report ::
    "(safety_fifo_slot, 'q) kfifo_ops \<Rightarrow> kenv \<Rightarrow> u8 \<Rightarrow> u8
     \<Rightarrow> 'q safety_copro_dev \<Rightarrow> unit result \<times> 'q safety_copro_dev" where
  "safety_synth_recovery_report K e rcv nst dev =
     (let pl = \<lparr>recovered = rcv, new_state = nst, rr_reserved = 0,
                recovery_uptime_ms = safety_now_ms (ktime_get_ns e 0)\<rparr>
      in safety_synth_and_push K (later e 1) SAFETY_FRAME_RECOVERY_REPORT (recovery_report_bytes pl) 8
           SAFETY_TL_RECOVERY dev)"

subsection \<open>Specification\<close>

text \<open>What a slot of each queue holds: the TX queue only frames that validate; the RX queue frames
  with a well-formed header and the announced length, whose checksum may be wrong.\<close>

definition rx_slot_ok :: "safety_fifo_slot \<Rightarrow> bool" where
  "rx_slot_ok s \<longleftrightarrow> (let h = header_of_bytes (slot_data s) in
     length (slot_data s) = unat (slot_len s)
     \<and> magic h = SAFETY_PROTO_MAGIC \<and> version h = SAFETY_PROTO_VERSION
     \<and> unat (payload_length h) \<le> SAFETY_MAX_PAYLOAD
     \<and> length (slot_data s) = SAFETY_HEADER_SIZE + unat (payload_length h))"

definition tx_slot_ok :: "safety_fifo_slot \<Rightarrow> bool" where
  "tx_slot_ok s \<longleftrightarrow> length (slot_data s) = unat (slot_len s) \<and> unat (slot_len s) \<le> SAFETY_MAX_FRAME_SIZE
     \<and> safety_frame_validate (slot_data s) = SAFETY_VALIDATE_OK"

text \<open>A caller's sequence of queue operations and its outcome: the pushes that were accepted and
  the slots that were popped.\<close>

datatype 'x queue_op = Push 'x | Pop

fun run_queue :: "('x \<Rightarrow> 'd \<Rightarrow> unit result \<times> 'd) \<Rightarrow> ('d \<Rightarrow> u16 \<times> safety_fifo_slot option \<times> 'd)
    \<Rightarrow> 'x queue_op list \<Rightarrow> 'd \<Rightarrow> 'x list \<times> safety_fifo_slot list \<times> 'd" where
  "run_queue push pop [] d = ([], [], d)"
| "run_queue push pop (Push x # ops) d =
     (let (r, d) = push x d; (acc, del, d) = run_queue push pop ops d
      in (if r = Inr () then x # acc else acc, del, d))"
| "run_queue push pop (Pop # ops) d =
     (let (n, s, d) = pop d; (acc, del, d) = run_queue push pop ops d
      in (acc, if n = 0 then del else the s # del, d))"

text \<open>The events a reader of the ring sees, oldest first, in the order \<open>timeline_show\<close> walks it.\<close>

definition timeline_start :: "'q safety_copro_dev \<Rightarrow> nat" where
  "timeline_start dev = (if timeline_filled dev < SAFETY_TIMELINE_DEPTH then 0 else timeline_head dev)"

definition timeline_view :: "'q safety_copro_dev \<Rightarrow> safety_timeline_entry list" where
  "timeline_view dev = map (\<lambda>i. timeline dev ! ((timeline_start dev + i) mod SAFETY_TIMELINE_DEPTH))
     [0..<timeline_filled dev]"

definition timeline_wf :: "'q safety_copro_dev \<Rightarrow> bool" where
  "timeline_wf dev \<longleftrightarrow> length (timeline dev) = SAFETY_TIMELINE_DEPTH
     \<and> timeline_head dev < SAFETY_TIMELINE_DEPTH \<and> timeline_filled dev \<le> SAFETY_TIMELINE_DEPTH
     \<and> (timeline_filled dev < SAFETY_TIMELINE_DEPTH \<longrightarrow> timeline_head dev = timeline_filled dev)"

text \<open>The abstract log: the last 64 events.\<close>

definition last_events :: "nat \<Rightarrow> 'a list \<Rightarrow> 'a list" where
  "last_events n xs = drop (length xs - n) xs"

text \<open>A push request as a caller makes it: the environment of the call, the frame, and the
  sequence number, type and timeline event recorded with it.\<close>

type_synonym push_req = "kenv \<times> bytes \<times> u16 \<times> u8 \<times> safety_timeline_event"

definition req_valid :: "push_req \<Rightarrow> bool" where
  "req_valid = (\<lambda>(e, f, _). 0 < length f \<and> length f \<le> SAFETY_MAX_FRAME_SIZE)"

definition req_slot :: "push_req \<Rightarrow> safety_fifo_slot" where
  "req_slot = (\<lambda>(e, f, _). \<lparr>slot_len = of_nat (length f), slot_data = f\<rparr>)"

definition rx_push :: "(safety_fifo_slot, 'q) kfifo_ops \<Rightarrow> push_req \<Rightarrow> 'q safety_copro_dev
    \<Rightarrow> unit result \<times> 'q safety_copro_dev" where
  "rx_push K = (\<lambda>(e, f, seq, ty, ev). safety_fifo_push_frame K e f (of_nat (length f)) seq ty ev)"

definition tx_push :: "(safety_fifo_slot, 'q) kfifo_ops \<Rightarrow> push_req \<Rightarrow> 'q safety_copro_dev
    \<Rightarrow> unit result \<times> 'q safety_copro_dev" where
  "tx_push K = (\<lambda>(e, f, seq, ty, ev). safety_fifo_push_tx_frame K e f (of_nat (length f)) seq ty)"

text \<open>The slot that holds a frame the driver makes up.\<close>

definition synth_slot :: "kenv \<Rightarrow> u8 \<Rightarrow> u16 \<Rightarrow> bytes \<Rightarrow> safety_fifo_slot" where
  "synth_slot e ty seq p = \<lparr>slot_len = of_nat (16 + length p), slot_data =
     wire_frame (safety_frame_init ty seq (of_nat (length p)) (safety_now_ms (ktime_get_ns e 0))) p\<rparr>"

text \<open>An environment in which the clock stands at zero and all runs on the first CPU.\<close>

definition kenv0 :: kenv where
  "kenv0 = \<lparr>ktime_get_ns = (\<lambda>_. 0), this_cpu = (\<lambda>_. 0)\<rparr>"

text \<open>The invariant of the device structure.\<close>

definition driver_inv :: "(safety_fifo_slot, 'q) kfifo_ops \<Rightarrow> ('q \<Rightarrow> safety_fifo_slot list) \<Rightarrow> ('q \<Rightarrow> bool)
    \<Rightarrow> 'q safety_copro_dev \<Rightarrow> bool" where
  "driver_inv K elems qwf dev \<longleftrightarrow>
     qwf (rx_fifo dev) \<and> qwf (tx_fifo dev)
     \<and> kfifo_size K (rx_fifo dev) = unat (fifo_depth dev) \<and> kfifo_size K (tx_fifo dev) = unat (fifo_depth dev)
     \<and> fifo_high_watermark dev \<le> fifo_depth dev
     \<and> timeline_wf dev
     \<and> hb_timeout_ms dev \<noteq> 0
     \<and> protocol_error_count dev =
         proto_err_magic dev + proto_err_version dev + proto_err_length dev + proto_err_checksum dev
     \<and> (\<forall>s\<in>set (elems (rx_fifo dev)). rx_slot_ok s)
     \<and> (\<forall>s\<in>set (elems (tx_fifo dev)). tx_slot_ok s)"

section \<open>The timeline ring\<close>

lemma timeline_record_wf:
  "timeline_wf dev \<Longrightarrow> timeline_wf (safety_timeline_record_locked e ev seq dev)"
  by (auto simp: timeline_wf_def safety_timeline_record_locked_def proto_const Let_def mod_Suc)

text \<open>A ring that is not full is a prefix of the array, a full one is the array rotated to its head.\<close>

lemma ring_prefix:
  assumes "f \<le> n" "length xs = n" shows "map (\<lambda>i. xs ! ((0 + i) mod n)) [0..<f] = take f xs"
  using assms by (intro nth_equalityI) auto

lemma ring_full:
  assumes "length xs = n" shows "map (\<lambda>i. xs ! ((h + i) mod n)) [0..<n] = rotate h xs"
  using assms by (intro nth_equalityI) (auto simp: nth_rotate)

lemma rotate_overwrite:
  assumes "h < length xs"
  shows "rotate (Suc h mod length xs) (xs[h := y]) = tl (rotate h xs) @ [y]"
proof -
  have "rotate (Suc h mod length xs) (xs[h := y]) = rotate1 (rotate h (xs[h := y]))"
    using rotate_conv_mod [of "Suc h" "xs[h := y]"] by simp
  also have "rotate h (xs[h := y]) = y # drop (Suc h) xs @ take h xs"
    using assms by (simp add: rotate_drop_take drop_update_swap take_update_swap upd_conv_take_nth_drop)
  also have "rotate1 (y # drop (Suc h) xs @ take h xs) = tl (rotate h xs) @ [y]"
    using assms by (simp add: rotate_drop_take Cons_nth_drop_Suc [symmetric])
  finally show ?thesis .
qed

lemma timeline_view_cases:
  assumes "timeline_wf dev"
  shows "timeline_view dev = (if timeline_filled dev < SAFETY_TIMELINE_DEPTH
     then take (timeline_filled dev) (timeline dev) else rotate (timeline_head dev) (timeline dev))"
proof (cases "timeline_filled dev < SAFETY_TIMELINE_DEPTH")
  case True
  then show ?thesis using assms ring_prefix [of "timeline_filled dev" _ "timeline dev"]
    by (simp add: timeline_view_def timeline_start_def timeline_wf_def)
next
  case False
  then have "timeline_filled dev = SAFETY_TIMELINE_DEPTH" using assms by (simp add: timeline_wf_def)
  then show ?thesis using assms ring_full [of "timeline dev" _ "timeline_head dev"]
    by (simp add: timeline_view_def timeline_start_def timeline_wf_def)
qed

lemma timeline_record_view:
  assumes "timeline_wf dev"
  shows "timeline_view (safety_timeline_record_locked e ev seq dev) =
    last_events SAFETY_TIMELINE_DEPTH (timeline_view dev @
      [\<lparr>ts_ns = ktime_get_ns e 0, event = ev, tl_seq = seq\<rparr>])" (is "_ = last_events _ (_ @ [?y])")
proof (cases "timeline_filled dev < SAFETY_TIMELINE_DEPTH")
  case True
  let ?f = "timeline_filled dev" and ?xs = "timeline dev"
  have wf: "length ?xs = SAFETY_TIMELINE_DEPTH" "timeline_head dev = ?f"
    using assms True by (auto simp: timeline_wf_def)
  have "take (Suc ?f) (?xs[?f := ?y]) = take ?f ?xs @ [?y]"
    using True wf by (simp add: take_Suc_conv_app_nth)
  moreover have "Suc ?f = SAFETY_TIMELINE_DEPTH \<Longrightarrow> take (Suc ?f) (?xs[?f := ?y]) = ?xs[?f := ?y]"
    using wf by simp
  moreover have "SAFETY_TIMELINE_DEPTH \<le> Suc ?f \<Longrightarrow> Suc ?f mod SAFETY_TIMELINE_DEPTH = 0"
    using True by (metis le_antisym mod_self Suc_leI)
  ultimately show ?thesis
    using True wf timeline_view_cases [OF assms]
      timeline_view_cases [OF timeline_record_wf [OF assms, of e ev seq]]
    by (auto simp: safety_timeline_record_locked_def Let_def last_events_def not_less)
next
  case False
  then have wf: "length (timeline dev) = SAFETY_TIMELINE_DEPTH" "timeline_filled dev = SAFETY_TIMELINE_DEPTH"
    "timeline_head dev < length (timeline dev)" using assms by (auto simp: timeline_wf_def)
  then have "rotate (timeline_head dev) (timeline dev) \<noteq> []" by auto
  then show ?thesis
    using False wf timeline_view_cases [OF assms] rotate_overwrite [OF wf(3), of ?y]
      timeline_view_cases [OF timeline_record_wf [OF assms, of e ev seq]]
    by (auto simp: safety_timeline_record_locked_def Let_def last_events_def drop_Suc)
qed

section \<open>The queue interface\<close>

locale frame_queue =
  fixes push :: "'x \<Rightarrow> 'd \<Rightarrow> unit result \<times> 'd" and pop :: "'d \<Rightarrow> u16 \<times> safety_fifo_slot option \<times> 'd"
    and valid :: "'x \<Rightarrow> bool" and slot_of :: "'x \<Rightarrow> safety_fifo_slot"
    and contents :: "'d \<Rightarrow> safety_fifo_slot list" and cap :: "'d \<Rightarrow> nat" and ok :: "'d \<Rightarrow> bool"
  assumes bound: "ok d \<Longrightarrow> length (contents d) \<le> cap d"
    and valid_len: "valid x \<Longrightarrow> slot_len (slot_of x) \<noteq> 0"
    and push_full: "ok d \<Longrightarrow> valid x \<Longrightarrow> length (contents d) = cap d \<Longrightarrow> push x d = (Inl ENOSPC, d)"
    and push_room: "ok d \<Longrightarrow> valid x \<Longrightarrow> length (contents d) < cap d \<Longrightarrow>
        \<exists>d'. push x d = (Inr (), d') \<and> ok d' \<and> contents d' = contents d @ [slot_of x] \<and> cap d' = cap d"
    and pop_empty: "ok d \<Longrightarrow> contents d = [] \<Longrightarrow> pop d = (0, None, d)"
    and pop_some: "ok d \<Longrightarrow> contents d = s # ss \<Longrightarrow>
        \<exists>d'. pop d = (slot_len s, Some s, d') \<and> ok d' \<and> contents d' = ss \<and> cap d' = cap d"
begin

text \<open>No slot is lost, duplicated or reordered between an accepted push and a pop.\<close>

lemma fifo_order:
  assumes "ok d" and "\<forall>x. Push x \<in> set ops \<longrightarrow> valid x" and "\<forall>s\<in>set (contents d). slot_len s \<noteq> 0"
    and "run_queue push pop ops d = (acc, del, d')"
  shows "contents d @ map slot_of acc = del @ contents d' \<and> ok d' \<and> cap d' = cap d"
  using assms
proof (induction ops arbitrary: d acc del)
  case (Cons op ops)
  show ?case
  proof (cases op)
    case (Push x)
    have v: "valid x" "\<forall>x. Push x \<in> set ops \<longrightarrow> valid x" using Cons.prems(2) Push by auto
    show ?thesis
    proof (cases "length (contents d) < cap d")
      case True
      from push_room [OF Cons.prems(1) v(1) True] obtain e where e: "push x d = (Inr (), e)"
        "ok e" "contents e = contents d @ [slot_of x]" "cap e = cap d" by blast
      moreover obtain a b where "run_queue push pop ops e = (a, b, d')" "acc = x # a" "del = b"
        using Cons.prems(4) Push e(1) by (auto split: prod.splits)
      ultimately show ?thesis
        using Cons.IH [of e a b] v(2) Cons.prems(3) valid_len [OF v(1)] by auto
    next
      case False
      then have "push x d = (Inl ENOSPC, d)"
        using bound [OF Cons.prems(1)] push_full [OF Cons.prems(1) v(1)] by simp
      then show ?thesis using Cons.IH [of d acc del] Cons.prems Push v(2) by (auto split: prod.splits)
    qed
  next
    case Pop
    have v: "\<forall>x. Push x \<in> set ops \<longrightarrow> valid x" using Cons.prems(2) by simp
    show ?thesis
    proof (cases "contents d")
      case Nil
      then show ?thesis
        using Cons.IH [of d acc del] Cons.prems Pop pop_empty [OF Cons.prems(1)]
        by (auto split: prod.splits)
    next
      case (Cons s ss)
      from pop_some [OF \<open>ok d\<close> Cons] obtain e where e: "pop d = (slot_len s, Some s, e)"
        "ok e" "contents e = ss" "cap e = cap d" by blast
      moreover obtain b where "run_queue push pop ops e = (acc, b, d')" "del = s # b"
        using Cons.prems(4) Pop e(1) Cons.prems(3) \<open>contents d = s # ss\<close> by (auto split: prod.splits)
      ultimately show ?thesis using Cons.IH [of e acc b] v Cons.prems(3) \<open>contents d = s # ss\<close> by auto
    qed
  qed
qed simp

end

section \<open>Both queues implement the interface\<close>

lemma timeline_record_eq [dev_upd]:
  "safety_timeline_record_locked e ev seq dev =
     dev\<lparr>timeline := (timeline dev)[timeline_head dev :=
            \<lparr>ts_ns = ktime_get_ns e 0, event = ev, tl_seq = seq\<rparr>],
         timeline_head := (timeline_head dev + 1) mod SAFETY_TIMELINE_DEPTH,
         timeline_filled := (if timeline_filled dev < SAFETY_TIMELINE_DEPTH
            then timeline_filled dev + 1 else timeline_filled dev)\<rparr>"
  by (simp add: safety_timeline_record_locked_def Let_def)

lemma timeline_record_fields [simp]:
  "rx_fifo (safety_timeline_record_locked e ev seq dev) = rx_fifo dev"
  "tx_fifo (safety_timeline_record_locked e ev seq dev) = tx_fifo dev"
  "fifo_depth (safety_timeline_record_locked e ev seq dev) = fifo_depth dev"
  "fifo_high_watermark (safety_timeline_record_locked e ev seq dev) = fifo_high_watermark dev"
  "state (safety_timeline_record_locked e ev seq dev) = state dev"
  "heartbeat_count (safety_timeline_record_locked e ev seq dev) = heartbeat_count dev"
  "fault_count (safety_timeline_record_locked e ev seq dev) = fault_count dev"
  "dropped_frame_count (safety_timeline_record_locked e ev seq dev) = dropped_frame_count dev"
  "timeout_count (safety_timeline_record_locked e ev seq dev) = timeout_count dev"
  "retry_count (safety_timeline_record_locked e ev seq dev) = retry_count dev"
  "protocol_error_count (safety_timeline_record_locked e ev seq dev) = protocol_error_count dev"
  "synth_seq (safety_timeline_record_locked e ev seq dev) = synth_seq dev"
  "hb_timeout_ms (safety_timeline_record_locked e ev seq dev) = hb_timeout_ms dev"
  "last_fault_type (safety_timeline_record_locked e ev seq dev) = last_fault_type dev"
  "last_proto_err (safety_timeline_record_locked e ev seq dev) = last_proto_err dev"
  "proto_err_magic (safety_timeline_record_locked e ev seq dev) = proto_err_magic dev"
  "proto_err_version (safety_timeline_record_locked e ev seq dev) = proto_err_version dev"
  "proto_err_length (safety_timeline_record_locked e ev seq dev) = proto_err_length dev"
  "proto_err_checksum (safety_timeline_record_locked e ev seq dev) = proto_err_checksum dev"
  "pcpu (safety_timeline_record_locked e ev seq dev) = pcpu dev"
  "kcalls (safety_timeline_record_locked e ev seq dev) = kcalls dev"
  by (simp_all add: timeline_record_eq)

text \<open>What a push and a pop do is the same text for both queues.\<close>

locale driver = kfifo K elems wf
  for K :: "(safety_fifo_slot, 'q) kfifo_ops" and elems :: "'q \<Rightarrow> safety_fifo_slot list"
    and wf :: "'q \<Rightarrow> bool"
begin

lemma push_frame_bad:
  "len = 0 \<or> SAFETY_MAX_FRAME_SIZE < unat len \<Longrightarrow>
     safety_fifo_push_frame K e f len seq ty ev dev = (Inl EMSGSIZE, dev)"
  by (simp add: safety_fifo_push_frame_def)

lemma push_frame_full:
  assumes "wf (rx_fifo dev)" "len \<noteq> 0" "unat len \<le> SAFETY_MAX_FRAME_SIZE"
    and "length (elems (rx_fifo dev)) = kfifo_size K (rx_fifo dev)"
  shows "safety_fifo_push_frame K e f len seq ty ev dev = (Inl ENOSPC, dev)"
  using assms is_full by (simp add: safety_fifo_push_frame_def)

lemma push_frame_room:
  assumes "wf (rx_fifo dev)" "len \<noteq> 0" "unat len \<le> SAFETY_MAX_FRAME_SIZE"
    and "length (elems (rx_fifo dev)) < kfifo_size K (rx_fifo dev)"
  obtains q' qlen where "wf q'" "kfifo_size K q' = kfifo_size K (rx_fifo dev)"
    "elems q' = elems (rx_fifo dev) @ [\<lparr>slot_len = len, slot_data = take (unat len) f\<rparr>]"
    "qlen = of_nat (length (elems (rx_fifo dev)) + 1)"
    "safety_fifo_push_frame K e f len seq ty ev dev =
       (Inr (), kcall Wake_up_rx (kcall (Trace (safety_frame_received seq ty qlen))
         (safety_percpu_inc_rx e (ucast len) (safety_timeline_record_locked e ev seq
           (dev\<lparr>rx_fifo := q', fifo_high_watermark := max (fifo_high_watermark dev) qlen\<rparr>)))))"
proof -
  let ?s = "\<lparr>slot_len = len, slot_data = take (unat len) f\<rparr>"
  from put [OF assms(1,4), of ?s] obtain q' where q: "kfifo_in K (rx_fifo dev) ?s = (q', 1)" "wf q'"
    "elems q' = elems (rx_fifo dev) @ [?s]" "kfifo_size K q' = kfifo_size K (rx_fifo dev)" by blast
  show thesis
    by (rule that [OF q(2,4,3) refl])
      (use assms q not_full [OF assms(1)] len [OF q(2)] in
        \<open>auto simp: safety_fifo_push_frame_def Let_def max_def not_less cong: if_cong\<close>)
qed

lemma push_tx_full:
  assumes "wf (tx_fifo dev)" "len \<noteq> 0" "unat len \<le> SAFETY_MAX_FRAME_SIZE"
    and "length (elems (tx_fifo dev)) = kfifo_size K (tx_fifo dev)"
  shows "safety_fifo_push_tx_frame K e f len seq ty dev = (Inl ENOSPC, dev)"
  using assms is_full by (simp add: safety_fifo_push_tx_frame_def)

lemma push_tx_room:
  assumes "wf (tx_fifo dev)" "len \<noteq> 0" "unat len \<le> SAFETY_MAX_FRAME_SIZE"
    and "length (elems (tx_fifo dev)) < kfifo_size K (tx_fifo dev)"
  obtains q' qlen where "wf q'" "kfifo_size K q' = kfifo_size K (tx_fifo dev)"
    "elems q' = elems (tx_fifo dev) @ [\<lparr>slot_len = len, slot_data = take (unat len) f\<rparr>]"
    "qlen = of_nat (length (elems (tx_fifo dev)) + 1)"
    "safety_fifo_push_tx_frame K e f len seq ty dev =
       (Inr (), kcall Wake_up_tx (kcall (Trace (safety_frame_received seq ty qlen))
         (safety_timeline_record_locked e SAFETY_TL_RECOVERY seq (dev\<lparr>tx_fifo := q'\<rparr>))))"
proof -
  let ?s = "\<lparr>slot_len = len, slot_data = take (unat len) f\<rparr>"
  from put [OF assms(1,4), of ?s] obtain q' where q: "kfifo_in K (tx_fifo dev) ?s = (q', 1)" "wf q'"
    "elems q' = elems (tx_fifo dev) @ [?s]" "kfifo_size K q' = kfifo_size K (tx_fifo dev)" by blast
  show thesis
    by (rule that [OF q(2,4,3) refl])
      (use assms q not_full [OF assms(1)] len [OF q(2)] in
        \<open>auto simp: safety_fifo_push_tx_frame_def safety_tx_fifo_len_def timeline_record_eq Let_def not_less\<close>)
qed

lemma pop_frame_cases:
  assumes "wf (rx_fifo dev)"
  obtains (empty) "elems (rx_fifo dev) = []" "safety_fifo_pop_frame K dev = (0, None, dev)"
  | (some) s ss q' where "elems (rx_fifo dev) = s # ss" "wf q'" "elems q' = ss"
      "kfifo_size K q' = kfifo_size K (rx_fifo dev)"
      "safety_fifo_pop_frame K dev = (slot_len s, Some s, dev\<lparr>rx_fifo := q'\<rparr>)"
  by (rule get_cases [OF assms]) (auto simp: safety_fifo_pop_frame_def)

lemma pop_tx_cases:
  assumes "wf (tx_fifo dev)"
  obtains (empty) "elems (tx_fifo dev) = []" "safety_fifo_pop_tx_frame K dev = (0, None, dev)"
  | (some) s ss q' where "elems (tx_fifo dev) = s # ss" "wf q'" "elems q' = ss"
      "kfifo_size K q' = kfifo_size K (tx_fifo dev)"
      "safety_fifo_pop_tx_frame K dev = (slot_len s, Some s, dev\<lparr>tx_fifo := q'\<rparr>)"
  by (rule get_cases [OF assms]) (auto simp: safety_fifo_pop_tx_frame_def)

end

lemma unat_frame_length [simp]:
  "n \<le> SAFETY_MAX_FRAME_SIZE \<Longrightarrow> unat (of_nat n :: u16) = n"
  by (simp add: proto_const unat_of_nat)

lemma ucast_frame_length [simp]:
  assumes "n \<le> SAFETY_MAX_FRAME_SIZE"
  shows "unat (ucast (of_nat n :: u16) :: u32) = n"
proof -
  have "(ucast (of_nat n :: u16) :: u32) = of_nat n"
    by (metis unat_frame_length [OF assms] of_nat_unat)
  then show ?thesis using assms by (simp add: proto_const unat_of_nat)
qed

lemma frame_length_0 [simp]:
  "n \<le> SAFETY_MAX_FRAME_SIZE \<Longrightarrow> (of_nat n :: u16) = 0 \<longleftrightarrow> n = 0"
  using unat_frame_length [of n] by (auto simp del: unat_frame_length)

sublocale driver \<subseteq> rx: frame_queue "rx_push K" "safety_fifo_pop_frame K" req_valid req_slot
    "\<lambda>d. elems (rx_fifo d)" "\<lambda>d. kfifo_size K (rx_fifo d)" "\<lambda>d. wf (rx_fifo d)"
proof unfold_locales
  fix d :: "'q safety_copro_dev" and x :: push_req
  obtain e f seq ty ev where x: "x = (e, f, seq, ty, ev)" by (metis prod_cases5)
  assume d: "wf (rx_fifo d)"
  show "length (elems (rx_fifo d)) \<le> kfifo_size K (rx_fifo d)" by (rule bound [OF d])
  show "elems (rx_fifo d) = [] \<Longrightarrow> safety_fifo_pop_frame K d = (0, None, d)"
    by (rule pop_frame_cases [OF d]) auto
  show "elems (rx_fifo d) = s # ss \<Longrightarrow> \<exists>d'. safety_fifo_pop_frame K d = (slot_len s, Some s, d') \<and> wf (rx_fifo d')
      \<and> elems (rx_fifo d') = ss \<and> kfifo_size K (rx_fifo d') = kfifo_size K (rx_fifo d)" for s ss
    by (rule pop_frame_cases [OF d]) auto
  assume v: "req_valid x"
  then have len: "(of_nat (length f) :: u16) \<noteq> 0" "unat (of_nat (length f) :: u16) \<le> SAFETY_MAX_FRAME_SIZE"
    by (simp_all add: req_valid_def x)
  show "length (elems (rx_fifo d)) = kfifo_size K (rx_fifo d) \<Longrightarrow> rx_push K x d = (Inl ENOSPC, d)"
    using push_frame_full [OF d len] by (simp add: rx_push_def x)
  assume room: "length (elems (rx_fifo d)) < kfifo_size K (rx_fifo d)"
  show "\<exists>d'. rx_push K x d = (Inr (), d') \<and> wf (rx_fifo d')
      \<and> elems (rx_fifo d') = elems (rx_fifo d) @ [req_slot x] \<and> kfifo_size K (rx_fifo d') = kfifo_size K (rx_fifo d)"
    by (rule push_frame_room [OF d len room, where f = f and e = e and seq = seq and ty = ty and ev = ev])
      (use v in \<open>simp add: rx_push_def req_slot_def req_valid_def x dev_upd Let_def\<close>)
qed (auto simp: req_valid_def req_slot_def)

sublocale driver \<subseteq> tx: frame_queue "tx_push K" "safety_fifo_pop_tx_frame K" req_valid req_slot
    "\<lambda>d. elems (tx_fifo d)" "\<lambda>d. kfifo_size K (tx_fifo d)" "\<lambda>d. wf (tx_fifo d)"
proof unfold_locales
  fix d :: "'q safety_copro_dev" and x :: push_req
  obtain e f seq ty ev where x: "x = (e, f, seq, ty, ev)" by (metis prod_cases5)
  assume d: "wf (tx_fifo d)"
  show "length (elems (tx_fifo d)) \<le> kfifo_size K (tx_fifo d)" by (rule bound [OF d])
  show "elems (tx_fifo d) = [] \<Longrightarrow> safety_fifo_pop_tx_frame K d = (0, None, d)"
    by (rule pop_tx_cases [OF d]) auto
  show "elems (tx_fifo d) = s # ss \<Longrightarrow> \<exists>d'. safety_fifo_pop_tx_frame K d = (slot_len s, Some s, d') \<and> wf (tx_fifo d')
      \<and> elems (tx_fifo d') = ss \<and> kfifo_size K (tx_fifo d') = kfifo_size K (tx_fifo d)" for s ss
    by (rule pop_tx_cases [OF d]) auto
  assume v: "req_valid x"
  then have len: "(of_nat (length f) :: u16) \<noteq> 0" "unat (of_nat (length f) :: u16) \<le> SAFETY_MAX_FRAME_SIZE"
    by (simp_all add: req_valid_def x)
  show "length (elems (tx_fifo d)) = kfifo_size K (tx_fifo d) \<Longrightarrow> tx_push K x d = (Inl ENOSPC, d)"
    using push_tx_full [OF d len] by (simp add: tx_push_def x)
  assume room: "length (elems (tx_fifo d)) < kfifo_size K (tx_fifo d)"
  show "\<exists>d'. tx_push K x d = (Inr (), d') \<and> wf (tx_fifo d')
      \<and> elems (tx_fifo d') = elems (tx_fifo d) @ [req_slot x] \<and> kfifo_size K (tx_fifo d') = kfifo_size K (tx_fifo d)"
    by (rule push_tx_room [OF d len room, where f = f and e = e and seq = seq and ty = ty])
      (use v in \<open>simp add: tx_push_def req_slot_def req_valid_def x dev_upd Let_def\<close>)
qed (auto simp: req_valid_def req_slot_def)

lemma timeline_wf_upd [simp]:
  "timeline_wf (kcall c dev) = timeline_wf dev"
  "timeline_wf (safety_percpu_inc_rx e n dev) = timeline_wf dev"
  "timeline_wf (safety_percpu_inc_dropped e dev) = timeline_wf dev"
  "timeline_wf (dev\<lparr>rx_fifo := q\<rparr>) = timeline_wf dev"
  "timeline_wf (dev\<lparr>tx_fifo := q\<rparr>) = timeline_wf dev"
  "timeline_wf (dev\<lparr>fifo_high_watermark := w\<rparr>) = timeline_wf dev"
  "timeline_wf (dev\<lparr>synth_seq := sq\<rparr>) = timeline_wf dev"
  "timeline_wf (dev\<lparr>dropped_frame_count := c'\<rparr>) = timeline_wf dev"
  by (simp_all add: timeline_wf_def dev_upd Let_def)

lemma rx_slot_ok_validates:
  assumes "safety_frame_validate f = SAFETY_VALIDATE_OK" and "length f = 16 + unat (payload_length (header_of_bytes f))"
  shows "rx_slot_ok \<lparr>slot_len = of_nat (length f), slot_data = f\<rparr>"
proof -
  have "header_ok (header_of_bytes f) (take (unat (payload_length (header_of_bytes f))) (drop 16 f))"
    using validate_OK_D(2) [OF assms(1)] .
  then show ?thesis using assms(2) unat_frame_length [of "length f"]
    by (auto simp: rx_slot_ok_def header_ok_def proto_const Let_def)
qed

lemma synth_slot_frame:
  fixes e ty seq
  assumes "length p \<le> SAFETY_MAX_PAYLOAD"
  defines "s \<equiv> slot_data (synth_slot e ty seq p)"
  shows "safety_frame_validate s = SAFETY_VALIDATE_OK" and "frame_type (header_of_bytes s) = ty"
    and "sequence_id (header_of_bytes s) = seq" and "drop SAFETY_HEADER_SIZE s = p"
    and "timestamp_ms (header_of_bytes s) = safety_now_ms (ktime_get_ns e 0)"
  using assms(1) by (simp_all add: s_def synth_slot_def SAFETY_HEADER_SIZE_def)

context driver
begin

abbreviation "dinv \<equiv> driver_inv K elems wf"

text \<open>The occupancy of a queue fits in 32 bits.\<close>

lemma qlen_le_depth:
  assumes "kfifo_size K (rx_fifo dev) = unat (fifo_depth dev)"
    and "length (elems (rx_fifo dev)) < kfifo_size K (rx_fifo dev)"
  shows "(of_nat (length (elems (rx_fifo dev)) + 1) :: u32) \<le> fifo_depth dev"
  using assms mod_less_eq_dividend [of "length (elems (rx_fifo dev)) + 1" "2 ^ 32"]
  by (simp add: word_le_nat_alt unat_of_nat del: mod_less_eq_dividend of_nat_Suc of_nat_add)

lemma push_frame_inv:
  assumes "dinv dev" and "rx_slot_ok \<lparr>slot_len = len, slot_data = take (unat len) f\<rparr>"
  shows "dinv (snd (safety_fifo_push_frame K e f len seq ty ev dev))"
proof (cases "len = 0 \<or> SAFETY_MAX_FRAME_SIZE < unat len")
  case True
  then show ?thesis using assms push_frame_bad by simp
next
  case False
  then have len: "len \<noteq> 0" "unat len \<le> SAFETY_MAX_FRAME_SIZE" by auto
  have wf: "wf (rx_fifo dev)" "kfifo_size K (rx_fifo dev) = unat (fifo_depth dev)"
    using assms by (auto simp: driver_inv_def)
  show ?thesis
  proof (cases "length (elems (rx_fifo dev)) < kfifo_size K (rx_fifo dev)")
    case True
    show ?thesis
    proof (rule push_frame_room [OF wf(1) len True, where f = f and e = e and seq = seq and ty = ty and ev = ev])
      fix q' qlen
      let ?d = "dev\<lparr>rx_fifo := q', fifo_high_watermark := max (fifo_high_watermark dev) qlen\<rparr>"
      assume q: "wf q'" "kfifo_size K q' = kfifo_size K (rx_fifo dev)" "qlen = of_nat (length (elems (rx_fifo dev)) + 1)"
        "elems q' = elems (rx_fifo dev) @ [\<lparr>slot_len = len, slot_data = take (unat len) f\<rparr>]"
        and e: "safety_fifo_push_frame K e f len seq ty ev dev =
          (Inr (), kcall Wake_up_rx (kcall (Trace (safety_frame_received seq ty qlen))
            (safety_percpu_inc_rx e (ucast len) (safety_timeline_record_locked e ev seq ?d))))"
      have "timeline_wf (safety_timeline_record_locked e ev seq ?d)"
        using assms(1) by (intro timeline_record_wf) (simp add: driver_inv_def)
      then show ?thesis
        using q(1,2,4) assms qlen_le_depth [OF wf(2) True]
        unfolding e q(3) by (simp add: driver_inv_def) (simp add: dev_upd Let_def)
    qed
  next
    case False
    then show ?thesis using assms push_frame_full [OF wf(1) len] bound [OF wf(1)] by simp
  qed
qed

lemma push_tx_inv:
  assumes "dinv dev" and "tx_slot_ok \<lparr>slot_len = len, slot_data = take (unat len) f\<rparr>" and "len \<noteq> 0"
  shows "dinv (snd (safety_fifo_push_tx_frame K e f len seq ty dev))"
proof -
  have len: "unat len \<le> SAFETY_MAX_FRAME_SIZE" using assms(2) by (simp add: tx_slot_ok_def)
  have wf: "wf (tx_fifo dev)" using assms by (auto simp: driver_inv_def)
  show ?thesis
  proof (cases "length (elems (tx_fifo dev)) < kfifo_size K (tx_fifo dev)")
    case True
    show ?thesis
    proof (rule push_tx_room [OF wf assms(3) len True, where f = f and e = e and seq = seq and ty = ty])
      fix q' qlen
      assume q: "wf q'" "kfifo_size K q' = kfifo_size K (tx_fifo dev)"
        "elems q' = elems (tx_fifo dev) @ [\<lparr>slot_len = len, slot_data = take (unat len) f\<rparr>]"
        and e: "safety_fifo_push_tx_frame K e f len seq ty dev =
          (Inr (), kcall Wake_up_tx (kcall (Trace (safety_frame_received seq ty qlen))
            (safety_timeline_record_locked e SAFETY_TL_RECOVERY seq (dev\<lparr>tx_fifo := q'\<rparr>))))"
      have "timeline_wf (safety_timeline_record_locked e SAFETY_TL_RECOVERY seq (dev\<lparr>tx_fifo := q'\<rparr>))"
        using assms(1) by (intro timeline_record_wf) (simp add: driver_inv_def)
      then show ?thesis using q assms unfolding e by (simp add: driver_inv_def) (simp add: dev_upd Let_def)
    qed
  next
    case False
    then show ?thesis using assms push_tx_full [OF wf assms(3) len] bound [OF wf] by simp
  qed
qed

lemma pop_inv:
  assumes "dinv dev"
  shows "dinv (snd (snd (safety_fifo_pop_frame K dev)))" and "dinv (snd (snd (safety_fifo_pop_tx_frame K dev)))"
proof -
  have wf: "wf (rx_fifo dev)" "wf (tx_fifo dev)" using assms by (auto simp: driver_inv_def)
  show "dinv (snd (snd (safety_fifo_pop_frame K dev)))"
    using assms by (cases rule: pop_frame_cases [OF wf(1), case_names empty some]) (auto simp: driver_inv_def)
  show "dinv (snd (snd (safety_fifo_pop_tx_frame K dev)))"
    using assms by (cases rule: pop_tx_cases [OF wf(2), case_names empty some]) (auto simp: driver_inv_def)
qed

text \<open>A frame the driver makes up is pushed as the well-formed frame of its payload, or counted
  as dropped when the queue is full.\<close>

lemma push_frame_take:
  "safety_fifo_push_frame K e f len seq ty ev dev =
     safety_fifo_push_frame K e (take (unat len) f) len seq ty ev dev"
  by (simp add: safety_fifo_push_frame_def)

lemma synth_and_push_eq:
  fixes dev :: "'q safety_copro_dev" and e ty
  assumes "length p \<le> SAFETY_MAX_PAYLOAD"
  defines "h \<equiv> safety_frame_init ty (synth_seq dev) (of_nat (length p)) (safety_now_ms (ktime_get_ns e 0))"
  shows "safety_synth_and_push K e ty p (of_nat (length p)) ev dev =
    (let (rc, d) = rx_push K (later e 1, wire_frame h p, synth_seq dev, ty, ev) (dev\<lparr>synth_seq := synth_seq dev + 1\<rparr>)
     in if rc = Inl ENOSPC
        then (rc, kcall (Trace (safety_frame_dropped (synth_seq dev) ty))
               (safety_percpu_inc_dropped e (d\<lparr>dropped_frame_count := dropped_frame_count d + 1\<rparr>)))
        else (rc, d))"
proof -
  have n: "unat (payload_length h) = length p" using assms(1) by (simp add: h_def unat_length_payload)
  obtain out' where pack: "safety_frame_pack (replicate SAFETY_MAX_FRAME_SIZE 0) h (Some p) =
      (16 + length p, h\<lparr>checksum := safety_crc32 (header_bytes (h\<lparr>checksum := 0\<rparr>) @ p)\<rparr>, out')"
    "take (16 + length p) out' = wire_frame h p"
    by (rule pack_wire_frame [where out = "replicate SAFETY_MAX_FRAME_SIZE 0", OF _ n assms(1)]) auto
  have len: "unat (of_nat (16 + length p) :: u16) = 16 + length p"
    using assms(1) by (intro unat_frame_length) (simp add: proto_const)
  have "safety_fifo_push_frame K (later e 1) out' (of_nat (16 + length p)) seq ty ev d =
      rx_push K (later e 1, wire_frame h p, seq, ty, ev) d" for seq d
    using push_frame_take [of _ out' "of_nat (16 + length p)"] pack(2)
    unfolding len by (simp add: rx_push_def)
  then show ?thesis
    using assms(1) pack(1)
    by (simp add: safety_synth_and_push_def h_def [symmetric] unat_length_payload Let_def split: prod.split)
qed

lemma synth_full:
  assumes "wf (rx_fifo dev)" and "length p \<le> SAFETY_MAX_PAYLOAD"
    and "length (elems (rx_fifo dev)) = kfifo_size K (rx_fifo dev)"
  shows "safety_synth_and_push K e ty p (of_nat (length p)) ev dev =
    (Inl ENOSPC, kcall (Trace (safety_frame_dropped (synth_seq dev) ty))
       (safety_percpu_inc_dropped e (dev\<lparr>synth_seq := synth_seq dev + 1,
          dropped_frame_count := dropped_frame_count dev + 1\<rparr>)))"
proof -
  let ?x = "(later e 1, slot_data (synth_slot e ty (synth_seq dev) p), synth_seq dev, ty, ev)"
  have "req_valid ?x" using assms(2) by (simp add: req_valid_def synth_slot_def proto_const)
  then have "rx_push K ?x (dev\<lparr>synth_seq := synth_seq dev + 1\<rparr>)
      = (Inl ENOSPC, dev\<lparr>synth_seq := synth_seq dev + 1\<rparr>)"
    using assms(1,3) by (intro rx.push_full) simp_all
  then show ?thesis using synth_and_push_eq [OF assms(2)] by (simp add: synth_slot_def)
qed

lemma synth_room:
  assumes "wf (rx_fifo dev)" and "length p \<le> SAFETY_MAX_PAYLOAD"
    and "length (elems (rx_fifo dev)) < kfifo_size K (rx_fifo dev)"
  obtains q' qlen where "wf q'" "kfifo_size K q' = kfifo_size K (rx_fifo dev)"
    "elems q' = elems (rx_fifo dev) @ [synth_slot e ty (synth_seq dev) p]"
    "qlen = of_nat (length (elems (rx_fifo dev)) + 1)"
    "safety_synth_and_push K e ty p (of_nat (length p)) ev dev =
       (Inr (), kcall Wake_up_rx (kcall (Trace (safety_frame_received (synth_seq dev) ty qlen))
         (safety_percpu_inc_rx (later e 1) (of_nat (16 + length p)) (safety_timeline_record_locked (later e 1) ev (synth_seq dev)
           (dev\<lparr>synth_seq := synth_seq dev + 1, rx_fifo := q',
                fifo_high_watermark := max (fifo_high_watermark dev) qlen\<rparr>)))))"
proof -
  let ?d = "dev\<lparr>synth_seq := synth_seq dev + 1\<rparr>"
  let ?f = "slot_data (synth_slot e ty (synth_seq dev) p)"
  have "16 + length p \<le> SAFETY_MAX_FRAME_SIZE" using assms(2) by (simp add: proto_const)
  note len = unat_frame_length [OF this] frame_length_0 [OF this]
  have len': "(of_nat (16 + length p) :: u16) \<noteq> 0" "unat (of_nat (16 + length p) :: u16) \<le> SAFETY_MAX_FRAME_SIZE"
    using len assms(2) by (simp_all add: proto_const)
  have u: "(ucast (of_nat (16 + length p) :: u16) :: u32) = of_nat (16 + length p)"
    by (metis len(1) of_nat_unat)
  show thesis
  proof (rule push_frame_room [where dev = ?d and f = ?f and e = "later e 1" and seq = "synth_seq dev"
        and ty = ty and ev = ev, OF _ len'])
    fix q' qlen
    assume q: "wf q'" "kfifo_size K q' = kfifo_size K (rx_fifo ?d)" "qlen = of_nat (length (elems (rx_fifo ?d)) + 1)"
      "elems q' = elems (rx_fifo ?d) @
          [\<lparr>slot_len = of_nat (16 + length p), slot_data = take (unat (of_nat (16 + length p) :: u16)) ?f\<rparr>]"
      and e: "safety_fifo_push_frame K (later e 1) ?f (of_nat (16 + length p)) (synth_seq dev) ty ev ?d =
          (Inr (), kcall Wake_up_rx (kcall (Trace (safety_frame_received (synth_seq dev) ty qlen))
            (safety_percpu_inc_rx (later e 1) (ucast (of_nat (16 + length p) :: u16))
              (safety_timeline_record_locked (later e 1) ev (synth_seq dev)
              (?d\<lparr>rx_fifo := q', fifo_high_watermark := max (fifo_high_watermark ?d) qlen\<rparr>)))))"
    have "safety_synth_and_push K e ty p (of_nat (length p)) ev dev =
        safety_fifo_push_frame K (later e 1) ?f (of_nat (16 + length p)) (synth_seq dev) ty ev ?d"
      using synth_and_push_eq [OF assms(2)] e by (simp add: synth_slot_def rx_push_def)
    then show thesis using q e u that [of q' qlen] unfolding len(1) by (simp add: synth_slot_def)
  qed (use assms in simp_all)
qed

lemma synth_inv:
  assumes "dinv dev" and "length p \<le> SAFETY_MAX_PAYLOAD"
  shows "dinv (snd (safety_synth_and_push K e ty p (of_nat (length p)) ev dev))"
proof -
  let ?d = "dev\<lparr>synth_seq := synth_seq dev + 1\<rparr>" and ?s = "synth_slot e ty (synth_seq dev) p"
  have inv: "dinv ?d" using assms(1) by (simp add: driver_inv_def)
  have "rx_slot_ok ?s"
    using rx_slot_ok_validates [of "slot_data ?s"] assms(2) header_ok_init [OF assms(2)]
    by (simp add: synth_slot_def unat_length_payload)
  then have "dinv (snd (rx_push K (later e 1, slot_data ?s, synth_seq dev, ty, ev) ?d))"
    using push_frame_inv [OF inv, of "slot_len ?s" "slot_data ?s"] unat_frame_length [of "16 + length p"] assms(2)
    by (simp add: rx_push_def synth_slot_def proto_const)
  moreover have "dinv d \<Longrightarrow> dinv (kcall c (safety_percpu_inc_dropped e (d\<lparr>dropped_frame_count := n\<rparr>)))" for d c n
    by (simp add: driver_inv_def) (simp add: dev_upd)
  moreover obtain r d where "rx_push K (later e 1, slot_data ?s, synth_seq dev, ty, ev) ?d = (r, d)"
    by fastforce
  ultimately show ?thesis using synth_and_push_eq [OF assms(2)] by (simp add: synth_slot_def)
qed

end

text \<open>The order lemma of the interface, for each queue.\<close>

context driver
begin

lemmas rx_order = rx.fifo_order
lemmas tx_order = tx.fifo_order

end

interpretation drv: driver bounded_list snd blist_wf
  by unfold_locales

section \<open>Properties\<close>

lemma driver_kfifo: "kfifo K elems qwf \<Longrightarrow> driver K elems qwf"
  by (rule driver.intro)

text \<open>C9 (RX queue order).  Whatever sequence of pushes and pops is made on the RX queue, the frames
  popped, followed by those still queued, are the frames queued at the start followed by those
  whose push returned success: nothing is lost, duplicated or reordered.\<close>

theorem rx_queue_order:
  assumes "kfifo K elems qwf" and "qwf (rx_fifo dev)" and "\<forall>s\<in>set (elems (rx_fifo dev)). slot_len s \<noteq> 0"
    and "\<forall>x. Push x \<in> set ops \<longrightarrow> req_valid x"
    and "run_queue (rx_push K) (safety_fifo_pop_frame K) ops dev = (accepted, popped, dev')"
  shows "elems (rx_fifo dev) @ map req_slot accepted = popped @ elems (rx_fifo dev')
    \<and> qwf (rx_fifo dev') \<and> kfifo_size K (rx_fifo dev') = kfifo_size K (rx_fifo dev)"
  using driver.rx_order [OF driver_kfifo [OF assms(1)] assms(2,4,3,5)] .

theorem rx_queue_order_witness:
  "\<exists>accepted popped dev'. run_queue (rx_push bounded_list) (safety_fifo_pop_frame bounded_list)
       [Push (kenv0, [1, 2], 7, 1, SAFETY_TL_FRAME_RX), Push (kenv0, [3], 8, 1, SAFETY_TL_FRAME_RX),
        Push (kenv0, [4], 9, 1, SAFETY_TL_FRAME_RX), Pop] (kzalloc_dev (2, [])) = (accepted, popped, dev')
     \<and> length accepted = 2 \<and> popped = [\<lparr>slot_len = 2, slot_data = [1, 2]\<rparr>]
     \<and> snd (rx_fifo (kzalloc_dev (2, []))) @ map req_slot accepted = popped @ snd (rx_fifo dev')"
proof -
  let ?ops = "[Push (kenv0, [1, 2], 7, 1, SAFETY_TL_FRAME_RX), Push (kenv0, [3], 8, 1, SAFETY_TL_FRAME_RX),
        Push (kenv0, [4], 9, 1, SAFETY_TL_FRAME_RX), Pop] :: push_req queue_op list"
  obtain a p d where r: "run_queue (rx_push bounded_list) (safety_fifo_pop_frame bounded_list)
      ?ops (kzalloc_dev (2, [])) = (a, p, d)" by (metis prod_cases3)
  have "length a = 2 \<and> p = [\<lparr>slot_len = 2, slot_data = [1, 2]\<rparr>]"
    using r by (auto simp: rx_push_def safety_fifo_push_frame_def safety_fifo_pop_frame_def bounded_list_def
        kzalloc_dev_def proto_const dev_upd Let_def)
  moreover have "snd (rx_fifo (kzalloc_dev (2, []))) @ map req_slot a = p @ snd (rx_fifo d)"
    using rx_queue_order [OF kfifo_bounded_list _ _ _ r]
    by (simp add: kzalloc_dev_def blist_wf_def req_valid_def proto_const)
  ultimately show ?thesis using r by blast
qed

text \<open>TX queue order.  The same holds of the TX queue between the supervisor and the link
  daemon.\<close>

theorem tx_queue_order:
  assumes "kfifo K elems qwf" and "qwf (tx_fifo dev)" and "\<forall>s\<in>set (elems (tx_fifo dev)). slot_len s \<noteq> 0"
    and "\<forall>x. Push x \<in> set ops \<longrightarrow> req_valid x"
    and "run_queue (tx_push K) (safety_fifo_pop_tx_frame K) ops dev = (accepted, popped, dev')"
  shows "elems (tx_fifo dev) @ map req_slot accepted = popped @ elems (tx_fifo dev')
    \<and> qwf (tx_fifo dev') \<and> kfifo_size K (tx_fifo dev') = kfifo_size K (tx_fifo dev)"
  using driver.tx_order [OF driver_kfifo [OF assms(1)] assms(2,4,3,5)] .

theorem tx_queue_order_witness:
  "\<exists>accepted popped dev'. run_queue (tx_push bounded_list) (safety_fifo_pop_tx_frame bounded_list)
       [Push (kenv0, [1, 2], 7, 1, SAFETY_TL_RECOVERY), Push (kenv0, [3], 8, 1, SAFETY_TL_RECOVERY), Pop]
       (kzalloc_dev (2, [])) = (accepted, popped, dev')
     \<and> popped = [\<lparr>slot_len = 2, slot_data = [1, 2]\<rparr>]
     \<and> snd (tx_fifo (kzalloc_dev (2, []))) @ map req_slot accepted = popped @ snd (tx_fifo dev')"
proof -
  let ?ops = "[Push (kenv0, [1, 2], 7, 1, SAFETY_TL_RECOVERY), Push (kenv0, [3], 8, 1, SAFETY_TL_RECOVERY),
      Pop] :: push_req queue_op list"
  obtain a p d where r: "run_queue (tx_push bounded_list) (safety_fifo_pop_tx_frame bounded_list)
      ?ops (kzalloc_dev (2, [])) = (a, p, d)" by (metis prod_cases3)
  have "p = [\<lparr>slot_len = 2, slot_data = [1, 2]\<rparr>]"
    using r by (auto simp: tx_push_def safety_fifo_push_tx_frame_def safety_fifo_pop_tx_frame_def bounded_list_def
        kzalloc_dev_def proto_const dev_upd Let_def)
  moreover have "snd (tx_fifo (kzalloc_dev (2, []))) @ map req_slot a = p @ snd (tx_fifo d)"
    using tx_queue_order [OF kfifo_bounded_list _ _ _ r]
    by (simp add: kzalloc_dev_def blist_wf_def req_valid_def proto_const)
  ultimately show ?thesis using r by blast
qed

end
