(* ===== verification/Driver_Timer.thy ===== *)
theory Driver_Timer
  imports Driver_Queue
begin

text \<open>
  The heartbeat watchdog (\<open>safety_copro_timer.c\<close>) and the recovery work item
  (\<open>safety_copro_workqueue.c\<close>).  Arming and cancelling the timer and scheduling the work item are
  calls of the kernel, recorded in \<open>kcalls\<close>; the theory of the whole driver gives them their
  effect on what may run next.
\<close>

section \<open>Definitions\<close>

datatype hrtimer_restart = HRTIMER_NORESTART | HRTIMER_RESTART

definition safety_recovery_schedule :: "'q safety_copro_dev \<Rightarrow> 'q safety_copro_dev" where
  "safety_recovery_schedule dev = kcall Schedule_work dev"

definition safety_recovery_init :: "'q safety_copro_dev \<Rightarrow> 'q safety_copro_dev" where
  "safety_recovery_init dev = kcall Init_work dev"

definition safety_recovery_destroy :: "'q safety_copro_dev \<Rightarrow> 'q safety_copro_dev" where
  "safety_recovery_destroy dev = kcall Cancel_work_sync dev"

text \<open>The clock is read for the fault record, the timeline, the payload, the header and the
  timeline again.\<close>

definition hb_timer_fn :: "(safety_fifo_slot, 'q) kfifo_ops \<Rightarrow> kenv
    \<Rightarrow> 'q safety_copro_dev \<Rightarrow> hrtimer_restart \<times> 'q safety_copro_dev" where
  "hb_timer_fn K e dev =
     (let dev = dev\<lparr>timeout_count := timeout_count dev + 1\<rparr>;
          count = timeout_count dev;
          timeout_ms = hb_timeout_ms dev;
          dev = dev\<lparr>state := SAFETY_LINK_HB_TIMEOUT,
                    last_fault_type := SAFETY_FAULT_TASK_HANG,
                    last_fault_detail := 1,
                    last_fault_ts_ns := ktime_get_ns e 0,
                    fault_count := fault_count dev + 1\<rparr>;
          dev = safety_timeline_record_locked (later e 1) SAFETY_TL_TIMEOUT 0 dev;
          dev = kcall (Trace (safety_timeout_detected timeout_ms count)) dev;
          (_, dev) = safety_synth_fault_event K (later e 2) SAFETY_FAULT_TASK_HANG 1 1 dev;
          dev = safety_recovery_schedule dev
      in (HRTIMER_NORESTART, dev))"

definition safety_timer_init :: "'q safety_copro_dev \<Rightarrow> 'q safety_copro_dev" where
  "safety_timer_init dev = kcall Hrtimer_init dev"

definition safety_timer_destroy :: "'q safety_copro_dev \<Rightarrow> 'q safety_copro_dev" where
  "safety_timer_destroy dev = kcall Hrtimer_cancel dev"

definition safety_timer_rearm :: "'q safety_copro_dev \<Rightarrow> 'q safety_copro_dev" where
  "safety_timer_rearm dev = (let ms = hb_timeout_ms dev in kcall (Hrtimer_start ms) dev)"

definition recovery_work_fn :: "(safety_fifo_slot, 'q) kfifo_ops \<Rightarrow> kenv
    \<Rightarrow> 'q safety_copro_dev \<Rightarrow> 'q safety_copro_dev" where
  "recovery_work_fn K e dev =
     (let dev = dev\<lparr>retry_count := retry_count dev + 1\<rparr>;
          count = retry_count dev;
          dev = dev\<lparr>state := SAFETY_LINK_RECOVERING\<rparr>;
          dev = safety_timeline_record_locked e SAFETY_TL_RECOVERY 0 dev;
          dev = kcall (Trace (safety_recovery_queued count)) dev;
          (_, dev) = safety_synth_recovery_report K (later e 1) 1
                       (of_nat (link_state_code SAFETY_LINK_RECOVERING)) dev
      in dev)"

subsection \<open>Specification\<close>

text \<open>What the driver promises of a frame it makes up: with room in the RX queue the frame is
  appended, otherwise it is counted as dropped; nothing else of the link changes.\<close>

definition synth_post :: "('q \<Rightarrow> safety_fifo_slot list) \<Rightarrow> safety_fifo_slot
    \<Rightarrow> 'q safety_copro_dev \<Rightarrow> 'q safety_copro_dev \<Rightarrow> bool" where
  "synth_post elems s dev dev' \<longleftrightarrow>
     (if length (elems (rx_fifo dev)) < unat (fifo_depth dev)
      then elems (rx_fifo dev') = elems (rx_fifo dev) @ [s] \<and> dropped_frame_count dev' = dropped_frame_count dev
      else elems (rx_fifo dev') = elems (rx_fifo dev) \<and> dropped_frame_count dev' = dropped_frame_count dev + 1)
     \<and> tx_fifo dev' = tx_fifo dev \<and> synth_seq dev' = synth_seq dev + 1 \<and> fifo_depth dev' = fifo_depth dev
     \<and> state dev' = state dev \<and> hb_timeout_ms dev' = hb_timeout_ms dev
     \<and> heartbeat_count dev' = heartbeat_count dev \<and> fault_count dev' = fault_count dev
     \<and> timeout_count dev' = timeout_count dev \<and> retry_count dev' = retry_count dev
     \<and> protocol_error_count dev' = protocol_error_count dev
     \<and> last_fault_type dev' = last_fault_type dev \<and> length (pcpu dev') = length (pcpu dev)
     \<and> (\<forall>c. c \<in> set (drop (length (kcalls dev)) (kcalls dev')) \<longrightarrow>
            (case c of Trace _ \<Rightarrow> True | Wake_up_rx \<Rightarrow> True | _ \<Rightarrow> False))
     \<and> take (length (kcalls dev)) (kcalls dev') = kcalls dev"

text \<open>The frames the watchdog, the fault injection and the recovery work make up.\<close>

definition fault_slot :: "kenv \<Rightarrow> u16 \<Rightarrow> u8 \<Rightarrow> u8 \<Rightarrow> u16 \<Rightarrow> safety_fifo_slot" where
  "fault_slot e seq ft sev detail = synth_slot (later e 1) SAFETY_FRAME_FAULT_EVENT seq (fault_event_bytes
     \<lparr>fe_fault_type = ft, severity = sev, detail_code = detail,
      fault_uptime_ms = safety_now_ms (ktime_get_ns e 0)\<rparr>)"

definition recovery_slot :: "kenv \<Rightarrow> u16 \<Rightarrow> u8 \<Rightarrow> u8 \<Rightarrow> safety_fifo_slot" where
  "recovery_slot e seq rcv nst = synth_slot (later e 1) SAFETY_FRAME_RECOVERY_REPORT seq (recovery_report_bytes
     \<lparr>recovered = rcv, new_state = nst, rr_reserved = 0,
      recovery_uptime_ms = safety_now_ms (ktime_get_ns e 0)\<rparr>)"

section \<open>Lemmas\<close>

text \<open>Updates that the invariant does not see.\<close>

lemma driver_inv_upd [simp]:
  "driver_inv K elems qwf (kcall c dev) = driver_inv K elems qwf dev"
  "driver_inv K elems qwf (dev\<lparr>kcalls := cs\<rparr>) = driver_inv K elems qwf dev"
  "driver_inv K elems qwf (dev\<lparr>state := st\<rparr>) = driver_inv K elems qwf dev"
  "driver_inv K elems qwf (dev\<lparr>timeout_count := n\<rparr>) = driver_inv K elems qwf dev"
  "driver_inv K elems qwf (dev\<lparr>retry_count := n\<rparr>) = driver_inv K elems qwf dev"
  "driver_inv K elems qwf (dev\<lparr>fault_count := n\<rparr>) = driver_inv K elems qwf dev"
  "driver_inv K elems qwf (dev\<lparr>heartbeat_count := n\<rparr>) = driver_inv K elems qwf dev"
  "driver_inv K elems qwf (dev\<lparr>dropped_frame_count := n\<rparr>) = driver_inv K elems qwf dev"
  "driver_inv K elems qwf (dev\<lparr>last_fault_type := ft\<rparr>) = driver_inv K elems qwf dev"
  "driver_inv K elems qwf (dev\<lparr>last_fault_detail := fd\<rparr>) = driver_inv K elems qwf dev"
  "driver_inv K elems qwf (dev\<lparr>last_fault_ts_ns := ts\<rparr>) = driver_inv K elems qwf dev"
  "driver_inv K elems qwf (safety_percpu_inc_dropped e dev) = driver_inv K elems qwf dev"
  by (simp_all add: driver_inv_def timeline_wf_def kcall_def dev_upd)

lemma driver_inv_record [simp]:
  "driver_inv K elems qwf dev \<Longrightarrow> driver_inv K elems qwf (safety_timeline_record_locked e ev seq dev)"
  by (simp add: driver_inv_def timeline_record_wf)

context driver
begin

lemma synth_post_synth:
  assumes "dinv dev" and "length p \<le> SAFETY_MAX_PAYLOAD"
  shows "synth_post elems (synth_slot e ty (synth_seq dev) p) dev
    (snd (safety_synth_and_push K e ty p (of_nat (length p)) ev dev))"
proof -
  have wf: "wf (rx_fifo dev)" "kfifo_size K (rx_fifo dev) = unat (fifo_depth dev)"
    using assms(1) by (auto simp: driver_inv_def)
  show ?thesis
  proof (cases "length (elems (rx_fifo dev)) < kfifo_size K (rx_fifo dev)")
    case True
    show ?thesis
      by (rule synth_room [OF wf(1) assms(2) True, where e = e and ty = ty and ev = ev])
        (use True wf(2) in \<open>simp add: synth_post_def dev_upd Let_def\<close>)
  next
    case False
    then have "length (elems (rx_fifo dev)) = kfifo_size K (rx_fifo dev)" using bound [OF wf(1)] by simp
    from synth_full [OF wf(1) assms(2) this] False wf(2) show ?thesis
      by (simp add: synth_post_def dev_upd)
  qed
qed

lemma synth_fault_event:
  assumes "dinv dev"
  shows "dinv (snd (safety_synth_fault_event K e ft sev detail dev))"
    and "synth_post elems (fault_slot e (synth_seq dev) ft sev detail) dev
           (snd (safety_synth_fault_event K e ft sev detail dev))"
  using synth_inv [OF assms, of "fault_event_bytes pl" for pl]
    synth_post_synth [OF assms, of "fault_event_bytes pl" for pl]
  by (simp_all add: safety_synth_fault_event_def fault_slot_def Let_def proto_const)

lemma synth_recovery_report:
  assumes "dinv dev"
  shows "dinv (snd (safety_synth_recovery_report K e rcv nst dev))"
    and "synth_post elems (recovery_slot e (synth_seq dev) rcv nst) dev
           (snd (safety_synth_recovery_report K e rcv nst dev))"
  using synth_inv [OF assms, of "recovery_report_bytes pl" for pl]
    synth_post_synth [OF assms, of "recovery_report_bytes pl" for pl]
  by (simp_all add: safety_synth_recovery_report_def recovery_slot_def Let_def proto_const)

end

lemma fault_slot_frame:
  "safety_frame_validate (slot_data (fault_slot e seq ft sev detail)) = SAFETY_VALIDATE_OK"
  "frame_type (header_of_bytes (slot_data (fault_slot e seq ft sev detail))) = SAFETY_FRAME_FAULT_EVENT"
  "fault_event_of_bytes (drop SAFETY_HEADER_SIZE (slot_data (fault_slot e seq ft sev detail))) =
     \<lparr>fe_fault_type = ft, severity = sev, detail_code = detail,
      fault_uptime_ms = safety_now_ms (ktime_get_ns e 0)\<rparr>"
  by (simp_all add: fault_slot_def synth_slot_frame proto_const(3) SAFETY_MAX_PAYLOAD_def)

lemma recovery_slot_frame:
  "safety_frame_validate (slot_data (recovery_slot e seq rcv nst)) = SAFETY_VALIDATE_OK"
  "frame_type (header_of_bytes (slot_data (recovery_slot e seq rcv nst))) = SAFETY_FRAME_RECOVERY_REPORT"
  "recovery_report_of_bytes (drop SAFETY_HEADER_SIZE (slot_data (recovery_slot e seq rcv nst))) =
     \<lparr>recovered = rcv, new_state = nst, rr_reserved = 0,
      recovery_uptime_ms = safety_now_ms (ktime_get_ns e 0)\<rparr>"
  by (simp_all add: recovery_slot_def synth_slot_frame SAFETY_MAX_PAYLOAD_def)

text \<open>The device after the counters of a timeout, and of a recovery attempt, were updated.\<close>

lemma hb_timer_fn_unfold:
  obtains d where "hb_timer_fn K e dev =
      (HRTIMER_NORESTART, kcall Schedule_work
         (snd (safety_synth_fault_event K (later e 2) SAFETY_FAULT_TASK_HANG 1 1 d)))"
    "\<And>elems qwf. driver_inv K elems qwf dev \<Longrightarrow> driver_inv K elems qwf d"
    "state d = SAFETY_LINK_HB_TIMEOUT" "timeout_count d = timeout_count dev + 1"
    "fault_count d = fault_count dev + 1" "last_fault_type d = SAFETY_FAULT_TASK_HANG"
    "rx_fifo d = rx_fifo dev" "tx_fifo d = tx_fifo dev" "fifo_depth d = fifo_depth dev"
    "dropped_frame_count d = dropped_frame_count dev" "synth_seq d = synth_seq dev"
    "heartbeat_count d = heartbeat_count dev" "hb_timeout_ms d = hb_timeout_ms dev"
    "kcalls d = kcalls dev @ [Trace (safety_timeout_detected (hb_timeout_ms dev) (timeout_count dev + 1))]"
  by (rule that [where d = "kcall (Trace (safety_timeout_detected (hb_timeout_ms dev) (timeout_count dev + 1)))
        (safety_timeline_record_locked (later e 1) SAFETY_TL_TIMEOUT 0
          (dev\<lparr>timeout_count := timeout_count dev + 1, state := SAFETY_LINK_HB_TIMEOUT,
            last_fault_type := SAFETY_FAULT_TASK_HANG, last_fault_detail := 1,
            last_fault_ts_ns := ktime_get_ns e 0, fault_count := fault_count dev + 1\<rparr>))"])
    (simp_all add: hb_timer_fn_def safety_recovery_schedule_def Let_def split_beta kcall_def)

lemma recovery_work_fn_unfold:
  obtains d where "recovery_work_fn K e dev = snd (safety_synth_recovery_report K (later e 1) 1 3 d)"
    "\<And>elems qwf. driver_inv K elems qwf dev \<Longrightarrow> driver_inv K elems qwf d"
    "state d = SAFETY_LINK_RECOVERING" "retry_count d = retry_count dev + 1"
    "rx_fifo d = rx_fifo dev" "tx_fifo d = tx_fifo dev" "fifo_depth d = fifo_depth dev"
    "dropped_frame_count d = dropped_frame_count dev" "synth_seq d = synth_seq dev"
    "heartbeat_count d = heartbeat_count dev" "hb_timeout_ms d = hb_timeout_ms dev"
    "kcalls d = kcalls dev @ [Trace (safety_recovery_queued (retry_count dev + 1))]"
  by (rule that [where d = "kcall (Trace (safety_recovery_queued (retry_count dev + 1)))
        (safety_timeline_record_locked e SAFETY_TL_RECOVERY 0
          (dev\<lparr>retry_count := retry_count dev + 1, state := SAFETY_LINK_RECOVERING\<rparr>))"])
    (simp_all add: recovery_work_fn_def Let_def split_beta kcall_def)

lemma demo_dev_inv:
  "driver_inv bounded_list snd blist_wf (ready_dev (2, []) (2, []) 2 1 350)"
  by (simp add: driver_inv_def ready_dev_def kzalloc_dev_def blist_wf_def bounded_list_def timeline_wf_def
      proto_const)

section \<open>Properties\<close>

text \<open>C10 (watchdog expiry).  When the heartbeat timer fires, the link is marked as timed out, timeout
  and fault are counted, the timer is not restarted and recovery work is scheduled.  If the RX
  queue has room, exactly one frame is appended to it: it validates and is a FAULT_EVENT reporting
  a task hang of severity 1 with detail code 1; if the queue is full, it is unchanged and the
  frame is counted as dropped.  The device invariant is kept.\<close>

theorem watchdog_expiry:
  assumes "kfifo K elems qwf" and "driver_inv K elems qwf dev" and "hb_timer_fn K e dev = (r, dev')"
  shows "r = HRTIMER_NORESTART \<and> driver_inv K elems qwf dev'
    \<and> state dev' = SAFETY_LINK_HB_TIMEOUT \<and> timeout_count dev' = timeout_count dev + 1
    \<and> fault_count dev' = fault_count dev + 1 \<and> last_fault_type dev' = SAFETY_FAULT_TASK_HANG
    \<and> last (kcalls dev') = Schedule_work \<and> tx_fifo dev' = tx_fifo dev
    \<and> (if length (elems (rx_fifo dev)) < unat (fifo_depth dev)
       then \<exists>s. elems (rx_fifo dev') = elems (rx_fifo dev) @ [s]
              \<and> safety_frame_validate (slot_data s) = SAFETY_VALIDATE_OK
              \<and> frame_type (header_of_bytes (slot_data s)) = SAFETY_FRAME_FAULT_EVENT
              \<and> fault_event_of_bytes (drop SAFETY_HEADER_SIZE (slot_data s)) =
                  \<lparr>fe_fault_type = SAFETY_FAULT_TASK_HANG, severity = 1, detail_code = 1,
                   fault_uptime_ms = safety_now_ms (ktime_get_ns e 2)\<rparr>
       else elems (rx_fifo dev') = elems (rx_fifo dev)
            \<and> dropped_frame_count dev' = dropped_frame_count dev + 1)"
proof (rule hb_timer_fn_unfold [where K = K and e = e and dev = dev])
  fix d
  assume d: "hb_timer_fn K e dev = (HRTIMER_NORESTART, kcall Schedule_work
      (snd (safety_synth_fault_event K (later e 2) SAFETY_FAULT_TASK_HANG 1 1 d)))"
    and inv: "\<And>elems qwf. driver_inv K elems qwf dev \<Longrightarrow> driver_inv K elems qwf d"
    and eqs: "state d = SAFETY_LINK_HB_TIMEOUT" "timeout_count d = timeout_count dev + 1"
      "fault_count d = fault_count dev + 1" "last_fault_type d = SAFETY_FAULT_TASK_HANG"
      "rx_fifo d = rx_fifo dev" "tx_fifo d = tx_fifo dev" "fifo_depth d = fifo_depth dev"
      "dropped_frame_count d = dropped_frame_count dev"
  note synth = driver.synth_fault_event [OF driver_kfifo [OF assms(1)] inv [OF assms(2)],
      of "later e 2" SAFETY_FAULT_TASK_HANG 1 1]
  show ?thesis
    using synth assms(3) fault_slot_frame [of "later e 2" "synth_seq d" SAFETY_FAULT_TASK_HANG 1 1]
    unfolding d synth_post_def eqs by (auto simp: kcall_def split: if_splits)
qed

theorem watchdog_expiry_witness:
  "let dev = ready_dev (2, []) (2, []) 2 1 350; dev' = snd (hb_timer_fn bounded_list kenv0 dev)
   in driver_inv bounded_list snd blist_wf dev' \<and> state dev' = SAFETY_LINK_HB_TIMEOUT
      \<and> (\<exists>s. snd (rx_fifo dev') = [s] \<and> safety_frame_validate (slot_data s) = SAFETY_VALIDATE_OK
            \<and> frame_type (header_of_bytes (slot_data s)) = SAFETY_FRAME_FAULT_EVENT)"
  using watchdog_expiry [OF kfifo_bounded_list demo_dev_inv prod.collapse [symmetric], of kenv0]
  by (auto simp: ready_dev_def kzalloc_dev_def Let_def)

text \<open>Recovery work.  One run of the recovery work marks the link as recovering, counts the
  attempt, and appends exactly one validating RECOVERY_REPORT (recovered, new state 3) to the RX
  queue if it has room, or counts it as dropped; the recovery tracepoint precedes that frame's
  own tracepoint, and neither the timer nor the work item is started.\<close>

theorem recovery_attempt:
  assumes "kfifo K elems qwf" and "driver_inv K elems qwf dev" and "recovery_work_fn K e dev = dev'"
  shows "driver_inv K elems qwf dev' \<and> state dev' = SAFETY_LINK_RECOVERING
    \<and> retry_count dev' = retry_count dev + 1 \<and> tx_fifo dev' = tx_fifo dev
    \<and> (\<exists>cs. kcalls dev' = kcalls dev @ Trace (safety_recovery_queued (retry_count dev + 1)) # cs
            \<and> Schedule_work \<notin> set cs \<and> (\<forall>ms. Hrtimer_start ms \<notin> set cs))
    \<and> (if length (elems (rx_fifo dev)) < unat (fifo_depth dev)
       then \<exists>s. elems (rx_fifo dev') = elems (rx_fifo dev) @ [s]
              \<and> safety_frame_validate (slot_data s) = SAFETY_VALIDATE_OK
              \<and> frame_type (header_of_bytes (slot_data s)) = SAFETY_FRAME_RECOVERY_REPORT
              \<and> recovery_report_of_bytes (drop SAFETY_HEADER_SIZE (slot_data s)) =
                  \<lparr>recovered = 1, new_state = 3, rr_reserved = 0,
                   recovery_uptime_ms = safety_now_ms (ktime_get_ns e 1)\<rparr>
       else elems (rx_fifo dev') = elems (rx_fifo dev)
            \<and> dropped_frame_count dev' = dropped_frame_count dev + 1)"
proof (rule recovery_work_fn_unfold [where K = K and e = e and dev = dev])
  fix d
  assume d: "recovery_work_fn K e dev = snd (safety_synth_recovery_report K (later e 1) 1 3 d)"
    and inv: "\<And>elems qwf. driver_inv K elems qwf dev \<Longrightarrow> driver_inv K elems qwf d"
    and eqs: "state d = SAFETY_LINK_RECOVERING" "retry_count d = retry_count dev + 1"
      "rx_fifo d = rx_fifo dev" "tx_fifo d = tx_fifo dev" "fifo_depth d = fifo_depth dev"
      "dropped_frame_count d = dropped_frame_count dev"
    and log: "kcalls d = kcalls dev @ [Trace (safety_recovery_queued (retry_count dev + 1))]"
  note synth = driver.synth_recovery_report [OF driver_kfifo [OF assms(1)] inv [OF assms(2)], of "later e 1" 1 3]
  let ?cs = "drop (length (kcalls d)) (kcalls dev')"
  have "kcalls dev' = kcalls d @ ?cs" and "\<forall>c\<in>set ?cs. (case c of Trace _ \<Rightarrow> True | Wake_up_rx \<Rightarrow> True | _ \<Rightarrow> False)"
    using synth(2) assms(3) append_take_drop_id [of "length (kcalls d)" "kcalls dev'"]
    unfolding d synth_post_def by (auto simp del: append_take_drop_id)
  then have "\<exists>cs. kcalls dev' = kcalls dev @ Trace (safety_recovery_queued (retry_count dev + 1)) # cs
            \<and> Schedule_work \<notin> set cs \<and> (\<forall>ms. Hrtimer_start ms \<notin> set cs)"
    using log by (intro exI [of _ ?cs]) auto
  then show ?thesis
    using synth assms(3) recovery_slot_frame [of "later e 1" "synth_seq d" 1 3]
    unfolding d synth_post_def eqs by (auto split: if_splits)
qed

theorem recovery_attempt_witness:
  "let dev = ready_dev (2, []) (2, []) 2 1 350; dev' = recovery_work_fn bounded_list kenv0 dev
   in driver_inv bounded_list snd blist_wf dev' \<and> state dev' = SAFETY_LINK_RECOVERING
      \<and> (\<exists>s. snd (rx_fifo dev') = [s] \<and> safety_frame_validate (slot_data s) = SAFETY_VALIDATE_OK
            \<and> frame_type (header_of_bytes (slot_data s)) = SAFETY_FRAME_RECOVERY_REPORT)"
  using recovery_attempt [OF kfifo_bounded_list demo_dev_inv refl, of kenv0]
  by (auto simp: ready_dev_def kzalloc_dev_def Let_def)

end
