(* ===== verification/Crc.thy ===== *)
theory Crc
  imports Protocol
begin

text \<open>
  CRC-32 of the protocol as mathematics: the branch-free loop of \<open>safety_crc32_step\<close> computes the
  remainder of the textbook long division over GF(2), and the update is linear and injective,
  from which error detection follows: no change confined to four consecutive bytes goes
  unnoticed by \<open>safety_frame_validate\<close>.
\<close>

unbundle bit_operations_syntax

section \<open>Reference definition\<close>

text \<open>Long division by the IEEE 802.3 generator, most significant coefficient first, the bits of
  each byte least significant first, the register preset to ones and complemented at the end.\<close>

definition byte_bits :: "u8 \<Rightarrow> bool list" where
  "byte_bits b = map (bit b) [0..<8]"

definition generator :: "bool list" where
  "generator = map (bit (0x04C11DB7 :: u32)) (rev [0..<32])"

fun division_step :: "bool list \<Rightarrow> bool \<Rightarrow> bool list" where
  "division_step (r # rs) x = (if r \<noteq> x then map2 (\<noteq>) (rs @ [False]) generator else rs @ [False])"
| "division_step [] x = []"

definition textbook_crc32 :: "bool list \<Rightarrow> bool list" where
  "textbook_crc32 msg = map Not (foldl division_step (replicate 32 True) msg)"

text \<open>The register of the division as bits of the reflected CRC word.\<close>

definition register :: "u32 \<Rightarrow> bool list" where
  "register c = map (bit c) [0..<32]"

text \<open>The loop fed bit by bit.\<close>

fun feed_bits :: "u32 \<Rightarrow> bool list \<Rightarrow> u32" where
  "feed_bits c [] = c"
| "feed_bits c (x # xs) = feed_bits (crc_bit (c XOR of_bool x)) xs"

definition bits_word :: "bool list \<Rightarrow> u32" where
  "bits_word xs = horner_sum of_bool 2 xs"

text \<open>The bytes that the checksum of a frame with an \<open>n\<close>-byte payload covers.\<close>

definition covered :: "bytes \<Rightarrow> nat \<Rightarrow> bytes" where
  "covered buf n = take 12 buf @ [0, 0, 0, 0] @ take n (drop 16 buf)"

section \<open>The update is linear and injective\<close>

lemma crc_bit_xor: "crc_bit (a XOR b) = crc_bit a XOR crc_bit b"
  by (rule bit_word_eqI) (auto simp: crc_bit_alt bit_simps)

lemma bit_crc_bit_31: "bit (crc_bit a) 31 \<longleftrightarrow> bit a 0"
  by (auto simp: crc_bit_alt bit_simps dest: bit_imp_le_length)

lemma crc_bit_inj: "crc_bit a = crc_bit b \<Longrightarrow> a = b"
proof -
  assume eq: "crc_bit a = crc_bit b"
  then have b0: "bit a 0 \<longleftrightarrow> bit b 0" by (metis bit_crc_bit_31)
  with eq have dr: "drop_bit 1 a = drop_bit 1 b"
    by (auto simp: crc_bit_alt split: if_splits)
  show "a = b"
  proof (rule bit_word_eqI)
    fix n assume "n < LENGTH(32)"
    show "bit a n = bit b n"
    proof (cases n)
      case 0 with b0 show ?thesis by simp
    next
      case (Suc m)
      from dr have "bit (drop_bit 1 a) m = bit (drop_bit 1 b) m" by simp
      with Suc show ?thesis by (simp add: bit_simps)
    qed
  qed
qed

lemma crc_bits_xor: "crc_bits k (a XOR b) = crc_bits k a XOR crc_bits k b"
  by (induction k arbitrary: a b) (simp_all add: crc_bit_xor)

lemma crc_bits_inj: "crc_bits k a = crc_bits k b \<Longrightarrow> a = b"
  by (induction k arbitrary: a b) (auto dest: crc_bit_inj)

lemma crc_bits_add: "crc_bits (j + k) a = crc_bits k (crc_bits j a)"
  by (induction j arbitrary: a) simp_all

lemma crc_bit_even: "\<not> bit a 0 \<Longrightarrow> crc_bit a = drop_bit 1 a"
  by (simp add: crc_bit_alt)

lemma crc_bits_push:
  "k \<le> 24 \<Longrightarrow> crc_bits k (push_bit k (ucast (b :: u8))) = ucast b"
proof (induction k)
  case 0 then show ?case by simp
next
  case (Suc k)
  have "crc_bit (push_bit (Suc k) (ucast b)) = drop_bit 1 (push_bit (Suc k) (ucast b))"
    by (rule crc_bit_even) (simp add: bit_push_bit_iff del: push_bit_Suc)
  also have "\<dots> = push_bit k (ucast b)"
    using Suc.prems by (intro bit_word_eqI) (auto simp: bit_simps simp del: push_bit_Suc dest: bit_u8_less)
  finally show ?case using Suc by simp
qed

lemma crc_step_inj: "safety_crc32_step c bs = safety_crc32_step d bs \<Longrightarrow> c = d"
proof (induction bs arbitrary: c d)
  case (Cons b bs)
  then have "crc_bits 8 (c XOR ucast b) = crc_bits 8 (d XOR ucast b)" by simp
  then have "c XOR ucast b = d XOR ucast b" by (rule crc_bits_inj)
  then show ?case by simp
qed simp

lemma crc_step_4:
  "safety_crc32_step c [b0, b1, b2, b3] = crc_bits 32 (c XOR (ucast b0 XOR push_bit 8 (ucast b1)
     XOR push_bit 16 (ucast b2) XOR push_bit 24 (ucast b3)))"
proof -
  have e: "crc_bits k x XOR ucast b = crc_bits k (x XOR push_bit k (ucast b))" if "k \<le> 24" for k x and b :: u8
    using that by (simp add: crc_bits_xor crc_bits_push)
  have "safety_crc32_step c [b0, b1, b2, b3] = crc_bits 8 (crc_bits 8 (crc_bits 8 (crc_bits 8 (c XOR ucast b0) XOR ucast b1) XOR ucast b2) XOR ucast b3)"
    by simp
  also have "\<dots> = crc_bits 32 (c XOR ucast b0 XOR push_bit 8 (ucast b1) XOR push_bit 16 (ucast b2) XOR push_bit 24 (ucast b3))"
    by (simp add: e xor.assoc flip: crc_bits_add)
  finally show ?thesis by (simp add: xor.assoc)
qed

lemma word4_inj:
  assumes "(ucast (a0::u8) :: u32) XOR push_bit 8 (ucast (a1::u8)) XOR push_bit 16 (ucast (a2::u8)) XOR push_bit 24 (ucast (a3::u8))
   = ucast b0 XOR push_bit 8 (ucast b1) XOR push_bit 16 (ucast b2) XOR push_bit 24 (ucast b3)"
  shows "a0 = b0 \<and> a1 = b1 \<and> a2 = b2 \<and> a3 = b3"
proof -
  let ?f = "\<lambda>a0 a1 a2 a3. (ucast (a0::u8) :: u32) XOR push_bit 8 (ucast (a1::u8)) XOR push_bit 16 (ucast (a2::u8)) XOR push_bit 24 (ucast (a3::u8))"
  have 0: "ucast (?f a0 a1 a2 a3) = a0" for a0 a1 a2 a3
    by (rule bit_word_eqI) (auto simp: bit_simps)
  have 1: "ucast (drop_bit 8 (?f a0 a1 a2 a3)) = a1" for a0 a1 a2 a3
    by (rule bit_word_eqI) (auto simp: bit_simps)
  have 2: "ucast (drop_bit 16 (?f a0 a1 a2 a3)) = a2" for a0 a1 a2 a3
    by (rule bit_word_eqI) (auto simp: bit_simps)
  have 3: "ucast (drop_bit 24 (?f a0 a1 a2 a3)) = a3" for a0 a1 a2 a3
    by (rule bit_word_eqI) (auto simp: bit_simps)
  show ?thesis using assms 0 1 2 3 by metis
qed

lemma crc_step_4_inj:
  assumes "length as = 4" and "length bs = 4"
    and "safety_crc32_step c as = safety_crc32_step c bs"
  shows "as = bs"
proof -
  obtain a0 a1 a2 a3 where as: "as = [a0, a1, a2, a3]" using list4 [OF assms(1)] by blast
  obtain b0 b1 b2 b3 where bs: "bs = [b0, b1, b2, b3]" using list4 [OF assms(2)] by blast
  have "c XOR ((ucast a0::u32) XOR push_bit 8 (ucast a1) XOR push_bit 16 (ucast a2) XOR push_bit 24 (ucast a3))
      = c XOR (ucast b0 XOR push_bit 8 (ucast b1) XOR push_bit 16 (ucast b2) XOR push_bit 24 (ucast b3))"
    using assms(3) unfolding as bs crc_step_4 by (rule crc_bits_inj)
  then have "(ucast a0::u32) XOR push_bit 8 (ucast a1) XOR push_bit 16 (ucast a2) XOR push_bit 24 (ucast a3)
      = ucast b0 XOR push_bit 8 (ucast b1) XOR push_bit 16 (ucast b2) XOR push_bit 24 (ucast b3)"
    by (simp only: xor_left_cancel)
  from word4_inj [OF this] show ?thesis by (simp add: as bs)
qed

lemma crc_burst:
  assumes "agree_outside k 4 xs ys" and "k + 4 \<le> length xs"
    and "safety_crc32_step c xs = safety_crc32_step c ys"
  shows "xs = ys"
proof -
  from assms(1,2) obtain p a b s where s: "xs = p @ a @ s" "ys = p @ b @ s" "length a = 4" "length b = 4"
    by (rule agree_outside_split)
  from assms(3) have "safety_crc32_step (safety_crc32_step c p) a = safety_crc32_step (safety_crc32_step c p) b"
    unfolding s crc_step_append by (rule crc_step_inj)
  with s have "a = b" by (intro crc_step_4_inj)
  with s show ?thesis by simp
qed

lemma crc_burst_le:
  assumes "agree_outside k n xs ys" and "n \<le> 4" and "k + n \<le> length xs" and "4 \<le> length xs"
    and "safety_crc32_step c xs = safety_crc32_step c ys"
  shows "xs = ys"
proof (rule crc_burst)
  let ?k = "min k (length xs - 4)"
  show "agree_outside ?k 4 xs ys" using assms(1-4) unfolding agree_outside_nth by (auto simp: min_def split: if_splits)
  show "?k + 4 \<le> length xs" using assms(4) by simp
qed (fact assms(5))

section \<open>The loop is long division\<close>

lemma bit_bits_word: "bit (bits_word xs) n \<longleftrightarrow> n < 32 \<and> n < length xs \<and> xs ! n"
  by (auto simp: bits_word_def bit_horner_sum_bit_word_iff)

lemma bits_word_Cons: "bits_word (x # xs) = of_bool x XOR push_bit 1 (bits_word xs)"
  by (rule bit_word_eqI)
     (auto simp: bit_bits_word bit_simps nth_Cons simp del: push_bit_Suc One_nat_def split: nat.splits)

lemma crc_bit_push: "length xs < 32 \<Longrightarrow> crc_bit (push_bit 1 (bits_word xs)) = bits_word xs"
  by (subst crc_bit_even)
     (auto intro!: bit_word_eqI simp: bit_bits_word bit_simps simp del: push_bit_Suc)

lemma feed_bits_crc_bits: "length xs \<le> 32 \<Longrightarrow> feed_bits c xs = crc_bits (length xs) (c XOR bits_word xs)"
proof (induction xs arbitrary: c)
  case (Cons x xs)
  have "crc_bit (c XOR bits_word (x # xs)) = crc_bit (c XOR of_bool x) XOR bits_word xs"
    using Cons.prems by (simp add: bits_word_Cons crc_bit_xor crc_bit_push[simplified] flip: xor.assoc)
  with Cons show ?case by simp
qed (simp add: bits_word_def)

lemma bits_word_byte_bits: "bits_word (byte_bits b) = ucast b"
proof (rule bit_word_eqI)
  fix n show "bit (bits_word (byte_bits b)) n = bit (ucast b :: u32) n"
    by (cases "n < 8") (auto simp: bit_bits_word byte_bits_def bit_simps)
qed

lemma feed_bits_append: "feed_bits c (xs @ ys) = feed_bits (feed_bits c xs) ys"
  by (induction xs arbitrary: c) simp_all

lemma crc_step_feed_bits: "safety_crc32_step c bs = feed_bits c (concat (map byte_bits bs))"
proof (induction bs arbitrary: c)
  case (Cons b bs)
  have "feed_bits c (byte_bits b) = crc_bits 8 (c XOR ucast b)"
    by (subst feed_bits_crc_bits) (simp_all add: bits_word_byte_bits byte_bits_def[of b, THEN arg_cong[of _ _ length], simplified])
  with Cons show ?case by (simp add: feed_bits_append)
qed simp

lemma length_register [simp]: "length (register c) = 32" by (simp add: register_def)
lemma length_generator [simp]: "length generator = 32" by (simp add: generator_def)

lemma nth_register [simp]: "i < 32 \<Longrightarrow> register c ! i = bit c i" by (simp add: register_def)

lemma generator_reflected: "i < 32 \<Longrightarrow> generator ! i = bit (0xEDB88320 :: u32) i"
proof -
  have "generator = map (bit (0xEDB88320 :: u32)) [0..<32]"
    unfolding generator_def by (simp add: upt_rec)
  then show "i < 32 \<Longrightarrow> generator ! i = bit (0xEDB88320 :: u32) i"
    by (metis add_0 diff_zero nth_map_upt)
qed

lemma register_Cons: "register c = bit c 0 # map (bit c) [1..<32]"
  by (simp add: register_def upt_rec)

lemma division_step_register: "division_step (register c) x = register (crc_bit (c XOR of_bool x))"
proof -
  let ?s = "map (bit c) [1..<32] @ [False]"
  have s: "?s ! i = bit (drop_bit 1 (c XOR of_bool x)) i" if "i < 32" for i
    using that by (cases "i < 31") (auto simp: nth_append bit_simps dest: bit_imp_le_length)
  have l: "length ?s = 32" by simp
  have b0: "bit (c XOR of_bool x) 0 \<longleftrightarrow> bit c 0 \<noteq> x" by (simp add: bit_simps)
  have "division_step (register c) x = (if bit c 0 \<noteq> x then map2 (\<noteq>) ?s generator else ?s)"
    by (simp add: register_Cons)
  also have "\<dots> = register (crc_bit (c XOR of_bool x))"
    unfolding crc_bit_alt b0 using s l
    by (auto intro!: nth_equalityI simp: generator_reflected bit_xor_iff simp del: upt_rec)
  finally show ?thesis .
qed

lemma division_feed: "foldl division_step (register c) xs = register (feed_bits c xs)"
  by (induction xs arbitrary: c) (simp_all add: division_step_register)

text \<open>C7 (CRC-32 is the textbook division).  Bit by bit, the checksum that the branch-free loop computes
  is the remainder of long division by the IEEE 802.3 generator polynomial.\<close>

theorem crc32_textbook: "register (safety_crc32 bs) = textbook_crc32 (concat (map byte_bits bs))"
proof -
  have "register 0xFFFFFFFF = replicate 32 True"
    by (simp add: register_def upt_rec numeral_eq_Suc)
  moreover have "register (c XOR 0xFFFFFFFF) = map Not (register c)" for c
  proof -
    have ones: "(0xFFFFFFFF :: u32) = - 1" by simp
    show ?thesis unfolding ones by (rule nth_equalityI) (auto simp: bit_simps)
  qed
  ultimately show ?thesis
    by (simp add: textbook_crc32_def safety_crc32_def crc_step_feed_bits flip: division_feed)
qed
section \<open>Corrupted frames\<close>

lemma header_zero_checksum:
  assumes "16 \<le> length bs"
  shows "header_bytes ((header_of_bytes bs)\<lparr>checksum := 0\<rparr>) = take 12 bs @ [0, 0, 0, 0]"
proof -
  have "take 12 bs = take 12 (header_bytes (header_of_bytes bs))"
    using assms by (simp add: hdr.enc_dec min_def)
  also have "\<dots> = take 12 (header_bytes ((header_of_bytes bs)\<lparr>checksum := 0\<rparr>))"
    by (simp add: header_bytes_def)
  finally show ?thesis
    by (simp add: header_bytes_def le32_def)
qed

lemma nth_covered:
  assumes "16 + n \<le> length buf" and "i < 16 + n"
  shows "covered buf n ! i = (if 12 \<le> i \<and> i < 16 then 0 else buf ! i)"
proof -
  consider "i < 12" | "i = 12" | "i = 13" | "i = 14" | "i = 15" | "16 \<le> i" by linarith
  then show ?thesis using assms by cases (simp_all add: covered_def nth_append)
qed

lemma validate_covered:
  assumes "safety_frame_validate buf = SAFETY_VALIDATE_OK"
  defines "n \<equiv> unat (payload_length (header_of_bytes buf))"
  shows "get32 buf 12 = safety_crc32 (covered buf n)" and "16 + n \<le> length buf"
proof -
  show l: "16 + n \<le> length buf" using validate_OK_D(1) [OF assms(1)] by (simp add: n_def)
  have "checksum (header_of_bytes buf) = get32 buf 12" by (simp add: header_of_bytes_def)
  then show "get32 buf 12 = safety_crc32 (covered buf n)"
    using validate_OK_D(3) [OF assms(1)] l
    by (simp add: n_def covered_def header_zero_checksum)
qed

lemma validate_detects_burst_lemma:
  assumes ok: "safety_frame_validate buf = SAFETY_VALIDATE_OK"
    and agree: "agree_outside k n buf buf'" and n: "n \<le> 4"
    and inside: "k + n \<le> SAFETY_HEADER_SIZE + unat (payload_length (header_of_bytes buf))"
    and fields: "k + n \<le> 6 \<or> 8 \<le> k \<and> k + n \<le> 12 \<or> 12 \<le> k \<and> k + n \<le> 16 \<or> 16 \<le> k"
    and diff: "buf' \<noteq> buf"
  shows "safety_frame_validate buf' \<noteq> SAFETY_VALIDATE_OK"
proof
  assume ok': "safety_frame_validate buf' = SAFETY_VALIDATE_OK"
  define m where "m = unat (payload_length (header_of_bytes buf))"
  note c = validate_covered [OF ok, folded m_def]
  have len: "length buf' = length buf" and out: "i < length buf \<Longrightarrow> i < k \<or> k + n \<le> i \<Longrightarrow> buf ! i = buf' ! i" for i
    using agree by (auto simp: agree_outside_nth)
  have "payload_length (header_of_bytes buf') = payload_length (header_of_bytes buf)"
    using out [of 6] out [of 7] fields c(2) by (auto simp: header_of_bytes_def get16_def)
  then have c': "get32 buf' 12 = safety_crc32 (covered buf' m)"
    using validate_covered(1) [OF ok'] by (simp add: m_def)
  have lc: "length (covered b m) = 16 + m" if "16 + m \<le> length b" for b
    using that by (simp add: covered_def)
  have same: "buf' = buf" if eq: "covered buf m = covered buf' m" and cs: "get32 buf 12 = get32 buf' 12"
  proof (rule nth_equalityI)
    fix i assume i: "i < length buf'"
    consider "12 \<le> i" "i < 16" | "i < 12 \<or> 16 \<le> i" "i < 16 + m" | "16 + m \<le> i" by linarith
    then show "buf' ! i = buf ! i"
    proof cases
      case 1 with get32_eq_nth [OF cs, of "i - 12"] c(2) len show ?thesis by simp
    next
      case 2 with arg_cong [OF eq, of "\<lambda>x. x ! i"] c(2) len show ?thesis by (auto simp: nth_covered)
    next
      case 3 with out [of i] i len inside show ?thesis by (simp add: m_def SAFETY_HEADER_SIZE_def)
    qed
  qed (fact len)
  show False
  proof (cases "12 \<le> k \<and> k + n \<le> 16")
    case True
    then have "covered buf m = covered buf' m"
      using c(2) len out by (intro nth_equalityI) (auto simp: lc nth_covered)
    with same c(1) c' diff show False by simp
  next
    case False
    then have "get32 buf 12 = get32 buf' 12"
      using fields out [of 12] out [of 13] out [of 14] out [of 15] c(2) by (auto simp: get32_def)
    moreover have "agree_outside k n (covered buf m) (covered buf' m)"
      using c(2) len out by (auto simp: agree_outside_nth lc nth_covered)
    then have "covered buf m = covered buf' m"
    proof (rule crc_burst_le)
      show "k + n \<le> length (covered buf m)" "4 \<le> length (covered buf m)"
        using inside unfolding lc [OF c(2)] by (simp_all add: m_def SAFETY_HEADER_SIZE_def)
      show "safety_crc32_step 0xFFFFFFFF (covered buf m) = safety_crc32_step 0xFFFFFFFF (covered buf' m)"
        using calculation c(1) c' by (simp add: safety_crc32_def)
    qed (fact n)
    ultimately show False using same diff by simp
  qed
qed

text \<open>C8 (error detection).  If a frame validates and the bytes of a window of at most four bytes of it
  are changed, the window lying within the first six bytes (magic, version, type, sequence number), the time
  stamp, the checksum or the payload, the changed frame does not validate.  The two bytes of the payload
  length are left out: they decide over which bytes the checksum is computed, and with another length
  the frame can still validate.\<close>

theorem validate_detects_burst:
  assumes ok: "safety_frame_validate buf = SAFETY_VALIDATE_OK"
    and agree: "agree_outside k n buf buf'" and n: "n \<le> 4"
    and inside: "k + n \<le> SAFETY_HEADER_SIZE + unat (payload_length (header_of_bytes buf))"
    and fields: "k + n \<le> 6 \<or> 8 \<le> k \<and> k + n \<le> 12 \<or> 12 \<le> k \<and> k + n \<le> 16 \<or> 16 \<le> k"
    and diff: "buf' \<noteq> buf"
  shows "safety_frame_validate buf' \<noteq> SAFETY_VALIDATE_OK"
  using assms by (rule validate_detects_burst_lemma)

theorem validate_detects_burst_witness:
  "safety_frame_validate ((wire_frame (safety_frame_init SAFETY_FRAME_ACK 1 4 5) [9, 0, 0, 0])[17 := 1])
     \<noteq> SAFETY_VALIDATE_OK"
proof -
  let ?f = "wire_frame (safety_frame_init SAFETY_FRAME_ACK 1 4 5) [9, 0, 0, 0]"
  have ok: "safety_frame_validate ?f = SAFETY_VALIDATE_OK"
    by (rule validate_wire_frame) (simp add: header_ok_def SAFETY_MAX_PAYLOAD_def)
  have f: "?f ! 17 = 0" by (simp add: wire_frame_def nth_append)
  have "?f[17 := 1] ! 17 \<noteq> ?f ! 17" by (simp add: f)
  then have "?f[17 := 1] \<noteq> ?f" by metis
  then show ?thesis
    using validate_detects_burst [OF ok, of 17 1 "?f[17 := 1]"]
    by (simp add: agree_outside_nth proto_const)
qed

end
