(* ===== verification/Driver_Chrdev.thy ===== *)
theory Driver_Chrdev
  imports Driver_Timer Crc
begin

text \<open>
  The character device (\<open>safety_copro_chrdev.c\<close>, \<open>safety_copro_ioctl.h\<close>): the receive path of the
  link daemon, \<open>write\<close>, \<open>read\<close>, \<open>poll\<close> and the ioctl commands.  What \<open>copy_from_user\<close> reads is an
  argument, \<open>None\<close> when the copy faults; \<open>copy_to_user\<close> succeeds or not by a flag, and what it
  copies is part of the result.
\<close>

section \<open>Definitions\<close>

subsection \<open>Receive path of the link daemon\<close>

definition record_proto_error :: "safety_validate_result \<Rightarrow> 'q safety_copro_dev \<Rightarrow> 'q safety_copro_dev" where
  "record_proto_error vres dev =
     (let dev = dev\<lparr>protocol_error_count := protocol_error_count dev + 1, last_proto_err := vres\<rparr>
      in case vres of
           SAFETY_VALIDATE_BAD_MAGIC \<Rightarrow> dev\<lparr>proto_err_magic := proto_err_magic dev + 1\<rparr>
         | SAFETY_VALIDATE_BAD_VERSION \<Rightarrow> dev\<lparr>proto_err_version := proto_err_version dev + 1\<rparr>
         | SAFETY_VALIDATE_BAD_LENGTH \<Rightarrow> dev\<lparr>proto_err_length := proto_err_length dev + 1\<rparr>
         | SAFETY_VALIDATE_BAD_CHECKSUM \<Rightarrow> dev\<lparr>proto_err_checksum := proto_err_checksum dev + 1\<rparr>
         | _ \<Rightarrow> dev)"

definition record_drop :: "kenv \<Rightarrow> u16 \<Rightarrow> u8 \<Rightarrow> 'q safety_copro_dev \<Rightarrow> 'q safety_copro_dev" where
  "record_drop e seq ty dev =
     (let dev = dev\<lparr>dropped_frame_count := dropped_frame_count dev + 1\<rparr>;
          dev = safety_percpu_inc_dropped e dev
      in kcall (Trace (safety_frame_dropped seq ty)) dev)"

definition queue_rx_from_linkd :: "(safety_fifo_slot, 'q) kfifo_ops \<Rightarrow> kenv \<Rightarrow> bytes \<Rightarrow> nat
    \<Rightarrow> 'q safety_copro_dev \<Rightarrow> unit result \<times> 'q safety_copro_dev" where
  "queue_rx_from_linkd K e frame count dev =
     (if count < SAFETY_HEADER_SIZE then (Inl EINVAL, dev)
      else if SAFETY_MAX_FRAME_SIZE < count then (Inl EMSGSIZE, dev)
      else let hdr = header_of_bytes (take SAFETY_HEADER_SIZE frame);
               seq = sequence_id hdr; ty = frame_type hdr in
      if magic hdr \<noteq> SAFETY_PROTO_MAGIC
      then (Inl EINVAL, record_proto_error SAFETY_VALIDATE_BAD_MAGIC dev)
      else if version hdr \<noteq> SAFETY_PROTO_VERSION
      then (Inl EINVAL, record_proto_error SAFETY_VALIDATE_BAD_VERSION dev)
      else if SAFETY_MAX_PAYLOAD < unat (payload_length hdr)
      then (Inl EINVAL, record_proto_error SAFETY_VALIDATE_BAD_LENGTH dev)
      else let expected = SAFETY_HEADER_SIZE + unat (payload_length hdr) in
      if count \<noteq> expected
      then (Inl EINVAL, record_proto_error SAFETY_VALIDATE_BAD_LENGTH dev)
      else let vres = safety_frame_validate (take count frame) in
      if vres \<noteq> SAFETY_VALIDATE_OK \<and> vres \<noteq> SAFETY_VALIDATE_BAD_CHECKSUM
      then (Inl EINVAL, record_proto_error vres dev)
      else let dev = (if vres = SAFETY_VALIDATE_BAD_CHECKSUM then record_proto_error vres dev else dev);
               (rc, dev) = safety_fifo_push_frame K e frame (of_nat count) seq ty
                 (if ty = SAFETY_FRAME_HEARTBEAT then SAFETY_TL_HEARTBEAT else SAFETY_TL_FRAME_RX) dev in
      if rc = Inl ENOSPC then (Inl ENOSPC, record_drop e seq ty dev)
      else case rc of Inl err \<Rightarrow> (Inl err, dev)
      | Inr _ \<Rightarrow>
        if vres = SAFETY_VALIDATE_OK \<and> ty = SAFETY_FRAME_HEARTBEAT
        then (Inr (), safety_timer_rearm
               (dev\<lparr>heartbeat_count := heartbeat_count dev + 1, state := SAFETY_LINK_HB_OK\<rparr>))
        else (Inr (), dev))"

subsection \<open>write, read and poll\<close>

text \<open>\<open>safety_write\<close>: \<open>ubuf\<close> is what the user buffer of \<open>count\<close> bytes holds.\<close>

definition safety_write :: "(safety_fifo_slot, 'q) kfifo_ops \<Rightarrow> kenv \<Rightarrow> bytes option \<Rightarrow> nat
    \<Rightarrow> 'q safety_copro_dev \<Rightarrow> nat result \<times> 'q safety_copro_dev" where
  "safety_write K e ubuf count dev =
     (if count < SAFETY_HEADER_SIZE then (Inl EINVAL, dev)
      else if SAFETY_MAX_FRAME_SIZE < count then (Inl EMSGSIZE, dev)
      else case ubuf of None \<Rightarrow> (Inl EFAULT, dev)
      | Some frame \<Rightarrow>
        let vres = safety_frame_validate (take count frame) in
        if vres \<noteq> SAFETY_VALIDATE_OK then (Inl EINVAL, record_proto_error vres dev)
        else let hdr = header_of_bytes (take SAFETY_HEADER_SIZE frame);
                 seq = sequence_id hdr; ty = frame_type hdr;
                 (rc, dev) = safety_fifo_push_tx_frame K e frame (of_nat count) seq ty dev in
        if rc = Inl ENOSPC then (Inl EAGAIN, record_drop e seq ty dev)
        else case rc of Inl err \<Rightarrow> (Inl err, dev) | Inr _ \<Rightarrow> (Inr count, dev))"

text \<open>A blocking reader sleeps in \<open>wait_event_interruptible\<close>.  It returns because of a signal, or
  because the queue was seen non-empty; either way with the device as the other threads left it.
  The list holds the returns of successive sleeps, and \<open>None\<close> means the reader still sleeps.\<close>

datatype 'd wait_return = Interrupted 'd | Woken 'd

fun safety_read_loop :: "(safety_fifo_slot, 'q) kfifo_ops \<Rightarrow> bool \<Rightarrow> 'q safety_copro_dev wait_return list
    \<Rightarrow> 'q safety_copro_dev \<Rightarrow> ((u16 \<times> safety_fifo_slot) result \<times> 'q safety_copro_dev) option" where
  "safety_read_loop K nonblock waits dev =
     (case safety_fifo_pop_frame K dev of (len, slot, dev) \<Rightarrow>
        if len \<noteq> 0 then Some (Inr (len, the slot), dev)
        else if nonblock then Some (Inl EAGAIN, dev)
        else case waits of
          [] \<Rightarrow> None
        | Interrupted dev # _ \<Rightarrow> Some (Inl ERESTARTSYS, dev)
        | Woken dev # waits \<Rightarrow> safety_read_loop K nonblock waits dev)"

declare safety_read_loop.simps [simp del]

definition safety_read :: "(safety_fifo_slot, 'q) kfifo_ops \<Rightarrow> bool \<Rightarrow> 'q safety_copro_dev wait_return list
    \<Rightarrow> nat \<Rightarrow> bool \<Rightarrow> 'q safety_copro_dev \<Rightarrow> (bytes result \<times> 'q safety_copro_dev) option" where
  "safety_read K nonblock waits count copy_ok dev =
     (case safety_read_loop K nonblock waits dev of
        None \<Rightarrow> None
      | Some (Inl err, dev) \<Rightarrow> Some (Inl err, dev)
      | Some (Inr (len, slot), dev) \<Rightarrow>
          if count < unat len then Some (Inl EINVAL, dev)
          else if \<not> copy_ok then Some (Inl EFAULT, dev)
          else Some (Inr (take (unat len) (slot_data slot)), dev))"

definition EPOLLIN :: u32 where "EPOLLIN = 0x001"
definition EPOLLPRI :: u32 where "EPOLLPRI = 0x002"
definition EPOLLRDNORM :: u32 where "EPOLLRDNORM = 0x040"

definition safety_poll :: "(safety_fifo_slot, 'q) kfifo_ops \<Rightarrow> 'q safety_copro_dev \<Rightarrow> u32 \<times> 'q safety_copro_dev" where
  "safety_poll K dev =
     (let mask = 0;
          (mask, dev) = (if 0 < safety_fifo_len K dev
             then let mask = mask OR (EPOLLIN OR EPOLLRDNORM)
                  in (mask, kcall (Trace (safety_poll_wakeup mask)) dev)
             else (mask, dev));
          mask = (if 0 < safety_tx_fifo_len K dev then mask OR EPOLLPRI else mask)
      in (mask, dev))"

subsection \<open>ioctl\<close>

record safety_copro_stats =
  st_current_state :: u32
  st_heartbeat_count :: u32
  st_fault_count :: u32
  st_dropped_frame_count :: u32
  st_timeout_count :: u32
  st_retry_count :: u32
  st_protocol_error_count :: u32
  st_rx_frames_total :: u32
  st_rx_queue_depth :: u32
  st_tx_queue_depth :: u32

record safety_copro_frame_io =
  io_len :: u32
  io_data :: bytes

text \<open>The user memory an ioctl argument points to: what a copy of each type reads from it, and
  whether it can be written.\<close>

record user_arg =
  arg_u32 :: "u32 option"
  arg_frame :: "safety_copro_frame_io option"
  arg_writable :: bool

text \<open>What an ioctl copied to the user.\<close>

datatype ioc_out = Out_none | Out_stats safety_copro_stats | Out_u32 u32 | Out_frame safety_copro_frame_io

definition ioc_get_stats :: "(safety_fifo_slot, 'q) kfifo_ops \<Rightarrow> user_arg
    \<Rightarrow> 'q safety_copro_dev \<Rightarrow> ioc_out result \<times> 'q safety_copro_dev" where
  "ioc_get_stats K arg dev =
     (let sum = safety_percpu_sum dev;
          st = \<lparr>st_current_state = of_nat (link_state_code (state dev)),
                st_heartbeat_count = heartbeat_count dev, st_fault_count = fault_count dev,
                st_dropped_frame_count = dropped_frame_count dev, st_timeout_count = timeout_count dev,
                st_retry_count = retry_count dev, st_protocol_error_count = protocol_error_count dev,
                st_rx_frames_total = ucast (rx_frames sum), st_rx_queue_depth = safety_fifo_len K dev,
                st_tx_queue_depth = safety_tx_fifo_len K dev\<rparr>
      in if \<not> arg_writable arg then (Inl EFAULT, dev) else (Inr (Out_stats st), dev))"

definition ioc_reset_stats :: "'q safety_copro_dev \<Rightarrow> ioc_out result \<times> 'q safety_copro_dev" where
  "ioc_reset_stats dev =
     (let dev = dev\<lparr>heartbeat_count := 0, fault_count := 0, dropped_frame_count := 0,
                    timeout_count := 0, retry_count := 0, protocol_error_count := 0,
                    fifo_high_watermark := 0, proto_err_magic := 0, proto_err_version := 0,
                    proto_err_length := 0, proto_err_checksum := 0,
                    last_proto_err := SAFETY_VALIDATE_OK, last_fault_type := SAFETY_FAULT_NONE,
                    last_fault_detail := 0, last_fault_ts_ns := 0,
                    timeline_head := 0, timeline_filled := 0\<rparr>
      in (Inr Out_none, safety_percpu_reset dev))"

definition ioc_set_hb_timeout :: "user_arg \<Rightarrow> 'q safety_copro_dev \<Rightarrow> ioc_out result \<times> 'q safety_copro_dev" where
  "ioc_set_hb_timeout arg dev =
     (case arg_u32 arg of None \<Rightarrow> (Inl EFAULT, dev)
      | Some ms \<Rightarrow> if ms = 0 then (Inl EINVAL, dev)
                   else (Inr Out_none, safety_timer_rearm (dev\<lparr>hb_timeout_ms := ms\<rparr>)))"

definition ioc_get_state :: "user_arg \<Rightarrow> 'q safety_copro_dev \<Rightarrow> ioc_out result \<times> 'q safety_copro_dev" where
  "ioc_get_state arg dev =
     (let st = of_nat (link_state_code (state dev))
      in if \<not> arg_writable arg then (Inl EFAULT, dev) else (Inr (Out_u32 st), dev))"

definition ioc_inject_fault :: "(safety_fifo_slot, 'q) kfifo_ops \<Rightarrow> kenv \<Rightarrow> user_arg
    \<Rightarrow> 'q safety_copro_dev \<Rightarrow> ioc_out result \<times> 'q safety_copro_dev" where
  "ioc_inject_fault K e arg dev =
     (case arg_u32 arg of None \<Rightarrow> (Inl EFAULT, dev)
      | Some ft \<Rightarrow>
        let dev = dev\<lparr>fault_count := fault_count dev + 1, last_fault_type := ucast ft,
                      last_fault_detail := 0, last_fault_ts_ns := ktime_get_ns e 0\<rparr>;
            (_, dev) = safety_synth_fault_event K (later e 1) (ucast ft) 2 0 dev
        in (Inr Out_none, dev))"

definition ioc_push_rx_frame :: "(safety_fifo_slot, 'q) kfifo_ops \<Rightarrow> kenv \<Rightarrow> user_arg
    \<Rightarrow> 'q safety_copro_dev \<Rightarrow> ioc_out result \<times> 'q safety_copro_dev" where
  "ioc_push_rx_frame K e arg dev =
     (case arg_frame arg of None \<Rightarrow> (Inl EFAULT, dev)
      | Some io \<Rightarrow>
        if SAFETY_MAX_FRAME_SIZE < unat (io_len io) then (Inl EMSGSIZE, dev)
        else case queue_rx_from_linkd K e (io_data io) (unat (io_len io)) dev of
               (Inl err, dev) \<Rightarrow> (Inl err, dev) | (Inr _, dev) \<Rightarrow> (Inr Out_none, dev))"

definition ioc_pop_tx_frame :: "(safety_fifo_slot, 'q) kfifo_ops \<Rightarrow> user_arg
    \<Rightarrow> 'q safety_copro_dev \<Rightarrow> ioc_out result \<times> 'q safety_copro_dev" where
  "ioc_pop_tx_frame K arg dev =
     (case safety_fifo_pop_tx_frame K dev of (len, slot, dev) \<Rightarrow>
        if len = 0 then (Inl EAGAIN, dev)
        else let io = \<lparr>io_len = ucast len, io_data =
                memcpy_at (replicate SAFETY_MAX_FRAME_SIZE 0) 0 (take (unat len) (slot_data (the slot)))\<rparr>
             in if \<not> arg_writable arg then (Inl EFAULT, dev) else (Inr (Out_frame io), dev))"

text \<open>A command number is the four fields that \<open>_IOC\<close> packs: direction, type, number and size.\<close>

datatype ioc_dir = IOC_NONE | IOC_READ | IOC_WRITE | IOC_READ_WRITE

record ioc_cmd =
  IOC_DIR :: ioc_dir
  IOC_TYPE :: u8
  IOC_NR :: u8
  IOC_SIZE :: nat

definition SAFETY_IOC_MAGIC :: u8 where "SAFETY_IOC_MAGIC = 0x53"

definition mk_ioc :: "ioc_dir \<Rightarrow> u8 \<Rightarrow> nat \<Rightarrow> ioc_cmd" where
  "mk_ioc d nr sz = \<lparr>IOC_DIR = d, IOC_TYPE = SAFETY_IOC_MAGIC, IOC_NR = nr, IOC_SIZE = sz\<rparr>"

definition SAFETY_IOC_GET_STATS :: ioc_cmd where "SAFETY_IOC_GET_STATS = mk_ioc IOC_READ 1 40"
definition SAFETY_IOC_RESET_STATS :: ioc_cmd where "SAFETY_IOC_RESET_STATS = mk_ioc IOC_NONE 2 0"
definition SAFETY_IOC_SET_HB_TIMEOUT_MS :: ioc_cmd where "SAFETY_IOC_SET_HB_TIMEOUT_MS = mk_ioc IOC_WRITE 3 4"
definition SAFETY_IOC_GET_STATE :: ioc_cmd where "SAFETY_IOC_GET_STATE = mk_ioc IOC_READ 4 4"
definition SAFETY_IOC_FORCE_RECOVERY :: ioc_cmd where "SAFETY_IOC_FORCE_RECOVERY = mk_ioc IOC_NONE 5 0"
definition SAFETY_IOC_INJECT_FAULT :: ioc_cmd where "SAFETY_IOC_INJECT_FAULT = mk_ioc IOC_WRITE 6 4"
definition SAFETY_IOC_PUSH_RX_FRAME :: ioc_cmd where "SAFETY_IOC_PUSH_RX_FRAME = mk_ioc IOC_WRITE 7 276"
definition SAFETY_IOC_POP_TX_FRAME :: ioc_cmd where "SAFETY_IOC_POP_TX_FRAME = mk_ioc IOC_READ 8 276"
definition SAFETY_IOC_MAXNR :: u8 where "SAFETY_IOC_MAXNR = 8"

definition safety_ioctl :: "(safety_fifo_slot, 'q) kfifo_ops \<Rightarrow> kenv \<Rightarrow> ioc_cmd \<Rightarrow> user_arg
    \<Rightarrow> 'q safety_copro_dev \<Rightarrow> ioc_out result \<times> 'q safety_copro_dev" where
  "safety_ioctl K e cmd arg dev =
     (if IOC_TYPE cmd \<noteq> SAFETY_IOC_MAGIC then (Inl ENOTTY, dev)
      else if SAFETY_IOC_MAXNR < IOC_NR cmd then (Inl ENOTTY, dev)
      else if cmd = SAFETY_IOC_GET_STATS then ioc_get_stats K arg dev
      else if cmd = SAFETY_IOC_RESET_STATS then ioc_reset_stats dev
      else if cmd = SAFETY_IOC_SET_HB_TIMEOUT_MS then ioc_set_hb_timeout arg dev
      else if cmd = SAFETY_IOC_GET_STATE then ioc_get_state arg dev
      else if cmd = SAFETY_IOC_FORCE_RECOVERY then (Inr Out_none, safety_recovery_schedule dev)
      else if cmd = SAFETY_IOC_INJECT_FAULT then ioc_inject_fault K e arg dev
      else if cmd = SAFETY_IOC_PUSH_RX_FRAME then ioc_push_rx_frame K e arg dev
      else if cmd = SAFETY_IOC_POP_TX_FRAME then ioc_pop_tx_frame K arg dev
      else (Inl ENOTTY, dev))"

subsection \<open>Specification\<close>

text \<open>The header of a received buffer is usable and announces the buffer's own length.\<close>

definition rx_header_fits :: "bytes \<Rightarrow> bool" where
  "rx_header_fits f \<longleftrightarrow> (let h = header_of_bytes f in
     magic h = SAFETY_PROTO_MAGIC \<and> version h = SAFETY_PROTO_VERSION
     \<and> unat (payload_length h) \<le> SAFETY_MAX_PAYLOAD
     \<and> length f = SAFETY_HEADER_SIZE + unat (payload_length h))"

abbreviation rx_seq :: "bytes \<Rightarrow> u16" where "rx_seq f \<equiv> sequence_id (header_of_bytes f)"
abbreviation rx_type :: "bytes \<Rightarrow> u8" where "rx_type f \<equiv> frame_type (header_of_bytes f)"

text \<open>The device after a bad checksum was noted.\<close>

definition rx_noted :: "bytes \<Rightarrow> 'q safety_copro_dev \<Rightarrow> 'q safety_copro_dev" where
  "rx_noted f dev = (if safety_frame_validate f = SAFETY_VALIDATE_OK then dev
     else record_proto_error SAFETY_VALIDATE_BAD_CHECKSUM dev)"

text \<open>The verdict on a buffer of possible size: what is wrong with its header, in the order of the checks, or how it validates.\<close>

definition rx_verdict :: "bytes \<Rightarrow> safety_validate_result" where
  "rx_verdict f = (let h = header_of_bytes f in
     if magic h \<noteq> SAFETY_PROTO_MAGIC then SAFETY_VALIDATE_BAD_MAGIC
     else if version h \<noteq> SAFETY_PROTO_VERSION then SAFETY_VALIDATE_BAD_VERSION
     else if \<not> rx_header_fits f then SAFETY_VALIDATE_BAD_LENGTH
     else safety_frame_validate f)"

text \<open>A verdict is entered into the error counters: nothing for a good frame; otherwise the total and the counter of its
  class, and no other, grow by one, and the verdict is remembered.\<close>

definition verdict_counted :: "safety_validate_result \<Rightarrow> 'q safety_copro_dev \<Rightarrow> 'q safety_copro_dev \<Rightarrow> bool" where
  "verdict_counted v dev dev' \<longleftrightarrow> (let one = (\<lambda>b. if b then 1 else 0) in
     protocol_error_count dev' = protocol_error_count dev + one (v \<noteq> SAFETY_VALIDATE_OK)
     \<and> proto_err_magic dev' = proto_err_magic dev + one (v = SAFETY_VALIDATE_BAD_MAGIC)
     \<and> proto_err_version dev' = proto_err_version dev + one (v = SAFETY_VALIDATE_BAD_VERSION)
     \<and> proto_err_length dev' = proto_err_length dev + one (v = SAFETY_VALIDATE_BAD_LENGTH)
     \<and> proto_err_checksum dev' = proto_err_checksum dev + one (v = SAFETY_VALIDATE_BAD_CHECKSUM)
     \<and> last_proto_err dev' = (if v = SAFETY_VALIDATE_OK then last_proto_err dev else v))"

text \<open>The argument's frame structure has its full size.\<close>

definition arg_ok :: "user_arg \<Rightarrow> bool" where
  "arg_ok arg \<longleftrightarrow> (case arg_frame arg of None \<Rightarrow> True | Some io \<Rightarrow> length (io_data io) = SAFETY_MAX_FRAME_SIZE)"

section \<open>Lemmas\<close>

lemmas ioc_cmd_defs = SAFETY_IOC_GET_STATS_def SAFETY_IOC_RESET_STATS_def SAFETY_IOC_SET_HB_TIMEOUT_MS_def
  SAFETY_IOC_GET_STATE_def SAFETY_IOC_FORCE_RECOVERY_def SAFETY_IOC_INJECT_FAULT_def SAFETY_IOC_PUSH_RX_FRAME_def
  SAFETY_IOC_POP_TX_FRAME_def SAFETY_IOC_MAXNR_def mk_ioc_def

lemma proto_error_fields [simp]:
  "rx_fifo (record_proto_error v dev) = rx_fifo dev"
  "tx_fifo (record_proto_error v dev) = tx_fifo dev"
  "state (record_proto_error v dev) = state dev"
  "heartbeat_count (record_proto_error v dev) = heartbeat_count dev"
  "hb_timeout_ms (record_proto_error v dev) = hb_timeout_ms dev"
  "kcalls (record_proto_error v dev) = kcalls dev"
  "fifo_depth (record_proto_error v dev) = fifo_depth dev"
  "pcpu (record_proto_error v dev) = pcpu dev"
  "dropped_frame_count (record_proto_error v dev) = dropped_frame_count dev"
  "fifo_high_watermark (record_proto_error v dev) = fifo_high_watermark dev"
  "timeline_wf (record_proto_error v dev) = timeline_wf dev"
  "protocol_error_count (record_proto_error v dev) = protocol_error_count dev + 1"
  "last_proto_err (record_proto_error v dev) = v"
  by (simp_all add: record_proto_error_def timeline_wf_def Let_def split: safety_validate_result.split)

lemma proto_error_inv:
  "driver_inv K elems qwf dev \<Longrightarrow> v \<noteq> SAFETY_VALIDATE_OK \<Longrightarrow> driver_inv K elems qwf (record_proto_error v dev)"
  unfolding driver_inv_def
  by simp (simp add: record_proto_error_def Let_def split: safety_validate_result.split)

lemma proto_error_counted: "v \<noteq> SAFETY_VALIDATE_OK \<Longrightarrow> verdict_counted v dev (record_proto_error v dev)"
  by (cases v) (simp_all add: verdict_counted_def record_proto_error_def Let_def)

lemma record_drop_fields [simp]:
  "rx_fifo (record_drop e seq ty dev) = rx_fifo dev"
  "tx_fifo (record_drop e seq ty dev) = tx_fifo dev"
  "state (record_drop e seq ty dev) = state dev"
  "heartbeat_count (record_drop e seq ty dev) = heartbeat_count dev"
  "hb_timeout_ms (record_drop e seq ty dev) = hb_timeout_ms dev"
  "protocol_error_count (record_drop e seq ty dev) = protocol_error_count dev"
  "dropped_frame_count (record_drop e seq ty dev) = dropped_frame_count dev + 1"
  "kcalls (record_drop e seq ty dev) = kcalls dev @ [Trace (safety_frame_dropped seq ty)]"
  "driver_inv K elems qwf (record_drop e seq ty dev) = driver_inv K elems qwf dev"
  by (simp_all add: record_drop_def Let_def) (simp_all add: dev_upd)

lemma rx_header_fits_validate:
  assumes "rx_header_fits f"
  shows "safety_frame_validate f = SAFETY_VALIDATE_OK \<or> safety_frame_validate f = SAFETY_VALIDATE_BAD_CHECKSUM"
  using assms by (auto simp: rx_header_fits_def validate_cases proto_const Let_def)

lemma rx_header_fits_length:
  "rx_header_fits f \<Longrightarrow> 16 \<le> length f \<and> length f \<le> SAFETY_MAX_FRAME_SIZE"
  by (auto simp: rx_header_fits_def proto_const Let_def)

lemma rx_header_fits_slot:
  assumes "rx_header_fits f"
  shows "rx_slot_ok \<lparr>slot_len = of_nat (length f), slot_data = f\<rparr>"
  using assms unat_frame_length [of "length f"] rx_header_fits_length [OF assms]
  by (auto simp: rx_header_fits_def rx_slot_ok_def Let_def)

text \<open>The receive path as its three outcomes.\<close>

lemma queue_rx_size:
  "length f < 16 \<or> SAFETY_MAX_FRAME_SIZE < length f \<Longrightarrow> queue_rx_from_linkd K e f (length f) dev =
     (Inl (if length f < 16 then EINVAL else EMSGSIZE), dev)"
  by (auto simp: queue_rx_from_linkd_def SAFETY_HEADER_SIZE_def)

lemma queue_rx_refused:
  assumes "16 \<le> length f" "length f \<le> SAFETY_MAX_FRAME_SIZE" "\<not> rx_header_fits f"
  shows "queue_rx_from_linkd K e f (length f) dev = (Inl EINVAL, record_proto_error (rx_verdict f) dev)"
proof -
  have "header_of_bytes (take 16 f) = header_of_bytes f" using assms(1) by (simp add: hdr.dec_take)
  then show ?thesis
    using assms by (auto simp: queue_rx_from_linkd_def rx_verdict_def rx_header_fits_def SAFETY_HEADER_SIZE_def Let_def)
qed

lemma queue_rx_bad:
  assumes "16 \<le> length f" "length f \<le> SAFETY_MAX_FRAME_SIZE" "\<not> rx_header_fits f"
  obtains v where "v \<noteq> SAFETY_VALIDATE_OK" "v \<noteq> SAFETY_VALIDATE_BAD_CHECKSUM"
    "queue_rx_from_linkd K e f (length f) dev = (Inl EINVAL, record_proto_error v dev)"
  using that [OF _ _ queue_rx_refused [OF assms]] assms(3) by (simp add: rx_verdict_def Let_def split: if_splits)

lemma queue_rx_good:
  assumes "rx_header_fits f"
  shows "queue_rx_from_linkd K e f (length f) dev =
    (let (rc, d) = rx_push K (e, f, rx_seq f, rx_type f,
           if rx_type f = SAFETY_FRAME_HEARTBEAT then SAFETY_TL_HEARTBEAT else SAFETY_TL_FRAME_RX) (rx_noted f dev)
     in if rc = Inl ENOSPC then (Inl ENOSPC, record_drop e (rx_seq f) (rx_type f) d)
        else case rc of Inl err \<Rightarrow> (Inl err, d)
        | Inr _ \<Rightarrow> if safety_frame_validate f = SAFETY_VALIDATE_OK \<and> rx_type f = SAFETY_FRAME_HEARTBEAT
            then (Inr (), safety_timer_rearm (d\<lparr>heartbeat_count := heartbeat_count d + 1, state := SAFETY_LINK_HB_OK\<rparr>))
            else (Inr (), d))"
proof -
  have l: "16 \<le> length f" "length f \<le> SAFETY_MAX_FRAME_SIZE" using rx_header_fits_length [OF assms] by auto
  have "header_of_bytes (take 16 f) = header_of_bytes f" using l(1) by (simp add: hdr.dec_take)
  then show ?thesis
    using assms l rx_header_fits_validate [OF assms]
    by (auto simp: queue_rx_from_linkd_def rx_header_fits_def SAFETY_HEADER_SIZE_def rx_push_def rx_noted_def Let_def
        split: if_splits)
qed

lemma rx_noted_fields [simp]:
  "rx_fifo (rx_noted f dev) = rx_fifo dev"
  "tx_fifo (rx_noted f dev) = tx_fifo dev"
  "state (rx_noted f dev) = state dev"
  "heartbeat_count (rx_noted f dev) = heartbeat_count dev"
  "hb_timeout_ms (rx_noted f dev) = hb_timeout_ms dev"
  "kcalls (rx_noted f dev) = kcalls dev"
  "fifo_depth (rx_noted f dev) = fifo_depth dev"
  "pcpu (rx_noted f dev) = pcpu dev"
  "dropped_frame_count (rx_noted f dev) = dropped_frame_count dev"
  "protocol_error_count (rx_noted f dev) = protocol_error_count dev
     + (if safety_frame_validate f = SAFETY_VALIDATE_OK then 0 else 1)"
  by (simp_all add: rx_noted_def)

lemma rx_noted_counted: "rx_header_fits f \<Longrightarrow> verdict_counted (rx_verdict f) dev (rx_noted f dev)"
  using rx_header_fits_validate [of f] proto_error_counted [of SAFETY_VALIDATE_BAD_CHECKSUM dev]
  by (auto simp: rx_verdict_def rx_noted_def rx_header_fits_def verdict_counted_def Let_def)

lemma verdict_counted_upd:
  assumes "proto_err_magic d' = proto_err_magic d" "proto_err_version d' = proto_err_version d"
    "proto_err_length d' = proto_err_length d" "proto_err_checksum d' = proto_err_checksum d"
    "last_proto_err d' = last_proto_err d" "protocol_error_count d' = protocol_error_count d"
  shows "verdict_counted v dev d' = verdict_counted v dev d"
  using assms by (simp add: verdict_counted_def)

lemma rx_noted_inv: "driver_inv K elems qwf dev \<Longrightarrow> driver_inv K elems qwf (rx_noted f dev)"
  by (simp add: rx_noted_def proto_error_inv)

lemma rearm_inv [simp]: "driver_inv K elems qwf (safety_timer_rearm dev) = driver_inv K elems qwf dev"
  by (simp add: safety_timer_rearm_def)

lemma set_timeout_inv:
  "driver_inv K elems qwf dev \<Longrightarrow> ms \<noteq> 0 \<Longrightarrow> driver_inv K elems qwf (dev\<lparr>hb_timeout_ms := ms\<rparr>)"
  by (simp add: driver_inv_def timeline_wf_def)

context driver
begin

lemma queue_rx_full:
  assumes "dinv dev" "rx_header_fits f" "length (elems (rx_fifo dev)) = unat (fifo_depth dev)"
  shows "queue_rx_from_linkd K e f (length f) dev =
    (Inl ENOSPC, record_drop e (rx_seq f) (rx_type f) (rx_noted f dev))"
proof -
  have "wf (rx_fifo dev)" "kfifo_size K (rx_fifo dev) = unat (fifo_depth dev)" "req_valid (e, f, x)" for x
    using assms rx_header_fits_length [OF assms(2)] by (auto simp: driver_inv_def req_valid_def)
  then show ?thesis using rx.push_full [of "rx_noted f dev"] queue_rx_good [OF assms(2), of K e dev] assms(3) by simp
qed

lemma queue_rx_room:
  assumes "dinv dev" "rx_header_fits f" "length (elems (rx_fifo dev)) < unat (fifo_depth dev)"
  obtains d qlen where "queue_rx_from_linkd K e f (length f) dev =
      (Inr (), if safety_frame_validate f = SAFETY_VALIDATE_OK \<and> rx_type f = SAFETY_FRAME_HEARTBEAT
          then safety_timer_rearm (d\<lparr>heartbeat_count := heartbeat_count d + 1, state := SAFETY_LINK_HB_OK\<rparr>) else d)"
    "dinv d" "elems (rx_fifo d) = elems (rx_fifo dev) @ [\<lparr>slot_len = of_nat (length f), slot_data = f\<rparr>]"
    "tx_fifo d = tx_fifo dev" "state d = state dev" "heartbeat_count d = heartbeat_count dev"
    "hb_timeout_ms d = hb_timeout_ms dev" "dropped_frame_count d = dropped_frame_count dev"
    "protocol_error_count d = protocol_error_count (rx_noted f dev)"
    "kcalls d = kcalls dev @ [Trace (safety_frame_received (rx_seq f) (rx_type f) qlen), Wake_up_rx]"
    "env_ok e (length (pcpu dev)) \<Longrightarrow> rx_frames (safety_percpu_sum d) = rx_frames (safety_percpu_sum dev) + 1"
    "verdict_counted (rx_verdict f) dev d" "qlen = of_nat (length (elems (rx_fifo dev)) + 1)"
proof -
  let ?n = "rx_noted f dev"
  define ev where "ev = (if rx_type f = SAFETY_FRAME_HEARTBEAT then SAFETY_TL_HEARTBEAT else SAFETY_TL_FRAME_RX)"
  have l: "length f \<le> SAFETY_MAX_FRAME_SIZE" "f \<noteq> []" using rx_header_fits_length [OF assms(2)] by auto
  have len: "(of_nat (length f) :: u16) \<noteq> 0" "unat (of_nat (length f) :: u16) \<le> SAFETY_MAX_FRAME_SIZE"
    using l by simp_all
  have inv: "dinv ?n" by (rule rx_noted_inv [OF assms(1)])
  have "dinv (snd (safety_fifo_push_frame K e f (of_nat (length f)) (rx_seq f) (rx_type f) ev ?n))"
    using push_frame_inv [OF inv] rx_header_fits_slot [OF assms(2)] l by simp
  note inv' = this
  have wf: "wf (rx_fifo ?n)" "length (elems (rx_fifo ?n)) < kfifo_size K (rx_fifo ?n)"
    using inv assms(3) by (auto simp: driver_inv_def)
  show thesis
  proof (rule push_frame_room [OF wf(1) len wf(2), where f = f and e = e and seq = "rx_seq f"
        and ty = "rx_type f" and ev = ev])
    fix q' qlen
    define d where "d = kcall Wake_up_rx (kcall (Trace (safety_frame_received (rx_seq f) (rx_type f) qlen))
         (safety_percpu_inc_rx e (ucast (of_nat (length f) :: u16)) (safety_timeline_record_locked e ev (rx_seq f)
           (?n\<lparr>rx_fifo := q', fifo_high_watermark := max (fifo_high_watermark ?n) qlen\<rparr>))))"
    assume q: "elems q' = elems (rx_fifo ?n) @
          [\<lparr>slot_len = of_nat (length f), slot_data = take (unat (of_nat (length f) :: u16)) f\<rparr>]"
      and qlen: "qlen = of_nat (length (elems (rx_fifo ?n)) + 1)"
      and "safety_fifo_push_frame K e f (of_nat (length f)) (rx_seq f) (rx_type f) ev ?n =
       (Inr (), kcall Wake_up_rx (kcall (Trace (safety_frame_received (rx_seq f) (rx_type f) qlen))
         (safety_percpu_inc_rx e (ucast (of_nat (length f) :: u16)) (safety_timeline_record_locked e ev (rx_seq f)
           (?n\<lparr>rx_fifo := q', fifo_high_watermark := max (fifo_high_watermark ?n) qlen\<rparr>)))))"
    then have p: "safety_fifo_push_frame K e f (of_nat (length f)) (rx_seq f) (rx_type f) ev ?n = (Inr (), d)"
      by (simp add: d_def)
    have s: "rx_frames (safety_percpu_sum d) = rx_frames (safety_percpu_sum dev) + 1"
      if "env_ok e (length (pcpu dev))"
      using that inc_rx_sum(1) [of e "?n\<lparr>rx_fifo := q'\<rparr>" "ucast (of_nat (length f) :: u16)"]
      by (simp add: d_def dev_upd Let_def)
    have r: "queue_rx_from_linkd K e f (length f) dev =
      (Inr (), if safety_frame_validate f = SAFETY_VALIDATE_OK \<and> rx_type f = SAFETY_FRAME_HEARTBEAT
          then safety_timer_rearm (d\<lparr>heartbeat_count := heartbeat_count d + 1, state := SAFETY_LINK_HB_OK\<rparr>) else d)"
      using queue_rx_good [OF assms(2), of K e dev, folded ev_def] p by (simp add: rx_push_def)
    have c: "verdict_counted (rx_verdict f) dev d"
      using rx_noted_counted [OF assms(2), of dev]
      by (subst verdict_counted_upd [where d = ?n]) (simp_all add: d_def dev_upd Let_def)
    show thesis
      by (rule that [where d = d and qlen = qlen, OF r _ _ _ _ _ _ _ _ _ s c])
        (use inv' p q l qlen in \<open>simp_all add: d_def dev_upd Let_def\<close>)
  qed
qed

lemma rx_cases:
  assumes "dinv dev"
  obtains (size) "length f < 16 \<or> SAFETY_MAX_FRAME_SIZE < length f"
  | (header) "16 \<le> length f" "length f \<le> SAFETY_MAX_FRAME_SIZE" "\<not> rx_header_fits f"
  | (full) "rx_header_fits f" "length (elems (rx_fifo dev)) = unat (fifo_depth dev)"
  | (room) "rx_header_fits f" "length (elems (rx_fifo dev)) < unat (fifo_depth dev)"
proof -
  have "wf (rx_fifo dev)" "kfifo_size K (rx_fifo dev) = unat (fifo_depth dev)"
    using assms by (auto simp: driver_inv_def)
  from bound [OF this(1)] this(2) that show thesis by linarith
qed

lemma queue_rx_inv:
  assumes "dinv dev"
  shows "dinv (snd (queue_rx_from_linkd K e f (length f) dev))"
proof (rule rx_cases [OF assms, of f])
  assume "16 \<le> length f" "length f \<le> SAFETY_MAX_FRAME_SIZE" "\<not> rx_header_fits f"
  then show ?thesis
    by (rule queue_rx_bad [where K = K and e = e and dev = dev]) (simp add: proto_error_inv assms)
next
  assume "rx_header_fits f" "length (elems (rx_fifo dev)) = unat (fifo_depth dev)"
  then show ?thesis using queue_rx_full [OF assms] rx_noted_inv [OF assms] by simp
next
  assume "rx_header_fits f" "length (elems (rx_fifo dev)) < unat (fifo_depth dev)"
  then show ?thesis by (rule queue_rx_room [OF assms, where e = e]) simp
qed (simp add: queue_rx_size assms)

end

lemma queue_rx_take:
  "queue_rx_from_linkd K e frame n dev = queue_rx_from_linkd K e (take n frame) n dev"
proof (cases "n < 16 \<or> SAFETY_MAX_FRAME_SIZE < n")
  case False
  then have "take n (take n frame) = take n frame" "take 16 (take n frame) = take 16 frame"
    "safety_fifo_push_frame K e (take n frame) (of_nat n) = safety_fifo_push_frame K e frame (of_nat n)"
    using unat_frame_length [of n] by (auto simp: min_def safety_fifo_push_frame_def fun_eq_iff)
  then show ?thesis by (simp only: queue_rx_from_linkd_def SAFETY_HEADER_SIZE_def)
qed (auto simp: queue_rx_from_linkd_def SAFETY_HEADER_SIZE_def)

lemma poll_fields [simp]: "driver_inv K elems qwf (snd (safety_poll K dev)) = driver_inv K elems qwf dev"
  by (simp add: safety_poll_def Let_def)

lemma reset_inv:
  "driver_inv K elems qwf dev \<Longrightarrow> driver_inv K elems qwf (snd (ioc_reset_stats dev))"
  by (simp add: ioc_reset_stats_def driver_inv_def timeline_wf_def dev_upd SAFETY_TIMELINE_DEPTH_def)

context driver
begin

lemma write_cases:
  assumes "dinv dev" "length f = n" "16 \<le> n" "n \<le> SAFETY_MAX_FRAME_SIZE"
    and ok: "safety_frame_validate f = SAFETY_VALIDATE_OK"
  shows "if length (elems (tx_fifo dev)) < unat (fifo_depth dev)
    then \<exists>d qlen. safety_write K e (Some f) n dev = (Inr n, d) \<and> dinv d
       \<and> elems (tx_fifo d) = elems (tx_fifo dev) @ [\<lparr>slot_len = of_nat n, slot_data = f\<rparr>]
       \<and> rx_fifo d = rx_fifo dev \<and> state d = state dev \<and> dropped_frame_count d = dropped_frame_count dev
       \<and> kcalls d = kcalls dev @ [Trace (safety_frame_received (rx_seq f) (rx_type f) qlen), Wake_up_tx]
    else safety_write K e (Some f) n dev = (Inl EAGAIN, record_drop e (rx_seq f) (rx_type f) dev)"
proof -
  have wf: "wf (tx_fifo dev)" "kfifo_size K (tx_fifo dev) = unat (fifo_depth dev)"
    using assms by (auto simp: driver_inv_def)
  have len: "(of_nat n :: u16) \<noteq> 0" "unat (of_nat n :: u16) \<le> SAFETY_MAX_FRAME_SIZE"
    using assms(3,4) by simp_all
  have h: "header_of_bytes (take 16 f) = header_of_bytes f" using assms(2,3) by (simp add: hdr.dec_take)
  have eq: "safety_write K e (Some f) n dev =
      (case safety_fifo_push_tx_frame K e f (of_nat n) (rx_seq f) (rx_type f) dev of (rc, d) \<Rightarrow>
         if rc = Inl ENOSPC then (Inl EAGAIN, record_drop e (rx_seq f) (rx_type f) d)
         else case rc of Inl err \<Rightarrow> (Inl err, d) | Inr _ \<Rightarrow> (Inr n, d))"
    using assms h by (simp add: safety_write_def SAFETY_HEADER_SIZE_def Let_def)
  have inv: "dinv (snd (safety_fifo_push_tx_frame K e f (of_nat n) (rx_seq f) (rx_type f) dev))"
    using push_tx_inv [OF assms(1) _ len(1)] ok assms(2,4) by (simp add: tx_slot_ok_def)
  show ?thesis
  proof (cases "length (elems (tx_fifo dev)) < kfifo_size K (tx_fifo dev)")
    case True
    show ?thesis
      by (rule push_tx_room [OF wf(1) len True, where f = f and e = e and seq = "rx_seq f" and ty = "rx_type f"])
        (use eq inv True wf(2) assms(2,4) in \<open>auto simp: dev_upd\<close>)
  next
    case False
    then have "safety_fifo_push_tx_frame K e f (of_nat n) (rx_seq f) (rx_type f) dev = (Inl ENOSPC, dev)"
      using push_tx_full [OF wf(1) len] bound [OF wf(1)] by simp
    then show ?thesis using eq False wf(2) by simp
  qed
qed

lemma write_inv:
  assumes "dinv dev" "\<forall>f. ubuf = Some f \<longrightarrow> length f = n"
  shows "dinv (snd (safety_write K e ubuf n dev))"
proof (cases "\<exists>f. ubuf = Some f \<and> 16 \<le> n \<and> n \<le> SAFETY_MAX_FRAME_SIZE \<and> safety_frame_validate f = SAFETY_VALIDATE_OK")
  case True
  then show ?thesis using write_cases [OF assms(1), of _ n e] assms by (fastforce split: if_splits)
next
  case False
  then show ?thesis using assms
    by (auto simp: safety_write_def SAFETY_HEADER_SIZE_def proto_error_inv Let_def split: option.split)
qed

lemma read_loop_inv:
  "safety_read_loop K nb ws dev = Some (r, d) \<Longrightarrow> dinv dev
   \<Longrightarrow> (\<And>w. Woken w \<in> set ws \<Longrightarrow> dinv w) \<Longrightarrow> (\<And>w. Interrupted w \<in> set ws \<Longrightarrow> dinv w) \<Longrightarrow> dinv d"
proof (induction ws arbitrary: dev)
  case Nil
  then show ?case using pop_inv(1) [of dev]
    by (subst (asm) safety_read_loop.simps) (auto split: prod.splits if_splits)
next
  case (Cons w ws)
  then show ?case using pop_inv(1) [of dev]
    by (subst (asm) safety_read_loop.simps) (cases w; auto split: prod.splits if_splits)
qed

lemma ioctl_inv:
  assumes "dinv dev" "arg_ok arg"
  shows "dinv (snd (safety_ioctl K e cmd arg dev))"
proof -
  have "dinv (snd (ioc_push_rx_frame K e arg dev))"
  proof (cases "arg_frame arg")
    case (Some io)
    let ?f = "take (unat (io_len io)) (io_data io)"
    have "length ?f = unat (io_len io) \<or> SAFETY_MAX_FRAME_SIZE < unat (io_len io)"
      using assms(2) Some by (auto simp: arg_ok_def)
    then show ?thesis
      using queue_rx_inv [OF assms(1), of e ?f] queue_rx_take [of K e "io_data io" "unat (io_len io)" dev] assms(1) Some
      by (auto simp: ioc_push_rx_frame_def split: prod.splits sum.splits)
  qed (use assms in \<open>simp add: ioc_push_rx_frame_def\<close>)
  moreover have "dinv (snd (ioc_pop_tx_frame K arg dev))"
    using pop_inv(2) [OF assms(1)] by (auto simp: ioc_pop_tx_frame_def Let_def split: prod.split)
  moreover have "dinv (snd (ioc_inject_fault K e arg dev))"
    using assms(1) synth_fault_event(1) by (auto simp: ioc_inject_fault_def Let_def split_beta split: option.split)
  moreover have "dinv (snd (ioc_set_hb_timeout arg dev))"
    using assms(1) by (auto simp: ioc_set_hb_timeout_def set_timeout_inv split: option.split)
  ultimately show ?thesis
    using assms(1) reset_inv [OF assms(1)]
    by (auto simp: safety_ioctl_def ioc_get_stats_def ioc_get_state_def safety_recovery_schedule_def Let_def)
qed

end

text \<open>Without a valid heartbeat frame the watchdog is not restarted.\<close>

context driver
begin

lemma queue_rx_no_heartbeat:
  assumes "dinv dev" and "\<not> (rx_header_fits f \<and> safety_frame_validate f = SAFETY_VALIDATE_OK \<and> rx_type f = SAFETY_FRAME_HEARTBEAT)"
    and "queue_rx_from_linkd K e f (length f) dev = (r, d)"
  shows "state d = state dev \<and> heartbeat_count d = heartbeat_count dev
    \<and> (\<exists>cs. kcalls d = kcalls dev @ cs \<and> (\<forall>ms. Hrtimer_start ms \<notin> set cs))"
proof (rule rx_cases [OF assms(1), of f])
  assume "16 \<le> length f" "length f \<le> SAFETY_MAX_FRAME_SIZE" "\<not> rx_header_fits f"
  then show ?thesis by (rule queue_rx_bad [where K = K and e = e and dev = dev]) (use assms(3) in auto)
next
  assume "rx_header_fits f" "length (elems (rx_fifo dev)) = unat (fifo_depth dev)"
  then show ?thesis using queue_rx_full [OF assms(1), of f e] assms(3) by auto
next
  assume fit: "rx_header_fits f" and "length (elems (rx_fifo dev)) < unat (fifo_depth dev)"
  then show ?thesis by (rule queue_rx_room [OF assms(1), where e = e]) (use assms(2,3) fit in auto)
qed (use assms(3) in \<open>simp add: queue_rx_size\<close>)

lemma read_head:
  assumes "wf (rx_fifo dev)" "elems (rx_fifo dev) = s # ss" "slot_len s \<noteq> 0"
  obtains d where "safety_read_loop K nb ws dev = Some (Inr (slot_len s, s), d)" "elems (rx_fifo d) = ss"
    "tx_fifo d = tx_fifo dev" "state d = state dev"
  by (rule pop_frame_cases [OF assms(1)])
    (use assms(2,3) in \<open>auto simp: safety_read_loop.simps [of K nb ws dev] intro: that\<close>)

lemma rx_slot_nonempty:
  "dinv dev \<Longrightarrow> elems (rx_fifo dev) = s # ss \<Longrightarrow>
     slot_len s \<noteq> 0 \<and> length (slot_data s) = unat (slot_len s)"
  by (auto simp: driver_inv_def rx_slot_ok_def proto_const Let_def)

lemma read_empty:
  assumes "wf (rx_fifo dev)" "elems (rx_fifo dev) = []"
  shows "safety_read_loop K nb ws dev = (if nb then Some (Inl EAGAIN, dev)
    else case ws of [] \<Rightarrow> None | Interrupted d # _ \<Rightarrow> Some (Inl ERESTARTSYS, d)
         | Woken d # ws \<Rightarrow> safety_read_loop K nb ws d)"
  by (rule pop_frame_cases [OF assms(1)])
    (use assms(2) in \<open>auto simp: safety_read_loop.simps [of K nb ws dev]\<close>)

end

text \<open>The payload length is bytes 6 and 7 of the frame.\<close>

lemma payload_length_bytes: "payload_length (header_of_bytes f) = get16 f 6"
  by (simp add: header_of_bytes_def)

lemma corrupted_not_heartbeat:
  assumes ok: "safety_frame_validate f = SAFETY_VALIDATE_OK" "rx_header_fits f"
    and win: "agree_outside k n f f'" "n \<le> 4" "k + n \<le> length f"
      "k + n \<le> 6 \<or> 6 \<le> k \<and> k + n \<le> 8 \<or> 8 \<le> k \<and> k + n \<le> 12 \<or> 12 \<le> k \<and> k + n \<le> 16 \<or> 16 \<le> k"
    and "f' \<noteq> f"
  shows "\<not> (rx_header_fits f' \<and> safety_frame_validate f' = SAFETY_VALIDATE_OK)"
proof
  assume bad: "rx_header_fits f' \<and> safety_frame_validate f' = SAFETY_VALIDATE_OK"
  have len: "length f' = length f" and same: "\<And>i. i < length f \<Longrightarrow> i < k \<or> k + n \<le> i \<Longrightarrow> f ! i = f' ! i"
    using win(1) by (auto simp: agree_outside_nth)
  have l: "16 \<le> length f" using rx_header_fits_length [OF ok(2)] by simp
  have pl: "get16 f 6 = get16 f' 6"
    using bad ok(2) len unfolding rx_header_fits_def payload_length_bytes Let_def
    by (simp add: word_unat_eq_iff)
  show False
  proof (cases "6 \<le> k \<and> k + n \<le> 8")
    case True
    have "le16 (get16 f 6) = [f ! 6, f ! Suc 6]" "le16 (get16 f' 6) = [f' ! 6, f' ! Suc 6]"
      using l len by (simp_all add: le16_get16)
    then have "f ! 6 = f' ! 6" "f ! 7 = f' ! 7" using pl by auto
    then have "f ! i = f' ! i" if "i < length f" for i
    proof -
      consider "i = 6" | "i = 7" | "i < k \<or> k + n \<le> i" using True by linarith
      then show ?thesis using same [OF that] \<open>f ! 6 = f' ! 6\<close> \<open>f ! 7 = f' ! 7\<close> by cases auto
    qed
    then show False using assms(7) len by (simp add: nth_equalityI)
  next
    case False
    have "length f = SAFETY_HEADER_SIZE + unat (payload_length (header_of_bytes f))"
      using ok(2) by (simp add: rx_header_fits_def Let_def)
    then show False
      using validate_detects_burst_lemma [OF ok(1) win(1,2) _ _ assms(7)] win(3,4) False bad by auto
  qed
qed

lemma ioctl_unknown:
  assumes "cmd \<notin> {SAFETY_IOC_GET_STATS, SAFETY_IOC_RESET_STATS, SAFETY_IOC_SET_HB_TIMEOUT_MS, SAFETY_IOC_GET_STATE,
      SAFETY_IOC_FORCE_RECOVERY, SAFETY_IOC_INJECT_FAULT, SAFETY_IOC_PUSH_RX_FRAME, SAFETY_IOC_POP_TX_FRAME}"
  shows "safety_ioctl K e cmd arg dev = (Inl ENOTTY, dev)"
  using assms by (simp add: safety_ioctl_def)

section \<open>Properties\<close>

text \<open>C11 (receive path, every branch).  A buffer handed to the receive path is refused with the right
  error and no effect when its size is impossible.  Otherwise the error counters show the verdict on it: nothing for a
  valid frame, else the total and the counter of the class of the error.  When its header is unusable or does not
  announce the buffer's length it is refused with queue, link state, heartbeat count and drop count untouched and no call
  into the kernel; when the queue is full it is refused with ENOSPC and counted as dropped, and the only call is the drop's
  tracepoint; otherwise it is appended to the queue unchanged, and the calls are the tracepoint with the new length of the queue
  and the wake-up of the readers.  Exactly when it is queued, validates and is a heartbeat, the link becomes
  HB_OK, a heartbeat is counted and the watchdog is started, as the last call; in no other case is it started.\<close>

theorem receive_path:
  assumes "kfifo K elems qwf" and "driver_inv K elems qwf dev"
    and "queue_rx_from_linkd K e f (length f) dev = (r, dev')"
  shows "driver_inv K elems qwf dev' \<and> tx_fifo dev' = tx_fifo dev \<and>
    (if length f < SAFETY_HEADER_SIZE then r = Inl EINVAL \<and> dev' = dev
     else if SAFETY_MAX_FRAME_SIZE < length f then r = Inl EMSGSIZE \<and> dev' = dev
     else verdict_counted (rx_verdict f) dev dev' \<and>
      (if \<not> rx_header_fits f then
         r = Inl EINVAL \<and> rx_fifo dev' = rx_fifo dev \<and> state dev' = state dev \<and> kcalls dev' = kcalls dev
         \<and> heartbeat_count dev' = heartbeat_count dev \<and> dropped_frame_count dev' = dropped_frame_count dev
       else if length (elems (rx_fifo dev)) = unat (fifo_depth dev) then
         r = Inl ENOSPC \<and> rx_fifo dev' = rx_fifo dev \<and> state dev' = state dev
         \<and> heartbeat_count dev' = heartbeat_count dev
         \<and> dropped_frame_count dev' = dropped_frame_count dev + 1
         \<and> kcalls dev' = kcalls dev @ [Trace (safety_frame_dropped (rx_seq f) (rx_type f))]
       else let beat = (safety_frame_validate f = SAFETY_VALIDATE_OK \<and> rx_type f = SAFETY_FRAME_HEARTBEAT) in
         r = Inr () \<and> elems (rx_fifo dev') = elems (rx_fifo dev) @ [\<lparr>slot_len = of_nat (length f), slot_data = f\<rparr>]
         \<and> dropped_frame_count dev' = dropped_frame_count dev
         \<and> state dev' = (if beat then SAFETY_LINK_HB_OK else state dev)
         \<and> heartbeat_count dev' = heartbeat_count dev + (if beat then 1 else 0)
         \<and> kcalls dev' = kcalls dev
             @ [Trace (safety_frame_received (rx_seq f) (rx_type f) (of_nat (length (elems (rx_fifo dev)) + 1))), Wake_up_rx]
             @ (if beat then [Hrtimer_start (hb_timeout_ms dev)] else [])))"
proof -
  note drv = driver_kfifo [OF assms(1)]
  have inv: "driver_inv K elems qwf dev'" using driver.queue_rx_inv [OF drv assms(2), of e f] assms(3) by simp
  show ?thesis
  proof (cases rule: driver.rx_cases [OF drv assms(2), of f, case_names size header full room])
    case size
    then show ?thesis using inv assms(3) by (auto simp: queue_rx_size SAFETY_HEADER_SIZE_def)
  next
    case header
    have "rx_verdict f \<noteq> SAFETY_VALIDATE_OK" using header(3) by (simp add: rx_verdict_def Let_def)
    then show ?thesis using inv assms(3) header queue_rx_refused [OF header, of K e dev] proto_error_counted [of "rx_verdict f" dev]
      by (auto simp: SAFETY_HEADER_SIZE_def)
  next
    case full
    have "verdict_counted (rx_verdict f) dev (record_drop e (rx_seq f) (rx_type f) (rx_noted f dev))"
      using rx_noted_counted [OF full(1), of dev]
      by (subst verdict_counted_upd [where d = "rx_noted f dev"]) (simp_all add: record_drop_def dev_upd Let_def)
    then show ?thesis
      using driver.queue_rx_full [OF drv assms(2) full, of e] inv assms(3) full rx_header_fits_length [of f]
      by (auto simp: SAFETY_HEADER_SIZE_def)
  next
    case room
    obtain d where d: "(r, dev') = (Inr (), if safety_frame_validate f = SAFETY_VALIDATE_OK \<and> rx_type f = SAFETY_FRAME_HEARTBEAT
          then safety_timer_rearm (d\<lparr>heartbeat_count := heartbeat_count d + 1, state := SAFETY_LINK_HB_OK\<rparr>) else d)"
        "elems (rx_fifo d) = elems (rx_fifo dev) @ [\<lparr>slot_len = of_nat (length f), slot_data = f\<rparr>]"
        "tx_fifo d = tx_fifo dev" "state d = state dev" "heartbeat_count d = heartbeat_count dev"
        "hb_timeout_ms d = hb_timeout_ms dev" "dropped_frame_count d = dropped_frame_count dev"
        "kcalls d = kcalls dev @ [Trace (safety_frame_received (rx_seq f) (rx_type f) (of_nat (length (elems (rx_fifo dev)) + 1))), Wake_up_rx]"
        "verdict_counted (rx_verdict f) dev d"
      by (rule driver.queue_rx_room [OF drv assms(2) room, where e = e]) (use assms(3) in simp)
    have "verdict_counted (rx_verdict f) dev dev'"
      using d(1,9) by (subst verdict_counted_upd [where d = d]) (auto simp: safety_timer_rearm_def kcall_def)
    then show ?thesis
      using d room inv rx_header_fits_length [OF room(1)]
      by (auto simp: SAFETY_HEADER_SIZE_def safety_timer_rearm_def kcall_def Let_def)
  qed
qed

theorem receive_path_witness:
  "let hb = wire_frame (safety_frame_init SAFETY_FRAME_HEARTBEAT 5 0 9) [];
       dev' = snd (queue_rx_from_linkd bounded_list kenv0 hb (length hb) (ready_dev (2, []) (2, []) 2 1 350))
   in state dev' = SAFETY_LINK_HB_OK \<and> heartbeat_count dev' = 1 \<and> last (kcalls dev') = Hrtimer_start 350
      \<and> snd (rx_fifo dev') = [\<lparr>slot_len = 16, slot_data = hb\<rparr>]"
proof -
  let ?hb = "wire_frame (safety_frame_init SAFETY_FRAME_HEARTBEAT 5 0 9) []"
  have "header_ok (safety_frame_init SAFETY_FRAME_HEARTBEAT 5 0 9) []" by (simp add: header_ok_def)
  then have "safety_frame_validate ?hb = SAFETY_VALIDATE_OK" "rx_header_fits ?hb"
    by (simp_all add: rx_header_fits_def SAFETY_HEADER_SIZE_def Let_def)
  then show ?thesis
    using receive_path [OF kfifo_bounded_list demo_dev_inv prod.collapse [symmetric], of kenv0 ?hb]
    by (simp add: ready_dev_def kzalloc_dev_def proto_const Let_def)
qed

text \<open>Corruption never feeds the watchdog.  Take a frame that validates and any change of at most
  four adjacent bytes of it within one of the header's parts (magic to sequence number, payload
  length, time stamp, checksum) or within the payload.  When the changed bytes reach the receive
  path, the link state and the heartbeat count stay as they are and the watchdog is not restarted.\<close>

theorem corrupted_frame_no_heartbeat:
  assumes "kfifo K elems qwf" and "driver_inv K elems qwf dev"
    and "safety_frame_validate f = SAFETY_VALIDATE_OK" and "rx_header_fits f"
    and "agree_outside k n f f'" and "n \<le> 4" and "k + n \<le> length f"
    and "k + n \<le> 6 \<or> 6 \<le> k \<and> k + n \<le> 8 \<or> 8 \<le> k \<and> k + n \<le> 12 \<or> 12 \<le> k \<and> k + n \<le> 16 \<or> 16 \<le> k"
    and "f' \<noteq> f"
    and "queue_rx_from_linkd K e f' (length f') dev = (r, dev')"
  shows "state dev' = state dev \<and> heartbeat_count dev' = heartbeat_count dev
    \<and> (\<exists>cs. kcalls dev' = kcalls dev @ cs \<and> (\<forall>ms. Hrtimer_start ms \<notin> set cs))"
  using corrupted_not_heartbeat [OF assms(3-9)]
    driver.queue_rx_no_heartbeat [OF driver_kfifo [OF assms(1)] assms(2) _ assms(10)] by blast

theorem corrupted_frame_no_heartbeat_witness:
  "let hb = wire_frame (safety_frame_init SAFETY_FRAME_HEARTBEAT 5 0 9) []; bad = hb[9 := hb ! 9 + 1];
       dev' = snd (queue_rx_from_linkd bounded_list kenv0 bad (length bad) (ready_dev (2, []) (2, []) 2 1 350))
   in state dev' = SAFETY_LINK_BOOTING \<and> heartbeat_count dev' = 0"
proof -
  let ?hb = "wire_frame (safety_frame_init SAFETY_FRAME_HEARTBEAT 5 0 9) []"
  let ?bad = "?hb[9 := ?hb ! 9 + 1]"
  have ok: "safety_frame_validate ?hb = SAFETY_VALIDATE_OK" "rx_header_fits ?hb"
    by (simp_all add: rx_header_fits_def SAFETY_HEADER_SIZE_def header_ok_def Let_def)
  have "?bad ! 9 \<noteq> ?hb ! 9" by simp
  then have ne: "?bad \<noteq> ?hb" by metis
  have ag: "agree_outside 9 1 ?hb ?bad" by (simp add: agree_outside_nth)
  show ?thesis
    using corrupted_frame_no_heartbeat [OF kfifo_bounded_list demo_dev_inv ok ag _ _ _ ne prod.collapse [symmetric], of kenv0]
    by (simp add: ready_dev_def kzalloc_dev_def Let_def)
qed

text \<open>Transmit round trip.  With room in an empty TX queue, writing a buffer that validates
  succeeds and returns its length, and the link daemon's POP_TX_FRAME then returns exactly those
  bytes and leaves the queue empty.\<close>

theorem write_pop_roundtrip:
  assumes "kfifo K elems qwf" and "driver_inv K elems qwf dev"
    and "elems (tx_fifo dev) = []" and "0 < fifo_depth dev" and "length f \<le> SAFETY_MAX_FRAME_SIZE"
    and "safety_frame_validate f = SAFETY_VALIDATE_OK" and "arg_writable arg"
  shows "\<exists>d io d'. safety_write K e (Some f) (length f) dev = (Inr (length f), d)
    \<and> safety_ioctl K e' SAFETY_IOC_POP_TX_FRAME arg d = (Inr (Out_frame io), d')
    \<and> unat (io_len io) = length f \<and> take (length f) (io_data io) = f
    \<and> length (io_data io) = SAFETY_MAX_FRAME_SIZE \<and> elems (tx_fifo d') = []"
proof -
  note drv = driver_kfifo [OF assms(1)]
  have l: "16 \<le> length f" using validate_OK_D(1) [OF assms(6)] by linarith
  have "length (elems (tx_fifo dev)) < unat (fifo_depth dev)" using assms(3,4) by (simp add: word_less_nat_alt)
  then obtain d where d: "safety_write K e (Some f) (length f) dev = (Inr (length f), d)" "driver_inv K elems qwf d"
    "elems (tx_fifo d) = [\<lparr>slot_len = of_nat (length f), slot_data = f\<rparr>]"
    using driver.write_cases [OF drv assms(2) refl l assms(5,6), of e] assms(3) by auto
  have "qwf (tx_fifo d)" using d(2) by (simp add: driver_inv_def)
  then obtain q where q: "safety_fifo_pop_tx_frame K d =
      (of_nat (length f), Some \<lparr>slot_len = of_nat (length f), slot_data = f\<rparr>, d\<lparr>tx_fifo := q\<rparr>)" "elems q = []"
    by (rule driver.pop_tx_cases [OF drv]) (use d(3) in auto)
  have u: "unat (ucast (of_nat (length f) :: u16) :: u32) = length f"
    using assms(5) by simp
  have "f \<noteq> []" using l by auto
  then show ?thesis
    using d(1) q u assms(5,7) by (simp add: safety_ioctl_def ioc_pop_tx_frame_def ioc_cmd_defs memcpy_at_def Let_def)
qed

theorem write_pop_roundtrip_witness:
  "\<exists>d io d'. safety_write bounded_list kenv0 (Some (wire_frame (safety_frame_init SAFETY_FRAME_COMMAND 1 0 2) [])) 16
       (ready_dev (2, []) (2, []) 2 1 350) = (Inr 16, d)
     \<and> safety_ioctl bounded_list kenv0 SAFETY_IOC_POP_TX_FRAME \<lparr>arg_u32 = None, arg_frame = None, arg_writable = True\<rparr> d
         = (Inr (Out_frame io), d')
     \<and> take 16 (io_data io) = wire_frame (safety_frame_init SAFETY_FRAME_COMMAND 1 0 2) []"
proof -
  let ?f = "wire_frame (safety_frame_init SAFETY_FRAME_COMMAND 1 0 2) []"
  let ?arg = "\<lparr>arg_u32 = None, arg_frame = None, arg_writable = True\<rparr>"
  have ok: "safety_frame_validate ?f = SAFETY_VALIDATE_OK" by (simp add: header_ok_def)
  from write_pop_roundtrip [OF kfifo_bounded_list demo_dev_inv _ _ _ ok, of ?arg kenv0 kenv0]
  show ?thesis by (auto simp: ready_dev_def kzalloc_dev_def proto_const)
qed

text \<open>Receive round trip.  With room in an empty RX queue, any buffer with a usable header, its
  checksum right or wrong, that the link daemon pushes is accepted, and a \<open>read\<close> with a large
  enough buffer then returns exactly its bytes and empties the queue.\<close>

theorem push_read_roundtrip:
  assumes "kfifo K elems qwf" and "driver_inv K elems qwf dev"
    and "elems (rx_fifo dev) = []" and "0 < fifo_depth dev"
    and "rx_header_fits f" and "arg_frame arg = Some \<lparr>io_len = of_nat (length f), io_data = f @ pad\<rparr>"
    and "length f \<le> count"
  shows "\<exists>d d'. safety_ioctl K e SAFETY_IOC_PUSH_RX_FRAME arg dev = (Inr Out_none, d)
    \<and> safety_read K nonblock waits count True d = Some (Inr f, d') \<and> elems (rx_fifo d') = []"
proof -
  note drv = driver_kfifo [OF assms(1)]
  have l: "16 \<le> length f" "length f \<le> SAFETY_MAX_FRAME_SIZE" using rx_header_fits_length [OF assms(5)] by auto
  have u: "unat (of_nat (length f) :: u32) = length f" using l(2) by (simp add: proto_const unat_of_nat)
  let ?s = "\<lparr>slot_len = of_nat (length f), slot_data = f\<rparr>"
  have room: "length (elems (rx_fifo dev)) < unat (fifo_depth dev)" using assms(3,4) by (simp add: word_less_nat_alt)
  obtain d where d: "queue_rx_from_linkd K e f (length f) dev = (Inr (), d)" "driver_inv K elems qwf d"
    "elems (rx_fifo d) = [?s]"
    by (rule driver.queue_rx_room [OF drv assms(2,5) room, where e = e])
      (use assms(3) in \<open>auto simp: safety_timer_rearm_def kcall_def driver_inv_def timeline_wf_def\<close>)
  have "queue_rx_from_linkd K e (f @ pad) (length f) dev = (Inr (), d)"
    using queue_rx_take [of K e "f @ pad" "length f" dev] d(1) by simp
  then have ioc: "safety_ioctl K e SAFETY_IOC_PUSH_RX_FRAME arg dev = (Inr Out_none, d)"
    using assms(6) u l(2) by (simp add: safety_ioctl_def ioc_cmd_defs ioc_push_rx_frame_def)
  have "qwf (rx_fifo d)" "slot_len ?s \<noteq> 0" using d(2) l by (auto simp: driver_inv_def)
  then obtain d' where "safety_read_loop K nonblock waits d = Some (Inr (slot_len ?s, ?s), d')" "elems (rx_fifo d') = []"
    using driver.read_head [OF drv _ d(3)] by metis
  then show ?thesis using ioc assms(7) l(2) by (auto simp: safety_read_def)
qed

theorem push_read_roundtrip_witness:
  "\<exists>d d'. safety_ioctl bounded_list kenv0 SAFETY_IOC_PUSH_RX_FRAME
       \<lparr>arg_u32 = None, arg_frame = Some \<lparr>io_len = of_nat (length (header_bytes (safety_frame_init SAFETY_FRAME_ACK 1 0 2))),
          io_data = header_bytes (safety_frame_init SAFETY_FRAME_ACK 1 0 2) @ replicate 256 0\<rparr>, arg_writable = True\<rparr>
       (ready_dev (2, []) (2, []) 2 1 350) = (Inr Out_none, d)
     \<and> safety_read bounded_list True [] 272 True d = Some (Inr (header_bytes (safety_frame_init SAFETY_FRAME_ACK 1 0 2)), d')"
proof -
  let ?f = "header_bytes (safety_frame_init SAFETY_FRAME_ACK 1 0 2)"
  have "rx_header_fits ?f" by (simp add: rx_header_fits_def SAFETY_HEADER_SIZE_def Let_def)
  from push_read_roundtrip [OF kfifo_bounded_list demo_dev_inv _ _ this, where pad = "replicate 256 0" and count = 272
      and e = kenv0 and nonblock = True and waits = "[]" and arg = "\<lparr>arg_u32 = None, arg_frame =
        Some \<lparr>io_len = of_nat (length ?f), io_data = ?f @ replicate 256 0\<rparr>, arg_writable = True\<rparr>"]
  show ?thesis by (auto simp: ready_dev_def kzalloc_dev_def)
qed

text \<open>Read, every branch.  A \<open>read\<close> of a non-empty queue always removes the oldest frame: it
  returns that frame if the user buffer is large enough and writable, and fails with EINVAL or
  EFAULT, the frame being lost, otherwise.  On an empty queue a non-blocking \<open>read\<close> fails with
  EAGAIN and changes nothing; a blocking one sleeps until it is interrupted, or goes on with the
  device as it is when it is woken.\<close>

theorem read_behaviour:
  assumes "kfifo K elems qwf" and "driver_inv K elems qwf dev"
  shows "case elems (rx_fifo dev) of
      s # ss \<Rightarrow> \<exists>d. elems (rx_fifo d) = ss \<and> tx_fifo d = tx_fifo dev \<and> state d = state dev
        \<and> safety_read K nonblock waits count copy_ok dev = Some
            (if count < length (slot_data s) then Inl EINVAL
             else if \<not> copy_ok then Inl EFAULT else Inr (slot_data s), d)
    | [] \<Rightarrow> safety_read K nonblock waits count copy_ok dev =
        (if nonblock then Some (Inl EAGAIN, dev)
         else case waits of [] \<Rightarrow> None
              | Interrupted d # _ \<Rightarrow> Some (Inl ERESTARTSYS, d)
              | Woken d # waits' \<Rightarrow> safety_read K nonblock waits' count copy_ok d)"
proof -
  note drv = driver_kfifo [OF assms(1)]
  have wf: "qwf (rx_fifo dev)" using assms(2) by (simp add: driver_inv_def)
  show ?thesis
  proof (cases "elems (rx_fifo dev)")
    case Nil
    then show ?thesis
      using driver.read_empty [OF drv wf Nil, of nonblock waits]
      by (auto simp: safety_read_def split: list.splits wait_return.splits)
  next
    case (Cons s ss)
    note s = driver.rx_slot_nonempty [OF drv assms(2) Cons]
    from driver.read_head [OF drv wf Cons] s obtain d where
      "safety_read_loop K nonblock waits dev = Some (Inr (slot_len s, s), d)" "elems (rx_fifo d) = ss"
      "tx_fifo d = tx_fifo dev" "state d = state dev" by metis
    then show ?thesis using s Cons by (auto simp: safety_read_def)
  qed
qed

theorem read_behaviour_witness:
  "safety_read bounded_list True [] 272 True (ready_dev (2, []) (2, []) 2 1 350) =
     Some (Inl EAGAIN, ready_dev (2, []) (2, []) 2 1 350)"
  using read_behaviour [OF kfifo_bounded_list demo_dev_inv, of True "[]" 272 True]
  by (simp add: ready_dev_def kzalloc_dev_def)

text \<open>Reset.  After RESET_STATS, GET_STATS reports zero in every counter; the link state and the
  two queue depths are those of before.\<close>

theorem reset_then_stats:
  assumes "arg_writable arg"
  shows "fst (safety_ioctl K e SAFETY_IOC_GET_STATS arg (snd (safety_ioctl K e' SAFETY_IOC_RESET_STATS arg' dev))) =
    Inr (Out_stats \<lparr>st_current_state = of_nat (link_state_code (state dev)), st_heartbeat_count = 0,
      st_fault_count = 0, st_dropped_frame_count = 0, st_timeout_count = 0, st_retry_count = 0,
      st_protocol_error_count = 0, st_rx_frames_total = 0,
      st_rx_queue_depth = safety_fifo_len K dev, st_tx_queue_depth = safety_tx_fifo_len K dev\<rparr>)"
  using assms
  by (simp add: safety_ioctl_def ioc_cmd_defs ioc_get_stats_def ioc_reset_stats_def percpu_reset_sum pcpu_zero_def
      safety_fifo_len_def safety_tx_fifo_len_def Let_def del: percpu_sum_fields) (simp add: dev_upd)

theorem reset_then_stats_witness:
  "\<exists>st. fst (safety_ioctl bounded_list kenv0 SAFETY_IOC_GET_STATS \<lparr>arg_u32 = None, arg_frame = None, arg_writable = True\<rparr>
     (snd (safety_ioctl bounded_list kenv0 SAFETY_IOC_RESET_STATS \<lparr>arg_u32 = None, arg_frame = None, arg_writable = True\<rparr>
       ((ready_dev (2, []) (2, []) 2 1 350)\<lparr>fault_count := 7\<rparr>)))) = Inr (Out_stats st) \<and> st_fault_count st = 0"
  using reset_then_stats [of "\<lparr>arg_u32 = None, arg_frame = None, arg_writable = True\<rparr>" bounded_list kenv0 kenv0
      "\<lparr>arg_u32 = None, arg_frame = None, arg_writable = True\<rparr>" "(ready_dev (2, []) (2, []) 2 1 350)\<lparr>fault_count := 7\<rparr>"]
  by simp

end
