(* ===== verification/Driver_Main.thy ===== *)
theory Driver_Main
  imports Driver_Chrdev
begin

text \<open>
  Loading and unloading the driver (\<open>safety_copro_main.c\<close>, and the set-up of \<open>safety_copro_debugfs.c\<close>).
  The outcome of every allocation and registration is an argument.  What is allocated, registered,
  freed and cancelled is recorded, in order, in a log; a ledger replays it and objects to a
  resource that is freed twice, freed while something that uses it is still active, or acquired
  while held.
\<close>

section \<open>Definitions\<close>

definition safety_link_state_name :: "safety_link_state \<Rightarrow> string" where
  "safety_link_state_name st = (case st of
     SAFETY_LINK_BOOTING \<Rightarrow> ''BOOTING''
   | SAFETY_LINK_HB_OK \<Rightarrow> ''HB_OK''
   | SAFETY_LINK_HB_TIMEOUT \<Rightarrow> ''HB_TIMEOUT''
   | SAFETY_LINK_RECOVERING \<Rightarrow> ''RECOVERING'')"

datatype resource = R_dev | R_rx_fifo | R_tx_fifo | R_percpu | R_timer | R_work | R_miscdev | R_debugfs

datatype life_event = Acquire resource | Release resource

text \<open>The global pointer to the device, its debugfs directory and the log.\<close>

record 'q module_state =
  g_safety_dev :: "'q safety_copro_dev option"
  debugfs_dir :: bool
  life :: "life_event list"

definition log_life :: "life_event \<Rightarrow> 'q module_state \<Rightarrow> 'q module_state" where
  "log_life ev s = s\<lparr>life := life s @ [ev]\<rparr>"

text \<open>The module parameters, and how each call that may fail turns out: \<open>None\<close> is success.\<close>

record module_params =
  mp_hb_timeout_ms :: u32
  mp_fifo_depth :: u32

record init_env =
  kzalloc_ok :: bool
  rx_alloc :: "errno option"
  tx_alloc :: "errno option"
  percpu_ok :: bool
  misc_register :: "errno option"
  debugfs_ok :: bool
  possible_cpus :: nat

definition safety_debugfs_init :: "bool \<Rightarrow> 'q module_state \<Rightarrow> 'q module_state" where
  "safety_debugfs_init ok s =
     (if \<not> ok then s\<lparr>debugfs_dir := False\<rparr> else log_life (Acquire R_debugfs) (s\<lparr>debugfs_dir := True\<rparr>))"

definition safety_debugfs_destroy :: "'q module_state \<Rightarrow> 'q module_state" where
  "safety_debugfs_destroy s =
     (if debugfs_dir s then (log_life (Release R_debugfs) s)\<lparr>debugfs_dir := False\<rparr> else s)"

text \<open>The unwind labels of \<open>safety_copro_init\<close>; each falls through to the next.\<close>

definition err_free_dev :: "'q module_state \<Rightarrow> 'q module_state" where
  "err_free_dev s = log_life (Release R_dev) s"

definition err_free_rx_fifo :: "'q module_state \<Rightarrow> 'q module_state" where
  "err_free_rx_fifo s = err_free_dev (log_life (Release R_rx_fifo) s)"

definition err_free_tx_fifo :: "'q module_state \<Rightarrow> 'q module_state" where
  "err_free_tx_fifo s = err_free_rx_fifo (log_life (Release R_tx_fifo) s)"

definition err_destroy_wq :: "'q module_state \<Rightarrow> 'q module_state" where
  "err_destroy_wq s =
     (let s = s\<lparr>g_safety_dev := None\<rparr>;
          s = log_life (Release R_work) s;
          s = log_life (Release R_timer) s;
          s = log_life (Release R_percpu) s
      in err_free_tx_fifo s)"

text \<open>\<open>q0\<close> is the zeroed queue structure and \<open>rup\<close> the kernel's \<open>roundup_pow_of_two\<close>.\<close>

definition safety_copro_init :: "(safety_fifo_slot, 'q) kfifo_ops \<Rightarrow> 'q \<Rightarrow> (u32 \<Rightarrow> u32) \<Rightarrow> module_params
    \<Rightarrow> init_env \<Rightarrow> 'q module_state \<Rightarrow> unit result \<times> 'q module_state" where
  "safety_copro_init K q0 rup mp ie s =
     (if \<not> kzalloc_ok ie then (Inl ENOMEM, s)
      else
      let s = log_life (Acquire R_dev) s;
          dev = (kzalloc_dev q0)\<lparr>state := SAFETY_LINK_BOOTING,
             hb_timeout_ms := (if mp_hb_timeout_ms mp \<noteq> 0 then mp_hb_timeout_ms mp
                               else SAFETY_DEFAULT_HB_TIMEOUT_MS)\<rparr>;
          depth = (if mp_fifo_depth mp \<noteq> 0 then mp_fifo_depth mp else SAFETY_DEFAULT_FIFO_DEPTH);
          depth = rup depth;
          dev = dev\<lparr>fifo_depth := depth\<rparr>
      in case rx_alloc ie of Some err \<Rightarrow> (Inl err, err_free_dev s)
      | None \<Rightarrow>
      let s = log_life (Acquire R_rx_fifo) s;
          dev = dev\<lparr>rx_fifo := kfifo_alloc K (unat depth)\<rparr>
      in case tx_alloc ie of Some err \<Rightarrow> (Inl err, err_free_rx_fifo s)
      | None \<Rightarrow>
      let s = log_life (Acquire R_tx_fifo) s;
          dev = dev\<lparr>tx_fifo := kfifo_alloc K (unat depth)\<rparr>
      in case safety_percpu_init (possible_cpus ie) (percpu_ok ie) dev of
        (Inl err, dev) \<Rightarrow> (Inl err, err_free_tx_fifo s)
      | (Inr _, dev) \<Rightarrow>
      let s = log_life (Acquire R_percpu) s;
          dev = safety_timer_init dev;
          s = log_life (Acquire R_timer) s;
          dev = safety_recovery_init dev;
          s = log_life (Acquire R_work) s;
          s = s\<lparr>g_safety_dev := Some dev\<rparr>
      in case misc_register ie of Some err \<Rightarrow> (Inl err, err_destroy_wq s)
      | None \<Rightarrow>
      let s = log_life (Acquire R_miscdev) s
      in (Inr (), safety_debugfs_init (debugfs_ok ie) s))"

definition safety_copro_exit :: "'q module_state \<Rightarrow> 'q module_state" where
  "safety_copro_exit s = (case g_safety_dev s of None \<Rightarrow> s
     | Some dev \<Rightarrow>
       let s = safety_debugfs_destroy s;
           s = log_life (Release R_miscdev) s;
           s = log_life (Release R_timer) s;
           s = log_life (Release R_work) s;
           s = log_life (Release R_percpu) s;
           s = log_life (Release R_tx_fifo) s;
           s = log_life (Release R_rx_fifo) s;
           s = s\<lparr>g_safety_dev := None\<rparr>
       in log_life (Release R_dev) s)"

subsection \<open>Specification\<close>

text \<open>What must be gone before a resource may be released: everything before the structure itself; whatever can still run
  code that touches the queues and counters before those; the device node before the timer and the work item, which its
  operations start.  The timer's callback schedules the work, so a timer that may be running must be gone before the
  work item.  Only the device node's operations start the timer: it may be running from the moment at which the node was
  registered, \<open>live\<close>, until it is cancelled.\<close>

definition users :: "bool \<Rightarrow> resource \<Rightarrow> resource set" where
  "users live r = (case r of
     R_dev \<Rightarrow> {R_rx_fifo, R_tx_fifo, R_percpu, R_timer, R_work, R_miscdev, R_debugfs}
   | R_rx_fifo \<Rightarrow> {R_timer, R_work, R_miscdev, R_debugfs}
   | R_tx_fifo \<Rightarrow> {R_timer, R_work, R_miscdev, R_debugfs}
   | R_percpu \<Rightarrow> {R_timer, R_work, R_miscdev, R_debugfs}
   | R_timer \<Rightarrow> {R_miscdev}
   | R_work \<Rightarrow> insert R_miscdev (if live then {R_timer} else {})
   | _ \<Rightarrow> {})"

fun ledger :: "bool \<Rightarrow> resource set \<Rightarrow> life_event list \<Rightarrow> resource set option" where
  "ledger live held [] = Some held"
| "ledger live held (Acquire r # evs) = (if r \<in> held then None else ledger (live \<or> r = R_miscdev) (insert r held) evs)"
| "ledger live held (Release r # evs) =
     (if r \<notin> held \<or> held \<inter> users live r \<noteq> {} then None else ledger live (held - {r}) evs)"

text \<open>What a load acquires.\<close>

definition init_acquires :: "init_env \<Rightarrow> resource list" where
  "init_acquires ie =
     (if \<not> kzalloc_ok ie then []
      else R_dev # (if rx_alloc ie \<noteq> None then []
      else R_rx_fifo # (if tx_alloc ie \<noteq> None then []
      else R_tx_fifo # (if \<not> percpu_ok ie then []
      else [R_percpu, R_timer, R_work] @ (if misc_register ie \<noteq> None then []
      else R_miscdev # (if debugfs_ok ie then [R_debugfs] else []))))))"

definition init_ok :: "init_env \<Rightarrow> bool" where
  "init_ok ie \<longleftrightarrow> kzalloc_ok ie \<and> rx_alloc ie = None \<and> tx_alloc ie = None \<and> percpu_ok ie \<and> misc_register ie = None"

text \<open>The log of a load: a failed one releases in reverse what it acquired; and the parameters with the defaults applied.\<close>

definition init_log :: "init_env \<Rightarrow> life_event list" where
  "init_log ie = map Acquire (init_acquires ie) @ (if init_ok ie then [] else map Release (rev (init_acquires ie)))"

definition init_depth :: "(u32 \<Rightarrow> u32) \<Rightarrow> module_params \<Rightarrow> u32" where
  "init_depth rup mp = rup (if mp_fifo_depth mp \<noteq> 0 then mp_fifo_depth mp else SAFETY_DEFAULT_FIFO_DEPTH)"

definition init_timeout :: "module_params \<Rightarrow> u32" where
  "init_timeout mp = (if mp_hb_timeout_ms mp \<noteq> 0 then mp_hb_timeout_ms mp else SAFETY_DEFAULT_HB_TIMEOUT_MS)"

section \<open>Lemmas\<close>

lemmas unwind_defs = err_destroy_wq_def err_free_tx_fifo_def err_free_rx_fifo_def err_free_dev_def log_life_def

text \<open>The outcome of a load.\<close>

lemma init_outcome:
  assumes "safety_copro_init K q0 rup mp ie s = (r, s')"
  shows "life s' = life s @ init_log ie"
    and "init_ok ie \<longleftrightarrow> r = Inr ()"
    and "init_ok ie \<Longrightarrow> debugfs_dir s' = debugfs_ok ie"
    and "init_ok ie \<Longrightarrow> g_safety_dev s' = Some ((ready_dev (kfifo_alloc K (unat (init_depth rup mp)))
          (kfifo_alloc K (unat (init_depth rup mp))) (init_depth rup mp) (possible_cpus ie) (init_timeout mp))
          \<lparr>kcalls := [Hrtimer_init, Init_work]\<rparr>)"
    and "\<not> init_ok ie \<Longrightarrow> g_safety_dev s = None \<Longrightarrow> g_safety_dev s' = None"
proof -
  note defs = safety_copro_init_def safety_percpu_init_def safety_debugfs_init_def safety_timer_init_def
    safety_recovery_init_def unwind_defs kcall_def Let_def
  show "life s' = life s @ init_log ie" "init_ok ie \<longleftrightarrow> r = Inr ()"
    "init_ok ie \<Longrightarrow> debugfs_dir s' = debugfs_ok ie"
    "\<not> init_ok ie \<Longrightarrow> g_safety_dev s = None \<Longrightarrow> g_safety_dev s' = None"
    using assms by (auto simp: defs init_log_def init_acquires_def init_ok_def split: if_splits option.splits)
  show "init_ok ie \<Longrightarrow> g_safety_dev s' = Some ((ready_dev (kfifo_alloc K (unat (init_depth rup mp)))
          (kfifo_alloc K (unat (init_depth rup mp))) (init_depth rup mp) (possible_cpus ie) (init_timeout mp))
          \<lparr>kcalls := [Hrtimer_init, Init_work]\<rparr>)"
    using assms by (auto simp: defs init_ok_def ready_dev_def kzalloc_dev_def pcpu_zero_def init_depth_def init_timeout_def)
qed

lemma failed_init_ledger: "\<not> init_ok ie \<Longrightarrow> ledger False {} (init_log ie) = Some {}"
  by (auto simp: init_log_def init_acquires_def init_ok_def users_def)

lemma exit_outcome:
  assumes "g_safety_dev s = Some dev"
  shows "life (safety_copro_exit s) = life s @ (if debugfs_dir s then [Release R_debugfs] else []) @
      [Release R_miscdev, Release R_timer, Release R_work, Release R_percpu,
       Release R_tx_fifo, Release R_rx_fifo, Release R_dev]"
    and "g_safety_dev (safety_copro_exit s) = None"
  using assms by (simp_all add: safety_copro_exit_def safety_debugfs_destroy_def log_life_def Let_def)

section \<open>Properties\<close>

text \<open>C28 (no leak, no double free, no use after free).  Whatever allocations and registrations fail, a
  failed load releases, in reverse order, exactly what it acquired and publishes no device; and a successful load
  followed by an unload releases everything.  In both cases nothing is released twice, nothing is released
  while the timer, the work item, the device node or debugfs can still reach it, and the
  structure itself is freed last; in particular the unload removes the device node before it cancels the timer, and cancels the
  timer, which could schedule the work again, before it cancels the work.\<close>

theorem load_unload_balanced:
  assumes "g_safety_dev s = None" and "safety_copro_init K q0 rup mp ie s = (r, s')"
  shows "\<exists>evs. life s' = life s @ evs \<and>
    (case r of
       Inl err \<Rightarrow> g_safety_dev s' = None \<and> ledger False {} evs = Some {}
         \<and> (\<exists>rs. evs = map Acquire rs @ map Release (rev rs))
     | Inr _ \<Rightarrow> g_safety_dev s' \<noteq> None \<and> g_safety_dev (safety_copro_exit s') = None
         \<and> (\<exists>evs'. life (safety_copro_exit s') = life s @ evs @ evs' \<and> ledger False {} (evs @ evs') = Some {}))"
proof (cases "init_ok ie")
  case True
  note init = init_outcome [OF assms(2)]
  have "ledger False {} (init_log ie @ (if debugfs_ok ie then [Release R_debugfs] else []) @
      [Release R_miscdev, Release R_timer, Release R_work, Release R_percpu,
       Release R_tx_fifo, Release R_rx_fifo, Release R_dev]) = Some {}"
    using True by (auto simp: init_log_def init_acquires_def init_ok_def users_def)
  then show ?thesis
    using init True exit_outcome [OF init(4) [OF True]] by auto
next
  case False
  note init = init_outcome [OF assms(2)]
  from False init(2) obtain err where "r = Inl err" by (cases r) auto
  then show ?thesis using init(1,5) False assms(1) failed_init_ledger [OF False] by (auto simp: init_log_def)
qed

theorem load_unload_balanced_witness:
  "let ie = \<lparr>kzalloc_ok = True, rx_alloc = None, tx_alloc = None, percpu_ok = True, misc_register = Some ENODEV,
       debugfs_ok = True, possible_cpus = 1\<rparr>;
       (r, s') = safety_copro_init bounded_list (0, []) id \<lparr>mp_hb_timeout_ms = 0, mp_fifo_depth = 0\<rparr> ie
         \<lparr>g_safety_dev = None, debugfs_dir = False, life = []\<rparr>
   in r = Inl ENODEV \<and> ledger False {} (life s') = Some {} \<and> life s' \<noteq> []"
proof -
  let ?ie = "\<lparr>kzalloc_ok = True, rx_alloc = None, tx_alloc = None, percpu_ok = True, misc_register = Some ENODEV,
       debugfs_ok = True, possible_cpus = 1\<rparr>"
  let ?s = "\<lparr>g_safety_dev = None, debugfs_dir = False, life = []\<rparr> :: safety_fifo_slot blist module_state"
  obtain r s' where e: "safety_copro_init bounded_list (0, []) id \<lparr>mp_hb_timeout_ms = 0, mp_fifo_depth = 0\<rparr> ?ie ?s
    = (r, s')" by fastforce
  have "r = Inl ENODEV" "life s' \<noteq> []"
    using e by (auto simp: safety_copro_init_def safety_percpu_init_def unwind_defs Let_def)
  then show ?thesis using load_unload_balanced [OF _ e] e by auto
qed

text \<open>A loaded driver satisfies the invariant.  If a load succeeds with a queue depth that is a
  power of two of at least two (which is what the kernel's rounding yields when its FIFO accepts
  it), the published device satisfies the device invariant, its link is booting, both queues are
  empty, and the watchdog period is the module parameter or, when that is zero, 350 ms.\<close>

theorem load_establishes_invariant:
  assumes "kfifo K elems qwf" and "safety_copro_init K q0 rup mp ie s = (Inr (), s')"
    and "unat (init_depth rup mp) = 2 ^ Suc i"
  shows "\<exists>dev. g_safety_dev s' = Some dev \<and> driver_inv K elems qwf dev \<and> state dev = SAFETY_LINK_BOOTING
    \<and> elems (rx_fifo dev) = [] \<and> elems (tx_fifo dev) = []
    \<and> hb_timeout_ms dev = (if mp_hb_timeout_ms mp \<noteq> 0 then mp_hb_timeout_ms mp else 350)
    \<and> length (pcpu dev) = possible_cpus ie"
proof -
  have n: "2 \<le> unat (init_depth rup mp)" using assms(3) by simp
  note alloc = kfifo.wf_alloc [OF assms(1) n] kfifo.elems_alloc [OF assms(1) n] kfifo.size_alloc [OF assms(1,3)]
  have "init_ok ie" using init_outcome(2) [OF assms(2)] by simp
  from init_outcome(4) [OF assms(2) this] show ?thesis
    using alloc
    by (auto simp: ready_dev_def kzalloc_dev_def driver_inv_def timeline_wf_def init_timeout_def proto_const)
qed

theorem load_establishes_invariant_witness:
  "\<exists>s' dev. safety_copro_init bounded_list (0, []) id \<lparr>mp_hb_timeout_ms = 0, mp_fifo_depth = 0\<rparr>
       \<lparr>kzalloc_ok = True, rx_alloc = None, tx_alloc = None, percpu_ok = True, misc_register = None,
        debugfs_ok = True, possible_cpus = 1\<rparr> \<lparr>g_safety_dev = None, debugfs_dir = False, life = []\<rparr> = (Inr (), s')
     \<and> g_safety_dev s' = Some dev \<and> driver_inv bounded_list snd blist_wf dev \<and> hb_timeout_ms dev = 350"
proof -
  let ?mp = "\<lparr>mp_hb_timeout_ms = 0, mp_fifo_depth = 0\<rparr>"
  let ?ie = "\<lparr>kzalloc_ok = True, rx_alloc = None, tx_alloc = None, percpu_ok = True, misc_register = None,
        debugfs_ok = True, possible_cpus = 1\<rparr>"
  let ?s = "\<lparr>g_safety_dev = None, debugfs_dir = False, life = []\<rparr> :: safety_fifo_slot blist module_state"
  obtain r s' where e: "safety_copro_init bounded_list (0, []) id ?mp ?ie ?s = (r, s')" by fastforce
  have "init_ok ?ie" by (simp add: init_ok_def)
  then have "r = Inr ()" using init_outcome(2) [OF e] by simp
  with load_establishes_invariant [OF kfifo_bounded_list, of "(0, [])" id ?mp ?ie ?s s' 5] e show ?thesis
    by (auto simp: init_depth_def proto_const)
qed

end
