(* ===== verification/Driver_Debugfs.thy ===== *)
theory Driver_Debugfs
  imports Driver_Main
begin

text \<open>
  The read-only files under debugfs (\<open>safety_copro_debugfs.c\<close>).  A file is the list of its lines, a
  line the list of its cells; the column padding of \<open>seq_printf\<close> is not modelled.  Each show function
  copies what it prints under the device lock, so it reads one state of the device; only
  \<open>stats_show\<close> reads the two queue lengths after it.
\<close>

section \<open>Definitions\<close>

datatype cell = Str string | Num nat

type_synonym seq_file = "cell list list"

definition tl_event_name :: "safety_timeline_event \<Rightarrow> string" where
  "tl_event_name ev = (case ev of
     SAFETY_TL_FRAME_RX \<Rightarrow> ''FRAME_RX''
   | SAFETY_TL_FRAME_DROP \<Rightarrow> ''FRAME_DROP''
   | SAFETY_TL_HEARTBEAT \<Rightarrow> ''HEARTBEAT''
   | SAFETY_TL_TIMEOUT \<Rightarrow> ''TIMEOUT''
   | SAFETY_TL_RECOVERY \<Rightarrow> ''RECOVERY''
   | SAFETY_TL_FAULT_INJECT \<Rightarrow> ''FAULT_INJECT''
   | _ \<Rightarrow> ''NONE'')"

definition fault_type_name :: "u8 \<Rightarrow> string" where
  "fault_type_name ft =
     (if ft = SAFETY_FAULT_NONE then ''NONE''
      else if ft = SAFETY_FAULT_TASK_HANG then ''HEARTBEAT_STOP''
      else if ft = SAFETY_FAULT_CHECKSUM_ERROR then ''CHECKSUM_ERROR''
      else if ft = SAFETY_FAULT_CRITICAL then ''CRITICAL''
      else ''UNKNOWN'')"

definition validate_name :: "safety_validate_result \<Rightarrow> string" where
  "validate_name v = (case v of
     SAFETY_VALIDATE_OK \<Rightarrow> ''OK''
   | SAFETY_VALIDATE_BAD_MAGIC \<Rightarrow> ''BAD_MAGIC''
   | SAFETY_VALIDATE_BAD_VERSION \<Rightarrow> ''BAD_VERSION''
   | SAFETY_VALIDATE_BAD_LENGTH \<Rightarrow> ''BAD_LENGTH''
   | SAFETY_VALIDATE_BAD_CHECKSUM \<Rightarrow> ''BAD_CHECKSUM'')"

definition stats_show :: "(safety_fifo_slot, 'q) kfifo_ops \<Rightarrow> 'q safety_copro_dev \<Rightarrow> seq_file" where
  "stats_show K dev =
     (let rx_depth = safety_fifo_len K dev; tx_depth = safety_tx_fifo_len K dev in
     [[Str ''current_state'', Str (safety_link_state_name (state dev))],
      [Str ''heartbeat_count'', Num (unat (heartbeat_count dev))],
      [Str ''fault_count'', Num (unat (fault_count dev))],
      [Str ''dropped_frame_count'', Num (unat (dropped_frame_count dev))],
      [Str ''timeout_count'', Num (unat (timeout_count dev))],
      [Str ''retry_count'', Num (unat (retry_count dev))],
      [Str ''protocol_error_count'', Num (unat (protocol_error_count dev))],
      [Str ''rx_queue_depth'', Num (unat rx_depth)],
      [Str ''tx_queue_depth'', Num (unat tx_depth)]])"

fun percpu_rows :: "nat \<Rightarrow> safety_copro_pcpu list \<Rightarrow> seq_file" where
  "percpu_rows cpu [] = []"
| "percpu_rows cpu (p # ps) =
     [Num cpu, Num (unat (rx_frames p)), Num (unat (dropped p)), Num (unat (pc_bytes p))]
     # percpu_rows (cpu + 1) ps"

definition percpu_stats_show :: "'q safety_copro_dev \<Rightarrow> seq_file" where
  "percpu_stats_show dev =
     (let sum = safety_percpu_sum dev in
      [[Str ''cpu'', Str ''rx_frames'', Str ''dropped'', Str ''bytes'']]
      @ percpu_rows 0 (pcpu dev)
      @ [[Str ''total'', Num (unat (rx_frames sum)), Num (unat (dropped sum)), Num (unat (pc_bytes sum))]])"

definition ringbuf_status_show :: "(safety_fifo_slot, 'q) kfifo_ops \<Rightarrow> 'q safety_copro_dev \<Rightarrow> seq_file" where
  "ringbuf_status_show K dev =
     [[Str ''rx_len'', Num (kfifo_len K (rx_fifo dev))],
      [Str ''tx_len'', Num (kfifo_len K (tx_fifo dev))],
      [Str ''capacity'', Num (kfifo_size K (rx_fifo dev))],
      [Str ''high_watermark'', Num (unat (fifo_high_watermark dev))]]"

definition last_fault_show :: "'q safety_copro_dev \<Rightarrow> seq_file" where
  "last_fault_show dev =
     [[Str ''last_fault_type'', Num (unat (last_fault_type dev)), Str (fault_type_name (last_fault_type dev))],
      [Str ''detail_code'', Num (unat (last_fault_detail dev))],
      [Str ''timestamp_ns'', Num (unat (last_fault_ts_ns dev))]]"

definition protocol_error_show :: "'q safety_copro_dev \<Rightarrow> seq_file" where
  "protocol_error_show dev =
     [[Str ''last_error'', Str (validate_name (last_proto_err dev))],
      [Str ''total'', Num (unat (protocol_error_count dev))],
      [Str ''bad_magic'', Num (unat (proto_err_magic dev))],
      [Str ''bad_version'', Num (unat (proto_err_version dev))],
      [Str ''bad_length'', Num (unat (proto_err_length dev))],
      [Str ''bad_checksum'', Num (unat (proto_err_checksum dev))]]"

definition tl_row :: "safety_timeline_entry \<Rightarrow> cell list" where
  "tl_row t = [Num (unat (ts_ns t)), Str (tl_event_name (event t)), Num (unat (tl_seq t))]"

text \<open>The loop \<open>for (i = 0; i < filled; i++)\<close> over the snapshot; \<open>n\<close> iterations are left.\<close>

fun timeline_loop :: "safety_timeline_entry list \<Rightarrow> nat \<Rightarrow> nat \<Rightarrow> nat \<Rightarrow> seq_file" where
  "timeline_loop snap start i 0 = []"
| "timeline_loop snap start i (Suc n) =
     (let idx = (start + i) mod SAFETY_TIMELINE_DEPTH
      in tl_row (snap ! idx) # timeline_loop snap start (i + 1) n)"

definition timeline_show :: "'q safety_copro_dev \<Rightarrow> seq_file" where
  "timeline_show dev =
     (let hd_idx = timeline_head dev; filled = timeline_filled dev; snap = timeline dev;
          hdr = [Str ''ts_ns'', Str ''event'', Str ''seq''] in
      if filled = 0 then [hdr]
      else let start = (if filled < SAFETY_TIMELINE_DEPTH then 0 else hd_idx)
           in hdr # timeline_loop snap start 0 filled)"

subsection \<open>Specification\<close>

text \<open>Recording a sequence of events, each with the environment it reads the clock from.\<close>

definition record_all :: "(kenv \<times> safety_timeline_event \<times> u16) list
    \<Rightarrow> 'q safety_copro_dev \<Rightarrow> 'q safety_copro_dev" where
  "record_all evs dev = fold (\<lambda>(e, ev, seq). safety_timeline_record_locked e ev seq) evs dev"

definition tl_entry :: "kenv \<times> safety_timeline_event \<times> u16 \<Rightarrow> safety_timeline_entry" where
  "tl_entry = (\<lambda>(e, ev, seq). \<lparr>ts_ns = ktime_get_ns e 0, event = ev, tl_seq = seq\<rparr>)"

section \<open>Lemmas\<close>

lemma timeline_loop_map:
  "timeline_loop snap start i n = map (\<lambda>j. tl_row (snap ! ((start + j) mod SAFETY_TIMELINE_DEPTH))) [i..<i + n]"
  by (induction n arbitrary: i) (simp_all add: upt_conv_Cons Let_def del: upt_Suc)

lemma timeline_show_view:
  "timeline_show dev = [Str ''ts_ns'', Str ''event'', Str ''seq''] # map tl_row (timeline_view dev)"
  by (simp add: timeline_show_def timeline_loop_map timeline_view_def timeline_start_def Let_def)

lemma last_events_append:
  "last_events n (last_events n xs @ ys) = last_events n (xs @ ys)"
  by (cases "length xs \<le> n") (auto simp: last_events_def add.commute)

lemma record_all_view:
  assumes "timeline_wf dev"
  shows "timeline_wf (record_all evs dev)
    \<and> timeline_view (record_all evs dev) = last_events SAFETY_TIMELINE_DEPTH (timeline_view dev @ map tl_entry evs)"
  using assms
proof (induction evs arbitrary: dev)
  case Nil
  then have "length (timeline_view dev) \<le> SAFETY_TIMELINE_DEPTH" by (simp add: timeline_view_def timeline_wf_def)
  then show ?case using Nil by (simp add: record_all_def last_events_def)
next
  case (Cons x evs)
  obtain e ev seq where x: "x = (e, ev, seq)" by (metis prod_cases3)
  let ?d = "safety_timeline_record_locked e ev seq dev"
  have "timeline_view (record_all evs ?d) = last_events SAFETY_TIMELINE_DEPTH
      (last_events SAFETY_TIMELINE_DEPTH (timeline_view dev @ [tl_entry x]) @ map tl_entry evs)"
    using Cons.IH [OF timeline_record_wf [OF Cons.prems]] timeline_record_view [OF Cons.prems]
    by (simp add: x tl_entry_def)
  then show ?case
    using Cons.IH [OF timeline_record_wf [OF Cons.prems]]
    by (simp add: last_events_append record_all_def x)
qed

section \<open>Properties\<close>

text \<open>Timeline.  Whatever has been recorded before, after recording any sequence of events the
  timeline file lists the last 64 events recorded, oldest first: the ring buffer refines the log
  of recent events.\<close>

theorem timeline_shows_recent:
  assumes "timeline_wf dev"
  shows "timeline_show (record_all evs dev) = [Str ''ts_ns'', Str ''event'', Str ''seq''] #
    map tl_row (last_events SAFETY_TIMELINE_DEPTH (timeline_view dev @ map tl_entry evs))"
  using record_all_view [OF assms] by (simp add: timeline_show_view)

theorem timeline_shows_recent_witness:
  "timeline_show (record_all [(kenv0, SAFETY_TL_TIMEOUT, 0), (kenv0, SAFETY_TL_RECOVERY, 3)]
     (ready_dev (2 :: nat, [] :: safety_fifo_slot list) (2, []) 2 1 350)) =
   [[Str ''ts_ns'', Str ''event'', Str ''seq''], [Num 0, Str ''TIMEOUT'', Num 0], [Num 0, Str ''RECOVERY'', Num 3]]"
  by (subst timeline_shows_recent)
    (simp_all add: timeline_wf_def ready_dev_def kzalloc_dev_def proto_const timeline_view_def last_events_def
      tl_entry_def tl_row_def tl_event_name_def kenv0_def)

text \<open>Consistency of the status files.  In a device that satisfies the invariant, the queue
  lengths and the high watermark the status file prints do not exceed the capacity it prints, and
  the total of protocol errors is the sum of the four classes (modulo 2^32).\<close>

theorem status_files_consistent:
  assumes "kfifo K elems qwf" and "driver_inv K elems qwf dev"
  shows "(\<exists>rx tx cap hwm. ringbuf_status_show K dev =
      [[Str ''rx_len'', Num rx], [Str ''tx_len'', Num tx], [Str ''capacity'', Num cap], [Str ''high_watermark'', Num hwm]]
    \<and> rx = length (elems (rx_fifo dev)) \<and> tx = length (elems (tx_fifo dev)) \<and> rx \<le> cap \<and> tx \<le> cap \<and> hwm \<le> cap)
   \<and> (\<exists>err tot m v l c. protocol_error_show dev =
      [[Str ''last_error'', err], [Str ''total'', Num tot], [Str ''bad_magic'', Num m], [Str ''bad_version'', Num v],
       [Str ''bad_length'', Num l], [Str ''bad_checksum'', Num c]] \<and> tot = (m + v + l + c) mod 2 ^ 32)"
proof
  have i: "qwf (rx_fifo dev)" "qwf (tx_fifo dev)" "kfifo_size K (rx_fifo dev) = unat (fifo_depth dev)"
    "kfifo_size K (tx_fifo dev) = unat (fifo_depth dev)" "fifo_high_watermark dev \<le> fifo_depth dev"
    "protocol_error_count dev =
         proto_err_magic dev + proto_err_version dev + proto_err_length dev + proto_err_checksum dev"
    using assms(2) by (auto simp: driver_inv_def)
  show "\<exists>rx tx cap hwm. ringbuf_status_show K dev =
      [[Str ''rx_len'', Num rx], [Str ''tx_len'', Num tx], [Str ''capacity'', Num cap], [Str ''high_watermark'', Num hwm]]
    \<and> rx = length (elems (rx_fifo dev)) \<and> tx = length (elems (tx_fifo dev)) \<and> rx \<le> cap \<and> tx \<le> cap \<and> hwm \<le> cap"
    using i kfifo.len [OF assms(1)] kfifo.bound [OF assms(1) i(1)] kfifo.bound [OF assms(1) i(2)]
    by (simp add: ringbuf_status_show_def word_le_nat_alt)
  show "\<exists>err tot m v l c. protocol_error_show dev =
      [[Str ''last_error'', err], [Str ''total'', Num tot], [Str ''bad_magic'', Num m], [Str ''bad_version'', Num v],
       [Str ''bad_length'', Num l], [Str ''bad_checksum'', Num c]] \<and> tot = (m + v + l + c) mod 2 ^ 32"
    using i(6) by (simp add: protocol_error_show_def unat_word_ariths mod_simps)
qed

theorem status_files_consistent_witness:
  "\<exists>rx cap hwm. ringbuf_status_show bounded_list (ready_dev (2, []) (2, []) 2 1 350) =
      [[Str ''rx_len'', Num rx], [Str ''tx_len'', Num 0], [Str ''capacity'', Num cap], [Str ''high_watermark'', Num hwm]]
    \<and> rx \<le> cap \<and> hwm \<le> cap"
  using status_files_consistent [OF kfifo_bounded_list demo_dev_inv]
  by (auto simp: ringbuf_status_show_def ready_dev_def kzalloc_dev_def bounded_list_def)

end
