(* ===== verification/Driver_System.thy ===== *)
theory Driver_System
  imports Driver_Debugfs
begin

text \<open>
  The loaded driver as a transition system.  A step is one complete system call, one run of the
  watchdog callback or one run of the recovery work; steps interleave in any order.  The kernel
  keeps two things the device structure does not show: whether the watchdog timer is armed and
  whether the recovery work is pending.  Both follow from the calls the driver makes: starting the
  timer arms it, firing disarms it; scheduling the work makes it pending, and it stops being
  pending when it starts to run.  A sleeping reader takes no step; when it is woken and pops a
  frame it does what a non-blocking read does.
\<close>

section \<open>Definitions\<close>

record 'q driver_sys =
  sys_dev :: "'q safety_copro_dev"
  timer_armed :: bool
  work_pending :: bool

definition new_calls :: "'q safety_copro_dev \<Rightarrow> 'q safety_copro_dev \<Rightarrow> kcall list" where
  "new_calls dev dev' = drop (length (kcalls dev)) (kcalls dev')"

fun starts_timer :: "kcall \<Rightarrow> bool" where
  "starts_timer (Hrtimer_start ms) = True"
| "starts_timer _ = False"

definition absorb :: "'q driver_sys \<Rightarrow> 'q safety_copro_dev \<Rightarrow> 'q driver_sys" where
  "absorb s dev' = \<lparr>sys_dev = dev',
     timer_armed = timer_armed s \<or> list_ex starts_timer (new_calls (sys_dev s) dev'),
     work_pending = work_pending s \<or> Schedule_work \<in> set (new_calls (sys_dev s) dev')\<rparr>"

inductive drv_step :: "(safety_fifo_slot, 'q) kfifo_ops \<Rightarrow> 'q driver_sys \<Rightarrow> 'q driver_sys \<Rightarrow> bool" for K where
  sys_write: "safety_write K e ubuf n (sys_dev s) = (r, dev') \<Longrightarrow> \<forall>f. ubuf = Some f \<longrightarrow> length f = n
     \<Longrightarrow> drv_step K s (absorb s dev')"
| sys_read: "safety_read K True [] n ok (sys_dev s) = Some (r, dev') \<Longrightarrow> drv_step K s (absorb s dev')"
| sys_poll: "safety_poll K (sys_dev s) = (m, dev') \<Longrightarrow> drv_step K s (absorb s dev')"
| sys_ioctl: "safety_ioctl K e cmd arg (sys_dev s) = (r, dev') \<Longrightarrow> arg_ok arg \<Longrightarrow> drv_step K s (absorb s dev')"
| timer_fires: "timer_armed s \<Longrightarrow> hb_timer_fn K e (sys_dev s) = (r, dev')
     \<Longrightarrow> drv_step K s (absorb (s\<lparr>timer_armed := False\<rparr>) dev')"
| work_runs: "work_pending s \<Longrightarrow> recovery_work_fn K e (sys_dev s) = dev'
     \<Longrightarrow> drv_step K s (absorb (s\<lparr>work_pending := False\<rparr>) dev')"

definition drv_init :: "(safety_fifo_slot, 'q) kfifo_ops \<Rightarrow> ('q \<Rightarrow> safety_fifo_slot list) \<Rightarrow> ('q \<Rightarrow> bool)
    \<Rightarrow> 'q driver_sys \<Rightarrow> bool" where
  "drv_init K elems qwf s \<longleftrightarrow> driver_inv K elems qwf (sys_dev s) \<and> state (sys_dev s) = SAFETY_LINK_BOOTING
     \<and> \<not> timer_armed s \<and> \<not> work_pending s"

inductive drv_reachable :: "(safety_fifo_slot, 'q) kfifo_ops \<Rightarrow> 'q driver_sys \<Rightarrow> 'q driver_sys \<Rightarrow> bool" for K s0 where
  start: "drv_reachable K s0 s0"
| step: "drv_reachable K s0 s \<Longrightarrow> drv_step K s s' \<Longrightarrow> drv_reachable K s0 s'"

inductive_cases drv_stepE: "drv_step K s s'"

definition link_inv :: "'q driver_sys \<Rightarrow> bool" where
  "link_inv s \<longleftrightarrow> (state (sys_dev s) = SAFETY_LINK_HB_OK \<longrightarrow> timer_armed s)
     \<and> (state (sys_dev s) = SAFETY_LINK_HB_TIMEOUT \<longrightarrow> work_pending s)"

section \<open>Lemmas\<close>

lemma step_ioctl:
  "arg_ok arg \<Longrightarrow> drv_step K s (absorb s (snd (safety_ioctl K e cmd arg (sys_dev s))))"
  by (rule drv_step.sys_ioctl [OF prod.collapse [symmetric]])

lemma demo_sys_init:
  "drv_init bounded_list snd blist_wf
     \<lparr>sys_dev = ready_dev (2, []) (2, []) 2 1 350, timer_armed = False, work_pending = False\<rparr>"
  using demo_dev_inv by (simp add: drv_init_def) (simp add: ready_dev_def kzalloc_dev_def)

text \<open>An operation that is not the timer or the work leaves the link state, or feeds the watchdog.\<close>

definition quiet :: "'q safety_copro_dev \<Rightarrow> 'q safety_copro_dev \<Rightarrow> bool" where
  "quiet dev dev' \<longleftrightarrow> state dev' = state dev
     \<or> state dev' = SAFETY_LINK_HB_OK \<and> list_ex starts_timer (new_calls dev dev')"

lemma quiet_refl [simp]: "quiet dev dev"
  by (simp add: quiet_def)

lemma quiet_state: "state dev' = state dev \<Longrightarrow> quiet dev dev'"
  by (simp add: quiet_def)

lemma quiet_link_inv: "quiet (sys_dev s) dev' \<Longrightarrow> link_inv s \<Longrightarrow> link_inv (absorb s dev')"
  by (auto simp: quiet_def link_inv_def absorb_def)

lemma poll_quiet: "quiet dev (snd (safety_poll K dev))"
  by (rule quiet_state) (simp add: safety_poll_def kcall_def Let_def)

lemma pop_state:
  "safety_fifo_pop_frame K dev = (n, s, d) \<Longrightarrow> state d = state dev"
  "safety_fifo_pop_tx_frame K dev = (n, s, d) \<Longrightarrow> state d = state dev"
  by (auto simp: safety_fifo_pop_frame_def safety_fifo_pop_tx_frame_def split: prod.splits list.splits if_splits)

lemma read_quiet: "safety_read K True [] n ok dev = Some (r, d) \<Longrightarrow> quiet dev d"
  by (intro quiet_state)
    (auto simp: safety_read_def safety_read_loop.simps [of K True "[]" dev] dest: pop_state
      split: prod.splits if_splits)

lemma push_tx_state:
  "safety_fifo_push_tx_frame K e f n seq ty dev = (r, d) \<Longrightarrow> state d = state dev"
  by (auto simp: safety_fifo_push_tx_frame_def kcall_def Let_def split: prod.splits if_splits)

lemma write_quiet: "quiet dev (snd (safety_write K e ubuf n dev))"
  by (intro quiet_state)
    (auto simp: safety_write_def Let_def dest: push_tx_state split: option.split prod.split sum.split)

context driver
begin

lemma queue_rx_quiet:
  assumes "dinv dev"
  shows "quiet dev (snd (queue_rx_from_linkd K e f (length f) dev))"
proof (rule rx_cases [OF assms, of f])
  assume "16 \<le> length f" "length f \<le> SAFETY_MAX_FRAME_SIZE" "\<not> rx_header_fits f"
  then show ?thesis by (rule queue_rx_bad [where K = K and e = e and dev = dev]) (simp add: quiet_def)
next
  assume "rx_header_fits f" "length (elems (rx_fifo dev)) = unat (fifo_depth dev)"
  then show ?thesis using queue_rx_full [OF assms] by (simp add: quiet_def)
next
  assume "rx_header_fits f" "length (elems (rx_fifo dev)) < unat (fifo_depth dev)"
  then show ?thesis
    by (rule queue_rx_room [OF assms, where e = e])
      (simp add: quiet_def new_calls_def safety_timer_rearm_def kcall_def)
qed (simp add: queue_rx_size)

lemma ioctl_quiet:
  assumes "dinv dev" "arg_ok arg"
  shows "quiet dev (snd (safety_ioctl K e cmd arg dev))"
proof -
  have "quiet dev (snd (ioc_push_rx_frame K e arg dev))"
  proof (cases "arg_frame arg")
    case (Some io)
    let ?f = "take (unat (io_len io)) (io_data io)"
    have "length ?f = unat (io_len io) \<or> SAFETY_MAX_FRAME_SIZE < unat (io_len io)"
      using assms(2) Some by (auto simp: arg_ok_def)
    then show ?thesis
      using queue_rx_quiet [OF assms(1), of e ?f] queue_rx_take [of K e "io_data io" "unat (io_len io)" dev] Some
      by (auto simp: ioc_push_rx_frame_def split: prod.splits sum.splits)
  qed (simp add: ioc_push_rx_frame_def)
  moreover have "quiet dev (snd (ioc_pop_tx_frame K arg dev))"
    by (intro quiet_state) (auto simp: ioc_pop_tx_frame_def Let_def dest: pop_state split: prod.splits)
  moreover have "quiet dev (snd (ioc_inject_fault K e arg dev))"
  proof (rule quiet_state)
    have "state (snd (safety_synth_fault_event K (later e 1) ft 2 0 d)) = state d" if "dinv d" for ft d
      using synth_fault_event(2) [OF that] by (simp add: synth_post_def)
    then show "state (snd (ioc_inject_fault K e arg dev)) = state dev"
      using assms(1) by (simp add: ioc_inject_fault_def Let_def split_beta split: option.split)
  qed
  moreover have "quiet dev (snd (ioc_set_hb_timeout arg dev))" "quiet dev (snd (ioc_reset_stats dev))"
    "quiet dev (safety_recovery_schedule dev)" "snd (ioc_get_stats K arg dev) = dev" "snd (ioc_get_state arg dev) = dev"
    by (simp_all add: quiet_state ioc_set_hb_timeout_def ioc_reset_stats_def safety_timer_rearm_def
        safety_recovery_schedule_def ioc_get_stats_def ioc_get_state_def dev_upd Let_def split: option.split)
  ultimately show ?thesis by (simp add: safety_ioctl_def)
qed

lemma timer_pends_work:
  assumes "dinv dev"
  shows "Schedule_work \<in> set (new_calls dev (snd (hb_timer_fn K e dev)))"
proof (rule hb_timer_fn_unfold [where K = K and e = e and dev = dev])
  fix d
  assume d: "hb_timer_fn K e dev = (HRTIMER_NORESTART, kcall Schedule_work
      (snd (safety_synth_fault_event K (later e 2) SAFETY_FAULT_TASK_HANG 1 1 d)))"
    and inv: "\<And>elems qwf. driver_inv K elems qwf dev \<Longrightarrow> driver_inv K elems qwf d"
    and k: "kcalls d = kcalls dev @ [Trace (safety_timeout_detected (hb_timeout_ms dev) (timeout_count dev + 1))]"
  let ?d = "snd (safety_synth_fault_event K (later e 2) SAFETY_FAULT_TASK_HANG 1 1 d)"
  have "take (length (kcalls d)) (kcalls ?d) = kcalls d"
    using synth_fault_event(2) [OF inv [OF assms]] by (simp add: synth_post_def)
  then have "length (kcalls d) \<le> length (kcalls ?d)" by (metis nat_le_linear order.refl take_all length_take min.absorb2)
  then show ?thesis unfolding d using k by (simp add: new_calls_def kcall_def)
qed

lemma hb_timer_link:
  assumes "dinv dev"
  shows "dinv (snd (hb_timer_fn K e dev)) \<and> state (snd (hb_timer_fn K e dev)) = SAFETY_LINK_HB_TIMEOUT"
  by (rule hb_timer_fn_unfold [where K = K and e = e and dev = dev])
    (use assms synth_fault_event in \<open>auto simp: synth_post_def kcall_def\<close>)

text \<open>The report of an expiry: a fault event at the end of the queue, or a dropped frame if there is no room.\<close>

definition timeout_reported :: "'q safety_copro_dev \<Rightarrow> 'q safety_copro_dev \<Rightarrow> bool" where
  "timeout_reported dev dev' \<longleftrightarrow>
     (if length (elems (rx_fifo dev)) < unat (fifo_depth dev)
      then \<exists>f. elems (rx_fifo dev') = elems (rx_fifo dev) @ [f] \<and> safety_frame_validate (slot_data f) = SAFETY_VALIDATE_OK
             \<and> frame_type (header_of_bytes (slot_data f)) = SAFETY_FRAME_FAULT_EVENT
             \<and> fe_fault_type (fault_event_of_bytes (drop SAFETY_HEADER_SIZE (slot_data f))) = SAFETY_FAULT_TASK_HANG
      else elems (rx_fifo dev') = elems (rx_fifo dev) \<and> dropped_frame_count dev' = dropped_frame_count dev + 1)"

lemma timer_reports:
  assumes "dinv dev"
  shows "timeout_reported dev (snd (hb_timer_fn K e dev))"
proof (rule hb_timer_fn_unfold [where K = K and e = e and dev = dev])
  fix d
  assume d: "hb_timer_fn K e dev = (HRTIMER_NORESTART, kcall Schedule_work
      (snd (safety_synth_fault_event K (later e 2) SAFETY_FAULT_TASK_HANG 1 1 d)))"
    and inv: "\<And>elems qwf. driver_inv K elems qwf dev \<Longrightarrow> driver_inv K elems qwf d"
    and eqs: "rx_fifo d = rx_fifo dev" "fifo_depth d = fifo_depth dev" "dropped_frame_count d = dropped_frame_count dev"
  show ?thesis
    using synth_fault_event(2) [OF inv [OF assms], of "later e 2" SAFETY_FAULT_TASK_HANG 1 1]
      fault_slot_frame [of "later e 2" "synth_seq d" SAFETY_FAULT_TASK_HANG 1 1]
    unfolding d timeout_reported_def synth_post_def eqs by (auto simp: kcall_def split: if_splits)
qed

lemma recovery_link:
  assumes "dinv dev"
  shows "dinv (recovery_work_fn K e dev) \<and> state (recovery_work_fn K e dev) = SAFETY_LINK_RECOVERING"
  by (rule recovery_work_fn_unfold [where K = K and e = e and dev = dev])
    (use assms synth_recovery_report in \<open>auto simp: synth_post_def\<close>)

lemma step_inv:
  assumes "drv_step K s s'" "dinv (sys_dev s)" "link_inv s"
  shows "dinv (sys_dev s') \<and> link_inv s'"
  using assms(1)
proof cases
  case (sys_write e ubuf n r dev')
  then show ?thesis
    using write_inv [OF assms(2), of ubuf n e] write_quiet [of "sys_dev s" K e ubuf n] quiet_link_inv [OF _ assms(3)]
    by (simp add: absorb_def [of s dev', THEN arg_cong [where f = sys_dev]])
next
  case (sys_read n ok r dev')
  then have "dinv dev'"
    using read_loop_inv [of True "[]" "sys_dev s"] assms(2)
    by (auto simp: safety_read_def split: option.splits prod.splits sum.splits if_splits)
  then show ?thesis using sys_read(1) quiet_link_inv [OF read_quiet [OF sys_read(2)] assms(3)] by (simp add: absorb_def)
next
  case (sys_poll m dev')
  then show ?thesis using assms(2) poll_quiet [of "sys_dev s" K] quiet_link_inv [OF _ assms(3)] poll_fields [of K elems wf "sys_dev s"]
    by (simp add: absorb_def)
next
  case (sys_ioctl e cmd arg r dev')
  then show ?thesis
    using ioctl_inv [OF assms(2), of arg e cmd] ioctl_quiet [OF assms(2), of arg e cmd] quiet_link_inv [OF _ assms(3)]
    by (simp add: absorb_def)
next
  case (timer_fires e r dev')
  then show ?thesis
    using hb_timer_link [OF assms(2), of e] timer_pends_work [OF assms(2), of e] by (simp add: absorb_def link_inv_def)
next
  case (work_runs e dev')
  then show ?thesis using recovery_link [OF assms(2), of e] by (simp add: absorb_def link_inv_def)
qed

lemma reachable_inv:
  assumes "drv_reachable K s0 s" "drv_init K elems wf s0"
  shows "dinv (sys_dev s) \<and> link_inv s"
  using assms(1)
proof induction
  case start
  then show ?case using assms(2) by (simp add: drv_init_def link_inv_def)
next
  case (step s s')
  then show ?case using step_inv by blast
qed

end

section \<open>Queue discipline\<close>

definition queue_change :: "'a list \<Rightarrow> 'a list \<Rightarrow> bool" where
  "queue_change xs ys \<longleftrightarrow> ys = xs \<or> (\<exists>x. ys = xs @ [x]) \<or> (\<exists>x. xs = x # ys)"

lemma queue_change_refl [simp]: "queue_change xs xs"
  by (simp add: queue_change_def)

lemma synth_post_queues:
  "synth_post elems s dev dev' \<Longrightarrow> queue_change (elems (rx_fifo dev)) (elems (rx_fifo dev')) \<and> tx_fifo dev' = tx_fifo dev"
  by (auto simp: synth_post_def queue_change_def split: if_splits)

context driver
begin

definition queues_change :: "'q safety_copro_dev \<Rightarrow> 'q safety_copro_dev \<Rightarrow> bool" where
  "queues_change dev dev' \<longleftrightarrow> queue_change (elems (rx_fifo dev)) (elems (rx_fifo dev'))
     \<and> queue_change (elems (tx_fifo dev)) (elems (tx_fifo dev'))"

lemma same_queues: "rx_fifo dev' = rx_fifo dev \<Longrightarrow> tx_fifo dev' = tx_fifo dev \<Longrightarrow> queues_change dev dev'"
  by (simp add: queues_change_def)

lemma write_queues:
  assumes "dinv dev" "\<forall>f. ubuf = Some f \<longrightarrow> length f = n"
  shows "queues_change dev (snd (safety_write K e ubuf n dev))"
proof (cases "\<exists>f. ubuf = Some f \<and> 16 \<le> n \<and> n \<le> SAFETY_MAX_FRAME_SIZE \<and> safety_frame_validate f = SAFETY_VALIDATE_OK")
  case True
  then obtain f where f: "ubuf = Some f" "length f = n" "16 \<le> n" "n \<le> SAFETY_MAX_FRAME_SIZE"
    "safety_frame_validate f = SAFETY_VALIDATE_OK" using assms(2) by blast
  show ?thesis
    using write_cases [OF assms(1) f(2-5), of e] f(1)
    by (auto simp: queues_change_def queue_change_def split: if_splits)
next
  case False
  then show ?thesis using assms
    by (auto simp: safety_write_def SAFETY_HEADER_SIZE_def Let_def intro!: same_queues split: option.split)
qed

lemma pop_queues:
  assumes "dinv dev"
  shows "queues_change dev (snd (snd (safety_fifo_pop_frame K dev)))"
    and "queues_change dev (snd (snd (safety_fifo_pop_tx_frame K dev)))"
proof -
  have wf: "wf (rx_fifo dev)" "wf (tx_fifo dev)" using assms by (auto simp: driver_inv_def)
  show "queues_change dev (snd (snd (safety_fifo_pop_frame K dev)))"
    by (rule pop_frame_cases [OF wf(1)]) (auto simp: queues_change_def queue_change_def)
  show "queues_change dev (snd (snd (safety_fifo_pop_tx_frame K dev)))"
    by (rule pop_tx_cases [OF wf(2)]) (auto simp: queues_change_def queue_change_def)
qed

lemma queue_rx_queues:
  assumes "dinv dev"
  shows "queues_change dev (snd (queue_rx_from_linkd K e f (length f) dev))"
proof (rule rx_cases [OF assms, of f])
  assume "16 \<le> length f" "length f \<le> SAFETY_MAX_FRAME_SIZE" "\<not> rx_header_fits f"
  then show ?thesis by (rule queue_rx_bad [where K = K and e = e and dev = dev]) (simp add: same_queues)
next
  assume "rx_header_fits f" "length (elems (rx_fifo dev)) = unat (fifo_depth dev)"
  then show ?thesis using queue_rx_full [OF assms] by (simp add: same_queues)
next
  assume "rx_header_fits f" "length (elems (rx_fifo dev)) < unat (fifo_depth dev)"
  then show ?thesis
    by (rule queue_rx_room [OF assms, where e = e])
      (simp add: queues_change_def queue_change_def safety_timer_rearm_def kcall_def)
qed (simp add: queue_rx_size same_queues)

lemma ioctl_queues:
  assumes "dinv dev" "arg_ok arg"
  shows "queues_change dev (snd (safety_ioctl K e cmd arg dev))"
proof -
  have "queues_change dev (snd (ioc_push_rx_frame K e arg dev))"
  proof (cases "arg_frame arg")
    case (Some io)
    let ?f = "take (unat (io_len io)) (io_data io)"
    have "length ?f = unat (io_len io) \<or> SAFETY_MAX_FRAME_SIZE < unat (io_len io)"
      using assms(2) Some by (auto simp: arg_ok_def)
    then show ?thesis
      using queue_rx_queues [OF assms(1), of e ?f] queue_rx_take [of K e "io_data io" "unat (io_len io)" dev] Some
      by (auto simp: ioc_push_rx_frame_def same_queues split: prod.splits sum.splits)
  qed (simp add: ioc_push_rx_frame_def same_queues)
  moreover have "queues_change dev (snd (ioc_pop_tx_frame K arg dev))"
    using pop_queues(2) [OF assms(1)] by (auto simp: ioc_pop_tx_frame_def Let_def split: prod.splits)
  moreover have "queues_change dev (snd (ioc_inject_fault K e arg dev))"
  proof (cases "arg_u32 arg")
    case (Some ft)
    let ?d = "dev\<lparr>fault_count := fault_count dev + 1, last_fault_type := ucast ft, last_fault_detail := 0,
      last_fault_ts_ns := ktime_get_ns e 0\<rparr>"
    have "dinv ?d" using assms(1) by simp
    from synth_post_queues [OF synth_fault_event(2) [OF this]] Some show ?thesis
      by (simp add: ioc_inject_fault_def queues_change_def Let_def split_beta)
  qed (simp add: ioc_inject_fault_def same_queues)
  moreover have "queues_change dev (snd (ioc_set_hb_timeout arg dev))" "queues_change dev (snd (ioc_reset_stats dev))"
    "queues_change dev (safety_recovery_schedule dev)" "snd (ioc_get_stats K arg dev) = dev" "snd (ioc_get_state arg dev) = dev"
    by (simp_all add: same_queues ioc_set_hb_timeout_def ioc_reset_stats_def safety_timer_rearm_def
        safety_recovery_schedule_def ioc_get_stats_def ioc_get_state_def dev_upd Let_def split: option.split)
  moreover have "queues_change dev dev" by (simp add: same_queues)
  ultimately show ?thesis by (simp add: safety_ioctl_def)
qed

lemma timer_queues:
  assumes "dinv dev" shows "queues_change dev (snd (hb_timer_fn K e dev))"
proof (rule hb_timer_fn_unfold [where K = K and e = e and dev = dev])
  fix d
  assume d: "hb_timer_fn K e dev = (HRTIMER_NORESTART, kcall Schedule_work
      (snd (safety_synth_fault_event K (later e 2) SAFETY_FAULT_TASK_HANG 1 1 d)))"
    and inv: "\<And>elems qwf. driver_inv K elems qwf dev \<Longrightarrow> driver_inv K elems qwf d"
    and q: "rx_fifo d = rx_fifo dev" "tx_fifo d = tx_fifo dev"
  from synth_post_queues [OF synth_fault_event(2) [OF inv [OF assms]]] show ?thesis
    unfolding d queues_change_def q by (simp add: kcall_def)
qed

lemma work_queues:
  assumes "dinv dev" shows "queues_change dev (recovery_work_fn K e dev)"
proof (rule recovery_work_fn_unfold [where K = K and e = e and dev = dev])
  fix d
  assume d: "recovery_work_fn K e dev = snd (safety_synth_recovery_report K (later e 1) 1 3 d)"
    and inv: "\<And>elems qwf. driver_inv K elems qwf dev \<Longrightarrow> driver_inv K elems qwf d"
    and q: "rx_fifo d = rx_fifo dev" "tx_fifo d = tx_fifo dev"
  from synth_post_queues [OF synth_recovery_report(2) [OF inv [OF assms]]] show ?thesis
    unfolding d queues_change_def q by simp
qed

lemma step_queues:
  assumes "drv_step K s s'" "dinv (sys_dev s)"
  shows "queues_change (sys_dev s) (sys_dev s')"
  using assms(1)
proof cases
  case (sys_write e ubuf n r dev')
  then show ?thesis using write_queues [OF assms(2), of ubuf n e] by (simp add: absorb_def)
next
  case (sys_read n ok r dev')
  then show ?thesis using pop_queues(1) [OF assms(2)]
    by (auto simp: absorb_def safety_read_def safety_read_loop.simps [of K True "[]" "sys_dev s"]
        split: prod.splits if_splits)
next
  case (sys_poll m dev')
  then show ?thesis by (auto simp: absorb_def safety_poll_def kcall_def Let_def same_queues split: if_splits)
next
  case (sys_ioctl e cmd arg r dev')
  then show ?thesis using ioctl_queues [OF assms(2), of arg e cmd] by (simp add: absorb_def)
next
  case (timer_fires e r dev')
  then show ?thesis using timer_queues [OF assms(2), of e] by (simp add: absorb_def)
next
  case (work_runs e dev')
  then show ?thesis using work_queues [OF assms(2), of e] by (simp add: absorb_def)
qed

end

section \<open>Properties\<close>

text \<open>Invariant of the running driver.  In every state reachable from a loaded driver by any
  interleaving of system calls, watchdog expiries and recovery work, the device invariant holds:
  both queues are well formed and within their depth, every frame waiting for the link daemon
  validates, every frame waiting for the supervisor has a usable header and the announced length,
  the timeline ring is consistent, the watchdog period is not zero, and the protocol errors are
  the sum of their classes.\<close>

theorem driver_invariant:
  assumes "kfifo K elems qwf" and "drv_init K elems qwf s0" and "drv_reachable K s0 s"
  shows "driver_inv K elems qwf (sys_dev s)"
  using driver.reachable_inv [OF driver_kfifo [OF assms(1)] assms(3,2)] by simp

theorem driver_invariant_witness:
  "driver_inv bounded_list snd blist_wf (recovery_work_fn bounded_list kenv0
     (snd (safety_ioctl bounded_list kenv0 SAFETY_IOC_FORCE_RECOVERY \<lparr>arg_u32 = None, arg_frame = None, arg_writable = True\<rparr>
       (ready_dev (2, []) (2, []) 2 1 350))))"
proof -
  let ?d0 = "ready_dev (2, []) (2, []) 2 1 350 :: safety_fifo_slot blist safety_copro_dev"
  let ?s0 = "\<lparr>sys_dev = ?d0, timer_armed = False, work_pending = False\<rparr>"
  let ?arg = "\<lparr>arg_u32 = None, arg_frame = None, arg_writable = True\<rparr>"
  let ?d1 = "snd (safety_ioctl bounded_list kenv0 SAFETY_IOC_FORCE_RECOVERY ?arg ?d0)"
  have 1: "drv_step bounded_list ?s0 (absorb ?s0 ?d1)"
    using step_ioctl [of ?arg bounded_list ?s0 kenv0 SAFETY_IOC_FORCE_RECOVERY] by (simp add: arg_ok_def)
  have 2: "work_pending (absorb ?s0 ?d1)"
    by (simp add: absorb_def new_calls_def safety_ioctl_def ioc_cmd_defs safety_recovery_schedule_def kcall_def)
  note drv_reachable.step [OF drv_reachable.step [OF drv_reachable.start 1] drv_step.work_runs [OF 2 refl, where e = kenv0]]
  from driver_invariant [OF kfifo_bounded_list demo_sys_init this] show ?thesis by (simp add: absorb_def)
qed

text \<open>C14 (a silent link is noticed).  In every state that is reachable with each system call, expiry and run of the work as one
  step: while the link is HB_OK the watchdog is armed, and when it fires the link is HB_TIMEOUT with recovery work
  pending, and the supervisor is told by a valid FAULT_EVENT frame reporting a task hang at the end of the receive queue, or, if
  the queue is full, by nothing but the count of dropped frames; while the link is
  HB_TIMEOUT recovery work is pending, and when it runs the link is RECOVERING.\<close>

theorem silent_link_noticed:
  assumes "kfifo K elems qwf" and "drv_init K elems qwf s0" and "drv_reachable K s0 s"
  shows "(state (sys_dev s) = SAFETY_LINK_HB_OK \<longrightarrow> timer_armed s \<and>
      (\<forall>e. \<exists>s'. drv_step K s s' \<and> sys_dev s' = snd (hb_timer_fn K e (sys_dev s))
         \<and> state (sys_dev s') = SAFETY_LINK_HB_TIMEOUT \<and> work_pending s'
         \<and> (if length (elems (rx_fifo (sys_dev s))) < unat (fifo_depth (sys_dev s))
            then \<exists>f. elems (rx_fifo (sys_dev s')) = elems (rx_fifo (sys_dev s)) @ [f]
              \<and> safety_frame_validate (slot_data f) = SAFETY_VALIDATE_OK
              \<and> frame_type (header_of_bytes (slot_data f)) = SAFETY_FRAME_FAULT_EVENT
              \<and> fe_fault_type (fault_event_of_bytes (drop SAFETY_HEADER_SIZE (slot_data f))) = SAFETY_FAULT_TASK_HANG
            else elems (rx_fifo (sys_dev s')) = elems (rx_fifo (sys_dev s))
              \<and> dropped_frame_count (sys_dev s') = dropped_frame_count (sys_dev s) + 1)))
    \<and> (state (sys_dev s) = SAFETY_LINK_HB_TIMEOUT \<longrightarrow> work_pending s \<and>
      (\<forall>e. \<exists>s'. drv_step K s s' \<and> sys_dev s' = recovery_work_fn K e (sys_dev s)
         \<and> state (sys_dev s') = SAFETY_LINK_RECOVERING))"
proof -
  note drv = driver_kfifo [OF assms(1)]
  have inv: "driver_inv K elems qwf (sys_dev s)" "link_inv s"
    using driver.reachable_inv [OF drv assms(3,2)] by auto
  have t: "\<exists>s'. drv_step K s s' \<and> sys_dev s' = snd (hb_timer_fn K e (sys_dev s))
      \<and> state (sys_dev s') = SAFETY_LINK_HB_TIMEOUT \<and> work_pending s'
      \<and> driver.timeout_reported elems (sys_dev s) (sys_dev s')" if "timer_armed s" for e
    using drv_step.timer_fires [OF that prod.collapse [symmetric], of K e]
      driver.hb_timer_link [OF drv inv(1), of e] driver.timer_pends_work [OF drv inv(1), of e]
      driver.timer_reports [OF drv inv(1), of e]
    by (fastforce simp: absorb_def)
  have w: "\<exists>s'. drv_step K s s' \<and> sys_dev s' = recovery_work_fn K e (sys_dev s)
      \<and> state (sys_dev s') = SAFETY_LINK_RECOVERING" if "work_pending s" for e
    using drv_step.work_runs [OF that refl, of K e] driver.recovery_link [OF drv inv(1), of e]
    by (fastforce simp: absorb_def)
  show ?thesis using t w inv(2) unfolding link_inv_def driver.timeout_reported_def [OF drv] by blast
qed

theorem silent_link_noticed_witness:
  "let hb = wire_frame (safety_frame_init SAFETY_FRAME_HEARTBEAT 5 0 9) [];
       arg = \<lparr>arg_u32 = None, arg_frame = Some \<lparr>io_len = 16, io_data = hb @ replicate 256 0\<rparr>, arg_writable = True\<rparr>;
       s0 = \<lparr>sys_dev = ready_dev (2, []) (2, []) 2 1 350, timer_armed = False, work_pending = False\<rparr>;
       s1 = absorb s0 (snd (safety_ioctl bounded_list kenv0 SAFETY_IOC_PUSH_RX_FRAME arg (sys_dev s0)))
   in state (sys_dev s1) = SAFETY_LINK_HB_OK \<and> timer_armed s1"
proof -
  let ?hb = "wire_frame (safety_frame_init SAFETY_FRAME_HEARTBEAT 5 0 9) []"
  let ?arg = "\<lparr>arg_u32 = None, arg_frame = Some \<lparr>io_len = 16, io_data = ?hb @ replicate 256 0\<rparr>, arg_writable = True\<rparr>"
  let ?d0 = "ready_dev (2, []) (2, []) 2 1 350 :: safety_fifo_slot blist safety_copro_dev"
  let ?s0 = "\<lparr>sys_dev = ?d0, timer_armed = False, work_pending = False\<rparr>"
  have hb: "safety_frame_validate ?hb = SAFETY_VALIDATE_OK" "rx_header_fits ?hb"
    by (simp_all add: rx_header_fits_def SAFETY_HEADER_SIZE_def header_ok_def Let_def)
  have room: "length (snd (rx_fifo ?d0)) < unat (fifo_depth ?d0)" by (simp add: ready_dev_def kzalloc_dev_def)
  have "state (snd (queue_rx_from_linkd bounded_list kenv0 ?hb (length ?hb) ?d0)) = SAFETY_LINK_HB_OK"
    by (rule drv.queue_rx_room [OF demo_dev_inv hb(2) room, of kenv0])
      (simp add: hb safety_timer_rearm_def kcall_def)
  then have st: "state (snd (safety_ioctl bounded_list kenv0 SAFETY_IOC_PUSH_RX_FRAME ?arg ?d0)) = SAFETY_LINK_HB_OK"
    using queue_rx_take [of bounded_list kenv0 "?hb @ replicate 256 0" 16 ?d0]
    by (auto simp: safety_ioctl_def ioc_cmd_defs ioc_push_rx_frame_def proto_const split: prod.split sum.split)
  have "drv_reachable bounded_list ?s0
      (absorb ?s0 (snd (safety_ioctl bounded_list kenv0 SAFETY_IOC_PUSH_RX_FRAME ?arg ?d0)))"
    using drv_reachable.step [OF drv_reachable.start step_ioctl [of ?arg bounded_list ?s0 kenv0 SAFETY_IOC_PUSH_RX_FRAME]]
    by (simp add: arg_ok_def proto_const)
  from silent_link_noticed [OF kfifo_bounded_list demo_sys_init this] show ?thesis using st
    by (simp add: absorb_def Let_def)
qed

text \<open>Queue discipline of the running driver.  Every step from a reachable state leaves each queue
  unchanged, appends one frame at its end or removes the frame at its front; no step drops,
  duplicates or reorders queued frames.\<close>

theorem queue_discipline:
  assumes "kfifo K elems qwf" and "drv_init K elems qwf s0" and "drv_reachable K s0 s" and "drv_step K s s'"
  shows "queue_change (elems (rx_fifo (sys_dev s))) (elems (rx_fifo (sys_dev s')))
    \<and> queue_change (elems (tx_fifo (sys_dev s))) (elems (tx_fifo (sys_dev s')))"
proof -
  note drv = driver_kfifo [OF assms(1)]
  have "driver_inv K elems qwf (sys_dev s)" using driver.reachable_inv [OF drv assms(3,2)] by simp
  from driver.step_queues [OF drv assms(4) this] show ?thesis by (simp add: driver.queues_change_def [OF drv])
qed

theorem queue_discipline_witness:
  "queue_change [] (snd (rx_fifo (snd (safety_ioctl bounded_list kenv0 SAFETY_IOC_INJECT_FAULT
     \<lparr>arg_u32 = Some 3, arg_frame = None, arg_writable = True\<rparr> (ready_dev (2, []) (2, []) 2 1 350)))))"
proof -
  let ?arg = "\<lparr>arg_u32 = Some 3, arg_frame = None, arg_writable = True\<rparr>"
  let ?s0 = "\<lparr>sys_dev = ready_dev (2, []) (2, []) 2 1 350, timer_armed = False, work_pending = False\<rparr>
    :: safety_fifo_slot blist driver_sys"
  have "arg_ok ?arg" by (simp add: arg_ok_def)
  from queue_discipline [OF kfifo_bounded_list demo_sys_init drv_reachable.start
      step_ioctl [OF this, of bounded_list ?s0 kenv0 SAFETY_IOC_INJECT_FAULT]]
  show ?thesis by (simp add: absorb_def) (simp add: ready_dev_def kzalloc_dev_def)
qed

end
