(* ===== verification/Driver_Sections.thy ===== *)
theory Driver_Sections
  imports Sections Driver_System
begin

text \<open>
  The driver on several CPUs.  \<open>Driver_System\<close> takes a system call, the timer callback and the recovery work
  as one step each; here a step is one section of code under \<open>dev->lock\<close>, or one of the actions between such
  sections (statistics of the CPU, tracepoint, wake-up, starting the timer, scheduling the work),
  and the sections of all calls in progress interleave freely.  Every operation is written as the program of its sections in
  the order of the source, and run alone it does what the definition of the sequential model does.
\<close>

section \<open>Definitions\<close>

subsection \<open>Queues\<close>

text \<open>\<open>safety_fifo_push_frame\<close> between lock and unlock: the length of the queue afterwards.\<close>

definition push_locked :: "(safety_fifo_slot, 'q) kfifo_ops \<Rightarrow> kenv \<Rightarrow> safety_fifo_slot \<Rightarrow> u16 \<Rightarrow> safety_timeline_event
    \<Rightarrow> 'q safety_copro_dev \<Rightarrow> u32 result \<times> 'q safety_copro_dev" where
  "push_locked K e slot seq tl_ev dev =
     (if kfifo_is_full K (rx_fifo dev) then (Inl ENOSPC, dev)
      else let (q, ret) = kfifo_in K (rx_fifo dev) slot; dev = dev\<lparr>rx_fifo := q\<rparr> in
      if ret \<noteq> 1 then (Inl ENOSPC, dev)
      else let qlen = of_nat (kfifo_len K (rx_fifo dev));
               dev = (if fifo_high_watermark dev < qlen then dev\<lparr>fifo_high_watermark := qlen\<rparr> else dev)
           in (Inr qlen, safety_timeline_record_locked e tl_ev seq dev))"

definition push_frame_sections :: "(safety_fifo_slot, 'q) kfifo_ops \<Rightarrow> kenv \<Rightarrow> bytes \<Rightarrow> u16 \<Rightarrow> u16 \<Rightarrow> u8
    \<Rightarrow> safety_timeline_event \<Rightarrow> ('q safety_copro_dev, unit result) sections" where
  "push_frame_sections K e frame len seq ty tl_ev =
     (if len = 0 \<or> SAFETY_MAX_FRAME_SIZE < unat len then Return (Inl EMSGSIZE)
      else andthen (locked (push_locked K e \<lparr>slot_len = len, slot_data = take (unat len) frame\<rparr> seq tl_ev)) (\<lambda>r.
        case r of Inl err \<Rightarrow> Return (Inl err)
        | Inr qlen \<Rightarrow>
            andthen (update (safety_percpu_inc_rx e (ucast len))) (\<lambda>_.
            andthen (update (kcall (Trace (safety_frame_received seq ty qlen)))) (\<lambda>_.
            andthen (update (kcall Wake_up_rx)) (\<lambda>_. Return (Inr ()))))))"

definition push_tx_locked :: "(safety_fifo_slot, 'q) kfifo_ops \<Rightarrow> kenv \<Rightarrow> safety_fifo_slot \<Rightarrow> u16
    \<Rightarrow> 'q safety_copro_dev \<Rightarrow> unit result \<times> 'q safety_copro_dev" where
  "push_tx_locked K e slot seq dev =
     (if kfifo_is_full K (tx_fifo dev) then (Inl ENOSPC, dev)
      else let (q, ret) = kfifo_in K (tx_fifo dev) slot; dev = dev\<lparr>tx_fifo := q\<rparr> in
      if ret \<noteq> 1 then (Inl ENOSPC, dev)
      else (Inr (), safety_timeline_record_locked e SAFETY_TL_RECOVERY seq dev))"

text \<open>The tracepoint's argument takes the lock once more.\<close>

definition push_tx_sections :: "(safety_fifo_slot, 'q) kfifo_ops \<Rightarrow> kenv \<Rightarrow> bytes \<Rightarrow> u16 \<Rightarrow> u16 \<Rightarrow> u8
    \<Rightarrow> ('q safety_copro_dev, unit result) sections" where
  "push_tx_sections K e frame len seq ty =
     (if len = 0 \<or> SAFETY_MAX_FRAME_SIZE < unat len then Return (Inl EMSGSIZE)
      else andthen (locked (push_tx_locked K e \<lparr>slot_len = len, slot_data = take (unat len) frame\<rparr> seq)) (\<lambda>r.
        case r of Inl err \<Rightarrow> Return (Inl err)
        | Inr _ \<Rightarrow>
            andthen (locked (\<lambda>d. (safety_tx_fifo_len K d, d))) (\<lambda>n.
            andthen (update (kcall (Trace (safety_frame_received seq ty n)))) (\<lambda>_.
            andthen (update (kcall Wake_up_tx)) (\<lambda>_. Return (Inr ()))))))"

definition pop_frame_sections :: "(safety_fifo_slot, 'q) kfifo_ops
    \<Rightarrow> ('q safety_copro_dev, u16 \<times> safety_fifo_slot option) sections" where
  "pop_frame_sections K = locked (\<lambda>d. case safety_fifo_pop_frame K d of (n, s, d) \<Rightarrow> ((n, s), d))"

definition pop_tx_sections :: "(safety_fifo_slot, 'q) kfifo_ops
    \<Rightarrow> ('q safety_copro_dev, u16 \<times> safety_fifo_slot option) sections" where
  "pop_tx_sections K = locked (\<lambda>d. case safety_fifo_pop_tx_frame K d of (n, s, d) \<Rightarrow> ((n, s), d))"

text \<open>\<open>record_drop\<close>, and the same lines in \<open>safety_synth_and_push\<close>.\<close>

definition drop_sections :: "kenv \<Rightarrow> u16 \<Rightarrow> u8 \<Rightarrow> ('q safety_copro_dev, unit) sections" where
  "drop_sections e seq ty =
     andthen (update (\<lambda>d. d\<lparr>dropped_frame_count := dropped_frame_count d + 1\<rparr>)) (\<lambda>_.
     andthen (update (safety_percpu_inc_dropped e)) (\<lambda>_.
     update (kcall (Trace (safety_frame_dropped seq ty)))))"

definition synth_sections :: "(safety_fifo_slot, 'q) kfifo_ops \<Rightarrow> kenv \<Rightarrow> u8 \<Rightarrow> bytes \<Rightarrow> u16
    \<Rightarrow> safety_timeline_event \<Rightarrow> ('q safety_copro_dev, unit result) sections" where
  "synth_sections K e ty payload payload_len tl_ev =
     (if SAFETY_MAX_PAYLOAD < unat payload_len then Return (Inl EMSGSIZE)
      else andthen (locked (\<lambda>d. (synth_seq d, d\<lparr>synth_seq := synth_seq d + 1\<rparr>))) (\<lambda>seq.
        let hdr = safety_frame_init ty seq payload_len (safety_now_ms (ktime_get_ns e 0));
            (total, hdr, frame) = safety_frame_pack (replicate SAFETY_MAX_FRAME_SIZE 0) hdr (Some payload)
        in if total = 0 then Return (Inl EMSGSIZE)
           else andthen (push_frame_sections K (later e 1) frame (of_nat total) seq ty tl_ev) (\<lambda>rc.
             if rc = Inl ENOSPC then andthen (drop_sections e seq ty) (\<lambda>_. Return rc) else Return rc)))"

definition fault_event_sections :: "(safety_fifo_slot, 'q) kfifo_ops \<Rightarrow> kenv \<Rightarrow> u8 \<Rightarrow> u8 \<Rightarrow> u16
    \<Rightarrow> ('q safety_copro_dev, unit result) sections" where
  "fault_event_sections K e ft sev detail =
     synth_sections K (later e 1) SAFETY_FRAME_FAULT_EVENT
       (fault_event_bytes \<lparr>fe_fault_type = ft, severity = sev, detail_code = detail,
          fault_uptime_ms = safety_now_ms (ktime_get_ns e 0)\<rparr>) 8 SAFETY_TL_FAULT_INJECT"

definition recovery_report_sections :: "(safety_fifo_slot, 'q) kfifo_ops \<Rightarrow> kenv \<Rightarrow> u8 \<Rightarrow> u8
    \<Rightarrow> ('q safety_copro_dev, unit result) sections" where
  "recovery_report_sections K e rcv nst =
     synth_sections K (later e 1) SAFETY_FRAME_RECOVERY_REPORT
       (recovery_report_bytes \<lparr>recovered = rcv, new_state = nst, rr_reserved = 0,
          recovery_uptime_ms = safety_now_ms (ktime_get_ns e 0)\<rparr>) 8 SAFETY_TL_RECOVERY"

subsection \<open>Timer and work\<close>

definition rearm_sections :: "('q safety_copro_dev, unit) sections" where
  "rearm_sections = andthen (locked (\<lambda>d. (hb_timeout_ms d, d))) (\<lambda>ms. update (kcall (Hrtimer_start ms)))"

definition timeout_locked :: "kenv \<Rightarrow> 'q safety_copro_dev \<Rightarrow> (u32 \<times> u32) \<times> 'q safety_copro_dev" where
  "timeout_locked e dev =
     (let dev = dev\<lparr>timeout_count := timeout_count dev + 1\<rparr>;
          count = timeout_count dev;
          timeout_ms = hb_timeout_ms dev;
          dev = dev\<lparr>state := SAFETY_LINK_HB_TIMEOUT,
                    last_fault_type := SAFETY_FAULT_TASK_HANG,
                    last_fault_detail := 1,
                    last_fault_ts_ns := ktime_get_ns e 0,
                    fault_count := fault_count dev + 1\<rparr>
      in ((timeout_ms, count), safety_timeline_record_locked (later e 1) SAFETY_TL_TIMEOUT 0 dev))"

definition hb_timer_sections :: "(safety_fifo_slot, 'q) kfifo_ops \<Rightarrow> kenv
    \<Rightarrow> ('q safety_copro_dev, hrtimer_restart) sections" where
  "hb_timer_sections K e =
     andthen (locked (timeout_locked e)) (\<lambda>(timeout_ms, count).
     andthen (update (kcall (Trace (safety_timeout_detected timeout_ms count)))) (\<lambda>_.
     andthen (fault_event_sections K (later e 2) SAFETY_FAULT_TASK_HANG 1 1) (\<lambda>_.
     andthen (update safety_recovery_schedule) (\<lambda>_. Return HRTIMER_NORESTART))))"

definition recovery_locked :: "kenv \<Rightarrow> 'q safety_copro_dev \<Rightarrow> u32 \<times> 'q safety_copro_dev" where
  "recovery_locked e dev =
     (let dev = dev\<lparr>retry_count := retry_count dev + 1\<rparr>;
          count = retry_count dev;
          dev = dev\<lparr>state := SAFETY_LINK_RECOVERING\<rparr>
      in (count, safety_timeline_record_locked e SAFETY_TL_RECOVERY 0 dev))"

definition recovery_work_sections :: "(safety_fifo_slot, 'q) kfifo_ops \<Rightarrow> kenv \<Rightarrow> ('q safety_copro_dev, unit) sections" where
  "recovery_work_sections K e =
     andthen (locked (recovery_locked e)) (\<lambda>count.
     andthen (update (kcall (Trace (safety_recovery_queued count)))) (\<lambda>_.
     andthen (recovery_report_sections K (later e 1) 1 (of_nat (link_state_code SAFETY_LINK_RECOVERING))) (\<lambda>_. Return ())))"

subsection \<open>System calls\<close>

definition beat_locked :: "'q safety_copro_dev \<Rightarrow> 'q safety_copro_dev" where
  "beat_locked dev = dev\<lparr>heartbeat_count := heartbeat_count dev + 1, state := SAFETY_LINK_HB_OK\<rparr>"

text \<open>The end of \<open>queue_rx_from_linkd\<close>, after the frame was or was not accepted, and its beginning.\<close>

definition rx_pushed_sections :: "kenv \<Rightarrow> safety_validate_result \<Rightarrow> u16 \<Rightarrow> u8 \<Rightarrow> unit result
    \<Rightarrow> ('q safety_copro_dev, unit result) sections" where
  "rx_pushed_sections e vres seq ty rc =
     (if rc = Inl ENOSPC then andthen (drop_sections e seq ty) (\<lambda>_. Return (Inl ENOSPC))
      else case rc of Inl err \<Rightarrow> Return (Inl err)
      | Inr _ \<Rightarrow>
        if vres = SAFETY_VALIDATE_OK \<and> ty = SAFETY_FRAME_HEARTBEAT
        then andthen (update beat_locked) (\<lambda>_. andthen rearm_sections (\<lambda>_. Return (Inr ())))
        else Return (Inr ()))"

definition queue_rx_sections :: "(safety_fifo_slot, 'q) kfifo_ops \<Rightarrow> kenv \<Rightarrow> bytes \<Rightarrow> nat
    \<Rightarrow> ('q safety_copro_dev, unit result) sections" where
  "queue_rx_sections K e frame count =
     (let refuse = (\<lambda>v. andthen (update (record_proto_error v)) (\<lambda>_. Return (Inl EINVAL))) in
      if count < SAFETY_HEADER_SIZE then Return (Inl EINVAL)
      else if SAFETY_MAX_FRAME_SIZE < count then Return (Inl EMSGSIZE)
      else let hdr = header_of_bytes (take SAFETY_HEADER_SIZE frame);
               seq = sequence_id hdr; ty = frame_type hdr in
      if magic hdr \<noteq> SAFETY_PROTO_MAGIC then refuse SAFETY_VALIDATE_BAD_MAGIC
      else if version hdr \<noteq> SAFETY_PROTO_VERSION then refuse SAFETY_VALIDATE_BAD_VERSION
      else if SAFETY_MAX_PAYLOAD < unat (payload_length hdr) then refuse SAFETY_VALIDATE_BAD_LENGTH
      else if count \<noteq> SAFETY_HEADER_SIZE + unat (payload_length hdr) then refuse SAFETY_VALIDATE_BAD_LENGTH
      else let vres = safety_frame_validate (take count frame) in
      if vres \<noteq> SAFETY_VALIDATE_OK \<and> vres \<noteq> SAFETY_VALIDATE_BAD_CHECKSUM then refuse vres
      else andthen (if vres = SAFETY_VALIDATE_BAD_CHECKSUM then update (record_proto_error vres) else Return ()) (\<lambda>_.
           andthen (push_frame_sections K e frame (of_nat count) seq ty
             (if ty = SAFETY_FRAME_HEARTBEAT then SAFETY_TL_HEARTBEAT else SAFETY_TL_FRAME_RX))
           (rx_pushed_sections e vres seq ty)))"

definition write_sections :: "(safety_fifo_slot, 'q) kfifo_ops \<Rightarrow> kenv \<Rightarrow> bytes option \<Rightarrow> nat
    \<Rightarrow> ('q safety_copro_dev, nat result) sections" where
  "write_sections K e ubuf count =
     (if count < SAFETY_HEADER_SIZE then Return (Inl EINVAL)
      else if SAFETY_MAX_FRAME_SIZE < count then Return (Inl EMSGSIZE)
      else case ubuf of None \<Rightarrow> Return (Inl EFAULT)
      | Some frame \<Rightarrow>
        let vres = safety_frame_validate (take count frame) in
        if vres \<noteq> SAFETY_VALIDATE_OK then andthen (update (record_proto_error vres)) (\<lambda>_. Return (Inl EINVAL))
        else let hdr = header_of_bytes (take SAFETY_HEADER_SIZE frame);
                 seq = sequence_id hdr; ty = frame_type hdr in
          andthen (push_tx_sections K e frame (of_nat count) seq ty) (\<lambda>rc.
            if rc = Inl ENOSPC then andthen (drop_sections e seq ty) (\<lambda>_. Return (Inl EAGAIN))
            else case rc of Inl err \<Rightarrow> Return (Inl err) | Inr _ \<Rightarrow> Return (Inr count)))"

text \<open>The end of \<open>safety_read\<close>, for the frame taken.\<close>

definition read_tail :: "nat \<Rightarrow> bool \<Rightarrow> u16 \<Rightarrow> safety_fifo_slot option \<Rightarrow> bytes result" where
  "read_tail count copy_ok len slot =
     (if count < unat len then Inl EINVAL else if \<not> copy_ok then Inl EFAULT
      else Inr (take (unat len) (slot_data (the slot))))"

text \<open>A reader tries to take a frame; if there is none it gives up, or waits: it looks at the length of the queue, tries
  again if a frame is there, gives up if a signal came, and otherwise sleeps until it looks once more.  The list says
  for each look whether a signal came.\<close>

definition read_try :: "(safety_fifo_slot, 'q) kfifo_ops \<Rightarrow> nat \<Rightarrow> bool \<Rightarrow> ('q safety_copro_dev, bytes result option) sections
    \<Rightarrow> ('q safety_copro_dev, bytes result option) sections" where
  "read_try K count copy_ok otherwise =
     andthen (pop_frame_sections K) (\<lambda>(len, slot).
       if len \<noteq> 0 then Return (Some (read_tail count copy_ok len slot)) else otherwise)"

primrec read_wait :: "(safety_fifo_slot, 'q) kfifo_ops \<Rightarrow> nat \<Rightarrow> bool \<Rightarrow> bool list
    \<Rightarrow> ('q safety_copro_dev, bytes result option) sections" where
  "read_wait K count copy_ok [] = Return None"
| "read_wait K count copy_ok (signal # looks) =
     andthen (locked (\<lambda>d. (safety_fifo_len K d, d))) (\<lambda>n.
       if 0 < n then read_try K count copy_ok (read_wait K count copy_ok looks)
       else if signal then Return (Some (Inl ERESTARTSYS)) else read_wait K count copy_ok looks)"

definition read_sections :: "(safety_fifo_slot, 'q) kfifo_ops \<Rightarrow> bool \<Rightarrow> bool list \<Rightarrow> nat \<Rightarrow> bool
    \<Rightarrow> ('q safety_copro_dev, bytes result option) sections" where
  "read_sections K nonblock looks count copy_ok =
     read_try K count copy_ok (if nonblock then Return (Some (Inl EAGAIN)) else read_wait K count copy_ok looks)"

definition poll_sections :: "(safety_fifo_slot, 'q) kfifo_ops \<Rightarrow> ('q safety_copro_dev, u32) sections" where
  "poll_sections K =
     andthen (locked (\<lambda>d. (safety_fifo_len K d, d))) (\<lambda>n.
     andthen (if 0 < n then andthen (update (kcall (Trace (safety_poll_wakeup (EPOLLIN OR EPOLLRDNORM))))) (\<lambda>_.
                Return (EPOLLIN OR EPOLLRDNORM)) else Return 0) (\<lambda>mask.
     andthen (locked (\<lambda>d. (safety_tx_fifo_len K d, d))) (\<lambda>m. Return (if 0 < m then mask OR EPOLLPRI else mask))))"

text \<open>The fields that \<open>SAFETY_IOC_GET_STATS\<close> copies under the lock; the sum over the CPUs and the two queue lengths follow,
  each as the device is by then.\<close>

definition stats_sections :: "(safety_fifo_slot, 'q) kfifo_ops \<Rightarrow> user_arg \<Rightarrow> ('q safety_copro_dev, ioc_out result) sections" where
  "stats_sections K arg =
     andthen (locked (\<lambda>d. (d, d))) (\<lambda>dev.
     andthen (locked (\<lambda>d. (safety_percpu_sum d, d))) (\<lambda>sum.
     andthen (locked (\<lambda>d. (safety_fifo_len K d, d))) (\<lambda>rx_depth.
     andthen (locked (\<lambda>d. (safety_tx_fifo_len K d, d))) (\<lambda>tx_depth.
       Return (if \<not> arg_writable arg then Inl EFAULT
         else Inr (Out_stats \<lparr>st_current_state = of_nat (link_state_code (state dev)),
                st_heartbeat_count = heartbeat_count dev, st_fault_count = fault_count dev,
                st_dropped_frame_count = dropped_frame_count dev, st_timeout_count = timeout_count dev,
                st_retry_count = retry_count dev, st_protocol_error_count = protocol_error_count dev,
                st_rx_frames_total = ucast (rx_frames sum), st_rx_queue_depth = rx_depth,
                st_tx_queue_depth = tx_depth\<rparr>))))))"

definition reset_locked :: "'q safety_copro_dev \<Rightarrow> 'q safety_copro_dev" where
  "reset_locked dev = dev\<lparr>heartbeat_count := 0, fault_count := 0, dropped_frame_count := 0,
                    timeout_count := 0, retry_count := 0, protocol_error_count := 0,
                    fifo_high_watermark := 0, proto_err_magic := 0, proto_err_version := 0,
                    proto_err_length := 0, proto_err_checksum := 0,
                    last_proto_err := SAFETY_VALIDATE_OK, last_fault_type := SAFETY_FAULT_NONE,
                    last_fault_detail := 0, last_fault_ts_ns := 0,
                    timeline_head := 0, timeline_filled := 0\<rparr>"

definition reset_sections :: "('q safety_copro_dev, ioc_out result) sections" where
  "reset_sections = andthen (update reset_locked) (\<lambda>_. andthen (update safety_percpu_reset) (\<lambda>_. Return (Inr Out_none)))"

definition set_timeout_sections :: "user_arg \<Rightarrow> ('q safety_copro_dev, ioc_out result) sections" where
  "set_timeout_sections arg =
     (case arg_u32 arg of None \<Rightarrow> Return (Inl EFAULT)
      | Some ms \<Rightarrow> if ms = 0 then Return (Inl EINVAL)
          else andthen (update (\<lambda>d. d\<lparr>hb_timeout_ms := ms\<rparr>)) (\<lambda>_. andthen rearm_sections (\<lambda>_. Return (Inr Out_none))))"

definition get_state_sections :: "user_arg \<Rightarrow> ('q safety_copro_dev, ioc_out result) sections" where
  "get_state_sections arg = andthen (locked (\<lambda>d. (state d, d))) (\<lambda>st.
     Return (if \<not> arg_writable arg then Inl EFAULT else Inr (Out_u32 (of_nat (link_state_code st)))))"

definition fault_locked :: "kenv \<Rightarrow> u32 \<Rightarrow> 'q safety_copro_dev \<Rightarrow> 'q safety_copro_dev" where
  "fault_locked e ft dev = dev\<lparr>fault_count := fault_count dev + 1, last_fault_type := ucast ft,
     last_fault_detail := 0, last_fault_ts_ns := ktime_get_ns e 0\<rparr>"

definition inject_sections :: "(safety_fifo_slot, 'q) kfifo_ops \<Rightarrow> kenv \<Rightarrow> user_arg \<Rightarrow> ('q safety_copro_dev, ioc_out result) sections" where
  "inject_sections K e arg =
     (case arg_u32 arg of None \<Rightarrow> Return (Inl EFAULT)
      | Some ft \<Rightarrow> andthen (update (fault_locked e ft)) (\<lambda>_.
          andthen (fault_event_sections K (later e 1) (ucast ft) 2 0) (\<lambda>_. Return (Inr Out_none))))"

definition push_rx_sections :: "(safety_fifo_slot, 'q) kfifo_ops \<Rightarrow> kenv \<Rightarrow> user_arg \<Rightarrow> ('q safety_copro_dev, ioc_out result) sections" where
  "push_rx_sections K e arg =
     (case arg_frame arg of None \<Rightarrow> Return (Inl EFAULT)
      | Some io \<Rightarrow> if SAFETY_MAX_FRAME_SIZE < unat (io_len io) then Return (Inl EMSGSIZE)
          else andthen (queue_rx_sections K e (io_data io) (unat (io_len io)))
                 (\<lambda>rc. Return (case rc of Inl err \<Rightarrow> Inl err | Inr _ \<Rightarrow> Inr Out_none)))"

definition pop_tx_ioctl_sections :: "(safety_fifo_slot, 'q) kfifo_ops \<Rightarrow> user_arg \<Rightarrow> ('q safety_copro_dev, ioc_out result) sections" where
  "pop_tx_ioctl_sections K arg =
     andthen (pop_tx_sections K) (\<lambda>(len, slot).
       Return (if len = 0 then Inl EAGAIN
         else if \<not> arg_writable arg then Inl EFAULT
         else Inr (Out_frame \<lparr>io_len = ucast len, io_data =
                memcpy_at (replicate SAFETY_MAX_FRAME_SIZE 0) 0 (take (unat len) (slot_data (the slot)))\<rparr>)))"

definition ioctl_sections :: "(safety_fifo_slot, 'q) kfifo_ops \<Rightarrow> kenv \<Rightarrow> ioc_cmd \<Rightarrow> user_arg
    \<Rightarrow> ('q safety_copro_dev, ioc_out result) sections" where
  "ioctl_sections K e cmd arg =
     (if IOC_TYPE cmd \<noteq> SAFETY_IOC_MAGIC then Return (Inl ENOTTY)
      else if SAFETY_IOC_MAXNR < IOC_NR cmd then Return (Inl ENOTTY)
      else if cmd = SAFETY_IOC_GET_STATS then stats_sections K arg
      else if cmd = SAFETY_IOC_RESET_STATS then reset_sections
      else if cmd = SAFETY_IOC_SET_HB_TIMEOUT_MS then set_timeout_sections arg
      else if cmd = SAFETY_IOC_GET_STATE then get_state_sections arg
      else if cmd = SAFETY_IOC_FORCE_RECOVERY then andthen (update safety_recovery_schedule) (\<lambda>_. Return (Inr Out_none))
      else if cmd = SAFETY_IOC_INJECT_FAULT then inject_sections K e arg
      else if cmd = SAFETY_IOC_PUSH_RX_FRAME then push_rx_sections K e arg
      else if cmd = SAFETY_IOC_POP_TX_FRAME then pop_tx_ioctl_sections K arg
      else Return (Inl ENOTTY))"

section \<open>Run alone\<close>

named_theorems alone "what an operation's sections do when nothing comes in between"

declare run_andthen [alone] andthen_locked [alone] andthen_update [alone]

lemma push_frame_alone [alone]:
  "run_alone (push_frame_sections K e frame len seq ty tl_ev) d = safety_fifo_push_frame K e frame len seq ty tl_ev d"
  by (simp add: push_frame_sections_def safety_fifo_push_frame_def push_locked_def Let_def alone split: prod.split)

lemma push_tx_alone [alone]:
  "run_alone (push_tx_sections K e frame len seq ty) d = safety_fifo_push_tx_frame K e frame len seq ty d"
  by (simp add: push_tx_sections_def safety_fifo_push_tx_frame_def push_tx_locked_def Let_def alone split: prod.split)

lemma drop_alone [alone]: "run_alone (drop_sections e seq ty) d = ((), record_drop e seq ty d)"
  by (simp add: drop_sections_def record_drop_def Let_def alone)

lemma synth_alone [alone]:
  "run_alone (synth_sections K e ty p n tl_ev) d = safety_synth_and_push K e ty p n tl_ev d"
  by (simp add: synth_sections_def safety_synth_and_push_def record_drop_def Let_def alone split: prod.split)

lemma fault_event_alone [alone]:
  "run_alone (fault_event_sections K e ft sev detail) d = safety_synth_fault_event K e ft sev detail d"
  by (simp add: fault_event_sections_def safety_synth_fault_event_def Let_def alone)

lemma recovery_report_alone [alone]:
  "run_alone (recovery_report_sections K e rcv nst) d = safety_synth_recovery_report K e rcv nst d"
  by (simp add: recovery_report_sections_def safety_synth_recovery_report_def Let_def alone)

lemma rearm_alone [alone]: "run_alone rearm_sections d = ((), safety_timer_rearm d)"
  by (simp add: rearm_sections_def safety_timer_rearm_def Let_def alone)

lemma hb_timer_alone [alone]: "run_alone (hb_timer_sections K e) d = hb_timer_fn K e d"
  by (simp add: hb_timer_sections_def hb_timer_fn_def timeout_locked_def Let_def alone split: prod.split)

lemma recovery_work_alone [alone]: "run_alone (recovery_work_sections K e) d = ((), recovery_work_fn K e d)"
  by (simp add: recovery_work_sections_def recovery_work_fn_def recovery_locked_def Let_def alone split: prod.split)

lemma rx_pushed_alone [alone]:
  "run_alone (rx_pushed_sections e vres seq ty rc) d =
     (if rc = Inl ENOSPC then (Inl ENOSPC, record_drop e seq ty d)
      else case rc of Inl err \<Rightarrow> (Inl err, d)
      | Inr _ \<Rightarrow> if vres = SAFETY_VALIDATE_OK \<and> ty = SAFETY_FRAME_HEARTBEAT
          then (Inr (), safety_timer_rearm (d\<lparr>heartbeat_count := heartbeat_count d + 1, state := SAFETY_LINK_HB_OK\<rparr>))
          else (Inr (), d))"
  by (auto simp: rx_pushed_sections_def beat_locked_def alone split: sum.split)

lemma queue_rx_alone [alone]: "run_alone (queue_rx_sections K e frame n) d = queue_rx_from_linkd K e frame n d"
proof -
  define v where "v = safety_frame_validate (take n frame)"
  show ?thesis
    unfolding queue_rx_sections_def queue_rx_from_linkd_def v_def [symmetric] Let_def
    by (cases v) (simp_all add: alone split_beta)
qed

lemma write_alone [alone]: "run_alone (write_sections K e ubuf n) d = safety_write K e ubuf n d"
  by (simp add: write_sections_def safety_write_def Let_def alone split: prod.split sum.split option.split)

lemma read_alone:
  obtains r d' where "safety_read K True [] n ok d = Some (r, d')" and "run_alone (read_sections K True [] n ok) d = (Some r, d')"
proof -
  have "\<exists>r d'. safety_read K True [] n ok d = Some (r, d') \<and> run_alone (read_sections K True [] n ok) d = (Some r, d')"
    by (simp add: read_sections_def read_try_def pop_frame_sections_def read_tail_def safety_read_def safety_read_loop.simps alone
        split: prod.split)
  then show thesis using that by blast
qed

lemma poll_alone [alone]: "run_alone (poll_sections K) d = safety_poll K d"
  by (simp add: poll_sections_def safety_poll_def safety_tx_fifo_len_def safety_fifo_len_def kcall_def Let_def alone)

lemma ioctl_alone [alone]: "run_alone (ioctl_sections K e cmd arg) d = safety_ioctl K e cmd arg d"
proof -
  have "run_alone (push_rx_sections K e arg) d = ioc_push_rx_frame K e arg d"
    by (simp add: push_rx_sections_def ioc_push_rx_frame_def alone split: option.split prod.split sum.split)
  moreover have "run_alone (stats_sections K arg) d = ioc_get_stats K arg d"
    by (simp add: stats_sections_def ioc_get_stats_def Let_def alone)
  moreover have "run_alone (inject_sections K e arg) d = ioc_inject_fault K e arg d"
    by (simp add: inject_sections_def ioc_inject_fault_def fault_locked_def Let_def alone split: option.split prod.split)
  moreover have "run_alone (pop_tx_ioctl_sections K arg) d = ioc_pop_tx_frame K arg d"
    by (simp add: pop_tx_ioctl_sections_def pop_tx_sections_def ioc_pop_tx_frame_def Let_def alone split: prod.split)
  ultimately show ?thesis
    by (simp add: ioctl_sections_def safety_ioctl_def reset_sections_def ioc_reset_stats_def reset_locked_def
        set_timeout_sections_def ioc_set_hb_timeout_def get_state_sections_def ioc_get_state_def Let_def alone
        split: option.split)
qed

end
