(* ===== verification/Driver_Smp.thy ===== *)
theory Driver_Smp
  imports Driver_Sections
begin

text \<open>
  The driver on several CPUs: the interleaving of the sections of all calls in progress, what a
  call in progress is bound to do, the invariant, and the sequential driver as the special case in which nothing interferes.
\<close>

section \<open>Interleaving\<close>

text \<open>The calls that may be in progress and what they return.\<close>

datatype drv_call = Call_write kenv "bytes option" nat | Call_read bool "bool list" nat bool | Call_poll
  | Call_ioctl kenv ioc_cmd user_arg

datatype reply = R_write "nat result" | R_read "bytes result option" | R_poll u32 | R_ioctl "ioc_out result"
  | R_timer hrtimer_restart | R_work

type_synonym 'q thread = "('q safety_copro_dev, reply) sections"

definition returning :: "('d, 'r) sections \<Rightarrow> ('r \<Rightarrow> reply) \<Rightarrow> ('d, reply) sections" where
  "returning p f = andthen p (\<lambda>r. Return (f r))"

fun call_sections :: "(safety_fifo_slot, 'q) kfifo_ops \<Rightarrow> drv_call \<Rightarrow> 'q thread" where
  "call_sections K (Call_write e ubuf n) = returning (write_sections K e ubuf n) R_write"
| "call_sections K (Call_read nonblock waits n ok) = returning (read_sections K nonblock waits n ok) R_read"
| "call_sections K Call_poll = returning (poll_sections K) R_poll"
| "call_sections K (Call_ioctl e cmd arg) = returning (ioctl_sections K e cmd arg) R_ioctl"

fun call_ok :: "drv_call \<Rightarrow> bool" where
  "call_ok (Call_write e ubuf n) \<longleftrightarrow> (\<forall>f. ubuf = Some f \<longrightarrow> length f = n)"
| "call_ok (Call_ioctl e cmd arg) \<longleftrightarrow> arg_ok arg"
| "call_ok _ \<longleftrightarrow> True"

record 'q smp =
  smp_sys :: "'q driver_sys"
  threads :: "'q thread list"

abbreviation smp_dev :: "'q smp \<Rightarrow> 'q safety_copro_dev" where "smp_dev s \<equiv> sys_dev (smp_sys s)"

text \<open>A call is made, the timer expires, the work is picked up; or something that is in progress runs its next section.\<close>

inductive smp_step :: "(safety_fifo_slot, 'q) kfifo_ops \<Rightarrow> 'q smp \<Rightarrow> 'q smp \<Rightarrow> bool" for K where
  enter: "call_ok c \<Longrightarrow> smp_step K s (s\<lparr>threads := threads s @ [call_sections K c]\<rparr>)"
| timer_fires: "timer_armed (smp_sys s) \<Longrightarrow> smp_step K s
     (s\<lparr>smp_sys := (smp_sys s)\<lparr>timer_armed := False\<rparr>, threads := threads s @ [returning (hb_timer_sections K e) R_timer]\<rparr>)"
| work_runs: "work_pending (smp_sys s) \<Longrightarrow> smp_step K s
     (s\<lparr>smp_sys := (smp_sys s)\<lparr>work_pending := False\<rparr>, threads := threads s @ [returning (recovery_work_sections K e) (\<lambda>_. R_work)]\<rparr>)"
| runs: "i < length (threads s) \<Longrightarrow> threads s ! i = Section g k \<Longrightarrow> smp_step K s
     (s\<lparr>smp_sys := absorb (smp_sys s) (g (smp_dev s)), threads := (threads s)[i := k (smp_dev s)]\<rparr>)"

inductive smp_reachable :: "(safety_fifo_slot, 'q) kfifo_ops \<Rightarrow> 'q smp \<Rightarrow> 'q smp \<Rightarrow> bool" for K s0 where
  start: "smp_reachable K s0 s0"
| step: "smp_reachable K s0 s \<Longrightarrow> smp_step K s s' \<Longrightarrow> smp_reachable K s0 s'"

definition smp_init :: "'q driver_sys \<Rightarrow> 'q smp" where
  "smp_init s = \<lparr>smp_sys = s, threads = []\<rparr>"

lemma returning_alone: "run_alone (returning p f) d = (f (fst (run_alone p d)), snd (run_alone p d))"
  by (simp add: returning_def run_andthen split_beta)

subsection \<open>What a thread is bound to do\<close>

text \<open>A section that starts the timer or leaves a state other than HB_OK; one that schedules the work or leaves a state
  other than HB_TIMEOUT.\<close>

definition arms :: "'q safety_copro_dev \<Rightarrow> 'q safety_copro_dev \<Rightarrow> bool" where
  "arms d d' \<longleftrightarrow> list_ex starts_timer (new_calls d d') \<or> state d' \<noteq> SAFETY_LINK_HB_OK"

definition schedules :: "'q safety_copro_dev \<Rightarrow> 'q safety_copro_dev \<Rightarrow> bool" where
  "schedules d d' \<longleftrightarrow> Schedule_work \<in> set (new_calls d d') \<or> state d' \<noteq> SAFETY_LINK_HB_TIMEOUT"

text \<open>A step of a well-behaved operation: its calls on kernel objects are added to those before; it keeps the invariant
  and moves at most one frame; and if it
  changes the link state to HB_OK, or to HB_TIMEOUT, the operation is bound to arm the timer, or to schedule the work.\<close>

definition good_step :: "('q safety_copro_dev \<Rightarrow> bool) \<Rightarrow> ('q safety_copro_dev \<Rightarrow> 'q safety_copro_dev \<Rightarrow> bool)
    \<Rightarrow> 'q safety_copro_dev \<Rightarrow> 'q safety_copro_dev \<Rightarrow> ('q safety_copro_dev, 'r) sections \<Rightarrow> bool" where
  "good_step I R d d' k \<longleftrightarrow> (\<exists>cs. kcalls d' = kcalls d @ cs) \<and> (I d \<longrightarrow> I d' \<and> R d d')
     \<and> (state d' = SAFETY_LINK_HB_OK \<longrightarrow> state d = SAFETY_LINK_HB_OK \<or> arms d d' \<or> bound_to arms k)
     \<and> (state d' = SAFETY_LINK_HB_TIMEOUT \<longrightarrow> state d = SAFETY_LINK_HB_TIMEOUT \<or> schedules d d' \<or> bound_to schedules k)"

lemma good_step_andthen: "good_step I R d d' k \<Longrightarrow> good_step I R d d' (andthen k c)"
  by (auto simp: good_step_def bound_andthen)

lemma good_andthen:
  "all_steps (good_step I R) a \<Longrightarrow> (\<And>r. all_steps (good_step I R) (c r)) \<Longrightarrow> all_steps (good_step I R) (andthen a c)"
  by (rule all_steps_andthen) (auto intro: good_step_andthen elim: all_steps_mono)

lemma good_update: "(\<And>d. state (f d) = state d) \<Longrightarrow> (\<And>d. \<exists>cs. kcalls (f d) = kcalls d @ cs) \<Longrightarrow> (\<And>d. I d \<Longrightarrow> I (f d) \<and> R d (f d)) \<Longrightarrow> all_steps (good_step I R) (update f)"
  by (simp add: update_def good_step_def)

lemma good_locked:
  "(\<And>d. state (snd (f d)) = state d) \<Longrightarrow> (\<And>d. kcalls (snd (f d)) = kcalls d)
   \<Longrightarrow> (\<And>d. I d \<Longrightarrow> I (snd (f d)) \<and> R d (snd (f d))) \<Longrightarrow> all_steps (good_step I R) (locked f)"
  by (simp add: locked_def good_step_def)

lemma good_Return: "all_steps (good_step I R) (Return r)"
  by simp

lemma good_if: "(b \<Longrightarrow> all_steps Q p) \<Longrightarrow> (\<not> b \<Longrightarrow> all_steps Q q) \<Longrightarrow> all_steps Q (if b then p else q)"
  by simp

lemmas good_intros = good_andthen good_Return good_if

lemma rearm_bound: "bound_to arms rearm_sections"
  by (simp add: rearm_sections_def andthen_locked update_def arms_def new_calls_def kcall_def)

lemma schedule_bound: "bound_to schedules (update safety_recovery_schedule)"
  by (simp add: update_def schedules_def new_calls_def kcall_def safety_recovery_schedule_def)


subsection \<open>Every operation is well-behaved\<close>

context driver
begin

abbreviation "good \<equiv> all_steps (good_step dinv queues_change)"

lemma good_calm:
  "(\<And>d. state (f d) = state d) \<Longrightarrow> (\<And>d. dinv d \<Longrightarrow> dinv (f d)) \<Longrightarrow> (\<And>d. rx_fifo (f d) = rx_fifo d)
   \<Longrightarrow> (\<And>d. tx_fifo (f d) = tx_fifo d) \<Longrightarrow> (\<And>d. \<exists>cs. kcalls (f d) = kcalls d @ cs) \<Longrightarrow> good (update f)"
  by (rule good_update) (simp_all add: same_queues)

lemma good_look: "good (locked (\<lambda>d. (f d, d)))"
  by (rule good_locked) (simp_all add: same_queues)

lemma good_kcall: "good (update (kcall c))"
  by (rule good_calm) (simp_all add: kcall_def driver_inv_def timeline_wf_def)

lemma push_locked_good:
  assumes "rx_slot_ok s"
  shows "good (locked (push_locked K e s seq ev))"
proof (rule good_locked)
  fix d
  show "state (snd (push_locked K e s seq ev d)) = state d" "kcalls (snd (push_locked K e s seq ev d)) = kcalls d"
    by (simp_all add: push_locked_def Let_def split: prod.split)
  assume inv: "dinv d"
  have "wf (rx_fifo d)" using inv by (simp add: driver_inv_def)
  then show "dinv (snd (push_locked K e s seq ev d)) \<and> queues_change d (snd (push_locked K e s seq ev d))"
  proof (cases rule: put_cases [where x = s])
    case (room q')
    let ?n = "of_nat (length (elems (rx_fifo d)) + 1) :: u32"
    let ?d = "d\<lparr>rx_fifo := q', fifo_high_watermark := max (fifo_high_watermark d) ?n\<rparr>"
    have e: "snd (push_locked K e s seq ev d) = safety_timeline_record_locked e ev seq ?d"
      using room len [OF room(4)] by (auto simp: push_locked_def Let_def max_def not_less cong: if_cong)
    have "timeline_wf (safety_timeline_record_locked e ev seq ?d)"
      using inv by (intro timeline_record_wf) (simp add: driver_inv_def)
    then show ?thesis
      using room inv assms qlen_le_depth [of d] unfolding e
      by (simp add: driver_inv_def queues_change_def queue_change_def)
  qed (simp add: push_locked_def same_queues inv)
qed

lemma push_tx_locked_good:
  assumes "tx_slot_ok s"
  shows "good (locked (push_tx_locked K e s seq))"
proof (rule good_locked)
  fix d
  show "state (snd (push_tx_locked K e s seq d)) = state d" "kcalls (snd (push_tx_locked K e s seq d)) = kcalls d"
    by (simp_all add: push_tx_locked_def Let_def split: prod.split)
  assume inv: "dinv d"
  have "wf (tx_fifo d)" using inv by (simp add: driver_inv_def)
  then show "dinv (snd (push_tx_locked K e s seq d)) \<and> queues_change d (snd (push_tx_locked K e s seq d))"
  proof (cases rule: put_cases [where x = s])
    case (room q')
    have "timeline_wf (safety_timeline_record_locked e SAFETY_TL_RECOVERY seq (d\<lparr>tx_fifo := q'\<rparr>))"
      using inv by (intro timeline_record_wf) (simp add: driver_inv_def)
    then show ?thesis
      using room inv assms by (simp add: push_tx_locked_def driver_inv_def queues_change_def queue_change_def)
  qed (simp add: push_tx_locked_def same_queues inv)
qed

lemma percpu_good: "good (update (safety_percpu_inc_rx e n))" "good (update (safety_percpu_inc_dropped e))"
  "good (update safety_percpu_reset)"
  by (rule good_calm; simp add: dev_upd driver_inv_def timeline_wf_def Let_def)+

lemma push_frame_good: "rx_slot_ok \<lparr>slot_len = len, slot_data = take (unat len) f\<rparr> \<Longrightarrow> good (push_frame_sections K e f len seq ty ev)"
  unfolding push_frame_sections_def
  by (intro good_intros push_locked_good) (auto split: sum.split intro!: good_intros percpu_good good_kcall)

lemma push_tx_good: "tx_slot_ok \<lparr>slot_len = len, slot_data = take (unat len) f\<rparr> \<Longrightarrow> good (push_tx_sections K e f len seq ty)"
  unfolding push_tx_sections_def
  by (intro good_intros push_tx_locked_good) (auto split: sum.split intro!: good_intros good_look good_kcall)

lemma pops_good: "good (pop_frame_sections K)" "good (pop_tx_sections K)"
proof -
  have "state (snd (snd (safety_fifo_pop_frame K d))) = state d" "state (snd (snd (safety_fifo_pop_tx_frame K d))) = state d" for d
    by (metis pop_state prod.collapse)+
  moreover have "kcalls (snd (snd (safety_fifo_pop_frame K d))) = kcalls d" "kcalls (snd (snd (safety_fifo_pop_tx_frame K d))) = kcalls d" for d
    by (simp_all add: safety_fifo_pop_frame_def safety_fifo_pop_tx_frame_def split: prod.split list.split)
  ultimately show "good (pop_frame_sections K)" "good (pop_tx_sections K)"
    unfolding pop_frame_sections_def pop_tx_sections_def by (auto intro!: good_locked simp: split_beta pop_inv pop_queues)
qed

lemma drop_good: "good (drop_sections e seq ty)"
  unfolding drop_sections_def
  by (intro good_intros percpu_good good_kcall good_calm) (simp_all add: driver_inv_def timeline_wf_def)

lemma rearm_good: "good rearm_sections"
  unfolding rearm_sections_def by (intro good_intros good_look good_kcall)

lemma synth_good:
  assumes "length p \<le> SAFETY_MAX_PAYLOAD"
  shows "good (synth_sections K e ty p (of_nat (length p)) ev)"
proof -
  have "good (let hdr = safety_frame_init ty seq (of_nat (length p)) (safety_now_ms (ktime_get_ns e 0));
            (total, hdr, frame) = safety_frame_pack (replicate SAFETY_MAX_FRAME_SIZE 0) hdr (Some p)
        in if total = 0 then Return (Inl EMSGSIZE)
           else andthen (push_frame_sections K (later e 1) frame (of_nat total) seq ty ev) (\<lambda>rc.
             if rc = Inl ENOSPC then andthen (drop_sections e seq ty) (\<lambda>_. Return rc) else Return rc))" for seq
  proof -
    define h where "h = safety_frame_init ty seq (of_nat (length p)) (safety_now_ms (ktime_get_ns e 0))"
    have n: "unat (payload_length h) = length p" using assms(1) by (simp add: h_def unat_length_payload)
    obtain out' where pack: "safety_frame_pack (replicate SAFETY_MAX_FRAME_SIZE 0) h (Some p) =
        (16 + length p, h\<lparr>checksum := safety_crc32 (header_bytes (h\<lparr>checksum := 0\<rparr>) @ p)\<rparr>, out')"
      "take (16 + length p) out' = wire_frame h p"
      by (rule pack_wire_frame [where out = "replicate SAFETY_MAX_FRAME_SIZE 0", OF _ n assms(1)]) auto
    have len: "unat (of_nat (16 + length p) :: u16) = 16 + length p"
      using assms(1) by (intro unat_frame_length) (simp add: proto_const)
    have "rx_slot_ok \<lparr>slot_len = of_nat (16 + length p), slot_data = wire_frame h p\<rparr>"
      using rx_slot_ok_validates [of "wire_frame h p"] assms(1) header_ok_init [OF assms(1)]
      by (simp add: h_def unat_length_payload)
    then have "rx_slot_ok \<lparr>slot_len = of_nat (16 + length p), slot_data = take (unat (of_nat (16 + length p) :: u16)) out'\<rparr>"
      unfolding len pack(2) .
    from push_frame_good [OF this] show ?thesis
      unfolding h_def [symmetric] Let_def pack(1) prod.case by (intro good_intros drop_good)
  qed
  then show ?thesis unfolding synth_sections_def
    by (intro good_if good_Return good_andthen good_locked) (simp_all add: driver_inv_def timeline_wf_def same_queues)
qed

lemma fault_event_good: "good (fault_event_sections K e ft sev detail)"
  using synth_good [of "fault_event_bytes p" for p] by (simp add: fault_event_sections_def proto_const)

lemma recovery_report_good: "good (recovery_report_sections K e rcv nst)"
  using synth_good [of "recovery_report_bytes p" for p] by (simp add: recovery_report_sections_def proto_const)

text \<open>The two operations that change the link state start with the section that does, and the heartbeat ends with it.\<close>

lemma record_inv: "dinv d \<Longrightarrow> dinv (safety_timeline_record_locked e ev seq d)"
  using timeline_record_wf [of d] by (simp add: driver_inv_def)

lemma schedule_good: "good (update safety_recovery_schedule)"
  using good_kcall [of Schedule_work] by (simp add: safety_recovery_schedule_def [abs_def])

lemma hb_timer_good: "good (hb_timer_sections K e)"
proof -
  have "bound_to schedules (andthen (update (kcall c)) (\<lambda>_. andthen (fault_event_sections K e' ft sev detail) (\<lambda>_.
      andthen (update safety_recovery_schedule) (\<lambda>_. Return HRTIMER_NORESTART))))" for c e' ft sev detail
    by (intro bound_andthen_rest bound_andthen schedule_bound)
  moreover have "dinv (snd (timeout_locked e d))" if "dinv d" for d
    using that unfolding timeout_locked_def Let_def snd_conv by (intro record_inv) (simp add: driver_inv_def timeline_wf_def)
  moreover have "kcalls (snd (timeout_locked e d)) = kcalls d" "rx_fifo (snd (timeout_locked e d)) = rx_fifo d" "tx_fifo (snd (timeout_locked e d)) = tx_fifo d"
    "state (snd (timeout_locked e d)) = SAFETY_LINK_HB_TIMEOUT" for d :: "'q safety_copro_dev"
    by (simp_all add: timeout_locked_def Let_def)
  ultimately show ?thesis
    unfolding hb_timer_sections_def andthen_locked
    by (auto simp: good_step_def split_beta schedules_def same_queues
        intro!: good_andthen fault_event_good good_kcall schedule_good)
qed

lemma recovery_work_good: "good (recovery_work_sections K e)"
proof -
  have "dinv (snd (recovery_locked e d))" if "dinv d" for d
    using that unfolding recovery_locked_def Let_def snd_conv by (intro record_inv) (simp add: driver_inv_def timeline_wf_def)
  moreover have "kcalls (snd (recovery_locked e d)) = kcalls d" "rx_fifo (snd (recovery_locked e d)) = rx_fifo d" "tx_fifo (snd (recovery_locked e d)) = tx_fifo d"
    "state (snd (recovery_locked e d)) = SAFETY_LINK_RECOVERING" for d :: "'q safety_copro_dev"
    by (simp_all add: recovery_locked_def Let_def)
  ultimately show ?thesis
    unfolding recovery_work_sections_def andthen_locked
    by (auto simp: good_step_def same_queues intro!: good_andthen recovery_report_good good_kcall)
qed

lemma beat_good: "good (andthen (update beat_locked) (\<lambda>_. andthen rearm_sections (\<lambda>_. Return r)))"
proof -
  have "dinv (beat_locked d) \<and> queues_change d (beat_locked d)" if "dinv d" for d
    using that by (simp add: beat_locked_def driver_inv_def timeline_wf_def same_queues)
  moreover have "state (beat_locked d) = SAFETY_LINK_HB_OK" "kcalls (beat_locked d) = kcalls d" for d :: "'q safety_copro_dev" by (simp_all add: beat_locked_def)
  ultimately show ?thesis
    unfolding andthen_update using rearm_bound
    by (auto simp: good_step_def intro!: good_andthen rearm_good bound_andthen)
qed

lemma rx_pushed_good: "good (rx_pushed_sections e v seq ty rc)"
  unfolding rx_pushed_sections_def
  by (auto split: sum.split intro!: good_intros drop_good beat_good)

lemma proto_error_good: "v \<noteq> SAFETY_VALIDATE_OK \<Longrightarrow> good (update (record_proto_error v))"
  by (rule good_calm) (simp_all add: proto_error_inv)

lemma queue_rx_sections_good:
  assumes "n \<le> length f"
  shows "good (queue_rx_sections K e f n)"
proof -
  let ?h = "header_of_bytes (take SAFETY_HEADER_SIZE f)"
  have refuse: "good (andthen (update (record_proto_error v)) (\<lambda>_. Return r))" if "v \<noteq> SAFETY_VALIDATE_OK" for v r
    using that by (intro good_intros proto_error_good)
  have slot: "rx_slot_ok \<lparr>slot_len = of_nat n, slot_data = take (unat (of_nat n :: u16)) f\<rparr>"
    if "\<not> n < SAFETY_HEADER_SIZE" "\<not> SAFETY_MAX_FRAME_SIZE < n" "magic ?h = SAFETY_PROTO_MAGIC" "version ?h = SAFETY_PROTO_VERSION"
      "\<not> SAFETY_MAX_PAYLOAD < unat (payload_length ?h)" "n = SAFETY_HEADER_SIZE + unat (payload_length ?h)"
  proof -
    have "take 16 (take n f) = take 16 f" using that(1) by (simp add: min_def SAFETY_HEADER_SIZE_def)
    then have "header_of_bytes (take n f) = ?h"
      using hdr.dec_take [of "take n f"] assms that(1) by (simp add: SAFETY_HEADER_SIZE_def)
    then have "rx_header_fits (take n f)" using that assms by (simp add: rx_header_fits_def Let_def)
    from rx_header_fits_slot [OF this] show ?thesis using assms that(2) unat_frame_length [of n] by simp
  qed
  show ?thesis
    unfolding queue_rx_sections_def Let_def
    by (intro good_if good_Return good_andthen refuse rx_pushed_good push_frame_good proto_error_good) (use slot in auto)
qed

lemma write_good:
  assumes "\<forall>f. ubuf = Some f \<longrightarrow> length f = n"
  shows "good (write_sections K e ubuf n)"
proof (cases ubuf)
  case (Some f)
  then have n: "length f = n" using assms by simp
  have "tx_slot_ok \<lparr>slot_len = of_nat n, slot_data = take (unat (of_nat n :: u16)) f\<rparr>"
    if "\<not> SAFETY_MAX_FRAME_SIZE < n" "safety_frame_validate f = SAFETY_VALIDATE_OK"
    using that n unat_frame_length [of n] by (simp add: tx_slot_ok_def)
  then show ?thesis
    unfolding write_sections_def Some option.case Let_def using n
    by (intro good_if good_Return good_andthen proto_error_good push_tx_good drop_good) (auto split: sum.split)
qed (simp add: write_sections_def)

lemma read_good: "good (read_sections K nb ls n ok)"
proof -
  have one: "good (read_try K n ok p)" if "good p" for p
    unfolding read_try_def using that by (auto intro!: good_andthen pops_good)
  have "good (read_wait K n ok ls)"
    by (induction ls) (auto intro!: good_andthen good_look one)
  then show ?thesis unfolding read_sections_def by (auto intro!: one)
qed

lemma poll_good: "good (poll_sections K)"
  unfolding poll_sections_def by (intro good_intros good_look good_kcall)

lemma ioctl_good:
  assumes "arg_ok arg"
  shows "good (ioctl_sections K e cmd arg)"
proof -
  have "good (push_rx_sections K e arg)"
    using assms unfolding push_rx_sections_def
    by (auto simp: arg_ok_def split: option.splits intro!: good_intros queue_rx_sections_good)
  moreover have "good (stats_sections K arg)" unfolding stats_sections_def by (intro good_intros good_look)
  moreover have "good (inject_sections K e arg)" unfolding inject_sections_def
    by (auto simp: fault_locked_def driver_inv_def timeline_wf_def split: option.split
        intro!: good_andthen fault_event_good good_calm)
  moreover have "good (pop_tx_ioctl_sections K arg)" unfolding pop_tx_ioctl_sections_def
    by (auto intro!: good_andthen pops_good)
  moreover have "good (reset_sections :: ('q safety_copro_dev, ioc_out result) sections)" unfolding reset_sections_def
    by (intro good_intros good_calm percpu_good) (simp_all add: reset_locked_def driver_inv_def timeline_wf_def SAFETY_TIMELINE_DEPTH_def)
  moreover have "good (set_timeout_sections arg)" unfolding set_timeout_sections_def
    by (auto split: option.split intro!: good_andthen good_calm rearm_good set_timeout_inv)
  moreover have "good (get_state_sections arg)" unfolding get_state_sections_def by (intro good_intros good_look)
  ultimately show ?thesis
    unfolding ioctl_sections_def by (auto intro!: good_andthen schedule_good)
qed

lemma call_good: "call_ok c \<Longrightarrow> good (call_sections K c)"
  by (cases c) (auto simp: returning_def intro!: good_andthen write_good read_good poll_good ioctl_good)

subsection \<open>Invariant of the interleaved driver\<close>

definition smp_inv :: "'q smp \<Rightarrow> bool" where
  "smp_inv s \<longleftrightarrow> dinv (smp_dev s) \<and> (\<forall>p\<in>set (threads s). good p)
     \<and> (state (smp_dev s) = SAFETY_LINK_HB_OK \<longrightarrow> timer_armed (smp_sys s) \<or> (\<exists>p\<in>set (threads s). bound_to arms p))
     \<and> (state (smp_dev s) = SAFETY_LINK_HB_TIMEOUT \<longrightarrow> work_pending (smp_sys s) \<or> (\<exists>p\<in>set (threads s). bound_to schedules p))"

lemma timer_thread: "good (returning (hb_timer_sections K e) f)" "bound_to arms (returning (hb_timer_sections K e) f)"
  by (auto simp: returning_def intro!: good_andthen hb_timer_good bound_andthen)
    (simp add: hb_timer_sections_def andthen_locked arms_def timeout_locked_def Let_def)

lemma work_thread: "good (returning (recovery_work_sections K e) f)" "bound_to schedules (returning (recovery_work_sections K e) f)"
  by (auto simp: returning_def intro!: good_andthen recovery_work_good bound_andthen)
    (simp add: recovery_work_sections_def andthen_locked schedules_def recovery_locked_def Let_def)

text \<open>What is bound to happen stays bound to happen until it has happened.\<close>

lemma still_bound:
  assumes "\<exists>p\<in>set ts. bound_to P p" and "i < length ts" and "ts ! i = Section g k"
  shows "P d (g d) \<or> (\<exists>p\<in>set (ts[i := k d]). bound_to P p)"
proof -
  from assms(1) obtain j where j: "j < length ts" "bound_to P (ts ! j)" by (metis in_set_conv_nth)
  show ?thesis
  proof (cases "j = i")
    case True
    then have "P d (g d) \<or> bound_to P (k d)" using j assms(3) by simp
    then show ?thesis using assms(2) by (metis set_update_memI)
  next
    case False
    then have "ts ! j \<in> set (ts[i := k d])" using j(1) by (metis length_list_update nth_list_update_neq nth_mem)
    then show ?thesis using j(2) by blast
  qed
qed

lemma smp_step_inv:
  assumes "smp_step K s s'" and "smp_inv s"
  shows "smp_inv s'"
  using assms(1)
proof cases
  case (enter c)
  then show ?thesis using assms(2) call_good by (auto simp: smp_inv_def)
next
  case (timer_fires e)
  then show ?thesis using assms(2) timer_thread [of e R_timer] by (auto simp: smp_inv_def)
next
  case (work_runs e)
  then show ?thesis using assms(2) work_thread [of e "\<lambda>_. R_work"] by (auto simp: smp_inv_def)
next
  case (runs i g k)
  let ?d = "smp_dev s" and ?d' = "g (smp_dev s)" and ?ts = "(threads s)[i := k (smp_dev s)]"
  have "Section g k \<in> set (threads s)" using runs(2,3) nth_mem by metis
  then have "good (Section g k)" using assms(2) unfolding smp_inv_def by blast
  then have step: "good_step dinv queues_change ?d ?d' (k ?d)" and rest: "good (k ?d)" by auto
  have k: "k ?d \<in> set ?ts" using runs(2) by (rule set_update_memI)
  have "dinv ?d'" using step assms(2) by (simp add: good_step_def smp_inv_def)
  moreover have "\<forall>p\<in>set ?ts. good p" using assms(2) rest set_update_subset_insert [of "threads s"] by (auto simp: smp_inv_def)
  moreover have "timer_armed (absorb (smp_sys s) ?d') \<or> (\<exists>p\<in>set ?ts. bound_to arms p)" if "state ?d' = SAFETY_LINK_HB_OK"
  proof -
    have "arms ?d ?d' \<Longrightarrow> timer_armed (absorb (smp_sys s) ?d')" using that by (simp add: arms_def absorb_def)
    moreover have "timer_armed (smp_sys s) \<Longrightarrow> timer_armed (absorb (smp_sys s) ?d')" by (simp add: absorb_def)
    ultimately show ?thesis using step that k assms(2) still_bound [OF _ runs(2,3), of arms ?d]
      by (auto simp: good_step_def smp_inv_def)
  qed
  moreover have "work_pending (absorb (smp_sys s) ?d') \<or> (\<exists>p\<in>set ?ts. bound_to schedules p)" if "state ?d' = SAFETY_LINK_HB_TIMEOUT"
  proof -
    have "schedules ?d ?d' \<Longrightarrow> work_pending (absorb (smp_sys s) ?d')" using that by (simp add: schedules_def absorb_def)
    moreover have "work_pending (smp_sys s) \<Longrightarrow> work_pending (absorb (smp_sys s) ?d')" by (simp add: absorb_def)
    ultimately show ?thesis using step that k assms(2) still_bound [OF _ runs(2,3), of schedules ?d]
      by (auto simp: good_step_def smp_inv_def)
  qed
  ultimately show ?thesis using runs(1) by (simp add: smp_inv_def absorb_def)
qed

lemma smp_reachable_inv:
  assumes "smp_reachable K (smp_init s0) s" and "drv_init K elems wf s0"
  shows "smp_inv s"
  using assms(1)
proof induction
  case start
  then show ?case using assms(2) by (simp add: smp_inv_def smp_init_def drv_init_def)
qed (rule smp_step_inv)

text \<open>An operation run without interference, as steps of the interleaved driver.\<close>

lemma absorb_current [simp]: "absorb s (sys_dev s) = s"
  by (cases s) (simp add: absorb_def new_calls_def)

lemma absorb_twice:
  assumes "kcalls d = kcalls (sys_dev s) @ cs" and "kcalls d' = kcalls d @ cs'"
  shows "absorb (absorb s d) d' = absorb s d'"
  using assms by (simp add: absorb_def new_calls_def)

lemma run_steps:
  assumes "good p" and "smp_reachable K s0 (s\<lparr>threads := ts @ [p]\<rparr>)"
  shows "(\<exists>cs. kcalls (snd (run_alone p (smp_dev s))) = kcalls (smp_dev s) @ cs)
    \<and> smp_reachable K s0 (s\<lparr>smp_sys := absorb (smp_sys s) (snd (run_alone p (smp_dev s))), threads := ts @ [Return (fst (run_alone p (smp_dev s)))]\<rparr>)"
  using assms
proof (induction p arbitrary: s)
  case (Return r)
  then show ?case by (cases s) simp
next
  case (Section g k)
  let ?d = "smp_dev s"
  let ?s = "s\<lparr>smp_sys := absorb (smp_sys s) (g ?d)\<rparr>"
  from Section.prems(1) have "good_step dinv queues_change ?d (g ?d) (k ?d)" and rest: "good (k ?d)" by auto
  then obtain cs where cs: "kcalls (g ?d) = kcalls ?d @ cs" unfolding good_step_def by blast
  have "smp_step K (s\<lparr>threads := ts @ [Section g k]\<rparr>) (?s\<lparr>threads := ts @ [k ?d]\<rparr>)"
    using smp_step.runs [of "length ts" "s\<lparr>threads := ts @ [Section g k]\<rparr>" g k K] by simp
  from Section.IH [OF _ rest smp_reachable.step [OF Section.prems(2) this]]
  obtain cs' where "kcalls (snd (run_alone (k ?d) (g ?d))) = kcalls (g ?d) @ cs'"
    "smp_reachable K s0 (?s\<lparr>smp_sys := absorb (smp_sys ?s) (snd (run_alone (k ?d) (g ?d))),
       threads := ts @ [Return (fst (run_alone (k ?d) (g ?d)))]\<rparr>)"
    by (auto simp: absorb_def)
  then show ?case using absorb_twice [OF cs] cs by auto
qed

lemma call_steps:
  assumes "smp_reachable K s0 \<lparr>smp_sys = s, threads = ts\<rparr>" and "call_ok c"
  shows "smp_reachable K s0 \<lparr>smp_sys = absorb s (snd (run_alone (call_sections K c) (sys_dev s))),
    threads = ts @ [Return (fst (run_alone (call_sections K c) (sys_dev s)))]\<rparr>"
  using run_steps [OF call_good [OF assms(2)], of s0 ts "\<lparr>smp_sys = s, threads = ts\<rparr>"]
    smp_reachable.step [OF assms(1) smp_step.enter [OF assms(2)]] by simp

text \<open>Every state of the sequential driver is one of the interleaved driver with nothing in progress.\<close>

lemma coarse_step_embeds:
  assumes "drv_step K s s'" and "smp_reachable K s0 \<lparr>smp_sys = s, threads = map Return rs\<rparr>"
  shows "\<exists>rs. smp_reachable K s0 \<lparr>smp_sys = s', threads = map Return rs\<rparr>"
  using assms(1)
proof cases
  case (sys_write e ubuf n r dev')
  then show ?thesis using call_steps [OF assms(2), of "Call_write e ubuf n"]
    by (intro exI [of _ "rs @ [R_write r]"]) (simp add: returning_alone alone)
next
  case (sys_read n ok r dev')
  have "run_alone (read_sections K True [] n ok) (sys_dev s) = (Some r, dev')"
    by (rule read_alone [of K n ok "sys_dev s"]) (simp add: sys_read(2))
  then show ?thesis using call_steps [OF assms(2), of "Call_read True [] n ok"] sys_read(1)
    by (intro exI [of _ "rs @ [R_read (Some r)]"]) (simp add: returning_alone)
next
  case (sys_poll m dev')
  then show ?thesis using call_steps [OF assms(2), of Call_poll]
    by (intro exI [of _ "rs @ [R_poll m]"]) (simp add: returning_alone alone)
next
  case (sys_ioctl e cmd arg r dev')
  then show ?thesis using call_steps [OF assms(2), of "Call_ioctl e cmd arg"]
    by (intro exI [of _ "rs @ [R_ioctl r]"]) (simp add: returning_alone alone)
next
  case (timer_fires e r dev')
  let ?s = "\<lparr>smp_sys = s\<lparr>timer_armed := False\<rparr>, threads = map Return rs\<rparr>"
  have "smp_reachable K s0 (?s\<lparr>threads := map Return rs @ [returning (hb_timer_sections K e) R_timer]\<rparr>)"
    using smp_reachable.step [OF assms(2) smp_step.timer_fires [of _ K e]] timer_fires(2) by simp
  from run_steps [OF timer_thread(1) this] show ?thesis using timer_fires
    by (intro exI [of _ "rs @ [R_timer r]"]) (simp add: returning_alone alone)
next
  case (work_runs e dev')
  let ?s = "\<lparr>smp_sys = s\<lparr>work_pending := False\<rparr>, threads = map Return rs\<rparr>"
  have "smp_reachable K s0 (?s\<lparr>threads := map Return rs @ [returning (recovery_work_sections K e) (\<lambda>_. R_work)]\<rparr>)"
    using smp_reachable.step [OF assms(2) smp_step.work_runs [of _ K e]] work_runs(2) by simp
  from run_steps [OF work_thread(1) this] show ?thesis using work_runs
    by (intro exI [of _ "rs @ [R_work]"]) (simp add: returning_alone alone)
qed

lemma coarse_reachable_embeds:
  assumes "drv_reachable K s0 s"
  shows "\<exists>rs. smp_reachable K (smp_init s0) \<lparr>smp_sys = s, threads = map Return rs\<rparr>"
  using assms
proof induction
  case start
  then show ?case using smp_reachable.start [of K "smp_init s0"] by (intro exI [of _ "[]"]) (simp add: smp_init_def)
next
  case (step s s')
  then show ?case using coarse_step_embeds by blast
qed

end


section \<open>Schedules\<close>

text \<open>The thread with number \<open>i\<close> runs its next section, if it has one; a schedule is a list of such numbers.\<close>

definition run_next :: "nat \<Rightarrow> 'q smp \<Rightarrow> 'q smp" where
  "run_next i s = (if length (threads s) \<le> i then s else case threads s ! i of Return r \<Rightarrow> s
     | Section g k \<Rightarrow> s\<lparr>smp_sys := absorb (smp_sys s) (g (smp_dev s)), threads := (threads s)[i := k (smp_dev s)]\<rparr>)"

lemma run_one: "run_next 0 \<lparr>smp_sys = s, threads = [Section g k]\<rparr> = \<lparr>smp_sys = absorb s (g (sys_dev s)), threads = [k (sys_dev s)]\<rparr>"
  by (simp add: run_next_def)

lemma run_next_reachable:
  assumes "smp_reachable K s0 s"
  shows "smp_reachable K s0 (run_next i s)"
  using assms smp_reachable.step [OF assms smp_step.runs] by (simp add: run_next_def split: sections.split)

lemma schedule_reachable: "smp_reachable K s0 s \<Longrightarrow> smp_reachable K s0 (fold run_next is s)"
  by (induction "is" arbitrary: s) (simp_all add: run_next_reachable)

text \<open>Calls entered at the start of a schedule.\<close>

lemma enter_reachable:
  "\<forall>c\<in>set cs. call_ok c \<Longrightarrow> smp_reachable K (smp_init s) \<lparr>smp_sys = s, threads = map (call_sections K) cs\<rparr>"
proof (induction cs rule: rev_induct)
  case Nil
  then show ?case using smp_reachable.start [of K "smp_init s"] by (simp add: smp_init_def)
next
  case (snoc c cs)
  then show ?case
    using smp_reachable.step [OF _ smp_step.enter [of c], of K "smp_init s" "\<lparr>smp_sys = s, threads = map (call_sections K) cs\<rparr>"] by simp
qed


section \<open>Properties\<close>

text \<open>Sections and sequential model.  Run without interference, the sections of every driver operation do what the
  sequential definition of the operation does: the same result and the same device, whatever the device and the arguments.\<close>

lemma sections_alone:
  "run_alone (call_sections K (Call_write e ubuf n)) d = map_prod R_write id (safety_write K e ubuf n d)
   \<and> run_alone (call_sections K Call_poll) d = map_prod R_poll id (safety_poll K d)
   \<and> run_alone (call_sections K (Call_ioctl e cmd arg)) d = map_prod R_ioctl id (safety_ioctl K e cmd arg d)
   \<and> (\<exists>r d'. safety_read K True [] n ok d = Some (r, d')
        \<and> run_alone (call_sections K (Call_read True [] n ok)) d = (R_read (Some r), d'))
   \<and> run_alone (hb_timer_sections K e) d = hb_timer_fn K e d
   \<and> run_alone (recovery_work_sections K e) d = ((), recovery_work_fn K e d)"
  by (rule read_alone [of K n ok d]) (simp add: returning_alone alone map_prod_def split_beta)

text \<open>The sequential driver is a special case.  Every state that the driver reaches when each system call, watchdog
  expiry and recovery run is one step is reached by the interleaved driver too, with every call returned.\<close>

lemma coarse_embeds:
  assumes "kfifo K elems qwf" and "drv_reachable K s0 s"
  shows "\<exists>rs. smp_reachable K (smp_init s0) \<lparr>smp_sys = s, threads = map Return rs\<rparr>"
  using driver.coarse_reachable_embeds [OF driver_kfifo [OF assms(1)] assms(2)] .

text \<open>C12 (the link on several CPUs).  However the sections of concurrent calls interleave: the device invariant
  holds; while the link is HB_OK the watchdog is armed, or a call in progress is bound to arm it or to leave HB_OK;
  while the link is HB_TIMEOUT the recovery work is pending, or a call in progress is bound to schedule it or to leave
  HB_TIMEOUT; and once every call has returned the watchdog is armed, or the work pending, as the link state demands.\<close>

theorem smp_link:
  assumes "kfifo K elems qwf" and "drv_init K elems qwf s0" and "smp_reachable K (smp_init s0) s"
  shows "driver_inv K elems qwf (smp_dev s)
    \<and> (state (smp_dev s) = SAFETY_LINK_HB_OK \<longrightarrow> timer_armed (smp_sys s) \<or> (\<exists>p\<in>set (threads s). bound_to arms p))
    \<and> (state (smp_dev s) = SAFETY_LINK_HB_TIMEOUT \<longrightarrow> work_pending (smp_sys s) \<or> (\<exists>p\<in>set (threads s). bound_to schedules p))
    \<and> ((\<forall>p\<in>set (threads s). \<exists>r. p = Return r) \<longrightarrow> link_inv (smp_sys s))"
proof -
  note drv = driver_kfifo [OF assms(1)]
  have "driver.smp_inv K elems qwf s" using driver.smp_reachable_inv [OF drv assms(3,2)] .
  then show ?thesis unfolding driver.smp_inv_def [OF drv] link_inv_def by fastforce
qed

theorem smp_link_witness:
  "\<exists>s. smp_reachable bounded_list (smp_init \<lparr>sys_dev = ready_dev (2, []) (2, []) 2 1 350, timer_armed = False, work_pending = False\<rparr>) s
     \<and> state (smp_dev s) = SAFETY_LINK_HB_OK \<and> \<not> timer_armed (smp_sys s) \<and> (\<exists>p\<in>set (threads s). bound_to arms p)"
proof -
  define hb where "hb = wire_frame (safety_frame_init SAFETY_FRAME_HEARTBEAT 5 0 9) []"
  let ?io = "\<lparr>io_len = 16, io_data = hb @ replicate 256 0\<rparr>"
  let ?arg = "\<lparr>arg_u32 = None, arg_frame = Some ?io, arg_writable = True\<rparr>"
  let ?s0 = "\<lparr>sys_dev = ready_dev (2, []) (2, []) 2 1 350, timer_armed = False, work_pending = False\<rparr> :: safety_fifo_slot blist driver_sys"
  let ?c = "Call_ioctl kenv0 SAFETY_IOC_PUSH_RX_FRAME ?arg"
  let ?run = "fold run_next [0, 0, 0, 0, 0] \<lparr>smp_sys = ?s0, threads = map (call_sections bounded_list) [?c]\<rparr>"
  have hb: "safety_frame_validate hb = SAFETY_VALIDATE_OK" "length hb = 16" "magic (header_of_bytes hb) = SAFETY_PROTO_MAGIC"
      "version (header_of_bytes hb) = SAFETY_PROTO_VERSION" "payload_length (header_of_bytes hb) = 0"
      "frame_type (header_of_bytes hb) = SAFETY_FRAME_HEARTBEAT"
    by (simp_all add: header_ok_def hb_def)
  have q: "queue_rx_sections K e (hb @ p) 16 = andthen (push_frame_sections K e (hb @ p) 16 (sequence_id (header_of_bytes hb))
      SAFETY_FRAME_HEARTBEAT SAFETY_TL_HEARTBEAT) (rx_pushed_sections e SAFETY_VALIDATE_OK (sequence_id (header_of_bytes hb)) SAFETY_FRAME_HEARTBEAT)"
    for K :: "(safety_fifo_slot, safety_fifo_slot blist) kfifo_ops" and e p
    by (simp add: queue_rx_sections_def hb SAFETY_HEADER_SIZE_def SAFETY_MAX_FRAME_SIZE_def SAFETY_MAX_PAYLOAD_def Let_def)
  have "smp_reachable bounded_list (smp_init ?s0) ?run"
    by (intro schedule_reachable enter_reachable) (simp add: arg_ok_def proto_const hb)
  moreover have "state (smp_dev ?run) = SAFETY_LINK_HB_OK \<and> \<not> timer_armed (smp_sys ?run)"
  proof -
    let ?push = "push_locked bounded_list kenv0 \<lparr>slot_len = 16, slot_data = hb\<rparr> (sequence_id (header_of_bytes hb)) SAFETY_TL_HEARTBEAT"
    let ?run = "\<lambda>s. fold run_next [0, 0, 0, 0, 0] \<lparr>smp_sys = s, threads = [call_sections bounded_list ?c]\<rparr>"
    have "state (smp_dev (?run s)) = SAFETY_LINK_HB_OK \<and> \<not> timer_armed (smp_sys (?run s))"
      if "?push (sys_dev s) = (Inr 1, d)" "kcalls d = kcalls (sys_dev s)" "\<not> timer_armed s" for s d
      using that
      by (simp add: run_one returning_def ioctl_sections_def ioc_cmd_defs push_rx_sections_def q proto_const hb
          push_frame_sections_def andthen_locked andthen_update rx_pushed_sections_def absorb_def new_calls_def)
        (simp add: beat_locked_def kcall_def dev_upd)
    moreover have "?push (sys_dev ?s0) = (Inr 1, snd (?push (sys_dev ?s0)))" "kcalls (snd (?push (sys_dev ?s0))) = kcalls (sys_dev ?s0)"
      by (simp_all add: push_locked_def ready_dev_def kzalloc_dev_def bounded_list_def)
    ultimately show ?thesis by simp
  qed
  ultimately show ?thesis using smp_link [OF kfifo_bounded_list demo_sys_init] by blast
qed

text \<open>A period that does not last.  Two concurrent calls set the watchdog period, the second after the first has read it
  back: the period that remains configured is the second's, the timer runs with the first's, and no call is left
  that would start it again.\<close>

theorem stale_period:
  "\<exists>s. smp_reachable bounded_list (smp_init \<lparr>sys_dev = ready_dev (2, []) (2, []) 2 1 350, timer_armed = False, work_pending = False\<rparr>) s
     \<and> threads s = [Return (R_ioctl (Inr Out_none)), Return (R_ioctl (Inr Out_none))]
     \<and> hb_timeout_ms (smp_dev s) = 100 \<and> kcalls (smp_dev s) = [Hrtimer_start 100, Hrtimer_start 5000]"
proof -
  let ?s0 = "\<lparr>sys_dev = ready_dev (2, []) (2, []) 2 1 350, timer_armed = False, work_pending = False\<rparr> :: safety_fifo_slot blist driver_sys"
  let ?set = "\<lambda>ms. Call_ioctl kenv0 SAFETY_IOC_SET_HB_TIMEOUT_MS \<lparr>arg_u32 = Some ms, arg_frame = None, arg_writable = True\<rparr>"
  let ?run = "fold run_next [0, 0, 1, 1, 1, 0] \<lparr>smp_sys = ?s0, threads = map (call_sections bounded_list) [?set 5000, ?set 100]\<rparr>"
  have "smp_reachable bounded_list (smp_init ?s0) ?run"
    by (intro schedule_reachable enter_reachable) (simp add: arg_ok_def)
  moreover have "threads ?run = [Return (R_ioctl (Inr Out_none)), Return (R_ioctl (Inr Out_none))]
     \<and> hb_timeout_ms (smp_dev ?run) = 100 \<and> kcalls (smp_dev ?run) = [Hrtimer_start 100, Hrtimer_start 5000]"
    by (simp add: run_next_def returning_def ioctl_sections_def ioc_cmd_defs set_timeout_sections_def rearm_sections_def
      andthen_locked andthen_update absorb_def ready_dev_def kzalloc_dev_def kcall_def update_def)
  ultimately show ?thesis by blast
qed

end
