(* ===== verification/Driver_Frames.thy ===== *)
theory Driver_Frames
  imports Driver_Smp "HOL-Library.Multiset"
begin

text \<open>
  The frames that the interleaved driver accepts into its receive queue and hands to readers: their order, and that
  concurrent readers never get the same frame.
\<close>

section \<open>Frames under interleaving\<close>

text \<open>What a change of a queue added at its end and took from its front, and a run of the driver that keeps the
  frames accepted into the receive queue so far and those taken from it.\<close>

definition queue_in :: "'a list \<Rightarrow> 'a list \<Rightarrow> 'a list" where
  "queue_in xs ys = drop (length xs) ys"

definition queue_out :: "'a list \<Rightarrow> 'a list \<Rightarrow> 'a list" where
  "queue_out xs ys = take (length xs - length ys) xs"

inductive rx_run :: "(safety_fifo_slot, 'q) kfifo_ops \<Rightarrow> ('q \<Rightarrow> safety_fifo_slot list) \<Rightarrow> 'q smp
    \<Rightarrow> 'q smp \<Rightarrow> safety_fifo_slot list \<Rightarrow> safety_fifo_slot list \<Rightarrow> bool" for K elems s0 where
  start: "rx_run K elems s0 s0 (elems (rx_fifo (smp_dev s0))) []"
| step: "rx_run K elems s0 s ins outs \<Longrightarrow> smp_step K s s' \<Longrightarrow> rx_run K elems s0 s'
     (ins @ queue_in (elems (rx_fifo (smp_dev s))) (elems (rx_fifo (smp_dev s'))))
     (outs @ queue_out (elems (rx_fifo (smp_dev s))) (elems (rx_fifo (smp_dev s'))))"

text \<open>The bytes that finished readers got.\<close>

fun delivers :: "('d, reply) sections \<Rightarrow> bytes list" where
  "delivers (Return (R_read (Some (Inr b)))) = [b]"
| "delivers _ = []"

definition delivered :: "'q smp \<Rightarrow> bytes list" where
  "delivered s = concat (map delivers (threads s))"

lemma queue_change_flow: "queue_change xs ys \<Longrightarrow> xs @ queue_in xs ys = queue_out xs ys @ ys"
  by (auto simp: queue_change_def queue_in_def queue_out_def)

lemma rx_run_reachable: "rx_run K elems s0 s ins outs \<Longrightarrow> smp_reachable K s0 s"
  by (induction rule: rx_run.induct) (auto intro: smp_reachable.intros)

lemma rx_run_next:
  assumes "rx_run K elems s0 s ins outs"
  shows "rx_run K elems s0 (run_next i s)
     (ins @ queue_in (elems (rx_fifo (smp_dev s))) (elems (rx_fifo (smp_dev (run_next i s)))))
     (outs @ queue_out (elems (rx_fifo (smp_dev s))) (elems (rx_fifo (smp_dev (run_next i s)))))"
  using assms rx_run.step [OF assms smp_step.runs] by (simp add: run_next_def queue_in_def queue_out_def split: sections.split)

lemma rx_run_enter:
  "rx_run K elems s0 s ins outs \<Longrightarrow> call_ok c \<Longrightarrow> rx_run K elems s0 (s\<lparr>threads := threads s @ [call_sections K c]\<rparr>) ins outs"
  using rx_run.step [OF _ smp_step.enter, of K elems s0 s ins outs c] by (simp add: queue_in_def queue_out_def)

lemma rx_run_schedule:
  "rx_run K elems s0 s ins outs \<Longrightarrow> \<exists>ins outs. rx_run K elems s0 (fold run_next is s) ins outs"
proof (induction "is" arbitrary: s ins outs)
  case (Cons i "is")
  from Cons.IH [OF rx_run_next [OF Cons.prems]] show ?case by simp
qed auto

lemma delivers_returning: "(\<And>r. delivers (Return (f r) :: ('d, reply) sections) = []) \<Longrightarrow> delivers (returning p f :: ('d, reply) sections) = []"
  by (cases p) (simp_all add: returning_def)

lemma mset_concat_update:
  assumes "i < length ts" and "f (ts ! i) = []"
  shows "mset (concat (map f (ts[i := x]))) = mset (concat (map f ts)) + mset (f x)"
  using assms by (subst (2) id_take_nth_drop [OF assms(1)]) (simp add: upd_conv_take_nth_drop)

context driver
begin

text \<open>A thread that returns bytes to a reader returns those of the frame it takes from the queue in the same step.\<close>

definition takes :: "'q safety_copro_dev \<Rightarrow> 'q safety_copro_dev \<Rightarrow> ('q safety_copro_dev, reply) sections \<Rightarrow> bool" where
  "takes d d' k \<longleftrightarrow> (dinv d \<longrightarrow> delivers k = [] \<or>
     (\<exists>s. elems (rx_fifo d) = s # elems (rx_fifo d') \<and> delivers k = [slot_data s]))"

lemma takes_returning: "(\<And>r. delivers (Return (f r) :: ('q safety_copro_dev, reply) sections) = []) \<Longrightarrow> all_steps takes (returning p f)"
  by (induction p) (auto simp: returning_def takes_def delivers_returning [unfolded returning_def])

lemma pop_delivers:
  assumes "dinv d" and "safety_fifo_pop_frame K d = (n, s, d')" and "n \<noteq> 0"
  shows "\<exists>x. elems (rx_fifo d) = x # elems (rx_fifo d') \<and> take (unat n) (slot_data (the s)) = slot_data x"
proof -
  have "wf (rx_fifo d)" using assms(1) by (simp add: driver_inv_def)
  then show ?thesis
    by (rule pop_frame_cases) (use assms in \<open>auto simp: driver_inv_def rx_slot_ok_def Let_def\<close>)
qed

lemma takes_pop [simp]:
  "fst (safety_fifo_pop_frame K d) \<noteq> 0 \<Longrightarrow> takes d (snd (snd (safety_fifo_pop_frame K d)))
      (Return (R_read (Some (read_tail m ok (fst (safety_fifo_pop_frame K d)) (fst (snd (safety_fifo_pop_frame K d)))))))"
  by (cases "safety_fifo_pop_frame K d") (use pop_delivers [of d] in \<open>auto simp: takes_def read_tail_def\<close>)

lemma takes_nothing: "delivers k = [] \<Longrightarrow> takes d d' k"
  by (simp add: takes_def)

lemma takes_read:
  "all_steps takes (returning (read_sections K nb ls n ok) R_read) \<and> delivers (returning (read_sections K nb ls n ok) R_read) = []"
proof -
  have one: "all_steps takes (returning (read_try K n ok p) R_read) \<and> delivers (returning (read_try K n ok p) R_read) = []"
    if "all_steps takes (returning p R_read) \<and> delivers (returning p R_read) = []" for p
    using that by (auto simp: read_try_def returning_def pop_frame_sections_def andthen_locked split_beta intro!: takes_nothing)
  have "all_steps takes (returning (read_wait K n ok ls) R_read) \<and> delivers (returning (read_wait K n ok ls) R_read) = []"
  proof (induction ls)
    case (Cons l ls)
    then show ?case using one [OF Cons.IH] by (auto simp: returning_def andthen_locked intro!: takes_nothing)
  qed (simp add: returning_def)
  then show ?thesis unfolding read_sections_def by (intro one) (simp add: returning_def)
qed

end


context driver
begin

definition frames_inv :: "'q smp \<Rightarrow> safety_fifo_slot list \<Rightarrow> safety_fifo_slot list \<Rightarrow> bool" where
  "frames_inv s ins outs \<longleftrightarrow> smp_inv s \<and> (\<forall>p\<in>set (threads s). all_steps takes p)
     \<and> ins = outs @ elems (rx_fifo (smp_dev s)) \<and> mset (delivered s) \<subseteq># image_mset slot_data (mset outs)"

lemma call_takes: "all_steps takes (call_sections K c) \<and> delivers (call_sections K c) = []"
  by (cases c) (simp_all add: takes_returning takes_read delivers_returning)

text \<open>A step that only adds a thread which has delivered nothing.\<close>

lemma frames_inv_enter:
  assumes "frames_inv s ins outs" and "smp_inv s'" and "threads s' = threads s @ [p]" and "smp_dev s' = smp_dev s"
    and "all_steps takes p \<and> delivers p = []"
  shows "frames_inv s' ins outs"
  using assms by (auto simp: frames_inv_def delivered_def)

lemma frames_inv_runs:
  assumes "frames_inv s ins outs" and "smp_inv s'" and "i < length (threads s)" and "threads s ! i = Section g k"
    and "s' = s\<lparr>smp_sys := absorb (smp_sys s) (g (smp_dev s)), threads := (threads s)[i := k (smp_dev s)]\<rparr>"
  defines "q \<equiv> elems (rx_fifo (smp_dev s))" and "q' \<equiv> elems (rx_fifo (smp_dev s'))"
  shows "frames_inv s' (ins @ queue_in q q') (outs @ queue_out q q')"
proof -
  let ?d = "smp_dev s"
  have inv: "dinv ?d" and "Section g k \<in> set (threads s)"
    using assms(1,3,4) nth_mem [OF assms(3)] by (auto simp: frames_inv_def smp_inv_def)
  then have "good (Section g k)" "all_steps takes (Section g k)" using assms(1) unfolding frames_inv_def smp_inv_def by blast+
  then have step: "good_step dinv queues_change ?d (g ?d) (k ?d)" and tk: "takes ?d (g ?d) (k ?d)" and rest: "all_steps takes (k ?d)" by auto
  have d': "smp_dev s' = g ?d" using assms(5) by (simp add: absorb_def)
  have "queue_change q q'" using step inv unfolding q_def q'_def d' by (simp add: good_step_def queues_change_def)
  from queue_change_flow [OF this] have "ins @ queue_in q q' = (outs @ queue_out q q') @ q'"
    using assms(1) by (simp add: frames_inv_def q_def)
  moreover have "mset (delivers (k ?d)) \<subseteq># image_mset slot_data (mset (queue_out q q'))"
    using tk inv unfolding takes_def q_def q'_def d' by (auto simp: queue_out_def)
  moreover have "mset (delivered s') = mset (delivered s) + mset (delivers (k ?d))"
    using assms(5) mset_concat_update [OF assms(3), of delivers "k ?d"] assms(4) by (simp add: delivered_def)
  moreover have "\<forall>p\<in>set (threads s'). all_steps takes p"
    using assms(1,5) rest set_update_subset_insert [of "threads s"] by (auto simp: frames_inv_def)
  ultimately show ?thesis using assms(1,2) by (simp add: frames_inv_def q'_def subset_mset.add_mono)
qed

lemma rx_run_inv:
  assumes "rx_run K elems (smp_init s0) s ins outs" and "drv_init K elems wf s0"
  shows "frames_inv s ins outs"
  using assms(1)
proof induction
  case start
  then show ?case using smp_reachable_inv [OF smp_reachable.start assms(2)] by (simp add: frames_inv_def smp_init_def delivered_def)
next
  case (step s ins outs s')
  have inv: "smp_inv s'" using smp_step_inv [OF step.hyps(2)] step.IH by (simp add: frames_inv_def)
  from step.hyps(2) show ?case
  proof cases
    case (enter c)
    then show ?thesis using frames_inv_enter [OF step.IH inv _ _ call_takes [of c]] by (simp add: queue_in_def queue_out_def)
  next
    case (timer_fires e)
    then show ?thesis using frames_inv_enter [OF step.IH inv, of "returning (hb_timer_sections K e) R_timer"]
      by (simp add: queue_in_def queue_out_def takes_returning delivers_returning)
  next
    case (work_runs e)
    then show ?thesis using frames_inv_enter [OF step.IH inv, of "returning (recovery_work_sections K e) (\<lambda>_. R_work)"]
      by (simp add: queue_in_def queue_out_def takes_returning delivers_returning)
  next
    case (runs i g k)
    then show ?thesis using frames_inv_runs [OF step.IH inv runs(2,3,1)] by simp
  qed
qed

end

section \<open>Properties\<close>

text \<open>C13 (concurrent readers).  However the calls, watchdog expiries and recovery runs of several CPUs interleave, the
  frames accepted into the receive queue are those taken from it followed by those still waiting, in the order
  in which they were accepted; and the frames that finished readers got are among those taken, each
  with its multiplicity: no frame is handed to two readers.\<close>

theorem frames_read_once:
  assumes "kfifo K elems qwf" and "drv_init K elems qwf s0" and "rx_run K elems (smp_init s0) s ins outs"
  shows "ins = outs @ elems (rx_fifo (smp_dev s)) \<and> mset (delivered s) \<subseteq># image_mset slot_data (mset outs)"
  using driver.rx_run_inv [OF driver_kfifo [OF assms(1)] assms(3,2)] driver.frames_inv_def [OF driver_kfifo [OF assms(1)]] by blast

theorem frames_read_once_witness:
  "\<exists>s ins outs. let hb = wire_frame (safety_frame_init SAFETY_FRAME_HEARTBEAT 5 0 9) [];
       dev = ready_dev (2, [\<lparr>slot_len = 16, slot_data = hb\<rparr>]) (2, []) 2 1 350;
       s0 = \<lparr>sys_dev = dev, timer_armed = False, work_pending = False\<rparr>
   in rx_run bounded_list snd (smp_init s0) s ins outs
      \<and> threads s = [Return (R_read (Some (Inl EAGAIN))), Return (R_read (Some (Inr hb)))]
      \<and> ins = outs @ snd (rx_fifo (smp_dev s)) \<and> mset [hb] \<subseteq># image_mset slot_data (mset outs)"
proof -
  let ?hb = "wire_frame (safety_frame_init SAFETY_FRAME_HEARTBEAT 5 0 9) []"
  let ?slot = "\<lparr>slot_len = 16, slot_data = ?hb\<rparr>"
  let ?dev = "ready_dev (2, [?slot]) (2, []) 2 1 350 :: safety_fifo_slot blist safety_copro_dev"
  let ?sys = "\<lparr>sys_dev = ?dev, timer_armed = False, work_pending = False\<rparr>"
  have "rx_slot_ok ?slot" using rx_slot_ok_validates [of ?hb] by (simp add: header_ok_def)
  then have init: "drv_init bounded_list snd blist_wf ?sys"
    by (simp add: drv_init_def driver_inv_def ready_dev_def kzalloc_dev_def timeline_wf_def blist_wf_def bounded_list_def proto_const)
  let ?c = "Call_read True [] 272 True"
  let ?init = "smp_init ?sys"
  let ?one = "?init\<lparr>threads := threads ?init @ [call_sections bounded_list ?c]\<rparr>"
  let ?two = "?one\<lparr>threads := threads ?one @ [call_sections bounded_list ?c]\<rparr>"
  have "rx_run bounded_list snd ?init ?two (snd (rx_fifo (smp_dev ?init))) []"
    by (intro rx_run_enter rx_run.start) simp_all
  from rx_run_schedule [OF this] obtain ins outs where run: "rx_run bounded_list snd ?init (fold run_next [1, 0] ?two) ins outs" by blast
  have ts: "threads (fold run_next [1, 0] ?two) = [Return (R_read (Some (Inl EAGAIN))), Return (R_read (Some (Inr ?hb)))]"
    by (simp add: run_next_def smp_init_def returning_def read_sections_def read_try_def pop_frame_sections_def andthen_locked absorb_def
      ready_dev_def kzalloc_dev_def safety_fifo_pop_frame_def bounded_list_def read_tail_def)
  from frames_read_once [OF kfifo_bounded_list init run] ts show ?thesis using run by (auto simp: delivered_def Let_def)
qed

end
