(* ===== verification/Ebpf.thy ===== *)
theory Ebpf
  imports Driver_Timer
begin

text \<open>
  The tracing programs of \<open>ebpf/safety_trace.bpf.c\<close>: the log2 histogram, the matching of system call
  entries and exits and of wake-ups and switches, the per-CPU counters, and the timeline of faults and
  recoveries.  The BPF maps are the fields of one record; a per-CPU array is, per CPU, the list of its
  values.  The helpers the programs call on the kernel are arguments: the current task (its thread id
  and name, or the failure of \<open>bpf_get_current_comm\<close>), the CPU the program runs on, the clock, and
  whether an insertion into a full hash map or a reservation in the ring buffer succeeds.
\<close>

section \<open>Definitions\<close>

named_theorems bpf_const "values of the tracing constants"

definition COMM_PREFIX :: string where [bpf_const]: "COMM_PREFIX = ''safety-supervi''"
definition COMM_PREFIX_LEN :: nat where [bpf_const]: "COMM_PREFIX_LEN = 14"
definition MAX_SLOTS :: nat where [bpf_const]: "MAX_SLOTS = 64"

datatype syscall_kind = SC_READ | SC_WRITE | SC_IOCTL

fun sc_index :: "syscall_kind \<Rightarrow> nat" where
  "sc_index SC_READ = 0"
| "sc_index SC_WRITE = 1"
| "sc_index SC_IOCTL = 2"

definition SC_MAX :: nat where [bpf_const]: "SC_MAX = 3"

record hist =
  slots :: "u64 list"
  hcount :: u64
  hsum :: u64
  hmin :: u64
  hmax :: u64

definition TL_TIMEOUT :: u32 where [bpf_const]: "TL_TIMEOUT = 0"
definition TL_RECOVERY :: u32 where [bpf_const]: "TL_RECOVERY = 1"
definition TL_HEARTBEAT_RESTORED :: u32 where [bpf_const]: "TL_HEARTBEAT_RESTORED = 2"

record timeline_event =
  te_ts :: u64
  te_kind :: u32
  te_aux :: u32

datatype tp_counter_idx = CNT_FRAME_RECEIVED | CNT_FRAME_DROPPED | CNT_TIMEOUT_DETECTED
  | CNT_RECOVERY_QUEUED | CNT_POLL_WAKEUP

fun cnt_index :: "tp_counter_idx \<Rightarrow> nat" where
  "cnt_index CNT_FRAME_RECEIVED = 0"
| "cnt_index CNT_FRAME_DROPPED = 1"
| "cnt_index CNT_TIMEOUT_DETECTED = 2"
| "cnt_index CNT_RECOVERY_QUEUED = 3"
| "cnt_index CNT_POLL_WAKEUP = 4"

definition CNT_MAX :: nat where [bpf_const]: "CNT_MAX = 5"

text \<open>The maps.  \<open>timeline_rb\<close> holds the submitted events the user program has not consumed yet.\<close>

record bpf_maps =
  sys_start :: "u32 \<rightharpoonup> u64"
  wakeup_ts :: "u32 \<rightharpoonup> u64"
  syscall_lat :: "hist list list"
  poll_lat :: "hist list list"
  sched_lat :: "hist list list"
  tp_counters :: "u64 list list"
  last_frame_ts :: u64
  recovery_pending :: u32
  timeline_rb :: "timeline_event list"

record bpf_env =
  bpf_ktime_get_ns :: u64
  smp_processor_id :: nat
  current_tid :: u32
  current_comm :: "string option"
  map_has_room :: bool
  ringbuf_has_room :: bool

subsection \<open>Helpers\<close>

definition log2_u64 :: "u64 \<Rightarrow> u32" where
  "log2_u64 v =
     (let r = 0;
          (v, r) = (if push_bit 32 1 \<le> v then (drop_bit 32 v, r + 32) else (v, r));
          (v, r) = (if push_bit 16 1 \<le> v then (drop_bit 16 v, r + 16) else (v, r));
          (v, r) = (if push_bit 8 1 \<le> v then (drop_bit 8 v, r + 8) else (v, r));
          (v, r) = (if push_bit 4 1 \<le> v then (drop_bit 4 v, r + 4) else (v, r));
          (v, r) = (if push_bit 2 1 \<le> v then (drop_bit 2 v, r + 2) else (v, r));
          r = (if push_bit 1 1 \<le> v then r + 1 else r)
      in r)"

definition hist_record :: "u64 \<Rightarrow> hist \<Rightarrow> hist" where
  "hist_record delta h =
     (let slot = unat (log2_u64 delta);
          slot = (if slot \<ge> MAX_SLOTS then MAX_SLOTS - 1 else slot);
          h = h\<lparr>slots := (slots h)[slot := slots h ! slot + 1]\<rparr>;
          h = h\<lparr>hcount := hcount h + 1\<rparr>;
          h = h\<lparr>hsum := hsum h + delta\<rparr>;
          h = (if hcount h = 1 \<or> delta < hmin h then h\<lparr>hmin := delta\<rparr> else h)
      in if delta > hmax h then h\<lparr>hmax := delta\<rparr> else h)"

text \<open>The comparison loop of \<open>comm_is_supervisor\<close> and \<open>next_comm_is_supervisor\<close>.  A task name is an
  array of 16 bytes, the string filled up with zero bytes.\<close>

definition comm_at :: "string \<Rightarrow> nat \<Rightarrow> char" where
  "comm_at comm i = (if i < length comm then comm ! i else CHR 0x00)"

definition comm_matches :: "string \<Rightarrow> bool" where
  "comm_matches comm = list_all (\<lambda>i. comm_at comm i = COMM_PREFIX ! i) [0..<COMM_PREFIX_LEN]"

definition comm_is_supervisor :: "bpf_env \<Rightarrow> bool" where
  "comm_is_supervisor e = (case current_comm e of None \<Rightarrow> False | Some comm \<Rightarrow> comm_matches comm)"

text \<open>\<open>bpf_map_update_elem\<close> with \<open>BPF_ANY\<close> on a hash map: a present key is overwritten, a new one
  needs room.\<close>

definition hash_update :: "bool \<Rightarrow> u32 \<Rightarrow> u64 \<Rightarrow> (u32 \<rightharpoonup> u64) \<Rightarrow> (u32 \<rightharpoonup> u64)" where
  "hash_update room k v mp = (if k \<in> dom mp \<or> room then mp(k \<mapsto> v) else mp)"

text \<open>A lookup in a per-CPU array and an update of the value it points to: index \<open>i\<close> on CPU \<open>c\<close>; a
  lookup out of range gives a null pointer and changes nothing.\<close>

definition percpu_upd :: "nat \<Rightarrow> nat \<Rightarrow> ('a \<Rightarrow> 'a) \<Rightarrow> 'a list list \<Rightarrow> 'a list list" where
  "percpu_upd c i f mp =
     (if c < length mp \<and> i < length (mp ! c) then mp[c := (mp ! c)[i := f (mp ! c ! i)]] else mp)"

text \<open>\<open>bpf_ringbuf_reserve\<close>, filling in and \<open>bpf_ringbuf_submit\<close>.\<close>

definition ringbuf_submit :: "bpf_env \<Rightarrow> timeline_event \<Rightarrow> bpf_maps \<Rightarrow> bpf_maps" where
  "ringbuf_submit e ev m = (if ringbuf_has_room e then m\<lparr>timeline_rb := timeline_rb m @ [ev]\<rparr> else m)"

subsection \<open>System calls\<close>

definition sys_enter_record :: "bpf_env \<Rightarrow> bpf_maps \<Rightarrow> bpf_maps" where
  "sys_enter_record e m =
     (if \<not> comm_is_supervisor e then m
      else m\<lparr>sys_start := hash_update (map_has_room e) (current_tid e) (bpf_ktime_get_ns e) (sys_start m)\<rparr>)"

definition sys_exit_record :: "bpf_env \<Rightarrow> syscall_kind \<Rightarrow> bpf_maps \<Rightarrow> bpf_maps" where
  "sys_exit_record e kind m = (case sys_start m (current_tid e) of
       None \<Rightarrow> m
     | Some ts \<Rightarrow>
         let delta = bpf_ktime_get_ns e - ts;
             m = m\<lparr>sys_start := (sys_start m)(current_tid e := None)\<rparr>
         in m\<lparr>syscall_lat := percpu_upd (smp_processor_id e) (sc_index kind) (hist_record delta) (syscall_lat m)\<rparr>)"

definition handle_sys_enter_read :: "bpf_env \<Rightarrow> bpf_maps \<Rightarrow> bpf_maps" where
  "handle_sys_enter_read e m = sys_enter_record e m"

definition handle_sys_exit_read :: "bpf_env \<Rightarrow> bpf_maps \<Rightarrow> bpf_maps" where
  "handle_sys_exit_read e m = sys_exit_record e SC_READ m"

definition handle_sys_enter_write :: "bpf_env \<Rightarrow> bpf_maps \<Rightarrow> bpf_maps" where
  "handle_sys_enter_write e m = sys_enter_record e m"

definition handle_sys_exit_write :: "bpf_env \<Rightarrow> bpf_maps \<Rightarrow> bpf_maps" where
  "handle_sys_exit_write e m = sys_exit_record e SC_WRITE m"

definition handle_sys_enter_ioctl :: "bpf_env \<Rightarrow> bpf_maps \<Rightarrow> bpf_maps" where
  "handle_sys_enter_ioctl e m = sys_enter_record e m"

definition handle_sys_exit_ioctl :: "bpf_env \<Rightarrow> bpf_maps \<Rightarrow> bpf_maps" where
  "handle_sys_exit_ioctl e m = sys_exit_record e SC_IOCTL m"

subsection \<open>Scheduler\<close>

definition handle_sched_wakeup :: "bpf_env \<Rightarrow> u32 \<Rightarrow> bpf_maps \<Rightarrow> bpf_maps" where
  "handle_sched_wakeup e pid m =
     m\<lparr>wakeup_ts := hash_update (map_has_room e) pid (bpf_ktime_get_ns e) (wakeup_ts m)\<rparr>"

definition handle_sched_wakeup_new :: "bpf_env \<Rightarrow> u32 \<Rightarrow> bpf_maps \<Rightarrow> bpf_maps" where
  "handle_sched_wakeup_new e pid m =
     m\<lparr>wakeup_ts := hash_update (map_has_room e) pid (bpf_ktime_get_ns e) (wakeup_ts m)\<rparr>"

definition next_comm_is_supervisor :: "string \<Rightarrow> bool" where
  "next_comm_is_supervisor next_comm = comm_matches next_comm"

definition handle_sched_switch :: "bpf_env \<Rightarrow> u32 \<Rightarrow> string \<Rightarrow> bpf_maps \<Rightarrow> bpf_maps" where
  "handle_sched_switch e next_pid next_comm m = (case wakeup_ts m next_pid of
       None \<Rightarrow> m
     | Some ts \<Rightarrow>
         let m = (if next_comm_is_supervisor next_comm
                  then let delta = bpf_ktime_get_ns e - ts
                       in m\<lparr>sched_lat := percpu_upd (smp_processor_id e) 0 (hist_record delta) (sched_lat m)\<rparr>
                  else m)
         in m\<lparr>wakeup_ts := (wakeup_ts m)(next_pid := None)\<rparr>)"

subsection \<open>The driver's tracepoints\<close>

definition counter_inc :: "bpf_env \<Rightarrow> tp_counter_idx \<Rightarrow> bpf_maps \<Rightarrow> bpf_maps" where
  "counter_inc e idx m =
     m\<lparr>tp_counters := percpu_upd (smp_processor_id e) (cnt_index idx) (\<lambda>c. c + 1) (tp_counters m)\<rparr>"

definition handle_safety_frame_received :: "bpf_env \<Rightarrow> u16 \<Rightarrow> bpf_maps \<Rightarrow> bpf_maps" where
  "handle_safety_frame_received e seq m =
     (let m = counter_inc e CNT_FRAME_RECEIVED m;
          now = bpf_ktime_get_ns e;
          m = m\<lparr>last_frame_ts := now\<rparr>
      in if recovery_pending m \<noteq> 0
         then let m = m\<lparr>recovery_pending := 0\<rparr>
              in ringbuf_submit e \<lparr>te_ts = now, te_kind = TL_HEARTBEAT_RESTORED, te_aux = ucast seq\<rparr> m
         else m)"

definition handle_safety_frame_dropped :: "bpf_env \<Rightarrow> bpf_maps \<Rightarrow> bpf_maps" where
  "handle_safety_frame_dropped e m = counter_inc e CNT_FRAME_DROPPED m"

definition handle_safety_poll_wakeup :: "bpf_env \<Rightarrow> bpf_maps \<Rightarrow> bpf_maps" where
  "handle_safety_poll_wakeup e m =
     (let m = counter_inc e CNT_POLL_WAKEUP m
      in if last_frame_ts m = 0 then m
         else let delta = bpf_ktime_get_ns e - last_frame_ts m
              in m\<lparr>poll_lat := percpu_upd (smp_processor_id e) 0 (hist_record delta) (poll_lat m)\<rparr>)"

definition handle_safety_timeout_detected :: "bpf_env \<Rightarrow> u32 \<Rightarrow> bpf_maps \<Rightarrow> bpf_maps" where
  "handle_safety_timeout_detected e count m =
     (let m = counter_inc e CNT_TIMEOUT_DETECTED m
      in ringbuf_submit e \<lparr>te_ts = bpf_ktime_get_ns e, te_kind = TL_TIMEOUT, te_aux = count\<rparr> m)"

definition handle_safety_recovery_queued :: "bpf_env \<Rightarrow> u32 \<Rightarrow> bpf_maps \<Rightarrow> bpf_maps" where
  "handle_safety_recovery_queued e count m =
     (let m = counter_inc e CNT_RECOVERY_QUEUED m;
          m = m\<lparr>recovery_pending := 1\<rparr>
      in ringbuf_submit e \<lparr>te_ts = bpf_ktime_get_ns e, te_kind = TL_RECOVERY, te_aux = count\<rparr> m)"

text \<open>The program attached to each tracepoint of the driver, and the programs run by the tracepoints
  of a sequence of kernel calls, each with its own environment.\<close>

fun on_trace :: "bpf_env \<Rightarrow> trace_event \<Rightarrow> bpf_maps \<Rightarrow> bpf_maps" where
  "on_trace e (safety_frame_received seq t qlen) m = handle_safety_frame_received e seq m"
| "on_trace e (safety_frame_dropped seq t) m = handle_safety_frame_dropped e m"
| "on_trace e (safety_timeout_detected ms cnt) m = handle_safety_timeout_detected e cnt m"
| "on_trace e (safety_recovery_queued cnt) m = handle_safety_recovery_queued e cnt m"
| "on_trace e (safety_poll_wakeup evs) m = handle_safety_poll_wakeup e m"

fun on_kcalls :: "(nat \<Rightarrow> bpf_env) \<Rightarrow> kcall list \<Rightarrow> bpf_maps \<Rightarrow> bpf_maps" where
  "on_kcalls es [] m = m"
| "on_kcalls es (Trace t # cs) m = on_kcalls (\<lambda>i. es (Suc i)) cs (on_trace (es 0) t m)"
| "on_kcalls es (_ # cs) m = on_kcalls es cs m"

text \<open>All programs together: what may fire, and the program attached to it.\<close>

datatype bpf_event = Sys_enter syscall_kind | Sys_exit syscall_kind | Sched_wakeup u32 | Sched_wakeup_new u32
  | Sched_switch u32 string | Driver_trace trace_event

fun bpf_prog :: "bpf_env \<Rightarrow> bpf_event \<Rightarrow> bpf_maps \<Rightarrow> bpf_maps" where
  "bpf_prog e (Sys_enter SC_READ) m = handle_sys_enter_read e m"
| "bpf_prog e (Sys_enter SC_WRITE) m = handle_sys_enter_write e m"
| "bpf_prog e (Sys_enter SC_IOCTL) m = handle_sys_enter_ioctl e m"
| "bpf_prog e (Sys_exit SC_READ) m = handle_sys_exit_read e m"
| "bpf_prog e (Sys_exit SC_WRITE) m = handle_sys_exit_write e m"
| "bpf_prog e (Sys_exit SC_IOCTL) m = handle_sys_exit_ioctl e m"
| "bpf_prog e (Sched_wakeup pid) m = handle_sched_wakeup e pid m"
| "bpf_prog e (Sched_wakeup_new pid) m = handle_sched_wakeup_new e pid m"
| "bpf_prog e (Sched_switch pid comm) m = handle_sched_switch e pid comm m"
| "bpf_prog e (Driver_trace t) m = on_trace e t m"

fun bpf_run :: "(bpf_env \<times> bpf_event) list \<Rightarrow> bpf_maps \<Rightarrow> bpf_maps" where
  "bpf_run [] m = m"
| "bpf_run ((e, ev) # evs) m = bpf_run evs (bpf_prog e ev m)"

text \<open>The maps when the programs are loaded, on \<open>ncpu\<close> CPUs, and the sizes they keep.\<close>

definition hist_zero :: hist where
  "hist_zero = \<lparr>slots = replicate MAX_SLOTS 0, hcount = 0, hsum = 0, hmin = 0, hmax = 0\<rparr>"

definition bpf_maps_init :: "nat \<Rightarrow> bpf_maps" where
  "bpf_maps_init ncpu = \<lparr>sys_start = Map.empty, wakeup_ts = Map.empty,
     syscall_lat = replicate ncpu (replicate SC_MAX hist_zero), poll_lat = replicate ncpu [hist_zero],
     sched_lat = replicate ncpu [hist_zero], tp_counters = replicate ncpu (replicate CNT_MAX 0),
     last_frame_ts = 0, recovery_pending = 0, timeline_rb = []\<rparr>"

definition percpu_shape :: "nat \<Rightarrow> nat \<Rightarrow> 'a list list \<Rightarrow> bool" where
  "percpu_shape ncpu n mp \<longleftrightarrow> length mp = ncpu \<and> (\<forall>row \<in> set mp. length row = n)"

definition bpf_wf :: "nat \<Rightarrow> bpf_maps \<Rightarrow> bool" where
  "bpf_wf ncpu m \<longleftrightarrow> percpu_shape ncpu SC_MAX (syscall_lat m) \<and> percpu_shape ncpu 1 (poll_lat m)
     \<and> percpu_shape ncpu 1 (sched_lat m) \<and> percpu_shape ncpu CNT_MAX (tp_counters m)"

text \<open>The total of a counter over all CPUs.\<close>

definition counter_total :: "tp_counter_idx \<Rightarrow> bpf_maps \<Rightarrow> u64" where
  "counter_total idx m = sum_list (map (\<lambda>row. row ! cnt_index idx) (tp_counters m))"

text \<open>The counter a tracepoint belongs to.\<close>

fun counter_of :: "bpf_event \<Rightarrow> tp_counter_idx option" where
  "counter_of (Driver_trace (safety_frame_received _ _ _)) = Some CNT_FRAME_RECEIVED"
| "counter_of (Driver_trace (safety_frame_dropped _ _)) = Some CNT_FRAME_DROPPED"
| "counter_of (Driver_trace (safety_timeout_detected _ _)) = Some CNT_TIMEOUT_DETECTED"
| "counter_of (Driver_trace (safety_recovery_queued _)) = Some CNT_RECOVERY_QUEUED"
| "counter_of (Driver_trace (safety_poll_wakeup _)) = Some CNT_POLL_WAKEUP"
| "counter_of _ = None"

text \<open>The events of one thread's system calls.\<close>

definition syscall_of :: "u32 \<Rightarrow> bpf_env \<times> bpf_event \<Rightarrow> bool" where
  "syscall_of tid = (\<lambda>(e, ev). current_tid e = tid \<and> (case ev of Sys_enter _ \<Rightarrow> True | Sys_exit _ \<Rightarrow> True | _ \<Rightarrow> False))"

section \<open>Histogram\<close>

text \<open>The histogram of a list of samples, and what each field of it means.\<close>

definition hist_of :: "u64 list \<Rightarrow> hist" where
  "hist_of ds = fold hist_record ds hist_zero"

definition in_slot :: "nat \<Rightarrow> u64 \<Rightarrow> bool" where
  "in_slot s d \<longleftrightarrow> (if s = 0 then unat d < 2 else 2 ^ s \<le> unat d \<and> unat d < 2 ^ Suc s)"

definition log2_inv :: "u64 \<Rightarrow> nat \<Rightarrow> nat \<Rightarrow> u64 \<times> u32 \<Rightarrow> bool" where
  "log2_inv v0 k b = (\<lambda>(v, r). unat v < 2 ^ k \<and> unat r \<le> b \<and> (unat v = 0 \<longrightarrow> r = 0) \<and>
     unat v * 2 ^ unat r \<le> unat v0 \<and> unat v0 < (unat v + 1) * 2 ^ unat r)"

lemma div_pow_bounds:
  fixes a k r v0 :: nat
  assumes "a * 2 ^ r \<le> v0" and "v0 < (a + 1) * 2 ^ r"
  shows "a div 2 ^ k * 2 ^ (r + k) \<le> v0" and "v0 < (a div 2 ^ k + 1) * 2 ^ (r + k)"
proof -
  have "a div 2 ^ k * 2 ^ k * 2 ^ r \<le> a * 2 ^ r" by simp
  then have "a div 2 ^ k * 2 ^ k * 2 ^ r \<le> v0" using assms(1) by (rule le_trans)
  then show "a div 2 ^ k * 2 ^ (r + k) \<le> v0"
    by (simp add: power_add mult.assoc mult.commute [of "2 ^ r"])
  have "a + 1 \<le> (a div 2 ^ k + 1) * 2 ^ k"
    using div_mult_mod_eq [of a "2 ^ k"] mod_less_divisor [of "2 ^ k" a, OF zero_less_power]
    unfolding distrib_right by linarith
  then have "(a + 1) * 2 ^ r \<le> (a div 2 ^ k + 1) * 2 ^ k * 2 ^ r" by (rule mult_le_mono1)
  with assms(2) have "v0 < (a div 2 ^ k + 1) * 2 ^ k * 2 ^ r" by (rule less_le_trans)
  then show "v0 < (a div 2 ^ k + 1) * 2 ^ (r + k)"
    by (simp only: power_add mult.assoc mult.commute [of "2 ^ r"])
qed

lemma unat_pow_2: "k < 64 \<Longrightarrow> unat (2 ^ k :: u64) = 2 ^ k"
proof -
  assume "k < 64"
  then have "(2 :: nat) ^ k < 2 ^ 64" by (rule power_strict_increasing) simp
  moreover have "(2 ^ k :: u64) = of_nat (2 ^ k)" by simp
  ultimately show ?thesis by (simp only: unat_of_nat) simp
qed

lemma log2_stage:
  assumes "log2_inv v0 (k + k) b (v, r)" and "b + k < 2 ^ 32" and "k < 64"
  shows "log2_inv v0 k (b + k) (if push_bit k 1 \<le> v then (drop_bit k v, r + of_nat k) else (v, r))"
proof (cases "push_bit k 1 \<le> v")
  case True
  have r: "unat (r + of_nat k) = unat r + k"
    using assms by (simp add: log2_inv_def unat_word_ariths unat_of_nat)
  have "unat v div 2 ^ k < 2 ^ k"
    using assms(1) by (simp add: log2_inv_def less_mult_imp_div_less power_add)
  moreover have "unat (drop_bit k v) = unat v div 2 ^ k" by (subst unat_drop_bit_eq) (rule drop_bit_eq_div)
  moreover from True have "2 ^ k \<le> unat v" using assms(3) by (simp add: word_le_nat_alt unat_pow_2)
  then have "0 < unat v div 2 ^ k" by (simp add: div_greater_zero_iff)
  ultimately show ?thesis
    using True assms div_pow_bounds [of "unat v" "unat r" "unat v0" k]
    by (simp add: log2_inv_def r del: unat_eq_zero unsigned_eq_0_iff)
next
  case False
  then have "unat v < 2 ^ k" using assms(3) by (simp add: word_le_nat_alt unat_pow_2)
  with False assms(1) show ?thesis by (simp add: log2_inv_def)
qed

lemma log2_in_slot: "unat (log2_u64 v) < 64 \<and> in_slot (unat (log2_u64 v)) v"
proof -
  have i0: "log2_inv v 64 0 (v, 0)" using unsigned_less [of v] by (simp add: log2_inv_def)
  obtain v1 r1 where e1: "(if push_bit 32 1 \<le> v then (drop_bit 32 v, 0 + 32) else (v, 0)) = (v1, r1 :: u32)"
    by (rule prod.exhaust)
  have i1: "log2_inv v 32 32 (v1, r1)"
    using log2_stage [of v 32 0 v 0] i0 by (simp only: of_nat_numeral e1) simp
  obtain v2 r2 where e2: "(if push_bit 16 1 \<le> v1 then (drop_bit 16 v1, r1 + 16) else (v1, r1)) = (v2, r2 :: u32)"
    by (rule prod.exhaust)
  have i2: "log2_inv v 16 48 (v2, r2)"
    using log2_stage [of v 16 32 v1 r1] i1 by (simp only: of_nat_numeral e2) simp
  obtain v3 r3 where e3: "(if push_bit 8 1 \<le> v2 then (drop_bit 8 v2, r2 + 8) else (v2, r2)) = (v3, r3 :: u32)"
    by (rule prod.exhaust)
  have i3: "log2_inv v 8 56 (v3, r3)"
    using log2_stage [of v 8 48 v2 r2] i2 by (simp only: of_nat_numeral e3) simp
  obtain v4 r4 where e4: "(if push_bit 4 1 \<le> v3 then (drop_bit 4 v3, r3 + 4) else (v3, r3)) = (v4, r4 :: u32)"
    by (rule prod.exhaust)
  have i4: "log2_inv v 4 60 (v4, r4)"
    using log2_stage [of v 4 56 v3 r3] i3 by (simp only: of_nat_numeral e4) simp
  obtain v5 r5 where e5: "(if push_bit 2 1 \<le> v4 then (drop_bit 2 v4, r4 + 2) else (v4, r4)) = (v5, r5 :: u32)"
    by (rule prod.exhaust)
  have i5: "log2_inv v 2 62 (v5, r5)"
    using log2_stage [of v 2 60 v4 r4] i4 by (simp only: of_nat_numeral e5) simp
  have "log2_inv v (1 + 1) 62 (v5, r5)" using i5 by (simp only: one_add_one)
  from log2_stage [OF this]
  have i6: "log2_inv v 1 63 (if 2 \<le> v5 then (drop_bit 1 v5, r5 + 1) else (v5, r5))"
    by (simp add: of_nat_1 split: if_splits)
  have l: "log2_u64 v = (if 2 \<le> v5 then r5 + 1 else r5)"
    by (simp only: log2_u64_def Let_def e1 e2 e3 e4 e5 prod.case) simp
  obtain x r where xr: "(if 2 \<le> v5 then (drop_bit 1 v5, r5 + 1) else (v5, r5)) = (x, r)" by (rule prod.exhaust)
  with l have r: "log2_u64 v = r" by (simp split: if_splits)
  from i6 xr have x: "log2_inv v 1 63 (x, r)" by simp
  then have "unat x = 0 \<or> unat x = 1" by (auto simp: log2_inv_def)
  then show ?thesis using x r by (auto simp: log2_inv_def in_slot_def)
qed

lemma in_slot_unique: "in_slot s d \<Longrightarrow> in_slot t d \<Longrightarrow> s = t"
proof (induction s t rule: linorder_wlog)
  case (le s t)
  show ?case
  proof (rule ccontr)
    assume "s \<noteq> t"
    with le(1) have "Suc s \<le> t" by simp
    then have "(2 :: nat) ^ Suc s \<le> 2 ^ t" by (rule power_increasing) simp
    with le \<open>Suc s \<le> t\<close> show False by (auto simp: in_slot_def split: if_splits)
  qed
qed auto

lemma log2_eq_iff: "s < 64 \<Longrightarrow> unat (log2_u64 d) = s \<longleftrightarrow> in_slot s d"
  using log2_in_slot [of d] by (auto dest: in_slot_unique)

text \<open>A histogram describes a list of samples.\<close>

definition hist_describes :: "hist \<Rightarrow> u64 list \<Rightarrow> bool" where
  "hist_describes h ds \<longleftrightarrow> length (slots h) = MAX_SLOTS
     \<and> (\<forall>s < MAX_SLOTS. slots h ! s = of_nat (length (filter (in_slot s) ds)))
     \<and> hcount h = of_nat (length ds) \<and> hsum h = sum_list ds
     \<and> hmin h = (if ds = [] then 0 else Min (set ds)) \<and> hmax h = (if ds = [] then 0 else Max (set ds))"

lemma hist_zero_describes: "hist_describes hist_zero []"
  by (simp add: hist_describes_def hist_zero_def)

lemma of_nat_eq_0_iff_u64: "n < 2 ^ 64 \<Longrightarrow> (of_nat n :: u64) = 0 \<longleftrightarrow> n = 0"
  by (simp add: word_unat_eq_iff unat_of_nat)

lemma count_one_iff: "Suc n < 2 ^ 64 \<Longrightarrow> (of_nat n + 1 :: u64) = 1 \<longleftrightarrow> n = 0"
  by (metis Suc_lessD add_cancel_left_left of_nat_0 of_nat_eq_0_iff_u64)

lemma hist_record_fields:
  "slots (hist_record d h) = (let s = unat (log2_u64 d) in (slots h)[s := slots h ! s + 1])"
  "hcount (hist_record d h) = hcount h + 1"
  "hsum (hist_record d h) = hsum h + d"
  "hmin (hist_record d h) = (if hcount h + 1 = 1 \<or> d < hmin h then d else hmin h)"
  "hmax (hist_record d h) = (if hmax h < d then d else hmax h)"
  using log2_in_slot [of d] by (simp_all add: hist_record_def Let_def MAX_SLOTS_def)

lemma hist_record_describes:
  assumes "hist_describes h ds" and "Suc (length ds) < 2 ^ 64"
  shows "hist_describes (hist_record d h) (ds @ [d])"
proof -
  have "slots (hist_record d h) ! s = of_nat (length (filter (in_slot s) (ds @ [d])))" if "s < MAX_SLOTS" for s
    using assms(1) that log2_in_slot [of d] log2_eq_iff [of s d]
    by (auto simp: hist_describes_def hist_record_fields Let_def MAX_SLOTS_def nth_list_update)
  moreover have "hmin (hist_record d h) = Min (set (ds @ [d]))"
    using assms count_one_iff [of "length ds"]
    by (cases "ds = []") (simp_all add: hist_describes_def hist_record_fields min_def less_imp_le not_less
        del: Min_gr_iff Min_ge_iff Min_le_iff Min_less_iff)
  moreover have "hmax (hist_record d h) = Max (set (ds @ [d]))"
    using assms word_gt_0 [of d]
    by (cases "ds = []") (auto simp: hist_describes_def hist_record_fields max_def not_less less_imp_le
        simp del: Max_less_iff Max_le_iff Max_ge_iff Max_gr_iff)
  ultimately show ?thesis
    using assms by (simp add: hist_describes_def hist_record_fields Let_def)
qed

lemma hist_of_describes: "length ds < 2 ^ 64 \<Longrightarrow> hist_describes (hist_of ds) ds"
proof (induction ds rule: rev_induct)
  case Nil
  show ?case using hist_zero_describes by (simp add: hist_of_def)
next
  case (snoc d ds)
  then show ?case using hist_record_describes [of "hist_of ds" ds d] by (simp add: hist_of_def)
qed

lemma sum_slots: "(\<Sum>s<64. length (filter (in_slot s) ds)) = length ds"
proof (induction ds)
  case (Cons d ds)
  have "(\<Sum>s<64. length (filter (in_slot s) (d # ds)))
      = (\<Sum>s<64. (if s = unat (log2_u64 d) then 1 else 0) + length (filter (in_slot s) ds))"
    using log2_eq_iff [of _ d] by (intro sum.cong) auto
  also have "\<dots> = Suc (length ds)"
    using Cons log2_in_slot [of d] by (simp add: sum.distrib)
  finally show ?case by simp
qed simp

section \<open>Maps\<close>

lemma comm_matches_prefix: "comm_matches comm \<longleftrightarrow> take COMM_PREFIX_LEN comm = COMM_PREFIX"
proof
  assume m: "comm_matches comm"
  have c: "comm_at comm i = COMM_PREFIX ! i" if "i < 14" for i
    using m that by (simp add: comm_matches_def list_all_iff COMM_PREFIX_LEN_def)
  have "14 \<le> length comm"
    using c [of 13] by (simp add: comm_at_def COMM_PREFIX_def split: if_splits)
  then show "take COMM_PREFIX_LEN comm = COMM_PREFIX"
    using c by (intro nth_equalityI) (auto simp: comm_at_def bpf_const)
next
  assume t: "take COMM_PREFIX_LEN comm = COMM_PREFIX"
  then have "length (take COMM_PREFIX_LEN comm) = 14" by (simp add: bpf_const)
  then show "comm_matches comm"
    unfolding comm_matches_def t [symmetric] by (auto simp: list_all_iff comm_at_def COMM_PREFIX_LEN_def min_def split: if_splits)
qed

lemma percpu_upd_shape [simp]: "percpu_shape ncpu n (percpu_upd c i f mp) = percpu_shape ncpu n mp"
proof -
  have "length (percpu_upd c i f mp) = length mp"
    and "\<And>k. k < length mp \<Longrightarrow> length (percpu_upd c i f mp ! k) = length (mp ! k)"
    by (auto simp: percpu_upd_def nth_list_update)
  then show ?thesis by (simp add: percpu_shape_def all_set_conv_all_nth)
qed

lemma percpu_upd_same:
  "percpu_shape ncpu n mp \<Longrightarrow> c < ncpu \<Longrightarrow> i < n \<Longrightarrow> percpu_upd c i f mp ! c ! i = f (mp ! c ! i)"
  by (simp add: percpu_upd_def percpu_shape_def)

lemma percpu_upd_other: "c \<noteq> c' \<or> i \<noteq> i' \<Longrightarrow> percpu_upd c i f mp ! c' ! i' = mp ! c' ! i'"
  by (cases "c = c'") (auto simp: percpu_upd_def)

lemma bpf_const_index [simp]: "cnt_index idx < CNT_MAX" "sc_index k < SC_MAX"
  by (cases idx, simp_all add: bpf_const) (cases k, simp_all)

lemmas bpf_handlers = handle_sys_enter_read_def handle_sys_enter_write_def handle_sys_enter_ioctl_def
  handle_sys_exit_read_def handle_sys_exit_write_def handle_sys_exit_ioctl_def handle_sched_wakeup_def
  handle_sched_wakeup_new_def handle_sched_switch_def handle_safety_frame_received_def
  handle_safety_frame_dropped_def handle_safety_poll_wakeup_def handle_safety_timeout_detected_def
  handle_safety_recovery_queued_def

lemmas bpf_helpers = sys_enter_record_def sys_exit_record_def counter_inc_def ringbuf_submit_def

lemma bpf_prog_wf [simp]: "bpf_wf ncpu (bpf_prog e ev m) = bpf_wf ncpu m"
  by (induction e ev m rule: bpf_prog.induct, case_tac [10] t)
    (auto simp: bpf_handlers bpf_helpers bpf_wf_def Let_def split: option.split)

lemma bpf_run_wf [simp]: "bpf_wf ncpu (bpf_run evs m) = bpf_wf ncpu m"
  by (induction evs m rule: bpf_run.induct) simp_all

lemma bpf_run_append [simp]: "bpf_run (xs @ ys) m = bpf_run ys (bpf_run xs m)"
  by (induction xs m rule: bpf_run.induct) simp_all

lemma bpf_init_wf: "bpf_wf ncpu (bpf_maps_init ncpu)"
  by (simp add: bpf_wf_def bpf_maps_init_def percpu_shape_def)

lemma hash_update_eq [simp]: "room \<Longrightarrow> hash_update room k v mp = mp(k \<mapsto> v)"
  by (simp add: hash_update_def)

lemma hash_update_other: "k \<noteq> k' \<Longrightarrow> hash_update room k v mp k' = mp k'"
  by (simp add: hash_update_def)

lemma bpf_prog_sys_start:
  "\<not> syscall_of tid (e, ev) \<Longrightarrow> sys_start (bpf_prog e ev m) tid = sys_start m tid"
  by (induction e ev m rule: bpf_prog.induct, case_tac [10] t)
    (auto simp: bpf_handlers bpf_helpers syscall_of_def hash_update_other Let_def split: option.split)

lemma bpf_run_sys_start:
  "\<forall>x \<in> set evs. \<not> syscall_of tid x \<Longrightarrow> sys_start (bpf_run evs m) tid = sys_start m tid"
  by (induction evs m rule: bpf_run.induct) (simp_all add: bpf_prog_sys_start)

lemma bpf_prog_enter: "bpf_prog e (Sys_enter k) m = sys_enter_record e m"
  by (cases k) (simp_all add: bpf_handlers)

lemma bpf_prog_exit: "bpf_prog e (Sys_exit k) m = sys_exit_record e k m"
  by (cases k) (simp_all add: bpf_handlers)

lemma cnt_index_inject [simp]: "cnt_index i = cnt_index j \<longleftrightarrow> i = j"
  by (cases i; cases j) simp_all

lemma counter_inc_total:
  assumes "bpf_wf ncpu m" and "smp_processor_id e < ncpu"
  shows "counter_total idx (counter_inc e j m) = counter_total idx m + (if j = idx then 1 else 0)"
proof -
  have s: "cnt_index j < length (tp_counters m ! smp_processor_id e)" "smp_processor_id e < length (tp_counters m)"
    using assms bpf_const_index(1) [of j] by (simp_all add: bpf_wf_def percpu_shape_def)
  then show ?thesis
    by (auto simp: counter_total_def counter_inc_def percpu_upd_def sum_list_map_update nth_list_update)
qed

lemma counter_total_upd [simp]:
  "counter_total idx (m\<lparr>sys_start := ss\<rparr>) = counter_total idx m"
  "counter_total idx (m\<lparr>wakeup_ts := ws\<rparr>) = counter_total idx m"
  "counter_total idx (m\<lparr>syscall_lat := sl\<rparr>) = counter_total idx m"
  "counter_total idx (m\<lparr>poll_lat := hl\<rparr>) = counter_total idx m"
  "counter_total idx (m\<lparr>sched_lat := hl\<rparr>) = counter_total idx m"
  "counter_total idx (m\<lparr>last_frame_ts := t\<rparr>) = counter_total idx m"
  "counter_total idx (m\<lparr>recovery_pending := p\<rparr>) = counter_total idx m"
  "counter_total idx (ringbuf_submit e ev m) = counter_total idx m"
  by (simp_all add: counter_total_def ringbuf_submit_def)

lemma bpf_prog_counter:
  assumes "bpf_wf ncpu m" and "smp_processor_id e < ncpu"
  shows "counter_total idx (bpf_prog e ev m) = counter_total idx m + (if counter_of ev = Some idx then 1 else 0)"
proof (cases ev)
  case (Sys_enter k)
  then show ?thesis by (simp add: bpf_prog_enter sys_enter_record_def)
next
  case (Sys_exit k)
  then show ?thesis by (simp add: bpf_prog_exit sys_exit_record_def Let_def split: option.split)
next
  case (Driver_trace t)
  then show ?thesis by (cases t) (simp_all add: bpf_handlers counter_inc_total [OF assms] Let_def)
qed (simp_all add: bpf_handlers Let_def split: option.split)

lemma bpf_run_counter:
  assumes "bpf_wf ncpu m" and "\<forall>(e, ev) \<in> set evs. smp_processor_id e < ncpu"
  shows "counter_total idx (bpf_run evs m) =
    counter_total idx m + of_nat (length (filter (\<lambda>(e, ev). counter_of ev = Some idx) evs))"
  using assms by (induction evs m rule: bpf_run.induct) (auto simp: bpf_prog_counter algebra_simps)

text \<open>The kernel calls of one run of the recovery work.\<close>

context driver
begin

lemma recovery_work_kcalls:
  assumes "dinv dev" and "length (elems (rx_fifo dev)) < unat (fifo_depth dev)"
  shows "kcalls (recovery_work_fn K e dev) = kcalls dev @
    [Trace (safety_recovery_queued (retry_count dev + 1)),
     Trace (safety_frame_received (synth_seq dev) SAFETY_FRAME_RECOVERY_REPORT
              (of_nat (length (elems (rx_fifo dev)) + 1))), Wake_up_rx]"
proof (rule recovery_work_fn_unfold [where K = K and e = e and dev = dev])
  fix d
  assume d: "recovery_work_fn K e dev = snd (safety_synth_recovery_report K (later e 1) 1 3 d)"
    and inv: "\<And>elems qwf. driver_inv K elems qwf dev \<Longrightarrow> driver_inv K elems qwf d"
    and eqs: "rx_fifo d = rx_fifo dev" "fifo_depth d = fifo_depth dev" "synth_seq d = synth_seq dev"
      "kcalls d = kcalls dev @ [Trace (safety_recovery_queued (retry_count dev + 1))]"
  have wf: "wf (rx_fifo d)" "length (elems (rx_fifo d)) < kfifo_size K (rx_fifo d)"
    using inv [OF assms(1)] assms(2) eqs(1,2) by (auto simp: driver_inv_def)
  let ?p = "recovery_report_bytes \<lparr>recovered = 1, new_state = 3, rr_reserved = 0,
      recovery_uptime_ms = safety_now_ms (ktime_get_ns (later e 1) 0)\<rparr>"
  have p: "length ?p \<le> SAFETY_MAX_PAYLOAD" by (simp add: proto_const)
  show ?thesis
    by (rule synth_room [OF wf(1) p wf(2), where e = "later (later e 1) 1"
          and ty = SAFETY_FRAME_RECOVERY_REPORT and ev = SAFETY_TL_RECOVERY])
      (simp add: d safety_synth_recovery_report_def Let_def eqs kcall_def dev_upd)
qed

end

section \<open>Properties\<close>

text \<open>C38 (histogram).  After fewer than \<open>2 ^ 64\<close> samples every slot holds the number of samples whose
  integer logarithm is its index (slot 0 also the zero samples), the slots add up to the count, and
  count, sum modulo \<open>2 ^ 64\<close>, minimum and maximum are those of the samples.\<close>

theorem histogram_exact:
  assumes "length ds < 2 ^ 64"
  shows "let h = fold hist_record ds hist_zero in length (slots h) = MAX_SLOTS
    \<and> (\<forall>s < MAX_SLOTS. unat (slots h ! s) = length (filter (in_slot s) ds))
    \<and> (\<Sum>s<MAX_SLOTS. unat (slots h ! s)) = length ds \<and> unat (hcount h) = length ds
    \<and> hsum h = sum_list ds
    \<and> (ds \<noteq> [] \<longrightarrow> hmin h = Min (set ds) \<and> hmax h = Max (set ds))"
proof -
  let ?h = "fold hist_record ds hist_zero"
  have h: "hist_describes ?h ds" using hist_of_describes [OF assms] by (simp add: hist_of_def)
  have "unat (of_nat (length (filter (in_slot s) ds)) :: u64) = length (filter (in_slot s) ds)" for s
    using le_less_trans [OF length_filter_le assms] by (simp add: unat_of_nat)
  then have s: "unat (slots ?h ! s) = length (filter (in_slot s) ds)" if "s < MAX_SLOTS" for s
    using h that by (simp add: hist_describes_def)
  then have "(\<Sum>s<MAX_SLOTS. unat (slots ?h ! s)) = length ds"
    using sum_slots [of ds] by (simp add: MAX_SLOTS_def)
  then show ?thesis
    using h s assms by (simp add: hist_describes_def Let_def unat_of_nat)
qed

theorem histogram_exact_witness:
  "let h = fold hist_record [0, 5, 1000] hist_zero
   in unat (slots h ! 0) = 1 \<and> unat (slots h ! 2) = 1 \<and> unat (slots h ! 9) = 1 \<and> unat (hcount h) = 3
      \<and> hmin h = 0 \<and> hmax h = 1000 \<and> hsum h = 1005"
  using histogram_exact [of "[0, 5, 1000]"] by (simp add: Let_def MAX_SLOTS_def in_slot_def)

text \<open>System call latency.  Whatever other programs run in between, the exit of a traced system
  call records exactly one sample, the time since its own entry, in the histogram of its kind on the CPU
  it returns on; no other histogram changes, and the entry is consumed: a second exit records nothing.\<close>

theorem syscall_latency_paired:
  assumes "bpf_wf ncpu m" and "comm_is_supervisor e0" and "map_has_room e0"
    and "\<forall>x \<in> set evs. \<not> syscall_of (current_tid e0) x"
    and "current_tid e1 = current_tid e0" and "smp_processor_id e1 < ncpu"
    and "m1 = bpf_run evs (bpf_prog e0 (Sys_enter k) m)" and "m2 = bpf_prog e1 (Sys_exit k) m1"
  shows "(\<forall>c i. syscall_lat m2 ! c ! i =
           (if c = smp_processor_id e1 \<and> i = sc_index k
            then hist_record (bpf_ktime_get_ns e1 - bpf_ktime_get_ns e0) (syscall_lat m1 ! c ! i)
            else syscall_lat m1 ! c ! i))
    \<and> poll_lat m2 = poll_lat m1 \<and> sched_lat m2 = sched_lat m1 \<and> bpf_prog e1 (Sys_exit k') m2 = m2"
proof -
  have s: "sys_start m1 (current_tid e1) = Some (bpf_ktime_get_ns e0)"
    using assms(2,3,5) bpf_run_sys_start [OF assms(4)]
    by (simp add: assms(7) bpf_prog_enter sys_enter_record_def)
  have "bpf_wf ncpu m1" using assms(1) by (simp add: assms(7))
  then have "percpu_shape ncpu SC_MAX (syscall_lat m1)" by (simp add: bpf_wf_def)
  note upd = percpu_upd_same [OF this assms(6) bpf_const_index(2) [of k]] percpu_upd_other
  show ?thesis
    using s by (auto simp: assms(8) bpf_prog_exit sys_exit_record_def Let_def upd)
qed

definition demo_bpf_env :: "u64 \<Rightarrow> u32 \<Rightarrow> bpf_env" where
  "demo_bpf_env t tid = \<lparr>bpf_ktime_get_ns = t, smp_processor_id = 0, current_tid = tid,
     current_comm = Some ''safety-supervis'', map_has_room = True, ringbuf_has_room = True\<rparr>"

lemma demo_bpf_env_fields:
  "bpf_ktime_get_ns (demo_bpf_env t tid) = t" "smp_processor_id (demo_bpf_env t tid) = 0"
  "current_tid (demo_bpf_env t tid) = tid" "map_has_room (demo_bpf_env t tid)"
  "ringbuf_has_room (demo_bpf_env t tid)" "comm_is_supervisor (demo_bpf_env t tid)"
  by (simp_all add: demo_bpf_env_def comm_is_supervisor_def comm_matches_prefix bpf_const)

theorem syscall_latency_paired_witness:
  "let m = bpf_maps_init 1; m1 = bpf_run [(demo_bpf_env 20 8, Sys_enter SC_READ)]
         (bpf_prog (demo_bpf_env 10 7) (Sys_enter SC_READ) m);
       m2 = bpf_prog (demo_bpf_env 100 7) (Sys_exit SC_READ) m1
   in syscall_lat m2 ! 0 ! 0 = hist_record (100 - 10) (syscall_lat m1 ! 0 ! 0)"
proof -
  have "\<forall>x \<in> set [(demo_bpf_env 20 8, Sys_enter SC_READ)]. \<not> syscall_of (current_tid (demo_bpf_env 10 7)) x"
    by (simp add: demo_bpf_env_fields syscall_of_def)
  from syscall_latency_paired [OF bpf_init_wf [of 1] demo_bpf_env_fields(6,4) this _ _ refl refl,
      of "demo_bpf_env 100 7" SC_READ, THEN conjunct1, rule_format, of 0 0]
  show ?thesis by (simp only: demo_bpf_env_fields Let_def sc_index.simps simp_thms if_True zero_less_one)
qed

text \<open>Tracepoint counters.  Summed over all CPUs, the counter of each of the driver's tracepoints is
  the number of times it fired, modulo \<open>2 ^ 64\<close>, whatever CPUs the programs ran on.\<close>

theorem tracepoint_counts:
  assumes "\<forall>(e, ev) \<in> set evs. smp_processor_id e < ncpu"
  shows "counter_total idx (bpf_run evs (bpf_maps_init ncpu)) =
    of_nat (length (filter (\<lambda>(e, ev). counter_of ev = Some idx) evs))"
  using bpf_run_counter [OF bpf_init_wf assms, of idx] by (cases idx)
    (simp_all add: counter_total_def bpf_maps_init_def bpf_const sum_list_replicate map_replicate)

theorem tracepoint_counts_witness:
  "counter_total CNT_POLL_WAKEUP (bpf_run [(demo_bpf_env 5 7, Driver_trace (safety_poll_wakeup 1)),
     (demo_bpf_env 6 7, Driver_trace (safety_recovery_queued 1))] (bpf_maps_init 1)) = 1"
  by (subst tracepoint_counts) (simp_all add: demo_bpf_env_def)

text \<open>A restored heartbeat that was not received.  One run of the driver's recovery work, with room
  in the RX queue and in the ring buffer, makes the tracer report RECOVERY and at once
  HEARTBEAT_RESTORED, carrying the sequence number of the driver's own RECOVERY_REPORT, although no
  heartbeat was received; the next frame that really arrives is not reported.\<close>

theorem restored_without_heartbeat:
  assumes "kfifo K elems qwf" and "driver_inv K elems qwf dev"
    and "length (elems (rx_fifo dev)) < unat (fifo_depth dev)"
    and "ringbuf_has_room (es 0)" and "ringbuf_has_room (es 1)"
    and "m' = on_kcalls es (drop (length (kcalls dev)) (kcalls (recovery_work_fn K e dev))) m"
  shows "timeline_rb m' = timeline_rb m @
      [\<lparr>te_ts = bpf_ktime_get_ns (es 0), te_kind = TL_RECOVERY, te_aux = retry_count dev + 1\<rparr>,
       \<lparr>te_ts = bpf_ktime_get_ns (es 1), te_kind = TL_HEARTBEAT_RESTORED, te_aux = ucast (synth_seq dev)\<rparr>]
    \<and> heartbeat_count (recovery_work_fn K e dev) = heartbeat_count dev
    \<and> timeline_rb (handle_safety_frame_received e' seq m') = timeline_rb m'"
proof -
  note calls = driver.recovery_work_kcalls [OF driver_kfifo [OF assms(1)] assms(2,3), of e]
  have "heartbeat_count (recovery_work_fn K e dev) = heartbeat_count dev"
  proof (rule recovery_work_fn_unfold [where K = K and e = e and dev = dev])
    fix d
    assume d: "recovery_work_fn K e dev = snd (safety_synth_recovery_report K (later e 1) 1 3 d)"
      and inv: "\<And>elems qwf. driver_inv K elems qwf dev \<Longrightarrow> driver_inv K elems qwf d"
      and "heartbeat_count d = heartbeat_count dev"
    then show ?thesis
      using driver.synth_recovery_report(2) [OF driver_kfifo [OF assms(1)] inv [OF assms(2)], of "later e 1" 1 3]
      by (simp add: synth_post_def)
  qed
  with assms(4,5) show ?thesis
    by (simp add: assms(6) calls bpf_handlers ringbuf_submit_def counter_inc_def Let_def)
qed

theorem restored_without_heartbeat_witness:
  "let dev = ready_dev (2, []) (2, []) 2 1 350;
       m' = on_kcalls (\<lambda>i. demo_bpf_env (of_nat i) 7)
              (drop (length (kcalls dev)) (kcalls (recovery_work_fn bounded_list kenv0 dev))) (bpf_maps_init 1)
   in map te_kind (timeline_rb m') = [TL_RECOVERY, TL_HEARTBEAT_RESTORED]"
proof -
  let ?dev = "ready_dev (2, []) (2, []) 2 1 350"
  have "length (snd (rx_fifo ?dev)) < unat (fifo_depth ?dev)"
    by (simp add: ready_dev_def kzalloc_dev_def)
  from restored_without_heartbeat [OF kfifo_bounded_list demo_dev_inv this, of "\<lambda>i. demo_bpf_env (of_nat i) 7",
      OF demo_bpf_env_fields(5) demo_bpf_env_fields(5) refl, of kenv0 "bpf_maps_init 1" "demo_bpf_env 9 7" 0]
  show ?thesis unfolding Let_def by (auto simp only: list.map timeline_event.simps map_append) (simp add: bpf_maps_init_def)
qed

end
