(* ===== verification/Driver_Trace.thy ===== *)
theory Driver_Trace
  imports Driver_Smp Ebpf
begin

text \<open>
  The driver's own counters against the tracer's.  The driver counts watchdog expiries, recovery attempts and dropped
  frames in the device and fires a tracepoint for each; the eBPF programs count the tracepoints per CPU.
  The theory shows that the two agree over any sequence of driver operations.
\<close>

section \<open>Definitions\<close>

text \<open>A run of the driver: system calls, watchdog expiries and recovery work one after the other.\<close>

datatype drv_op = Op_call drv_call | Op_timer kenv | Op_work kenv

fun exec_op :: "(safety_fifo_slot, 'q) kfifo_ops \<Rightarrow> drv_op \<Rightarrow> 'q safety_copro_dev \<Rightarrow> 'q safety_copro_dev" where
  "exec_op K (Op_call c) d = snd (run_alone (call_sections K c) d)"
| "exec_op K (Op_timer e) d = snd (hb_timer_fn K e d)"
| "exec_op K (Op_work e) d = recovery_work_fn K e d"

definition exec_ops :: "(safety_fifo_slot, 'q) kfifo_ops \<Rightarrow> drv_op list \<Rightarrow> 'q safety_copro_dev \<Rightarrow> 'q safety_copro_dev" where
  "exec_ops K = fold (exec_op K)"

fun resets :: "drv_op \<Rightarrow> bool" where
  "resets (Op_call (Call_ioctl e cmd arg)) \<longleftrightarrow> cmd = SAFETY_IOC_RESET_STATS"
| "resets _ \<longleftrightarrow> False"

text \<open>How often a tracepoint of a counter fires in a list of kernel calls.\<close>

fun fires :: "tp_counter_idx \<Rightarrow> kcall \<Rightarrow> bool" where
  "fires idx (Trace t) \<longleftrightarrow> counter_of (Driver_trace t) = Some idx"
| "fires idx _ \<longleftrightarrow> False"

definition fired :: "tp_counter_idx \<Rightarrow> kcall list \<Rightarrow> nat" where
  "fired idx cs = length (filter (fires idx) cs)"

section \<open>Lemmas\<close>

lemma fired_simps [simp]:
  "fired idx [] = 0" "fired idx (xs @ ys) = fired idx xs + fired idx ys"
  "fired idx (c # cs) = (if fires idx c then 1 else 0) + fired idx cs"
  by (simp_all add: fired_def)

text \<open>An operation accounts for what it traces: each of the three counters grows by the number of times its
  tracepoint fires.\<close>

definition accounts :: "'q safety_copro_dev \<Rightarrow> 'q safety_copro_dev \<Rightarrow> bool" where
  "accounts d d' \<longleftrightarrow> (\<exists>cs. kcalls d' = kcalls d @ cs
     \<and> timeout_count d' = timeout_count d + of_nat (fired CNT_TIMEOUT_DETECTED cs)
     \<and> retry_count d' = retry_count d + of_nat (fired CNT_RECOVERY_QUEUED cs)
     \<and> dropped_frame_count d' = dropped_frame_count d + of_nat (fired CNT_FRAME_DROPPED cs))"

lemma accounts_refl [simp]: "accounts d d"
  by (simp add: accounts_def)

lemma accounts_trans: "accounts d d' \<Longrightarrow> accounts d' d'' \<Longrightarrow> accounts d d''"
  unfolding accounts_def by (elim exE, rule_tac x = "cs @ csa" in exI) (simp add: algebra_simps)

definition accountable :: "('q safety_copro_dev, 'r) sections \<Rightarrow> bool" where
  "accountable p \<longleftrightarrow> (\<forall>d. accounts d (snd (run_alone p d)))"

lemma accountable_andthen: "accountable a \<Longrightarrow> (\<And>r. accountable (c r)) \<Longrightarrow> accountable (andthen a c)"
  by (auto simp: accountable_def run_andthen split_beta intro: accounts_trans)

lemma accountable_update:
  assumes "\<And>d. \<exists>cs. kcalls (f d) = kcalls d @ cs \<and> fired CNT_TIMEOUT_DETECTED cs = 0 \<and> fired CNT_RECOVERY_QUEUED cs = 0 \<and> fired CNT_FRAME_DROPPED cs = 0"
    and "\<And>d. timeout_count (f d) = timeout_count d \<and> retry_count (f d) = retry_count d \<and> dropped_frame_count (f d) = dropped_frame_count d"
  shows "accountable (update f)"
  unfolding accountable_def accounts_def
proof
  fix d
  from assms(1) [of d] obtain cs where "kcalls (f d) = kcalls d @ cs" "fired CNT_TIMEOUT_DETECTED cs = 0"
    "fired CNT_RECOVERY_QUEUED cs = 0" "fired CNT_FRAME_DROPPED cs = 0" by blast
  then show "\<exists>cs. kcalls (snd (run_alone (update f) d)) = kcalls d @ cs
     \<and> timeout_count (snd (run_alone (update f) d)) = timeout_count d + of_nat (fired CNT_TIMEOUT_DETECTED cs)
     \<and> retry_count (snd (run_alone (update f) d)) = retry_count d + of_nat (fired CNT_RECOVERY_QUEUED cs)
     \<and> dropped_frame_count (snd (run_alone (update f) d)) = dropped_frame_count d + of_nat (fired CNT_FRAME_DROPPED cs)"
    using assms(2) [of d] by (intro exI [of _ cs]) simp
qed

lemma accountable_locked:
  "(\<And>d. kcalls (snd (f d)) = kcalls d \<and> timeout_count (snd (f d)) = timeout_count d \<and> retry_count (snd (f d)) = retry_count d
      \<and> dropped_frame_count (snd (f d)) = dropped_frame_count d) \<Longrightarrow> accountable (locked f)"
  by (auto simp: accountable_def accounts_def)

lemma accountable_Return: "accountable (Return r)"
  by (simp add: accountable_def)

lemma accountable_if: "(b \<Longrightarrow> accountable p) \<Longrightarrow> (\<not> b \<Longrightarrow> accountable q) \<Longrightarrow> accountable (if b then p else q)"
  by simp

lemma accountable_kcall: "\<not> fires CNT_TIMEOUT_DETECTED c \<Longrightarrow> \<not> fires CNT_RECOVERY_QUEUED c \<Longrightarrow> \<not> fires CNT_FRAME_DROPPED c
   \<Longrightarrow> accountable (update (kcall c))"
  by (rule accountable_update) (simp_all add: kcall_def)

lemma accountable_calm:
  "(\<And>d. kcalls (f d) = kcalls d) \<Longrightarrow> (\<And>d. timeout_count (f d) = timeout_count d) \<Longrightarrow> (\<And>d. retry_count (f d) = retry_count d)
   \<Longrightarrow> (\<And>d. dropped_frame_count (f d) = dropped_frame_count d) \<Longrightarrow> accountable (update f)"
  by (rule accountable_update) simp_all

lemma accountable_look: "accountable (locked (\<lambda>d. (f d, d)))"
  by (simp add: accountable_def)

lemmas accountable_intros = accountable_andthen accountable_if accountable_Return accountable_look

lemma drop_accountable: "accountable (drop_sections e seq ty)"
  by (simp add: accountable_def drop_alone record_drop_def accounts_def kcall_def dev_upd Let_def)

lemma push_frame_accountable: "accountable (push_frame_sections K e f len seq ty ev)"
  unfolding push_frame_sections_def
  by (intro accountable_intros accountable_locked)
    (auto simp: push_locked_def Let_def dev_upd split: sum.split prod.split intro!: accountable_intros accountable_calm accountable_kcall)

lemma push_tx_accountable: "accountable (push_tx_sections K e f len seq ty)"
  unfolding push_tx_sections_def
  by (intro accountable_intros accountable_locked)
    (auto simp: push_tx_locked_def Let_def dev_upd split: sum.split prod.split intro!: accountable_intros accountable_calm accountable_kcall)

lemma synth_accountable: "accountable (synth_sections K e ty p n ev)"
  unfolding synth_sections_def
  by (auto simp: Let_def split: prod.split intro!: accountable_intros accountable_locked push_frame_accountable drop_accountable)

lemma fault_event_accountable: "accountable (fault_event_sections K e ft sev detail)"
  by (simp add: fault_event_sections_def synth_accountable)

lemma recovery_report_accountable: "accountable (recovery_report_sections K e rcv nst)"
  by (simp add: recovery_report_sections_def synth_accountable)

lemma rearm_accountable: "accountable rearm_sections"
  unfolding rearm_sections_def by (intro accountable_intros accountable_kcall) simp_all

text \<open>The two operations that count in one section and trace in the next.\<close>

lemma timer_accounts: "accounts d (snd (hb_timer_fn K e d))"
proof -
  define d1 where "d1 = kcall (Trace (safety_timeout_detected (hb_timeout_ms d) (timeout_count d + 1))) (snd (timeout_locked e d))"
  have "accounts d d1" by (simp add: d1_def accounts_def timeout_locked_def kcall_def Let_def)
  moreover have "accountable (andthen (fault_event_sections K (later e 2) SAFETY_FAULT_TASK_HANG 1 1) (\<lambda>_.
     andthen (update safety_recovery_schedule) (\<lambda>_. Return HRTIMER_NORESTART)))"
    unfolding safety_recovery_schedule_def [abs_def]
    by (intro accountable_intros fault_event_accountable accountable_kcall) simp_all
  moreover have "snd (hb_timer_fn K e d) = snd (run_alone (andthen (fault_event_sections K (later e 2) SAFETY_FAULT_TASK_HANG 1 1) (\<lambda>_.
     andthen (update safety_recovery_schedule) (\<lambda>_. Return HRTIMER_NORESTART))) d1)"
    by (simp add: hb_timer_alone [symmetric] hb_timer_sections_def d1_def andthen_locked andthen_update timeout_locked_def Let_def)
  ultimately show ?thesis unfolding accountable_def by (metis accounts_trans)
qed

lemma work_accounts: "accounts d (recovery_work_fn K e d)"
proof -
  define d1 where "d1 = kcall (Trace (safety_recovery_queued (retry_count d + 1))) (snd (recovery_locked e d))"
  let ?rest = "recovery_report_sections K (later e 1) 1 (of_nat (link_state_code SAFETY_LINK_RECOVERING))"
  have "accounts d d1" by (simp add: d1_def accounts_def recovery_locked_def kcall_def Let_def)
  moreover have "recovery_work_fn K e d = snd (run_alone ?rest d1)"
    using recovery_work_alone [of K e d]
    by (simp add: recovery_work_sections_def d1_def andthen_locked andthen_update recovery_locked_def Let_def run_andthen split_beta)
  ultimately show ?thesis using recovery_report_accountable unfolding accountable_def by (metis accounts_trans)
qed

lemma proto_error_accountable: "accountable (update (record_proto_error v))"
  by (rule accountable_calm) (simp_all add: record_proto_error_def Let_def split: safety_validate_result.split)

lemma rx_pushed_accountable: "accountable (rx_pushed_sections e v seq ty rc)"
  unfolding rx_pushed_sections_def beat_locked_def [abs_def]
  by (auto split: sum.split intro!: accountable_intros accountable_calm drop_accountable rearm_accountable)

lemma queue_rx_accountable: "accountable (queue_rx_sections K e f n)"
  unfolding queue_rx_sections_def Let_def
  by (intro accountable_intros proto_error_accountable push_frame_accountable rx_pushed_accountable)

lemma write_accountable: "accountable (write_sections K e ubuf n)"
  unfolding write_sections_def Let_def
  by (auto split: sum.split option.split intro!: accountable_intros proto_error_accountable push_tx_accountable drop_accountable)

lemma pop_accountable: "accountable (pop_frame_sections K)" "accountable (pop_tx_sections K)"
  unfolding pop_frame_sections_def pop_tx_sections_def
  by (rule accountable_locked; simp add: safety_fifo_pop_frame_def safety_fifo_pop_tx_frame_def split: prod.split list.split)+

lemma read_accountable: "accountable (read_sections K nb ls n ok)"
proof -
  have one: "accountable (read_try K n ok p)" if "accountable p" for p
    unfolding read_try_def using that by (auto intro!: accountable_intros pop_accountable)
  have "accountable (read_wait K n ok ls)"
    by (induction ls) (auto intro!: accountable_intros one)
  then show ?thesis unfolding read_sections_def by (auto intro!: accountable_intros one)
qed

lemma poll_accountable: "accountable (poll_sections K)"
  unfolding poll_sections_def by (intro accountable_intros accountable_kcall) simp_all

lemma ioctl_accountable:
  assumes "cmd \<noteq> SAFETY_IOC_RESET_STATS"
  shows "accountable (ioctl_sections K e cmd arg)"
proof -
  have "accountable (stats_sections K arg)" unfolding stats_sections_def by (intro accountable_intros)
  moreover have "accountable (set_timeout_sections arg)" unfolding set_timeout_sections_def
    by (auto split: option.split intro!: accountable_intros accountable_calm rearm_accountable)
  moreover have "accountable (get_state_sections arg)" unfolding get_state_sections_def by (intro accountable_intros)
  moreover have "accountable (inject_sections K e arg)" unfolding inject_sections_def
    by (auto simp: fault_locked_def split: option.split intro!: accountable_intros accountable_calm fault_event_accountable)
  moreover have "accountable (push_rx_sections K e arg)" unfolding push_rx_sections_def
    by (auto split: option.split intro!: accountable_intros queue_rx_accountable)
  moreover have "accountable (pop_tx_ioctl_sections K arg)" unfolding pop_tx_ioctl_sections_def
    by (auto intro!: accountable_intros pop_accountable)
  moreover have "accountable (update safety_recovery_schedule)"
    unfolding safety_recovery_schedule_def [abs_def] by (rule accountable_kcall) simp_all
  ultimately show ?thesis unfolding ioctl_sections_def using assms by (auto intro!: accountable_intros)
qed

lemma exec_accounts: "\<not> resets op \<Longrightarrow> accounts d (exec_op K op d)"
proof (cases op)
  case (Op_call c)
  assume "\<not> resets op"
  then have "accountable (call_sections K c)"
    unfolding Op_call by (cases c)
      (auto simp: returning_def intro!: accountable_intros write_accountable read_accountable poll_accountable ioctl_accountable)
  then show ?thesis unfolding Op_call by (simp add: accountable_def)
qed (simp_all add: timer_accounts work_accounts)

lemma exec_ops_accounts: "\<forall>op\<in>set ops. \<not> resets op \<Longrightarrow> accounts d (exec_ops K ops d)"
  unfolding exec_ops_def
  by (induction ops arbitrary: d) (simp_all, meson accounts_trans exec_accounts)

lemma on_kcalls_counter:
  assumes "bpf_wf ncpu m" and "\<forall>i. smp_processor_id (es i) < ncpu"
  shows "counter_total idx (on_kcalls es cs m) = counter_total idx m + of_nat (fired idx cs)"
  using assms
proof (induction es cs m rule: on_kcalls.induct)
  case (2 es t cs m)
  have "bpf_wf ncpu (on_trace (es 0) t m)" using bpf_prog_wf [of ncpu "es 0" "Driver_trace t" m] "2.prems"(1) by simp
  from "2.IH" [OF this] show ?case
    using bpf_prog_counter [OF "2.prems"(1), of "es 0" idx "Driver_trace t"] "2.prems"(2) by (simp add: algebra_simps)
qed simp_all

lemma counter_total_init: "counter_total idx (bpf_maps_init ncpu) = 0"
  by (cases idx) (simp_all add: counter_total_def bpf_maps_init_def bpf_const sum_list_replicate map_replicate)

lemma ucast_count: "ucast (of_nat n :: u64) = (of_nat n :: u32)"
  by transfer (simp add: take_bit_take_bit min_def)

section \<open>Properties\<close>

text \<open>C37 (the tracer agrees with the driver).  Over any sequence of system calls other than RESET_STATS, watchdog expiries and recovery runs
  that starts with the three counters at zero, the driver's counts of timeouts, recovery attempts and dropped frames
  are the tracer's counts of the corresponding tracepoints, cut to 32 bits, whatever CPUs the tracer's programs run on.\<close>

theorem tracer_agrees:
  assumes "\<forall>op\<in>set ops. \<not> resets op" and "\<forall>i. smp_processor_id (es i) < ncpu"
    and "timeout_count d = 0" and "retry_count d = 0" and "dropped_frame_count d = 0"
    and "d' = exec_ops K ops d" and "m = on_kcalls es (new_calls d d') (bpf_maps_init ncpu)"
  shows "timeout_count d' = ucast (counter_total CNT_TIMEOUT_DETECTED m)
    \<and> retry_count d' = ucast (counter_total CNT_RECOVERY_QUEUED m)
    \<and> dropped_frame_count d' = ucast (counter_total CNT_FRAME_DROPPED m)"
proof -
  from exec_ops_accounts [OF assms(1), of d K, folded assms(6)] obtain cs where
    cs: "kcalls d' = kcalls d @ cs" "timeout_count d' = of_nat (fired CNT_TIMEOUT_DETECTED cs)"
      "retry_count d' = of_nat (fired CNT_RECOVERY_QUEUED cs)" "dropped_frame_count d' = of_nat (fired CNT_FRAME_DROPPED cs)"
    unfolding accounts_def using assms(3-5) by auto
  have "counter_total idx m = of_nat (fired idx cs)" for idx
    using on_kcalls_counter [OF bpf_init_wf assms(2), of idx cs] cs(1) assms(7) by (simp add: new_calls_def counter_total_init)
  then show ?thesis using cs by (simp add: ucast_count)
qed

theorem tracer_agrees_witness:
  "let d = ready_dev (1, []) (1, []) 1 1 350; d' = exec_ops bounded_list [Op_timer kenv0, Op_work kenv0] d;
       m = on_kcalls (\<lambda>i. demo_bpf_env (of_nat i) 7) (new_calls d d') (bpf_maps_init 1)
   in timeout_count d' = ucast (counter_total CNT_TIMEOUT_DETECTED m) \<and> retry_count d' = ucast (counter_total CNT_RECOVERY_QUEUED m)
      \<and> dropped_frame_count d' = ucast (counter_total CNT_FRAME_DROPPED m)"
  unfolding Let_def
  by (rule tracer_agrees [where ops = "[Op_timer kenv0, Op_work kenv0]" and ncpu = 1, OF _ _ _ _ _ refl refl])
    (simp_all add: demo_bpf_env_fields ready_dev_def kzalloc_dev_def)

text \<open>Commands are counted as received frames.  A command that the supervisor writes and the driver accepts into the
  queue towards the coprocessor makes the tracer count one received frame, while the receive queue stays as it is.\<close>

theorem received_counts_commands:
  assumes "kfifo K elems qwf" and "driver_inv K elems qwf d" and "length f = n" and "16 \<le> n" and "n \<le> SAFETY_MAX_FRAME_SIZE"
    and "safety_frame_validate f = SAFETY_VALIDATE_OK" and "length (elems (tx_fifo d)) < unat (fifo_depth d)"
    and "\<forall>i. smp_processor_id (es i) < ncpu"
    and "safety_write K e (Some f) n d = (r, d')" and "m = on_kcalls es (new_calls d d') (bpf_maps_init ncpu)"
  shows "rx_fifo d' = rx_fifo d \<and> counter_total CNT_FRAME_RECEIVED m = 1"
proof -
  obtain qlen where "rx_fifo d' = rx_fifo d"
    "kcalls d' = kcalls d @ [Trace (safety_frame_received (rx_seq f) (rx_type f) qlen), Wake_up_tx]"
    using driver.write_cases [OF driver_kfifo [OF assms(1)] assms(2-6), of e] assms(7,9) by auto
  then show ?thesis
    using on_kcalls_counter [OF bpf_init_wf assms(8), of CNT_FRAME_RECEIVED "new_calls d d'"] assms(10)
    by (simp add: new_calls_def counter_total_init del: on_kcalls.simps)
qed

theorem received_counts_commands_witness:
  "let f = wire_frame (safety_frame_init SAFETY_FRAME_COMMAND 5 0 9) []; d = ready_dev (2, []) (2, []) 2 1 350;
       d' = snd (safety_write bounded_list kenv0 (Some f) 16 d);
       m = on_kcalls (\<lambda>i. demo_bpf_env (of_nat i) 7) (new_calls d d') (bpf_maps_init 1)
   in rx_fifo d' = rx_fifo d \<and> counter_total CNT_FRAME_RECEIVED m = 1"
  unfolding Let_def
  by (rule received_counts_commands [OF kfifo_bounded_list demo_dev_inv _ _ _ _ _ _ prod.collapse [symmetric] refl])
    (simp_all add: demo_bpf_env_fields header_ok_def proto_const, simp_all add: ready_dev_def kzalloc_dev_def)

end
