(* ===== verification/Firmware_Rx.thy ===== *)
theory Firmware_Rx
  imports Protocol
begin

text \<open>
  The receive side of the co-processor firmware (\<open>safety_protocol.c\<close> of the Zephyr application):
  the byte-wise frame assembler that runs in the UART interrupt and the message queue it fills.
  Zephyr's \<open>k_msgq\<close> is not part of the repository: its two operations are fields of a record that
  the definitions take as an argument, and what the firmware relies on is the locale \<open>k_msgq\<close>.
\<close>

section \<open>Definitions\<close>

subsection \<open>The message queue interface\<close>

text \<open>\<open>k_msgq_put\<close> with \<open>K_NO_WAIT\<close> tells whether the message was accepted; \<open>k_msgq_get\<close> returns
  \<open>None\<close> where the caller would block.\<close>

record ('m, 'q) k_msgq_ops =
  k_msgq_put :: "'q \<Rightarrow> 'm \<Rightarrow> 'q \<times> bool"
  k_msgq_get :: "'q \<Rightarrow> ('m \<times> 'q) option"

locale k_msgq =
  fixes M :: "('m, 'q) k_msgq_ops" and msgs :: "'q \<Rightarrow> 'm list" and depth :: nat and qok :: "'q \<Rightarrow> bool"
  assumes put_room: "qok q \<Longrightarrow> length (msgs q) < depth \<Longrightarrow>
      \<exists>q'. k_msgq_put M q m = (q', True) \<and> qok q' \<and> msgs q' = msgs q @ [m]"
    and put_full: "qok q \<Longrightarrow> length (msgs q) = depth \<Longrightarrow>
      \<exists>q'. k_msgq_put M q m = (q', False) \<and> qok q' \<and> msgs q' = msgs q"
    and get_empty: "qok q \<Longrightarrow> msgs q = [] \<Longrightarrow> k_msgq_get M q = None"
    and get_some: "qok q \<Longrightarrow> msgs q = m # ms \<Longrightarrow> \<exists>q'. k_msgq_get M q = Some (m, q') \<and> qok q' \<and> msgs q' = ms"
    and bound: "qok q \<Longrightarrow> length (msgs q) \<le> depth"
begin

lemma put_cases:
  assumes "qok q"
  obtains (room) q' where "length (msgs q) < depth" "k_msgq_put M q m = (q', True)" "qok q'" "msgs q' = msgs q @ [m]"
  | (full) q' where "length (msgs q) = depth" "k_msgq_put M q m = (q', False)" "qok q'" "msgs q' = msgs q"
  using assms put_room put_full bound by (metis le_neq_implies_less)

end

definition list_msgq :: "nat \<Rightarrow> ('m, 'm list) k_msgq_ops" where
  "list_msgq n = \<lparr>k_msgq_put = (\<lambda>q m. if length q < n then (q @ [m], True) else (q, False)),
     k_msgq_get = (\<lambda>q. case q of [] \<Rightarrow> None | m # ms \<Rightarrow> Some (m, ms))\<rparr>"

interpretation lmsgq: k_msgq "list_msgq n" "\<lambda>q. q" n "\<lambda>q. length q \<le> n" for n
  by unfold_locales (auto simp: list_msgq_def)

subsection \<open>The frame assembler\<close>

text \<open>A message is a header and its payload; of the fixed-size payload array only the bytes that
  were copied in are kept.\<close>

record safety_rx_frame =
  rxf_hdr :: SafetyFrameHeader
  rxf_payload :: bytes

datatype rx_phase = RX_HUNT_MAGIC_LO | RX_HUNT_MAGIC_HI | RX_HEADER | RX_PAYLOAD

record rx_state =
  phase :: rx_phase
  buf :: bytes
  need :: nat
  got :: nat
  payload_len :: u16

definition MAGIC_LO :: u8 where "MAGIC_LO = ucast (SAFETY_PROTO_MAGIC AND 0xFF)"
definition MAGIC_HI :: u8 where "MAGIC_HI = ucast (drop_bit 8 SAFETY_PROTO_MAGIC AND 0xFF)"

text \<open>The static initial value: phase hunting, all else zero.\<close>

definition rxs_init :: rx_state where
  "rxs_init = \<lparr>phase = RX_HUNT_MAGIC_LO, buf = replicate SAFETY_MAX_FRAME_SIZE 0, need = 0, got = 0, payload_len = 0\<rparr>"

definition rx_reset :: "rx_state \<Rightarrow> rx_state" where
  "rx_reset r = r\<lparr>phase := RX_HUNT_MAGIC_LO, need := 0, got := 0, payload_len := 0\<rparr>"

text \<open>The label \<open>frame_complete\<close>: the array up to \<open>got\<close> is validated.\<close>

definition frame_complete :: "(safety_rx_frame, 'q) k_msgq_ops \<Rightarrow> rx_state \<times> 'q \<Rightarrow> rx_state \<times> 'q" where
  "frame_complete M = (\<lambda>(r, q).
     let q = (if safety_frame_validate (take (got r) (buf r)) = SAFETY_VALIDATE_OK
              then let msg = \<lparr>rxf_hdr = header_of_bytes (take SAFETY_HEADER_SIZE (buf r)),
                              rxf_payload = (if payload_len r \<noteq> 0
                                 then take (unat (payload_len r)) (drop SAFETY_HEADER_SIZE (buf r)) else [])\<rparr>
                   in fst (k_msgq_put M q msg)
              else q)
     in (rx_reset r, q))"

definition rx_feed_byte :: "(safety_rx_frame, 'q) k_msgq_ops \<Rightarrow> u8 \<Rightarrow> rx_state \<times> 'q \<Rightarrow> rx_state \<times> 'q" where
  "rx_feed_byte M b = (\<lambda>(r, q). case phase r of
     RX_HUNT_MAGIC_LO \<Rightarrow>
       if b = MAGIC_LO then (r\<lparr>buf := (buf r)[0 := b], got := 1, phase := RX_HUNT_MAGIC_HI\<rparr>, q) else (r, q)
   | RX_HUNT_MAGIC_HI \<Rightarrow>
       if b = MAGIC_HI
       then (r\<lparr>buf := (buf r)[1 := b], got := 2, need := SAFETY_HEADER_SIZE - 2, phase := RX_HEADER\<rparr>, q)
       else if b = MAGIC_LO then (r\<lparr>buf := (buf r)[0 := b], got := 1\<rparr>, q)
       else (rx_reset r, q)
   | RX_HEADER \<Rightarrow>
       let r = r\<lparr>buf := (buf r)[got r := b], got := got r + 1, need := need r - 1\<rparr> in
       if need r = 0
       then let hdr = header_of_bytes (take SAFETY_HEADER_SIZE (buf r)) in
            if SAFETY_MAX_PAYLOAD < unat (payload_length hdr) then (rx_reset r, q)
            else let r = r\<lparr>payload_len := payload_length hdr\<rparr> in
              if payload_len r = 0 then frame_complete M (r, q)
              else (r\<lparr>need := unat (payload_len r), phase := RX_PAYLOAD\<rparr>, q)
       else (r, q)
   | RX_PAYLOAD \<Rightarrow>
       let r = r\<lparr>buf := (buf r)[got r := b], got := got r + 1, need := need r - 1\<rparr> in
       if need r = 0 then frame_complete M (r, q) else (r, q))"

text \<open>The interrupt handler.  Each turn of its outer loop finds the interrupt pending or not, the
  receiver ready or not, and drains the bytes the hardware FIFO then holds; the list ends where
  \<open>uart_irq_update\<close> no longer succeeds.\<close>

record irq_round =
  irq_is_pending :: bool
  irq_rx_ready :: bool
  uart_fifo :: bytes

fun fifo_drain :: "(safety_rx_frame, 'q) k_msgq_ops \<Rightarrow> bytes \<Rightarrow> rx_state \<times> 'q \<Rightarrow> rx_state \<times> 'q" where
  "fifo_drain M [] s = s"
| "fifo_drain M (b # bs) s = fifo_drain M bs (rx_feed_byte M b s)"

fun uart_isr :: "(safety_rx_frame, 'q) k_msgq_ops \<Rightarrow> irq_round list \<Rightarrow> rx_state \<times> 'q \<Rightarrow> rx_state \<times> 'q" where
  "uart_isr M [] s = s"
| "uart_isr M (i # is) s =
     (if \<not> irq_is_pending i then s
      else if irq_rx_ready i then uart_isr M is (fifo_drain M (uart_fifo i) s)
      else s)"

subsection \<open>Specification\<close>

text \<open>The invariant of the assembler: what the buffer holds and how much is still to come.\<close>

fun rx_inv :: "rx_state \<Rightarrow> bool" where
  "rx_inv r \<longleftrightarrow> length (buf r) = SAFETY_MAX_FRAME_SIZE \<and> (case phase r of
     RX_HUNT_MAGIC_LO \<Rightarrow> True
   | RX_HUNT_MAGIC_HI \<Rightarrow> got r = 1 \<and> buf r ! 0 = MAGIC_LO
   | RX_HEADER \<Rightarrow> 2 \<le> got r \<and> 0 < need r \<and> got r + need r = SAFETY_HEADER_SIZE
       \<and> buf r ! 0 = MAGIC_LO \<and> buf r ! 1 = MAGIC_HI
   | RX_PAYLOAD \<Rightarrow> SAFETY_HEADER_SIZE \<le> got r \<and> 0 < need r
       \<and> got r + need r = SAFETY_HEADER_SIZE + unat (payload_len r)
       \<and> unat (payload_len r) \<le> SAFETY_MAX_PAYLOAD \<and> payload_len r = payload_length (header_of_bytes (buf r))
       \<and> buf r ! 0 = MAGIC_LO \<and> buf r ! 1 = MAGIC_HI)"

declare rx_inv.simps [simp del]

text \<open>A message that was a frame on the wire.\<close>

definition rx_msg_ok :: "safety_rx_frame \<Rightarrow> bool" where
  "rx_msg_ok m \<longleftrightarrow> header_ok (rxf_hdr m) (rxf_payload m)
     \<and> checksum (rxf_hdr m) = safety_crc32 (header_bytes ((rxf_hdr m)\<lparr>checksum := 0\<rparr>) @ rxf_payload m)"

definition msg_of :: "SafetyFrameHeader \<Rightarrow> bytes \<Rightarrow> safety_rx_frame" where
  "msg_of h p = \<lparr>rxf_hdr = h\<lparr>checksum := safety_crc32 (header_bytes (h\<lparr>checksum := 0\<rparr>) @ p)\<rparr>, rxf_payload = p\<rparr>"

text \<open>Noise in which the two magic bytes never follow each other.\<close>

fun no_magic :: "bytes \<Rightarrow> bool" where
  "no_magic (a # b # bs) \<longleftrightarrow> \<not> (a = MAGIC_LO \<and> b = MAGIC_HI) \<and> no_magic (b # bs)"
| "no_magic _ \<longleftrightarrow> True"

definition hunting :: "rx_state \<Rightarrow> bool" where
  "hunting r \<longleftrightarrow> phase r = RX_HUNT_MAGIC_LO \<or> phase r = RX_HUNT_MAGIC_HI"

text \<open>A stream of frames, each preceded by noise.\<close>

definition noisy_stream :: "(bytes \<times> SafetyFrameHeader \<times> bytes) list \<Rightarrow> bytes" where
  "noisy_stream xs = concat (map (\<lambda>(z, h, p). z @ wire_frame h p) xs)"

text \<open>The bytes one run of the interrupt handler takes in.\<close>

fun isr_bytes :: "irq_round list \<Rightarrow> bytes" where
  "isr_bytes [] = []"
| "isr_bytes (i # is) = (if irq_is_pending i \<and> irq_rx_ready i then uart_fifo i @ isr_bytes is else [])"

text \<open>An upper bound on the bytes the assembler still collects before it hunts again.\<close>

definition busy :: "rx_state \<Rightarrow> nat" where
  "busy r = (case phase r of RX_HEADER \<Rightarrow> need r + SAFETY_MAX_PAYLOAD | RX_PAYLOAD \<Rightarrow> need r | _ \<Rightarrow> 0)"

section \<open>Lemmas\<close>

lemma magic_bytes [simp]: "MAGIC_LO = 0x46" "MAGIC_HI = 0x53"
  by (simp_all add: MAGIC_LO_def MAGIC_HI_def SAFETY_PROTO_MAGIC_def)

lemma fifo_drain_append: "fifo_drain M (as @ bs) s = fifo_drain M bs (fifo_drain M as s)"
  by (induction as arbitrary: s) simp_all

lemma rx_reset_inv: "length (buf r) = SAFETY_MAX_FRAME_SIZE \<Longrightarrow> rx_inv (rx_reset r)"
  by (simp add: rx_inv.simps rx_reset_def)

lemma frame_complete_fst [simp]: "fst (frame_complete M (r, q)) = rx_reset r"
  by (simp add: frame_complete_def)

lemma feed_inv:
  assumes "rx_inv r"
  shows "rx_inv (fst (rx_feed_byte M b (r, q)))"
proof (cases "phase r")
  case RX_HEADER
  then have r: "length (buf r) = 272" "2 \<le> got r" "0 < need r" "got r + need r = 16" "buf r ! 0 = 0x46" "buf r ! 1 = 0x53"
    using assms by (simp_all add: rx_inv.simps proto_const)
  have "header_of_bytes (take 16 bs) = header_of_bytes bs" if "length bs = 272" for bs :: bytes
    using that by (intro hdr.dec_take) simp
  moreover have "0 < unat w \<longleftrightarrow> w \<noteq> 0" for w :: u16 by (simp add: unat_gt_0)
  ultimately show ?thesis using r RX_HEADER
    by (auto simp: rx_feed_byte_def rx_inv.simps rx_reset_def proto_const Let_def)
next
  case RX_PAYLOAD
  then have r: "length (buf r) = 272" "16 \<le> got r" "0 < need r" "got r + need r = 16 + unat (payload_len r)"
    "unat (payload_len r) \<le> 256" "payload_len r = payload_length (header_of_bytes (buf r))"
    "buf r ! 0 = 0x46" "buf r ! 1 = 0x53"
    using assms by (auto simp: rx_inv.simps proto_const)
  have "header_of_bytes ((buf r)[got r := b]) = header_of_bytes (buf r)"
    using r(1,2) hdr.dec_take [of "buf r"] hdr.dec_take [of "(buf r)[got r := b]"] by simp
  then show ?thesis using r RX_PAYLOAD
    by (auto simp: rx_feed_byte_def rx_inv.simps rx_reset_def proto_const Let_def)
qed (use assms in \<open>auto simp: rx_feed_byte_def rx_inv.simps rx_reset_def proto_const Let_def\<close>)

lemma drain_inv: "rx_inv r \<Longrightarrow> rx_inv (fst (fifo_drain M bs (r, q)))"
proof (induction bs arbitrary: r q)
  case (Cons b bs)
  then show ?case using feed_inv [of r M b q] by (cases "rx_feed_byte M b (r, q)") simp
qed simp

text \<open>Bytes that do not complete the current part are appended to what was collected.\<close>

lemma drain_collect:
  assumes "phase r = RX_HEADER \<or> phase r = RX_PAYLOAD" "length bs < need r"
    "got r + need r \<le> length (buf r)" "length (buf r) = 272"
  obtains r' where "fifo_drain M bs (r, q) = (r', q)" "phase r' = phase r" "got r' = got r + length bs"
    "need r' = need r - length bs" "payload_len r' = payload_len r" "length (buf r') = 272"
    "take (got r') (buf r') = take (got r) (buf r) @ bs"
proof -
  have "\<exists>r'. fifo_drain M bs (r, q) = (r', q) \<and> phase r' = phase r \<and> got r' = got r + length bs
    \<and> need r' = need r - length bs \<and> payload_len r' = payload_len r \<and> length (buf r') = 272
    \<and> take (got r') (buf r') = take (got r) (buf r) @ bs"
    using assms
  proof (induction bs arbitrary: r)
    case (Cons b bs)
    let ?r = "r\<lparr>buf := (buf r)[got r := b], got := got r + 1, need := need r - 1\<rparr>"
    have f: "rx_feed_byte M b (r, q) = (?r, q)"
      using Cons.prems(1,2) by (auto simp: rx_feed_byte_def Let_def)
    have "take (got ?r) (buf ?r) = take (got r) (buf r) @ [b]"
      using Cons.prems by (simp add: take_Suc_conv_app_nth)
    moreover obtain r' where "fifo_drain M bs (?r, q) = (r', q)" "phase r' = phase ?r" "got r' = got ?r + length bs"
      "need r' = need ?r - length bs" "payload_len r' = payload_len ?r" "length (buf r') = 272"
      "take (got r') (buf r') = take (got ?r) (buf ?r) @ bs"
      using Cons.IH [of ?r] Cons.prems less_diff_conv [of "length bs" "need r" 1] by auto
    ultimately show ?case using f by (intro exI [of _ r']) simp
  qed simp
  then show thesis using that by blast
qed

lemma header_bytes_magic:
  assumes "magic h = SAFETY_PROTO_MAGIC"
  obtains t where "header_bytes h = 0x46 # 0x53 # t" "length t = 14"
proof -
  have "le16 (magic h) = [0x46, 0x53]" using assms by (simp add: le16_def SAFETY_PROTO_MAGIC_def)
  then have "header_bytes h = 0x46 # 0x53 # drop 2 (header_bytes h)" by (simp add: header_bytes_def)
  then show thesis using that [of "drop 2 (header_bytes h)"] hdr.length_enc by simp
qed

text \<open>From a hunting state, the header of a frame is collected in full.\<close>

lemma feed_header:
  assumes "hunting r" "rx_inv r" "magic h = SAFETY_PROTO_MAGIC" "unat (payload_length h) \<le> SAFETY_MAX_PAYLOAD"
  obtains r' where "fifo_drain M (header_bytes h) (r, q) =
      (if payload_length h = 0 then frame_complete M (r', q)
       else (r'\<lparr>need := unat (payload_length h), phase := RX_PAYLOAD\<rparr>, q))"
    "got r' = 16" "payload_len r' = payload_length h" "length (buf r') = 272" "take 16 (buf r') = header_bytes h"
proof -
  obtain t where t: "header_bytes h = 0x46 # 0x53 # t" "length t = 14" by (rule header_bytes_magic [OF assms(3)])
  define r2 where "r2 = r\<lparr>buf := ((buf r)[0 := 0x46])[1 := 0x53], got := 2, need := 14, phase := RX_HEADER\<rparr>"
  have len: "length (buf r) = 272" using assms(2) by (simp add: rx_inv.simps proto_const)
  have "rx_feed_byte M 0x53 (rx_feed_byte M 0x46 (r, q)) = (r2, q)"
    using assms(1) by (auto simp: hunting_def rx_feed_byte_def r2_def SAFETY_HEADER_SIZE_def Let_def)
  moreover have "take 2 (buf r2) = [0x46, 0x53]"
    using len by (cases "buf r"; cases "tl (buf r)") (auto simp: r2_def numeral_2_eq_2)
  moreover have "t \<noteq> []" using t(2) by auto
  then have tl: "butlast t @ [last t] = t" "length (butlast t) = 13" using t(2) by simp_all
  moreover have "length (buf r2) = 272" using len by (simp add: r2_def)
  ultimately obtain r3 where r3: "fifo_drain M (0x46 # 0x53 # butlast t) (r, q) = (r3, q)" "phase r3 = RX_HEADER"
    "got r3 = 15" "need r3 = 1" "length (buf r3) = 272" "take 15 (buf r3) = 0x46 # 0x53 # butlast t"
    using drain_collect [of r2 "butlast t" M q] by (auto simp: r2_def)
  define r4 where "r4 = r3\<lparr>buf := (buf r3)[15 := last t], got := 16, need := 0, payload_len := payload_length h\<rparr>"
  have b4: "take 16 (buf r4) = header_bytes h"
    using r3(5,6) tl(1) t(1) by (simp add: r4_def take_Suc_conv_app_nth [of 15, simplified])
  then have h4: "header_of_bytes (take 16 ((buf r3)[15 := last t])) = h" by (simp add: r4_def)
  have "fifo_drain M (header_bytes h) (r, q) = rx_feed_byte M (last t) (r3, q)"
    using fifo_drain_append [of M "0x46 # 0x53 # butlast t" "[last t]" "(r, q)"] r3(1) tl(1) t(1) by simp
  also have "\<dots> = (if payload_length h = 0 then frame_complete M (r4, q)
       else (r4\<lparr>need := unat (payload_length h), phase := RX_PAYLOAD\<rparr>, q))"
    using r3 h4 assms(4) by (simp add: rx_feed_byte_def r4_def SAFETY_HEADER_SIZE_def Let_def)
  finally show thesis using that [of r4] b4 r3(5) by (simp add: r4_def)
qed

lemma complete_wire_frame:
  assumes "header_ok h p" "take (16 + length p) (buf r) = wire_frame h p" "got r = 16 + length p"
    "payload_len r = payload_length h"
  shows "frame_complete M (r, q) = (rx_reset r, fst (k_msgq_put M q (msg_of h p)))"
proof -
  have "take 16 (buf r) = take 16 (wire_frame h p)" using assms(2) [symmetric] by (simp add: min_def)
  then have h: "header_of_bytes (take 16 (buf r)) = rxf_hdr (msg_of h p)"
    using hdr.dec_take [of "wire_frame h p"] by (simp add: msg_of_def)
  have "take (length p) (drop 16 (buf r)) = drop 16 (take (16 + length p) (buf r))"
    by (simp add: take_drop add.commute)
  then have pl: "take (length p) (drop 16 (buf r)) = p" using assms(2) by simp
  have n: "unat (payload_length h) = length p" using assms(1) by (simp add: header_ok_def)
  have "payload_length h = 0 \<longleftrightarrow> p = []" using n by (metis length_0_conv unat_eq_0)
  then show ?thesis using assms h pl n
    by (auto simp: frame_complete_def SAFETY_HEADER_SIZE_def msg_of_def)
qed

lemma feed_frame:
  assumes "hunting r" "rx_inv r" "header_ok h p"
  obtains r' where "fifo_drain M (wire_frame h p) (r, q) = (r', fst (k_msgq_put M q (msg_of h p)))"
    "phase r' = RX_HUNT_MAGIC_LO" "rx_inv r'"
proof -
  let ?h = "rxf_hdr (msg_of h p)"
  have w: "wire_frame h p = header_bytes ?h @ p" by (simp add: wire_frame_def msg_of_def)
  have hd: "magic ?h = SAFETY_PROTO_MAGIC" "unat (payload_length ?h) \<le> SAFETY_MAX_PAYLOAD"
    "payload_length ?h = payload_length h" and n: "unat (payload_length h) = length p" "length p \<le> 256"
    using assms(3) by (auto simp: header_ok_def msg_of_def proto_const)
  obtain r1 where r1: "fifo_drain M (header_bytes ?h) (r, q) =
      (if payload_length h = 0 then frame_complete M (r1, q)
       else (r1\<lparr>need := unat (payload_length h), phase := RX_PAYLOAD\<rparr>, q))"
    "got r1 = 16" "payload_len r1 = payload_length h" "length (buf r1) = 272" "take 16 (buf r1) = header_bytes ?h"
    by (rule feed_header [OF assms(1,2) hd(1,2), of M q, unfolded hd(3)])
  have "\<exists>r2. fifo_drain M (wire_frame h p) (r, q) = frame_complete M (r2, q) \<and> got r2 = 16 + length p
     \<and> payload_len r2 = payload_length h \<and> take (16 + length p) (buf r2) = wire_frame h p \<and> length (buf r2) = 272"
  proof (cases "p = []")
    case True
    then show ?thesis using r1 w n(1) unat_eq_0 [of "payload_length h"] by (intro exI [of _ r1]) simp
  next
    case False
    let ?r = "r1\<lparr>need := unat (payload_length h), phase := RX_PAYLOAD\<rparr>"
    have bl: "butlast p @ [last p] = p" "length (butlast p) < length p" using False by simp_all
    have last1: "length p - (length p - Suc 0) = Suc 0" using False by (cases p) auto
    have pre: "phase ?r = RX_HEADER \<or> phase ?r = RX_PAYLOAD" "length (butlast p) < need ?r"
      "got ?r + need ?r \<le> length (buf ?r)" "length (buf ?r) = 272" using r1 n bl by simp_all
    obtain r3 where c: "fifo_drain M (butlast p) (?r, q) = (r3, q)" "phase r3 = phase ?r"
      "got r3 = got ?r + length (butlast p)" "need r3 = need ?r - length (butlast p)" "payload_len r3 = payload_len ?r"
      "length (buf r3) = 272" "take (got r3) (buf r3) = take (got ?r) (buf ?r) @ butlast p"
      by (rule drain_collect [OF pre, where q = q and M = M])
    then have r3: "fifo_drain M (butlast p) (?r, q) = (r3, q)" "phase r3 = RX_PAYLOAD"
      "got r3 = 16 + (length p - 1)" "need r3 = 1" "payload_len r3 = payload_length h" "length (buf r3) = 272"
      "take (got r3) (buf r3) = header_bytes ?h @ butlast p"
      using r1(2,3,5) n(1) last1 by simp_all
    let ?r2 = "r3\<lparr>buf := (buf r3)[got r3 := last p], got := got r3 + 1, need := 0\<rparr>"
    have "payload_length h \<noteq> 0" using n(1) False by auto
    then have "fifo_drain M (wire_frame h p) (r, q) = rx_feed_byte M (last p) (r3, q)"
      using r1(1) r3(1) fifo_drain_append [of M "header_bytes ?h @ butlast p" "[last p]" "(r, q)"] bl(1) w
      by (simp add: fifo_drain_append)
    also have "\<dots> = frame_complete M (?r2, q)" using r3(2,4) by (simp add: rx_feed_byte_def Let_def)
    finally have 1: "fifo_drain M (wire_frame h p) (r, q) = frame_complete M (?r2, q)" .
    have g: "got r3 + 1 = 16 + length p" "got r3 < length (buf r3)" using r3(3,6) n(2) False
      by (auto simp: Suc_diff_Suc less_imp_diff_less)
    have "take (got r3 + 1) (buf ?r2) = header_bytes ?h @ butlast p @ [last p]"
      using r3(7) g(2) by (simp add: take_Suc_conv_app_nth)
    then show ?thesis using 1 g r3(5,6) w bl(1) by (intro exI [of _ ?r2]) simp
  qed
  then obtain r2 where "fifo_drain M (wire_frame h p) (r, q) = frame_complete M (r2, q)" "got r2 = 16 + length p"
     "payload_len r2 = payload_length h" "take (16 + length p) (buf r2) = wire_frame h p" "length (buf r2) = 272" by blast
  then show thesis
    using that [of "rx_reset r2"] complete_wire_frame [OF assms(3), of r2 M q] rx_reset_inv [of r2]
    by (simp add: rx_reset_def proto_const)
qed

lemma no_magic_tl: "no_magic (b # bs) \<Longrightarrow> no_magic bs"
  by (cases bs) auto

lemma drain_noise:
  assumes "hunting r" "rx_inv r" "no_magic ((if phase r = RX_HUNT_MAGIC_HI then [0x46] else []) @ bs)"
  shows "\<exists>r'. fifo_drain M bs (r, q) = (r', q) \<and> hunting r' \<and> rx_inv r'"
  using assms
proof (induction bs arbitrary: r)
  case (Cons b bs)
  define r' where "r' = fst (rx_feed_byte M b (r, q))"
  have r': "rx_feed_byte M b (r, q) = (r', q)" "hunting r'"
    "no_magic ((if phase r' = RX_HUNT_MAGIC_HI then [0x46] else []) @ bs)"
    using Cons.prems(1,3) no_magic_tl [of b bs]
    by (auto simp: r'_def hunting_def rx_feed_byte_def rx_reset_def)
  have "rx_inv r'" using feed_inv [OF Cons.prems(2), of M b q] r'(1) by simp
  from Cons.IH [OF r'(2) this r'(3)] r'(1) show ?case by simp
qed auto

lemma take_take_append: "take n (take n xs @ ys) = take n (xs @ ys)"
  by (cases "length xs \<le> n") simp_all

context k_msgq
begin

lemma put_take:
  assumes "qok q"
  obtains q' b where "k_msgq_put M q m = (q', b)" "qok q'" "msgs q' = take depth (msgs q @ [m])"
  by (rule put_cases [OF assms, of m]) (use that in auto)

end

lemma drain_stream:
  fixes M :: "(safety_rx_frame, 'q) k_msgq_ops"
  assumes "k_msgq M msgs depth qok" "qok q" "phase r = RX_HUNT_MAGIC_LO" "rx_inv r"
    and "\<forall>(z, h, p)\<in>set xs. no_magic z \<and> header_ok h p"
  shows "\<exists>r' q'. fifo_drain M (noisy_stream xs) (r, q) = (r', q') \<and> phase r' = RX_HUNT_MAGIC_LO \<and> rx_inv r' \<and> qok q'
    \<and> msgs q' = take depth (msgs q @ map (\<lambda>(z, h, p). msg_of h p) xs)"
  using assms(2-)
proof (induction xs arbitrary: r q)
  case Nil
  then show ?case using k_msgq.bound [OF assms(1)] by (simp add: noisy_stream_def)
next
  case (Cons x xs)
  obtain z h p where x: "x = (z, h, p)" by (metis prod_cases3)
  have z: "no_magic z" "header_ok h p" using Cons.prems(4) x by auto
  obtain r1 where r1: "fifo_drain M z (r, q) = (r1, q)" "hunting r1" "rx_inv r1"
    using drain_noise [of r z M q] Cons.prems z(1) by (auto simp: hunting_def)
  obtain r2 where r2: "fifo_drain M (wire_frame h p) (r1, q) = (r2, fst (k_msgq_put M q (msg_of h p)))"
    "phase r2 = RX_HUNT_MAGIC_LO" "rx_inv r2" by (rule feed_frame [OF r1(2,3) z(2)])
  obtain q1 b where q1: "k_msgq_put M q (msg_of h p) = (q1, b)" "qok q1" "msgs q1 = take depth (msgs q @ [msg_of h p])"
    by (rule k_msgq.put_take [OF assms(1) Cons.prems(1)])
  obtain r3 q3 where "fifo_drain M (noisy_stream xs) (r2, q1) = (r3, q3)" "phase r3 = RX_HUNT_MAGIC_LO" "rx_inv r3" "qok q3"
    "msgs q3 = take depth ((msgs q @ [msg_of h p]) @ map (\<lambda>(z, h, p). msg_of h p) xs)"
    using Cons.IH [OF q1(2) r2(2,3)] Cons.prems(4) unfolding q1(3) take_take_append by auto
  then show ?case using q1(1) r1(1) r2(1) by (simp add: noisy_stream_def x fifo_drain_append)
qed

lemma uart_isr_drain: "uart_isr M is s = fifo_drain M (isr_bytes is) s"
  by (induction "is" arbitrary: s) (simp_all add: fifo_drain_append)

text \<open>Only frames that validate are put into the queue.\<close>

lemma complete_msgs:
  assumes "k_msgq M msgs depth qok" "qok q" "\<forall>m\<in>set (msgs q). rx_msg_ok m"
    and r: "got r = 16 + unat (payload_len r)" "payload_len r = payload_length (header_of_bytes (buf r))"
      "unat (payload_len r) \<le> 256" "length (buf r) = 272"
  shows "qok (snd (frame_complete M (r, q))) \<and> (\<forall>m\<in>set (msgs (snd (frame_complete M (r, q)))). rx_msg_ok m)"
proof (cases "safety_frame_validate (take (got r) (buf r)) = SAFETY_VALIDATE_OK")
  case True
  let ?f = "take (got r) (buf r)" and ?n = "unat (payload_len r)"
  let ?m = "\<lparr>rxf_hdr = header_of_bytes (take SAFETY_HEADER_SIZE (buf r)),
      rxf_payload = (if payload_len r \<noteq> 0 then take ?n (drop SAFETY_HEADER_SIZE (buf r)) else [])\<rparr>"
  have h: "header_of_bytes ?f = header_of_bytes (buf r)" "header_of_bytes (take 16 (buf r)) = header_of_bytes (buf r)"
    using r(1,4) hdr.dec_take [of ?f] hdr.dec_take [of "buf r"] by (simp_all add: min_def)
  have p: "take ?n (drop 16 ?f) = take ?n (drop 16 (buf r))" using r(1) by (simp add: drop_take)
  have "rx_msg_ok ?m"
    using validate_OK_D(2,3) [OF True] h p r(2) by (auto simp: rx_msg_ok_def SAFETY_HEADER_SIZE_def)
  moreover obtain q' b where "k_msgq_put M q ?m = (q', b)" "qok q'" "msgs q' = take depth (msgs q @ [?m])"
    by (rule k_msgq.put_take [OF assms(1,2)])
  ultimately show ?thesis using True assms(3) by (auto simp: frame_complete_def Let_def dest!: in_set_takeD)
next
  case False
  then show ?thesis using assms(2,3) by (simp add: frame_complete_def)
qed

lemma feed_msgs:
  assumes "k_msgq M msgs depth qok" "qok q" "\<forall>m\<in>set (msgs q). rx_msg_ok m" "rx_inv r"
  shows "qok (snd (rx_feed_byte M b (r, q))) \<and> (\<forall>m\<in>set (msgs (snd (rx_feed_byte M b (r, q)))). rx_msg_ok m)"
proof (cases "phase r")
  case RX_HEADER
  then have r: "length (buf r) = 272" "got r + need r = 16" "0 < need r" using assms(4) by (auto simp: rx_inv.simps proto_const)
  let ?b = "(buf r)[got r := b]"
  have h: "header_of_bytes (take 16 ?b) = header_of_bytes ?b" using r(1) by (intro hdr.dec_take) simp
  let ?r = "r\<lparr>buf := ?b, got := got r + 1, need := need r - 1, payload_len := payload_length (header_of_bytes ?b)\<rparr>"
  have "need r = 1 \<Longrightarrow> payload_length (header_of_bytes ?b) = 0 \<Longrightarrow>
      qok (snd (frame_complete M (?r, q))) \<and> (\<forall>m\<in>set (msgs (snd (frame_complete M (?r, q)))). rx_msg_ok m)"
    using r by (intro complete_msgs [OF assms(1-3)]) simp_all
  then show ?thesis using r h assms(2,3) RX_HEADER
    by (auto simp: rx_feed_byte_def SAFETY_HEADER_SIZE_def Let_def le_Suc_eq)
next
  case RX_PAYLOAD
  then have r: "length (buf r) = 272" "16 \<le> got r" "0 < need r" "got r + need r = 16 + unat (payload_len r)"
    "unat (payload_len r) \<le> 256" "payload_len r = payload_length (header_of_bytes (buf r))"
    using assms(4) by (auto simp: rx_inv.simps proto_const)
  let ?b = "(buf r)[got r := b]"
  have h: "header_of_bytes ?b = header_of_bytes (buf r)"
    using r(1,2) hdr.dec_take [of "buf r"] hdr.dec_take [of ?b] by simp
  let ?r = "r\<lparr>buf := ?b, got := got r + 1, need := need r - 1\<rparr>"
  have "need r = 1 \<Longrightarrow> qok (snd (frame_complete M (?r, q))) \<and> (\<forall>m\<in>set (msgs (snd (frame_complete M (?r, q)))). rx_msg_ok m)"
    using r h by (intro complete_msgs [OF assms(1-3)]) simp_all
  then show ?thesis using r assms(2,3) RX_PAYLOAD by (auto simp: rx_feed_byte_def Let_def le_Suc_eq)
qed (use assms(2,3) in \<open>auto simp: rx_feed_byte_def\<close>)

lemma drain_msgs:
  assumes "k_msgq M msgs depth qok"
  shows "qok q \<Longrightarrow> \<forall>m\<in>set (msgs q). rx_msg_ok m \<Longrightarrow> rx_inv r \<Longrightarrow> fifo_drain M bs (r, q) = (r', q') \<Longrightarrow>
    rx_inv r' \<and> qok q' \<and> (\<forall>m\<in>set (msgs q'). rx_msg_ok m)"
proof (induction bs arbitrary: r q)
  case (Cons b bs)
  obtain r1 q1 where "rx_feed_byte M b (r, q) = (r1, q1)" by fastforce
  then show ?case
    using Cons feed_msgs [OF assms Cons.prems(1-3), of b] feed_inv [OF Cons.prems(3), of M b q] by auto
qed simp

text \<open>A busy assembler gets nearer to hunting with every byte.\<close>

lemma busy_0: "rx_inv r \<Longrightarrow> busy r = 0 \<longleftrightarrow> hunting r"
  by (auto simp: busy_def hunting_def rx_inv.simps split: rx_phase.splits)

lemma busy_bound: "rx_inv r \<Longrightarrow> busy r \<le> 270"
  by (auto simp: busy_def rx_inv.simps proto_const split: rx_phase.splits)

lemma busy_decreases:
  assumes "rx_inv r" "\<not> hunting r"
  shows "busy (fst (rx_feed_byte M b (r, q))) < busy r"
  using assms
  by (auto simp: hunting_def busy_def rx_feed_byte_def rx_reset_def rx_inv.simps proto_const Let_def
      split: rx_phase.splits)

lemma drain_resync:
  assumes "rx_inv r" "busy r \<le> length bs"
  shows "\<exists>k\<le>busy r. hunting (fst (fifo_drain M (take k bs) (r, q)))"
  using assms
proof (induction "busy r" arbitrary: r q bs rule: less_induct)
  case less
  show ?case
  proof (cases "hunting r")
    case False
    then have "0 < busy r" using busy_0 [OF less.prems(1)] by simp
    then obtain b bs' where bs: "bs = b # bs'" using less.prems(2) by (cases bs) auto
    obtain r1 q1 where f: "rx_feed_byte M b (r, q) = (r1, q1)" by fastforce
    have "busy r1 < busy r" "rx_inv r1"
      using busy_decreases [OF less.prems(1) False, of M b q] feed_inv [OF less.prems(1), of M b q] f by simp_all
    moreover then have "\<exists>k\<le>busy r1. hunting (fst (fifo_drain M (take k bs') (r1, q1)))"
      using less.prems(2) bs by (intro less.hyps) simp_all
    ultimately obtain k where "k \<le> busy r1" "hunting (fst (fifo_drain M (take k bs') (r1, q1)))" by blast
    with f bs \<open>busy r1 < busy r\<close> show ?thesis by (intro exI [of _ "Suc k"]) simp
  qed (auto intro: exI [of _ 0])
qed

lemma rxs_init_inv: "phase rxs_init = RX_HUNT_MAGIC_LO" "rx_inv rxs_init"
  by (simp_all add: rxs_init_def rx_inv.simps)

section \<open>Properties\<close>

text \<open>C22 (frames are delivered).  Whatever way the bytes are spread over interrupts, if a freshly
  started receiver is sent a sequence of well-formed frames, each preceded by arbitrary noise in
  which the two magic bytes do not follow each other, it puts exactly these frames into the
  message queue, in order, until the queue's eight places are full, and ends up hunting.\<close>

theorem rx_delivers_frames:
  assumes "k_msgq M msgs 8 qok" and "qok q" and "msgs q = []"
    and "\<forall>(z, h, p)\<in>set xs. no_magic z \<and> header_ok h p"
    and "isr_bytes rounds = noisy_stream xs"
  shows "\<exists>r' q'. uart_isr M rounds (rxs_init, q) = (r', q') \<and> phase r' = RX_HUNT_MAGIC_LO \<and> qok q'
    \<and> msgs q' = take 8 (map (\<lambda>(z, h, p). msg_of h p) xs)"
  using drain_stream [OF assms(1,2) rxs_init_inv assms(4)] assms(3,5) by (auto simp: uart_isr_drain)

theorem rx_delivers_frames_witness:
  "\<exists>r' q'. uart_isr (list_msgq 8)
       [\<lparr>irq_is_pending = True, irq_rx_ready = True,
         uart_fifo = [0x46, 1, 2] @ wire_frame (safety_frame_init SAFETY_FRAME_COMMAND 1 0 7) []\<rparr>] (rxs_init, [])
       = (r', q') \<and> q' = [msg_of (safety_frame_init SAFETY_FRAME_COMMAND 1 0 7) []]"
  using rx_delivers_frames [OF lmsgq.k_msgq_axioms, where q = "[]"
      and xs = "[([0x46, 1, 2], safety_frame_init SAFETY_FRAME_COMMAND 1 0 7, [])]"
      and rounds = "[\<lparr>irq_is_pending = True, irq_rx_ready = True,
         uart_fifo = [0x46, 1, 2] @ wire_frame (safety_frame_init SAFETY_FRAME_COMMAND 1 0 7) []\<rparr>]"]
  by (auto simp: noisy_stream_def header_ok_def)

text \<open>Nothing else is delivered, and the buffer is never overrun.  After any bytes whatsoever,
  every message in the queue is a well-formed frame with a correct checksum, and the assembler
  satisfies its invariant; in particular, whenever it is about to store a byte, the index is
  inside the 272-byte buffer.\<close>

theorem rx_only_valid_frames:
  assumes "k_msgq M msgs depth qok" and "qok q" and "msgs q = []"
    and "uart_isr M rounds (rxs_init, q) = (r', q')"
  shows "(\<forall>m\<in>set (msgs q'). rx_msg_ok m) \<and> rx_inv r' \<and> length (buf r') = SAFETY_MAX_FRAME_SIZE
    \<and> (phase r' = RX_HEADER \<or> phase r' = RX_PAYLOAD \<longrightarrow> got r' < SAFETY_MAX_FRAME_SIZE \<and> 0 < need r')"
proof -
  have "rx_inv r' \<and> qok q' \<and> (\<forall>m\<in>set (msgs q'). rx_msg_ok m)"
    using drain_msgs [OF assms(1,2) _ rxs_init_inv(2)] assms(3,4) by (simp add: uart_isr_drain)
  then show ?thesis by (auto simp: rx_inv.simps proto_const)
qed

theorem rx_only_valid_frames_witness:
  "\<exists>r' q'. uart_isr (list_msgq 8)
       [\<lparr>irq_is_pending = True, irq_rx_ready = True, uart_fifo = [0x46, 0x53, 1, 4, 0, 0, 0, 0, 1, 2, 3, 4, 5, 6, 7, 8, 9]\<rparr>]
       (rxs_init, []) = (r', q') \<and> (\<forall>m\<in>set q'. rx_msg_ok m) \<and> rx_inv r'"
proof -
  let ?i = "[\<lparr>irq_is_pending = True, irq_rx_ready = True, uart_fifo = [0x46, 0x53, 1, 4, 0, 0, 0, 0, 1, 2, 3, 4, 5, 6, 7, 8, 9]\<rparr>]"
  obtain r' q' where e: "uart_isr (list_msgq 8) ?i (rxs_init, []) = (r', q')" by fastforce
  from rx_only_valid_frames [OF lmsgq.k_msgq_axioms _ _ e] e show ?thesis by simp
qed

text \<open>C23 (bounded resynchronisation).  From whatever state the received bytes have brought the
  assembler to, it is hunting for the next magic number again after some number of at most 270 more bytes,
  whatever those bytes are; a well-formed frame that begins there is delivered: the message
  queue holds what it held plus this frame's message, if there is room, and the assembler hunts again.\<close>

theorem rx_resynchronises:
  assumes "k_msgq M msgs depth qok" and "qok q" and "msgs q = []"
    and "fifo_drain M before (rxs_init, q) = (r, q')" and "270 \<le> length after"
  shows "\<exists>k\<le>270. \<exists>r1 q1. fifo_drain M (take k after) (r, q') = (r1, q1) \<and> hunting r1
    \<and> (\<forall>h p. header_ok h p \<longrightarrow> (\<exists>r2 q2. fifo_drain M (take k after @ wire_frame h p) (r, q') = (r2, q2) \<and> hunting r2
         \<and> msgs q2 = (if length (msgs q1) < depth then msgs q1 @ [msg_of h p] else msgs q1)))"
proof -
  have r: "rx_inv r" "qok q'" "\<forall>m\<in>set (msgs q'). rx_msg_ok m"
    using drain_msgs [OF assms(1,2) _ rxs_init_inv(2), of before] assms(3,4) by simp_all
  obtain k where k: "k \<le> 270" "hunting (fst (fifo_drain M (take k after) (r, q')))"
    using drain_resync [OF r(1), of "after" M q'] busy_bound [OF r(1)] assms(5) by (meson order.trans)
  obtain r1 q1 where 1: "fifo_drain M (take k after) (r, q') = (r1, q1)" by fastforce
  have inv: "rx_inv r1" "qok q1" using drain_msgs [OF assms(1) r(2,3,1), of "take k after"] 1 by simp_all
  have "\<exists>r2 q2. fifo_drain M (take k after @ wire_frame h p) (r, q') = (r2, q2) \<and> hunting r2
         \<and> msgs q2 = (if length (msgs q1) < depth then msgs q1 @ [msg_of h p] else msgs q1)" if ok: "header_ok h p" for h p
  proof -
    have "hunting r1" using k(2) 1 by simp
    then obtain r2 where "fifo_drain M (wire_frame h p) (r1, q1) = (r2, fst (k_msgq_put M q1 (msg_of h p)))"
      "phase r2 = RX_HUNT_MAGIC_LO" by (rule feed_frame [OF _ inv(1) ok])
    moreover obtain q2 b where "k_msgq_put M q1 (msg_of h p) = (q2, b)" "msgs q2 = take depth (msgs q1 @ [msg_of h p])"
      by (rule k_msgq.put_take [OF assms(1) inv(2)])
    ultimately show ?thesis using 1 k_msgq.bound [OF assms(1) inv(2)]
      by (auto simp: fifo_drain_append hunting_def)
  qed
  moreover have "hunting r1" using k(2) 1 by simp
  ultimately show ?thesis using k(1) 1 by blast
qed

theorem rx_resynchronises_witness:
  "\<exists>k\<le>270. \<exists>r2 q2. fifo_drain (list_msgq 8)
       (take k (replicate 270 0) @ wire_frame (safety_frame_init SAFETY_FRAME_TELEMETRY 5 0 0) [])
       (fifo_drain (list_msgq 8) [0x46, 0x53, 1] (rxs_init, [])) = (r2, q2) \<and> hunting r2"
proof -
  have "header_ok (safety_frame_init SAFETY_FRAME_TELEMETRY 5 0 0) []" by (simp add: header_ok_def proto_const)
  then show ?thesis
    using rx_resynchronises [OF lmsgq.k_msgq_axioms [of 8] _ _ prod.collapse [symmetric], where q = "[]" and
        before = "[0x46, 0x53, 1]" and after = "replicate 270 0"]
    by (simp del: fifo_drain.simps) blast
qed

end
