(* ===== verification/Firmware.thy ===== *)
theory Firmware
  imports Firmware_Rx
begin

text \<open>
  The rest of the co-processor firmware: the shared fault state (\<open>safety_app.h\<close>), sending frames
  (\<open>safety_protocol.c\<close>), the command handler, the heartbeat, telemetry and fault monitor tasks and the
  start-up (\<open>main.c\<close>).  A task is an endless loop; its definition is one turn of the loop, with the
  task's local variables passed through, returning how long the task then sleeps.  Atomic counters
  are 64-bit words, the width of \<open>atomic_t\<close> on the 64-bit target.  Bytes put out by \<open>uart_poll_out\<close>
  are appended to \<open>uart_tx\<close>.
\<close>

section \<open>Definitions\<close>

named_theorems fw_const "constants of the firmware"

definition SAFETY_PRIO_HEARTBEAT :: int where [fw_const]: "SAFETY_PRIO_HEARTBEAT = 4"
definition SAFETY_PRIO_COMMAND :: int where [fw_const]: "SAFETY_PRIO_COMMAND = 5"
definition SAFETY_PRIO_FAULT :: int where [fw_const]: "SAFETY_PRIO_FAULT = 6"
definition SAFETY_PRIO_TELEMETRY :: int where [fw_const]: "SAFETY_PRIO_TELEMETRY = 7"
definition SAFETY_CPU_HEARTBEAT :: int where [fw_const]: "SAFETY_CPU_HEARTBEAT = 0"
definition SAFETY_CPU_TELEMETRY :: int where [fw_const]: "SAFETY_CPU_TELEMETRY = 1"
definition SAFETY_DEFAULT_HEARTBEAT_MS :: u32 where [fw_const]: "SAFETY_DEFAULT_HEARTBEAT_MS = 100"
definition SAFETY_TELEMETRY_PERIOD_MS :: u32 where [fw_const]: "SAFETY_TELEMETRY_PERIOD_MS = 250"
definition SAFETY_FAULT_SCAN_MS :: u32 where [fw_const]: "SAFETY_FAULT_SCAN_MS = 100"

type_synonym atomic_t = u64

record safety_fault_state =
  inject_task_hang :: atomic_t
  inject_checksum_error :: atomic_t
  inject_critical_fault :: atomic_t
  fs_fault_count :: atomic_t
  in_safe_mode :: atomic_t
  heartbeat_interval_ms :: atomic_t

text \<open>The whole state of the firmware: fault state, sequence counter, transmit buffer and output, and
  the receiver with its queue.\<close>

record 'q firmware =
  g_fault_state :: safety_fault_state
  tx_sequence :: atomic_t
  frame_buf :: bytes
  uart_tx :: bytes
  rxs :: rx_state
  g_rx_msgq :: 'q

text \<open>Clock readings, one per call of \<open>k_uptime_get\<close>, and whether the UART device is ready.\<close>

record fw_env =
  k_uptime_get :: "nat \<Rightarrow> u64"
  device_is_ready :: bool

definition fw_later :: "fw_env \<Rightarrow> nat \<Rightarrow> fw_env" where
  "fw_later e k = e\<lparr>k_uptime_get := (\<lambda>i. k_uptime_get e (k + i))\<rparr>"

definition safety_state_init :: safety_fault_state where
  "safety_state_init = \<lparr>inject_task_hang = 0, inject_checksum_error = 0, inject_critical_fault = 0,
     fs_fault_count = 0, in_safe_mode = 0, heartbeat_interval_ms = ucast SAFETY_DEFAULT_HEARTBEAT_MS\<rparr>"

subsection \<open>Sending\<close>

definition fw_now_ms :: "fw_env \<Rightarrow> nat \<Rightarrow> u32" where
  "fw_now_ms e i = ucast (k_uptime_get e i)"

definition safety_tx_seq_peek :: "'q firmware \<Rightarrow> u32" where
  "safety_tx_seq_peek s = ucast (tx_sequence s)"

fun poll_out_loop :: "bytes \<Rightarrow> nat \<Rightarrow> nat \<Rightarrow> bytes \<Rightarrow> bytes" where
  "poll_out_loop fb i 0 out = out"
| "poll_out_loop fb i (Suc n) out = poll_out_loop fb (i + 1) n (out @ [fb ! i])"

definition safety_send_frame :: "fw_env \<Rightarrow> u8 \<Rightarrow> bytes option \<Rightarrow> u16 \<Rightarrow> 'q firmware
    \<Rightarrow> nat result \<times> 'q firmware" where
  "safety_send_frame e ty payload plen s =
     (if SAFETY_MAX_PAYLOAD < unat plen then (Inl EINVAL, s)
      else if \<not> device_is_ready e then (Inl ENODEV, s)
      else let seq = ucast (tx_sequence s) :: u16;
               s = s\<lparr>tx_sequence := tx_sequence s + 1\<rparr>;
               hdr = safety_frame_init ty seq plen (fw_now_ms e 0);
               (total, hdr, fb) = safety_frame_pack (frame_buf s) hdr payload;
               s = s\<lparr>frame_buf := fb\<rparr>
           in if total = 0 then (Inl EINVAL, s)
              else (Inr total, s\<lparr>uart_tx := poll_out_loop (frame_buf s) 0 total (uart_tx s)\<rparr>))"

subsection \<open>Command handler\<close>

definition send_ack :: "fw_env \<Rightarrow> u16 \<Rightarrow> 'q firmware \<Rightarrow> 'q firmware" where
  "send_ack e acked_seq s =
     snd (safety_send_frame e SAFETY_FRAME_ACK
       (Some (ack_bytes \<lparr>acked_sequence_id = acked_seq, ack_reserved = 0\<rparr>)) 4 s)"

definition send_nack :: "fw_env \<Rightarrow> u16 \<Rightarrow> u8 \<Rightarrow> 'q firmware \<Rightarrow> 'q firmware" where
  "send_nack e nacked_seq rsn s =
     snd (safety_send_frame e SAFETY_FRAME_NACK
       (Some (nack_bytes \<lparr>nacked_sequence_id = nacked_seq, reason = rsn, nack_reserved = 0\<rparr>)) 4 s)"

definition reply_status :: "fw_env \<Rightarrow> 'q firmware \<Rightarrow> 'q firmware" where
  "reply_status e s =
     (let tm = \<lparr>temperature_c_x10 = 250, voltage_mv = 3300, cpu_load_pct = 25,
                tm_fault_count = ucast (fs_fault_count (g_fault_state s))\<rparr>
      in snd (safety_send_frame e SAFETY_FRAME_TELEMETRY (Some (telemetry_bytes tm)) 8 s))"

definition apply_inject :: "u8 \<Rightarrow> 'q firmware \<Rightarrow> bool \<times> 'q firmware" where
  "apply_inject ft s =
     (let g = g_fault_state s in
      if ft = SAFETY_FAULT_TASK_HANG then (True, s\<lparr>g_fault_state := g\<lparr>inject_task_hang := 1\<rparr>\<rparr>)
      else if ft = SAFETY_FAULT_CHECKSUM_ERROR then (True, s\<lparr>g_fault_state := g\<lparr>inject_checksum_error := 1\<rparr>\<rparr>)
      else if ft = SAFETY_FAULT_CRITICAL then (True, s\<lparr>g_fault_state := g\<lparr>inject_critical_fault := 1\<rparr>\<rparr>)
      else (False, s))"

definition clear_all_injects :: "'q firmware \<Rightarrow> 'q firmware" where
  "clear_all_injects s = s\<lparr>g_fault_state := (g_fault_state s)\<lparr>inject_task_hang := 0,
     inject_checksum_error := 0, inject_critical_fault := 0\<rparr>\<rparr>"

definition handle_command :: "fw_env \<Rightarrow> safety_rx_frame \<Rightarrow> 'q firmware \<Rightarrow> 'q firmware" where
  "handle_command e frame s =
     (let seq = sequence_id (rxf_hdr frame) in
      if payload_length (rxf_hdr frame) \<noteq> 8 then send_nack e seq SAFETY_NACK_PAYLOAD s
      else let cmd = command_of_bytes (take 8 (rxf_payload frame)) in
      if command cmd = SAFETY_CMD_GET_STATUS then send_ack (fw_later e 1) seq (reply_status e s)
      else if command cmd = SAFETY_CMD_INJECT_FAULT then
        (case apply_inject (arg8 cmd) s of (known, s) \<Rightarrow>
           if \<not> known then send_nack e seq SAFETY_NACK_PAYLOAD s else send_ack e seq s)
      else if command cmd = SAFETY_CMD_RESET_FAULT_STATE then
        let s = clear_all_injects s;
            s = s\<lparr>g_fault_state := (g_fault_state s)\<lparr>fs_fault_count := 0\<rparr>\<rparr>;
            s = s\<lparr>g_fault_state := (g_fault_state s)\<lparr>in_safe_mode := 0\<rparr>\<rparr>
        in send_ack e seq s
      else if command cmd = SAFETY_CMD_ENTER_SAFE_MODE then
        send_ack e seq (s\<lparr>g_fault_state := (g_fault_state s)\<lparr>in_safe_mode := 1\<rparr>\<rparr>)
      else if command cmd = SAFETY_CMD_REQUEST_RECOVERY then
        let s = clear_all_injects s;
            s = s\<lparr>g_fault_state := (g_fault_state s)\<lparr>in_safe_mode := 0\<rparr>\<rparr>;
            rr = \<lparr>recovered = 1, new_state = 0, rr_reserved = 0, recovery_uptime_ms = fw_now_ms e 0\<rparr>;
            s = snd (safety_send_frame (fw_later e 1) SAFETY_FRAME_RECOVERY_REPORT
                       (Some (recovery_report_bytes rr)) 8 s)
        in send_ack (fw_later e 2) seq s
      else send_nack e seq SAFETY_NACK_UNKNOWN_TYPE s)"

text \<open>One turn of \<open>command_handler_task_entry\<close>; it blocks, \<open>None\<close>, while the queue is empty.\<close>

definition command_handler_task :: "(safety_rx_frame, 'q) k_msgq_ops \<Rightarrow> fw_env \<Rightarrow> 'q firmware
    \<Rightarrow> 'q firmware option" where
  "command_handler_task M e s = (case k_msgq_get M (g_rx_msgq s) of
     None \<Rightarrow> None
   | Some (frame, q) \<Rightarrow>
       let s = s\<lparr>g_rx_msgq := q\<rparr> in
       if frame_type (rxf_hdr frame) = SAFETY_FRAME_COMMAND then Some (handle_command e frame s)
       else Some (send_nack e (sequence_id (rxf_hdr frame)) SAFETY_NACK_UNKNOWN_TYPE s))"

subsection \<open>Periodic tasks\<close>

definition heartbeat_task :: "fw_env \<Rightarrow> u32 \<Rightarrow> 'q firmware \<Rightarrow> u32 \<times> u32 \<times> 'q firmware" where
  "heartbeat_task e beat s =
     (let interval = ucast (heartbeat_interval_ms (g_fault_state s));
          interval = (if interval = 0 then SAFETY_DEFAULT_HEARTBEAT_MS else interval);
          hang = (inject_task_hang (g_fault_state s) \<noteq> 0);
          safe = (in_safe_mode (g_fault_state s) \<noteq> 0)
      in if \<not> hang \<and> \<not> safe
         then let hb = \<lparr>uptime_ms = fw_now_ms e 0, beat_seq = beat\<rparr>
              in (interval, beat + 1,
                  snd (safety_send_frame (fw_later e 1) SAFETY_FRAME_HEARTBEAT (Some (heartbeat_bytes hb)) 8 s))
         else (interval, beat, s))"

definition TEMP_BASE_X10 :: int where [fw_const]: "TEMP_BASE_X10 = 250"
definition TEMP_SWING_X10 :: u32 where [fw_const]: "TEMP_SWING_X10 = 150"
definition VOLTAGE_NOMINAL :: u16 where [fw_const]: "VOLTAGE_NOMINAL = 3300"

definition telemetry_payload :: "u32 \<Rightarrow> 'q firmware \<Rightarrow> SafetyTelemetryPayload" where
  "telemetry_payload tick s =
     (let ph = tick mod 20;
          delta = (if ph < 10 then sint (ph * (TEMP_SWING_X10 div 10))
                   else sint ((20 - ph) * (TEMP_SWING_X10 div 10)))
      in \<lparr>temperature_c_x10 = word_of_int (TEMP_BASE_X10 + delta), voltage_mv = VOLTAGE_NOMINAL,
          cpu_load_pct = ucast (20 + tick mod 30),
          tm_fault_count = ucast (fs_fault_count (g_fault_state s))\<rparr>)"

definition telemetry_task :: "fw_env \<Rightarrow> u32 \<Rightarrow> 'q firmware \<Rightarrow> u32 \<times> u32 \<times> 'q firmware" where
  "telemetry_task e tick s =
     (let safe = (in_safe_mode (g_fault_state s) \<noteq> 0);
          s = (if \<not> safe
               then snd (safety_send_frame e SAFETY_FRAME_TELEMETRY
                      (Some (telemetry_bytes (telemetry_payload tick s))) 8 s)
               else s)
      in (SAFETY_TELEMETRY_PERIOD_MS, tick + 1, s))"

definition SEV_WARN :: u8 where [fw_const]: "SEV_WARN = 1"
definition SEV_CRITICAL :: u8 where [fw_const]: "SEV_CRITICAL = 2"

definition emit_fault :: "fw_env \<Rightarrow> u8 \<Rightarrow> u8 \<Rightarrow> u16 \<Rightarrow> 'q firmware \<Rightarrow> 'q firmware" where
  "emit_fault e ft sev detail s =
     (let ev = \<lparr>fe_fault_type = ft, severity = sev, detail_code = detail, fault_uptime_ms = fw_now_ms e 0\<rparr>;
          s = s\<lparr>g_fault_state := (g_fault_state s)\<lparr>fs_fault_count := fs_fault_count (g_fault_state s) + 1\<rparr>\<rparr>
      in snd (safety_send_frame (fw_later e 1) SAFETY_FRAME_FAULT_EVENT (Some (fault_event_bytes ev)) 8 s))"

definition fault_monitor_task :: "fw_env \<Rightarrow> bool \<times> bool \<Rightarrow> 'q firmware \<Rightarrow> u32 \<times> (bool \<times> bool) \<times> 'q firmware" where
  "fault_monitor_task e = (\<lambda>(prev_checksum, prev_critical) s.
     let chk = (inject_checksum_error (g_fault_state s) \<noteq> 0);
         critical = (inject_critical_fault (g_fault_state s) \<noteq> 0);
         s = (if chk \<and> \<not> prev_checksum then emit_fault e SAFETY_FAULT_CHECKSUM_ERROR SEV_WARN 2 s else s);
         s = (if critical \<and> \<not> prev_critical
              then let s = emit_fault (fw_later e 2) SAFETY_FAULT_CRITICAL SEV_CRITICAL 3 s
                   in s\<lparr>g_fault_state := (g_fault_state s)\<lparr>in_safe_mode := 1\<rparr>\<rparr>
              else s)
     in (SAFETY_FAULT_SCAN_MS, (chk, critical), s))"

subsection \<open>Start-up\<close>

datatype fw_task = Heartbeat | Telemetry | Command | Fault_monitor

text \<open>What \<open>spawn_pinned\<close> does to a thread, in order.\<close>

datatype thread_call = Create fw_task int | Name_set fw_task string | Cpu_mask_clear fw_task
  | Cpu_mask_enable fw_task int | Start fw_task

definition spawn_pinned :: "fw_task \<Rightarrow> int \<Rightarrow> int \<Rightarrow> string \<Rightarrow> thread_call list" where
  "spawn_pinned t prio cpu name =
     [Create t prio, Name_set t name]
     @ (if 0 \<le> cpu then [Cpu_mask_clear t, Cpu_mask_enable t cpu] else [])
     @ [Start t]"

text \<open>\<open>uart_irq_callback_set\<close> succeeds or fails with an error, two of which are ignored.\<close>

definition safety_uart_init :: "fw_env \<Rightarrow> errno option \<Rightarrow> 'q firmware \<Rightarrow> unit result \<times> 'q firmware" where
  "safety_uart_init e cb_set s =
     (if \<not> device_is_ready e then (Inl ENODEV, s)
      else let s = s\<lparr>rxs := rx_reset (rxs s)\<rparr> in
      case cb_set of
        Some err \<Rightarrow> if err \<noteq> ENOSYS \<and> err \<noteq> ENOTSUP then (Inl err, s) else (Inr (), s)
      | None \<Rightarrow> (Inr (), s))"

definition fw_main :: "fw_env \<Rightarrow> errno option \<Rightarrow> 'q firmware \<Rightarrow> int \<times> thread_call list \<times> 'q firmware" where
  "fw_main e cb_set s =
     (let s = s\<lparr>g_fault_state := safety_state_init\<rparr> in
      case safety_uart_init e cb_set s of
        (Inl _, s) \<Rightarrow> (-1, [], s)
      | (Inr _, s) \<Rightarrow> (0,
          spawn_pinned Heartbeat SAFETY_PRIO_HEARTBEAT SAFETY_CPU_HEARTBEAT ''heartbeat''
          @ spawn_pinned Telemetry SAFETY_PRIO_TELEMETRY SAFETY_CPU_TELEMETRY ''telemetry''
          @ spawn_pinned Command SAFETY_PRIO_COMMAND (-1) ''command''
          @ spawn_pinned Fault_monitor SAFETY_PRIO_FAULT (-1) ''fault_monitor'', s))"

subsection \<open>Specification\<close>

text \<open>The frame a send puts on the wire.\<close>

definition fw_header :: "fw_env \<Rightarrow> u8 \<Rightarrow> u64 \<Rightarrow> bytes \<Rightarrow> SafetyFrameHeader" where
  "fw_header e ty n p = safety_frame_init ty (ucast n) (of_nat (length p)) (fw_now_ms e 0)"

text \<open>Which commands are accepted, what they do to the fault state, and why others are refused.\<close>

definition cmd_of :: "safety_rx_frame \<Rightarrow> SafetyCommandPayload" where
  "cmd_of f = command_of_bytes (take 8 (rxf_payload f))"

definition cmd_accepted :: "safety_rx_frame \<Rightarrow> bool" where
  "cmd_accepted f \<longleftrightarrow> payload_length (rxf_hdr f) = 8 \<and>
     (command (cmd_of f) \<in> {SAFETY_CMD_GET_STATUS, SAFETY_CMD_RESET_FAULT_STATE, SAFETY_CMD_ENTER_SAFE_MODE,
        SAFETY_CMD_REQUEST_RECOVERY}
      \<or> command (cmd_of f) = SAFETY_CMD_INJECT_FAULT
        \<and> arg8 (cmd_of f) \<in> {SAFETY_FAULT_TASK_HANG, SAFETY_FAULT_CHECKSUM_ERROR, SAFETY_FAULT_CRITICAL})"

definition cmd_effect :: "SafetyCommandPayload \<Rightarrow> safety_fault_state \<Rightarrow> safety_fault_state" where
  "cmd_effect c g =
     (if command c = SAFETY_CMD_INJECT_FAULT then
        (if arg8 c = SAFETY_FAULT_TASK_HANG then g\<lparr>inject_task_hang := 1\<rparr>
         else if arg8 c = SAFETY_FAULT_CHECKSUM_ERROR then g\<lparr>inject_checksum_error := 1\<rparr>
         else g\<lparr>inject_critical_fault := 1\<rparr>)
      else if command c = SAFETY_CMD_RESET_FAULT_STATE then
        g\<lparr>inject_task_hang := 0, inject_checksum_error := 0, inject_critical_fault := 0, fs_fault_count := 0, in_safe_mode := 0\<rparr>
      else if command c = SAFETY_CMD_ENTER_SAFE_MODE then g\<lparr>in_safe_mode := 1\<rparr>
      else if command c = SAFETY_CMD_REQUEST_RECOVERY then
        g\<lparr>inject_task_hang := 0, inject_checksum_error := 0, inject_critical_fault := 0, in_safe_mode := 0\<rparr>
      else g)"

definition nack_reason :: "safety_rx_frame \<Rightarrow> u8" where
  "nack_reason f = (if payload_length (rxf_hdr f) \<noteq> 8 \<or> command (cmd_of f) = SAFETY_CMD_INJECT_FAULT
     then SAFETY_NACK_PAYLOAD else SAFETY_NACK_UNKNOWN_TYPE)"

text \<open>The frame sent before the acknowledgement.\<close>

definition cmd_extra :: "fw_env \<Rightarrow> SafetyCommandPayload \<Rightarrow> safety_fault_state \<Rightarrow> (u8 \<times> bytes) option" where
  "cmd_extra e c g =
     (if command c = SAFETY_CMD_GET_STATUS then Some (SAFETY_FRAME_TELEMETRY, telemetry_bytes
        \<lparr>temperature_c_x10 = 250, voltage_mv = 3300, cpu_load_pct = 25, tm_fault_count = ucast (fs_fault_count g)\<rparr>)
      else if command c = SAFETY_CMD_REQUEST_RECOVERY then Some (SAFETY_FRAME_RECOVERY_REPORT, recovery_report_bytes
        \<lparr>recovered = 1, new_state = 0, rr_reserved = 0, recovery_uptime_ms = fw_now_ms e 0\<rparr>)
      else None)"

text \<open>What a send appends to the output, and what it leaves alone.\<close>

definition sends :: "fw_env \<Rightarrow> (u8 \<times> bytes) \<Rightarrow> 'q firmware \<Rightarrow> 'q firmware \<Rightarrow> bool" where
  "sends e = (\<lambda>(ty, p) s s'. length (frame_buf s') = 272 \<and> tx_sequence s' = tx_sequence s + 1
     \<and> uart_tx s' = uart_tx s @ wire_frame (fw_header e ty (tx_sequence s) p) p
     \<and> g_fault_state s' = g_fault_state s \<and> rxs s' = rxs s \<and> g_rx_msgq s' = g_rx_msgq s)"

section \<open>Lemmas\<close>

lemma fw_later_simps [simp]:
  "device_is_ready (fw_later e k) = device_is_ready e" "fw_now_ms (fw_later e k) i = fw_now_ms e (k + i)"
  by (simp_all add: fw_later_def fw_now_ms_def)

lemma poll_out_loop_append:
  "i + n \<le> length fb \<Longrightarrow> poll_out_loop fb i n out = out @ take n (drop i fb)"
proof (induction n arbitrary: i out)
  case (Suc n)
  then have "drop i fb = fb ! i # drop (Suc i) fb" by (simp add: Cons_nth_drop_Suc)
  then show ?case using Suc by simp
qed simp

text \<open>Sending a frame on a ready device.\<close>

lemma send_frame:
  assumes "device_is_ready e" "length (frame_buf s) = 272" "length p \<le> 256"
  obtains fb where "length fb = 272"
    "safety_send_frame e ty (Some p) (of_nat (length p)) s =
      (Inr (16 + length p), s\<lparr>tx_sequence := tx_sequence s + 1, frame_buf := fb,
         uart_tx := uart_tx s @ wire_frame (fw_header e ty (tx_sequence s) p) p\<rparr>)"
proof -
  let ?h = "fw_header e ty (tx_sequence s) p"
  have n: "unat (of_nat (length p) :: u16) = length p" using assms(3) by (simp add: unat_of_nat)
  have "unat (payload_length ?h) = length p" using n by (simp add: fw_header_def)
  from pack_wire_frame [where out = "frame_buf s", OF _ this] assms(2,3) obtain fb where
    pack: "safety_frame_pack (frame_buf s) ?h (Some p) =
      (16 + length p, ?h\<lparr>checksum := safety_crc32 (header_bytes (?h\<lparr>checksum := 0\<rparr>) @ p)\<rparr>, fb)"
    and fb: "length fb = 272" "take (16 + length p) fb = wire_frame ?h p" by (auto simp: proto_const)
  have "poll_out_loop fb 0 (16 + length p) out = out @ wire_frame ?h p" for out
    using fb assms(3) by (simp add: poll_out_loop_append)
  then show thesis
    using that [OF fb(1)] pack assms n by (simp add: safety_send_frame_def fw_header_def Let_def proto_const)
qed

lemma header_ok_fw [simp]: "length p \<le> 256 \<Longrightarrow> header_ok (fw_header e ty n p) p"
  unfolding fw_header_def by (intro header_ok_init) (simp add: SAFETY_MAX_PAYLOAD_def)

lemma fw_header_fields [simp]:
  "frame_type (fw_header e ty n p) = ty" "sequence_id (fw_header e ty n p) = ucast n"
  by (simp_all add: fw_header_def)

lemma sends_send:
  assumes "device_is_ready e" "length (frame_buf s) = 272" "length p \<le> 256" "plen = of_nat (length p)"
  shows "sends e (ty, p) s (snd (safety_send_frame e ty (Some p) plen s))"
  unfolding assms(4) by (rule send_frame [OF assms(1-3), of ty]) (simp add: sends_def)

lemma sends_replies:
  assumes "device_is_ready e" "length (frame_buf s) = 272"
  shows "sends e (SAFETY_FRAME_ACK, ack_bytes \<lparr>acked_sequence_id = n, ack_reserved = 0\<rparr>) s (send_ack e n s)"
    and "sends e (SAFETY_FRAME_NACK, nack_bytes \<lparr>nacked_sequence_id = n, reason = rsn, nack_reserved = 0\<rparr>) s (send_nack e n rsn s)"
    and "sends e (SAFETY_FRAME_TELEMETRY, telemetry_bytes \<lparr>temperature_c_x10 = 250, voltage_mv = 3300, cpu_load_pct = 25,
        tm_fault_count = ucast (fs_fault_count (g_fault_state s))\<rparr>) s (reply_status e s)"
  unfolding send_ack_def send_nack_def reply_status_def Let_def by (rule sends_send; use assms in simp)+

text \<open>Sends compose.\<close>

lemma sendsD:
  assumes "sends e (ty, p) s s'"
  shows "length (frame_buf s') = 272" "tx_sequence s' = tx_sequence s + 1" "g_fault_state s' = g_fault_state s"
    "uart_tx s' = uart_tx s @ wire_frame (fw_header e ty (tx_sequence s) p) p" "rxs s' = rxs s" "g_rx_msgq s' = g_rx_msgq s"
  using assms by (simp_all add: sends_def)

lemmas cmd_consts = SAFETY_CMD_GET_STATUS_def SAFETY_CMD_INJECT_FAULT_def SAFETY_CMD_REQUEST_RECOVERY_def
  SAFETY_CMD_ENTER_SAFE_MODE_def SAFETY_CMD_RESET_FAULT_STATE_def

lemma command_refused:
  assumes "device_is_ready e" "length (frame_buf s) = 272" "\<not> cmd_accepted f"
  shows "sends e (SAFETY_FRAME_NACK, nack_bytes \<lparr>nacked_sequence_id = sequence_id (rxf_hdr f), reason = nack_reason f,
      nack_reserved = 0\<rparr>) s (handle_command e f s)"
  using sends_replies(2) [OF assms(1,2)] assms(3)
  by (simp add: handle_command_def cmd_accepted_def nack_reason_def cmd_of_def apply_inject_def Let_def)

lemma command_accepted:
  assumes "device_is_ready e" "length (frame_buf s) = 272" "cmd_accepted f"
  defines "a \<equiv> (SAFETY_FRAME_ACK, ack_bytes \<lparr>acked_sequence_id = sequence_id (rxf_hdr f), ack_reserved = 0\<rparr>)"
  defines "s0 \<equiv> s\<lparr>g_fault_state := cmd_effect (cmd_of f) (g_fault_state s)\<rparr>"
  shows "case cmd_extra e (cmd_of f) (g_fault_state s) of
      None \<Rightarrow> sends e a s0 (handle_command e f s)
    | Some x \<Rightarrow> \<exists>e1 e2 s1. sends e1 x s0 s1 \<and> sends e2 a s1 (handle_command e f s)"
proof -
  let ?seq = "sequence_id (rxf_hdr f)"
  have ack: "length (frame_buf t) = 272 \<Longrightarrow> sends (fw_later e k) a t (send_ack (fw_later e k) ?seq t)" for t k
    using sends_replies(1) [of "fw_later e k" t ?seq] assms(1) by (simp add: a_def)
  have ack0: "length (frame_buf t) = 272 \<Longrightarrow> sends e a t (send_ack e ?seq t)" for t
    using sends_replies(1) [of e t ?seq] assms(1) by (simp add: a_def)
  have pl: "payload_length (rxf_hdr f) = 8" using assms(3) by (simp add: cmd_accepted_def)
  have buf0: "length (frame_buf s0) = 272" using assms(2) by (simp add: s0_def)
  show ?thesis
  proof (cases "command (cmd_of f) = SAFETY_CMD_GET_STATUS")
    case True
    have "s0 = s" using True by (simp add: s0_def cmd_effect_def cmd_consts)
    moreover note sends_replies(3) [OF assms(1,2)]
    moreover from this have "sends (fw_later e 1) a (reply_status e s) (send_ack (fw_later e 1) ?seq (reply_status e s))"
      by (intro ack) (simp add: sends_def)
    ultimately show ?thesis using True pl
      by (auto simp: cmd_extra_def handle_command_def cmd_of_def [symmetric] Let_def)
  next
    case not_status: False
    show ?thesis
    proof (cases "command (cmd_of f) = SAFETY_CMD_REQUEST_RECOVERY")
      case True
      define rr where "rr = recovery_report_bytes \<lparr>recovered = 1, new_state = 0, rr_reserved = 0, recovery_uptime_ms = fw_now_ms e 0\<rparr>"
      define s1 where "s1 = snd (safety_send_frame (fw_later e 1) SAFETY_FRAME_RECOVERY_REPORT (Some rr) 8 s0)"
      have 1: "sends (fw_later e 1) (SAFETY_FRAME_RECOVERY_REPORT, rr) s0 s1"
        unfolding s1_def by (rule sends_send) (use assms(1) buf0 in \<open>simp_all add: rr_def\<close>)
      then have "sends (fw_later e 2) a s1 (send_ack (fw_later e 2) ?seq s1)" by (intro ack) (simp add: sends_def)
      moreover have "handle_command e f s = send_ack (fw_later e 2) ?seq s1"
        using True pl not_status
        by (simp add: handle_command_def cmd_of_def [symmetric] s1_def rr_def s0_def cmd_effect_def clear_all_injects_def
            cmd_consts Let_def)
      ultimately show ?thesis using 1 True not_status by (auto simp: cmd_extra_def rr_def)
    next
      case False
      have "handle_command e f s = send_ack e ?seq s0"
        using False not_status pl assms(3)
        by (auto simp: handle_command_def cmd_of_def [symmetric] cmd_accepted_def s0_def cmd_effect_def clear_all_injects_def
            apply_inject_def cmd_consts Let_def)
      then show ?thesis using ack0 [OF buf0] False not_status by (simp add: cmd_extra_def)
    qed
  qed
qed

end
