(* ===== verification/Firmware_System.thy ===== *)
theory Firmware_System
  imports Firmware
begin

text \<open>
  The running firmware as a labelled transition system.  A step is one turn of one task's loop or
  one run of the receive interrupt; the scheduler may pick any.  The local variables that tasks keep
  between turns (beat and tick counters, the flags of the last fault scan) are part of the state.
  A turn is one step here, so this is the firmware whose turns do not overlap; the composed system is
  built on it.  What holds when the tasks preempt each other and run on two processors is in \<open>Firmware_Smp\<close>.
\<close>

section \<open>Definitions\<close>

record 'q fw_sys =
  fw :: "'q firmware"
  beat :: u32
  tick :: u32
  prev_flags :: "bool \<times> bool"

datatype fw_label = L_heartbeat | L_telemetry | L_monitor | L_command safety_rx_frame | L_rx

inductive fw_step :: "(safety_rx_frame, 'q) k_msgq_ops \<Rightarrow> fw_label \<Rightarrow> 'q fw_sys \<Rightarrow> 'q fw_sys \<Rightarrow> bool" for M where
  heartbeat_turn: "heartbeat_task e (beat s) (fw s) = (ms, b, f) \<Longrightarrow>
     fw_step M L_heartbeat s (s\<lparr>fw := f, beat := b\<rparr>)"
| telemetry_turn: "telemetry_task e (tick s) (fw s) = (ms, t, f) \<Longrightarrow>
     fw_step M L_telemetry s (s\<lparr>fw := f, tick := t\<rparr>)"
| monitor_turn: "fault_monitor_task e (prev_flags s) (fw s) = (ms, p, f) \<Longrightarrow>
     fw_step M L_monitor s (s\<lparr>fw := f, prev_flags := p\<rparr>)"
| command_turn: "k_msgq_get M (g_rx_msgq (fw s)) = Some (m, q) \<Longrightarrow> command_handler_task M e (fw s) = Some f \<Longrightarrow>
     fw_step M (L_command m) s (s\<lparr>fw := f\<rparr>)"
| rx_interrupt: "uart_isr M rounds (rxs (fw s), g_rx_msgq (fw s)) = (r, q) \<Longrightarrow>
     fw_step M L_rx s (s\<lparr>fw := (fw s)\<lparr>rxs := r, g_rx_msgq := q\<rparr>\<rparr>)"

inductive_cases fw_stepE: "fw_step M l s s'"

text \<open>The state after a successful start.\<close>

definition fw_boot :: "'q \<Rightarrow> 'q fw_sys" where
  "fw_boot q = \<lparr>fw = \<lparr>g_fault_state = safety_state_init, tx_sequence = 0, frame_buf = replicate SAFETY_MAX_FRAME_SIZE 0,
     uart_tx = [], rxs = rxs_init, g_rx_msgq = q\<rparr>, beat = 0, tick = 0, prev_flags = (False, False)\<rparr>"

inductive fw_reachable :: "(safety_rx_frame, 'q) k_msgq_ops \<Rightarrow> 'q fw_sys \<Rightarrow> 'q fw_sys \<Rightarrow> bool" for M s0 where
  start: "fw_reachable M s0 s0"
| step: "fw_reachable M s0 s \<Longrightarrow> fw_step M l s s' \<Longrightarrow> fw_reachable M s0 s'"

subsection \<open>Specification\<close>

text \<open>What has been sent is a sequence of whole, well-formed frames.\<close>

definition wire_frames :: "(SafetyFrameHeader \<times> bytes) list \<Rightarrow> bytes" where
  "wire_frames fs = concat (map (\<lambda>(h, p). wire_frame h p) fs)"

definition tx_inv :: "'q firmware \<Rightarrow> bool" where
  "tx_inv f \<longleftrightarrow> length (frame_buf f) = SAFETY_MAX_FRAME_SIZE
     \<and> (\<exists>fs. uart_tx f = wire_frames fs \<and> (\<forall>(h, p)\<in>set fs. header_ok h p))"

text \<open>The commands that end safe mode.\<close>

definition leaves_safe_mode :: "safety_rx_frame \<Rightarrow> bool" where
  "leaves_safe_mode m \<longleftrightarrow> frame_type (rxf_hdr m) = SAFETY_FRAME_COMMAND \<and> cmd_accepted m
     \<and> command (cmd_of m) \<in> {SAFETY_CMD_RESET_FAULT_STATE, SAFETY_CMD_REQUEST_RECOVERY}"

text \<open>An environment with a ready device whose clock stands still.\<close>

definition fw_env0 :: fw_env where
  "fw_env0 = \<lparr>k_uptime_get = (\<lambda>_. 0), device_is_ready = True\<rparr>"

text \<open>The fault events a scan has to report: rising edges of the two flags.\<close>

definition rising_faults :: "bool \<times> bool \<Rightarrow> safety_fault_state \<Rightarrow> (u8 \<times> u8 \<times> u16) list" where
  "rising_faults = (\<lambda>(prev_checksum, prev_critical) g.
     (if inject_checksum_error g \<noteq> 0 \<and> \<not> prev_checksum then [(SAFETY_FAULT_CHECKSUM_ERROR, 1, 2)] else [])
     @ (if inject_critical_fault g \<noteq> 0 \<and> \<not> prev_critical then [(SAFETY_FAULT_CRITICAL, 2, 3)] else []))"

definition reports :: "SafetyFrameHeader \<times> bytes \<Rightarrow> u8 \<times> u8 \<times> u16 \<Rightarrow> bool" where
  "reports = (\<lambda>(h, p) (ft, sev, d). header_ok h p \<and> frame_type h = SAFETY_FRAME_FAULT_EVENT
     \<and> fe_fault_type (fault_event_of_bytes p) = ft \<and> severity (fault_event_of_bytes p) = sev
     \<and> detail_code (fault_event_of_bytes p) = d)"

section \<open>Lemmas\<close>

lemma tx_inv_fault_state [simp]: "tx_inv (f\<lparr>g_fault_state := g\<rparr>) = tx_inv f"
  and tx_inv_msgq [simp]: "tx_inv (f\<lparr>g_rx_msgq := q\<rparr>) = tx_inv f"
  and tx_inv_rxs [simp]: "tx_inv (f\<lparr>rxs := r\<rparr>) = tx_inv f"
  by (simp_all add: tx_inv_def)

lemma send_not_ready: "\<not> device_is_ready e \<Longrightarrow> snd (safety_send_frame e ty p n s) = s"
  by (simp add: safety_send_frame_def)

lemma sends_tx_inv:
  assumes "sends e (ty, p) s s'" "tx_inv s" "length p \<le> 256"
  shows "tx_inv s'"
proof -
  obtain fs where "uart_tx s = wire_frames fs" "\<forall>(h, p)\<in>set fs. header_ok h p" using assms(2) by (auto simp: tx_inv_def)
  then show ?thesis using assms
    by (auto simp: tx_inv_def sends_def wire_frames_def proto_const intro!: exI [of _ "fs @ [(fw_header e ty (tx_sequence s) p, p)]"])
qed

lemma send_tx_inv:
  assumes "tx_inv s" "length p \<le> 256" "plen = of_nat (length p)"
  shows "tx_inv (snd (safety_send_frame e ty (Some p) plen s))"
proof (cases "device_is_ready e")
  case True
  have "length (frame_buf s) = 272" using assms(1) by (simp add: tx_inv_def proto_const)
  from sends_tx_inv [OF sends_send [OF True this assms(2,3)] assms(1,2)] show ?thesis .
qed (use assms in \<open>simp add: send_not_ready\<close>)

lemma reply_tx_inv:
  assumes "tx_inv s"
  shows "tx_inv (send_ack e n s)" "tx_inv (send_nack e n r s)" "tx_inv (reply_status e s)"
  unfolding send_ack_def send_nack_def reply_status_def Let_def by (rule send_tx_inv; use assms in simp)+

lemma handle_command_tx_inv: "tx_inv s \<Longrightarrow> tx_inv (handle_command e m s)"
  by (auto simp: handle_command_def apply_inject_def clear_all_injects_def Let_def
      intro!: reply_tx_inv send_tx_inv)

lemma emit_fault_tx_inv: "tx_inv s \<Longrightarrow> tx_inv (emit_fault e ft sev d s)"
  by (auto simp: emit_fault_def Let_def intro!: send_tx_inv)

lemma tasks_tx_inv:
  "tx_inv s \<Longrightarrow> tx_inv (snd (snd (heartbeat_task e b s)))"
  "tx_inv s \<Longrightarrow> tx_inv (snd (snd (telemetry_task e t s)))"
  "tx_inv s \<Longrightarrow> tx_inv (snd (snd (fault_monitor_task e pf s)))"
  by (auto simp: heartbeat_task_def telemetry_task_def fault_monitor_task_def Let_def
      intro!: send_tx_inv emit_fault_tx_inv split: prod.split)

lemma command_tx_inv: "tx_inv s \<Longrightarrow> command_handler_task M e s = Some f \<Longrightarrow> tx_inv f"
  by (auto simp: command_handler_task_def Let_def handle_command_tx_inv reply_tx_inv split: option.splits if_splits)

lemma step_tx_inv: "fw_step M l s s' \<Longrightarrow> tx_inv (fw s) \<Longrightarrow> tx_inv (fw s')"
proof (induction rule: fw_step.induct)
  case (heartbeat_turn e s ms b f)
  then show ?case using tasks_tx_inv(1) [of "fw s" e "beat s"] by simp
next
  case (telemetry_turn e s ms t f)
  then show ?case using tasks_tx_inv(2) [of "fw s" e "tick s"] by simp
next
  case (monitor_turn e s ms p f)
  then show ?case using tasks_tx_inv(3) [of "fw s" e "prev_flags s"] by simp
qed (simp_all add: command_tx_inv)

lemma boot_tx_inv: "tx_inv (fw (fw_boot q))"
  by (auto simp: tx_inv_def fw_boot_def wire_frames_def intro!: exI [of _ "[]"])

text \<open>The fault state a turn leaves.\<close>

lemma send_fault_state [simp]: "g_fault_state (snd (safety_send_frame e ty p n s)) = g_fault_state s"
  by (simp add: safety_send_frame_def Let_def split: prod.split)

lemma reply_fault_state [simp]:
  "g_fault_state (send_ack e n s) = g_fault_state s" "g_fault_state (send_nack e n r s) = g_fault_state s"
  "g_fault_state (reply_status e s) = g_fault_state s"
  by (simp_all add: send_ack_def send_nack_def reply_status_def Let_def)

lemma handle_command_fault_state:
  "g_fault_state (handle_command e m s) =
     (if cmd_accepted m then cmd_effect (cmd_of m) (g_fault_state s) else g_fault_state s)"
  by (simp add: handle_command_def cmd_accepted_def cmd_effect_def cmd_of_def [symmetric] apply_inject_def
      clear_all_injects_def cmd_consts Let_def)

lemma emit_fault_sends:
  assumes "device_is_ready e" "length (frame_buf s) = 272"
  obtains h p where "reports (h, p) (ft, sev, d)" "uart_tx (emit_fault e ft sev d s) = uart_tx s @ wire_frame h p"
    "length (frame_buf (emit_fault e ft sev d s)) = 272"
    "g_fault_state (emit_fault e ft sev d s) = (g_fault_state s)\<lparr>fs_fault_count := fs_fault_count (g_fault_state s) + 1\<rparr>"
proof -
  let ?g = "(g_fault_state s)\<lparr>fs_fault_count := fs_fault_count (g_fault_state s) + 1\<rparr>"
  let ?p = "fault_event_bytes \<lparr>fe_fault_type = ft, severity = sev, detail_code = d, fault_uptime_ms = fw_now_ms e 0\<rparr>"
  have "sends (fw_later e 1) (SAFETY_FRAME_FAULT_EVENT, ?p) (s\<lparr>g_fault_state := ?g\<rparr>) (emit_fault e ft sev d s)"
    unfolding emit_fault_def Let_def by (rule sends_send) (use assms in simp_all)
  from sendsD [OF this] show thesis
    by (intro that [of "fw_header (fw_later e 1) SAFETY_FRAME_FAULT_EVENT (tx_sequence s) ?p" ?p])
      (simp_all add: reports_def)
qed

lemma maybe_emit:
  assumes "device_is_ready e" "length (frame_buf s) = 272"
  obtains s' fs where "s' = (if c then emit_fault e ft sev d s else s)" "uart_tx s' = uart_tx s @ wire_frames fs"
    "list_all2 reports fs (if c then [(ft, sev, d)] else [])" "length (frame_buf s') = 272"
    "g_fault_state s' = (g_fault_state s)\<lparr>fs_fault_count := fs_fault_count (g_fault_state s) + (if c then 1 else 0)\<rparr>"
proof (cases c)
  case True
  show thesis
    by (rule emit_fault_sends [OF assms, of ft sev d])
      (use True in \<open>auto simp: wire_frames_def intro!: that [of _ "[(h, p)]" for h p]\<close>)
next
  case False
  then show thesis using that [of s "[]"] assms(2) by (simp add: wire_frames_def)
qed

lemma small_word_cases:
  fixes w m :: u32
  assumes "\<And>n. n < k \<Longrightarrow> P (of_nat n)" "of_nat k = m" "0 < k" "k < 2 ^ 32"
  shows "P (w mod m)"
proof -
  have "unat (w mod m) < k" using assms(3,4) unfolding assms(2) [symmetric] by (simp add: unat_mod unat_of_nat)
  then show ?thesis using assms(1) [of "unat (w mod m)"] by simp
qed

lemma telemetry_temperature:
  "250 \<le> unat (temperature_c_x10 (telemetry_payload tk s)) \<and> unat (temperature_c_x10 (telemetry_payload tk s)) \<le> 400"
proof -
  let ?P = "\<lambda>ph :: u32. 250 \<le> unat (word_of_int (TEMP_BASE_X10 + (if ph < 10 then sint (ph * (TEMP_SWING_X10 div 10))
                   else sint ((20 - ph) * (TEMP_SWING_X10 div 10)))) :: u16)
     \<and> unat (word_of_int (TEMP_BASE_X10 + (if ph < 10 then sint (ph * (TEMP_SWING_X10 div 10))
                   else sint ((20 - ph) * (TEMP_SWING_X10 div 10)))) :: u16) \<le> 400"
  have "?P (of_nat n)" if "n < 20" for n
  proof -
    have "n \<in> set [0..<20]" using that by simp
    then show ?thesis by (simp add: upt_rec fw_const) (elim disjE; simp)
  qed
  then have "?P (tk mod 20)" by (rule small_word_cases [of 20 ?P]) simp_all
  then show ?thesis by (simp add: telemetry_payload_def Let_def)
qed

lemma telemetry_load:
  "20 \<le> unat (cpu_load_pct (telemetry_payload tk s)) \<and> unat (cpu_load_pct (telemetry_payload tk s)) \<le> 49"
proof -
  let ?P = "\<lambda>m :: u32. 20 \<le> unat (ucast (20 + m) :: u16) \<and> unat (ucast (20 + m) :: u16) \<le> 49"
  have "?P (of_nat n)" if "n < 30" for n
  proof -
    have "n \<in> set [0..<30]" using that by simp
    then show ?thesis by (simp add: upt_rec) (elim disjE; simp)
  qed
  then have "?P (tk mod 30)" by (rule small_word_cases [of 30 ?P]) simp_all
  then show ?thesis by (simp add: telemetry_payload_def Let_def)
qed

section \<open>Properties\<close>

text \<open>C24 (commands are answered).  On a ready device, a command frame that is accepted changes the
  fault state as its command demands and is answered by an ACK carrying its sequence number,
  preceded by exactly one report for a status or recovery request; any other frame is answered by
  exactly one NACK with the sequence number and the reason, and leaves the fault state alone.
  Nothing else is sent.\<close>

theorem commands_answered:
  fixes m :: safety_rx_frame
  assumes "device_is_ready e" and "length (frame_buf s) = SAFETY_MAX_FRAME_SIZE"
  defines "ack \<equiv> ack_bytes \<lparr>acked_sequence_id = sequence_id (rxf_hdr m), ack_reserved = 0\<rparr>"
  defines "nack \<equiv> nack_bytes \<lparr>nacked_sequence_id = sequence_id (rxf_hdr m), reason = nack_reason m, nack_reserved = 0\<rparr>"
  shows "if cmd_accepted m then
      g_fault_state (handle_command e m s) = cmd_effect (cmd_of m) (g_fault_state s) \<and>
      (case cmd_extra e (cmd_of m) (g_fault_state s) of
         None \<Rightarrow> \<exists>e'. uart_tx (handle_command e m s) =
           uart_tx s @ wire_frame (fw_header e' SAFETY_FRAME_ACK (tx_sequence s) ack) ack
       | Some (ty, p) \<Rightarrow> \<exists>e1 e2. uart_tx (handle_command e m s) =
           uart_tx s @ wire_frame (fw_header e1 ty (tx_sequence s) p) p
                     @ wire_frame (fw_header e2 SAFETY_FRAME_ACK (tx_sequence s + 1) ack) ack)
    else g_fault_state (handle_command e m s) = g_fault_state s \<and>
      uart_tx (handle_command e m s) = uart_tx s @ wire_frame (fw_header e SAFETY_FRAME_NACK (tx_sequence s) nack) nack"
proof (cases "cmd_accepted m")
  case True
  have buf: "length (frame_buf s) = 272" using assms(2) by (simp add: proto_const)
  note acc = command_accepted [OF assms(1) buf True, folded ack_def]
  have g: "g_fault_state (handle_command e m s) = cmd_effect (cmd_of m) (g_fault_state s)"
    using True by (simp add: handle_command_fault_state)
  show ?thesis
  proof (cases "cmd_extra e (cmd_of m) (g_fault_state s)")
    case None
    with acc have "sends e (SAFETY_FRAME_ACK, ack) (s\<lparr>g_fault_state := cmd_effect (cmd_of m) (g_fault_state s)\<rparr>)
      (handle_command e m s)" by simp
    from sendsD(4) [OF this] show ?thesis using True None g by auto
  next
    case (Some x)
    obtain ty p where x: "x = (ty, p)" by fastforce
    from acc Some x obtain e1 e2 s1 where
      "sends e1 (ty, p) (s\<lparr>g_fault_state := cmd_effect (cmd_of m) (g_fault_state s)\<rparr>) s1"
      "sends e2 (SAFETY_FRAME_ACK, ack) s1 (handle_command e m s)" by auto
    from sendsD(2,4) [OF this(1)] sendsD(4) [OF this(2)] show ?thesis using True Some x g by auto
  qed
next
  case False
  then show ?thesis
    using command_refused [OF assms(1) _ False, of s] assms(2) by (simp add: nack_def proto_const sends_def)
qed

theorem commands_answered_witness:
  "let m = msg_of (safety_frame_init SAFETY_FRAME_COMMAND 9 8 0)
             (command_bytes \<lparr>command = SAFETY_CMD_ENTER_SAFE_MODE, arg8 = 0, arg16 = 0, arg32 = 0\<rparr>);
       s = fw (fw_boot ([] :: safety_rx_frame list))
   in in_safe_mode (g_fault_state (handle_command fw_env0 m s)) = 1
      \<and> (\<exists>e'. uart_tx (handle_command fw_env0 m s) =
           wire_frame (fw_header e' SAFETY_FRAME_ACK 0 (ack_bytes \<lparr>acked_sequence_id = 9, ack_reserved = 0\<rparr>))
             (ack_bytes \<lparr>acked_sequence_id = 9, ack_reserved = 0\<rparr>))"
proof -
  let ?c = "\<lparr>command = SAFETY_CMD_ENTER_SAFE_MODE, arg8 = 0, arg16 = 0, arg32 = 0\<rparr>"
  let ?m = "msg_of (safety_frame_init SAFETY_FRAME_COMMAND 9 8 0) (command_bytes ?c)"
  have c: "cmd_of ?m = ?c" by (simp add: cmd_of_def msg_of_def)
  have "cmd_accepted ?m" unfolding cmd_accepted_def c by (simp add: msg_of_def)
  moreover have "sequence_id (rxf_hdr ?m) = 9" by (simp add: msg_of_def)
  ultimately show ?thesis
    using commands_answered [of fw_env0 "fw (fw_boot ([] :: safety_rx_frame list))" ?m] unfolding c
    by (simp add: fw_env0_def fw_boot_def cmd_effect_def cmd_extra_def cmd_consts Let_def)
qed

text \<open>Heartbeats.  A turn of the heartbeat task on a ready device sends exactly one HEARTBEAT frame,
  carrying the beat number, and counts it, if neither a task hang is injected nor the firmware is
  in safe mode; otherwise it does nothing.  It never sleeps for zero milliseconds.\<close>

theorem heartbeat_each_turn:
  assumes "device_is_ready e" and "length (frame_buf s) = SAFETY_MAX_FRAME_SIZE"
    and "heartbeat_task e b s = (ms, b', s')"
  shows "ms \<noteq> 0 \<and> g_fault_state s' = g_fault_state s \<and>
    (if inject_task_hang (g_fault_state s) = 0 \<and> in_safe_mode (g_fault_state s) = 0
     then b' = b + 1 \<and> (\<exists>h p. uart_tx s' = uart_tx s @ wire_frame h p \<and> header_ok h p
            \<and> frame_type h = SAFETY_FRAME_HEARTBEAT \<and> beat_seq (heartbeat_of_bytes p) = b)
     else b' = b \<and> s' = s)"
proof (cases "inject_task_hang (g_fault_state s) = 0 \<and> in_safe_mode (g_fault_state s) = 0")
  case True
  let ?p = "heartbeat_bytes \<lparr>uptime_ms = fw_now_ms e 0, beat_seq = b\<rparr>"
  have "sends (fw_later e 1) (SAFETY_FRAME_HEARTBEAT, ?p) s s'" "b' = b + 1" "ms \<noteq> 0"
    using assms True sends_send [of "fw_later e 1" s ?p 8 SAFETY_FRAME_HEARTBEAT]
    by (auto simp: heartbeat_task_def Let_def proto_const fw_const split: if_splits)
  then show ?thesis using True sendsD [of "fw_later e 1" SAFETY_FRAME_HEARTBEAT ?p s s']
    by (auto intro!: exI [of _ "fw_header (fw_later e 1) SAFETY_FRAME_HEARTBEAT (tx_sequence s) ?p"] exI [of _ ?p])
next
  case False
  then show ?thesis using assms by (auto simp: heartbeat_task_def Let_def fw_const split: if_splits)
qed

theorem heartbeat_each_turn_witness:
  "\<exists>ms s' h p. heartbeat_task fw_env0 7 (fw (fw_boot ([] :: safety_rx_frame list))) = (ms, 8, s') \<and> ms \<noteq> 0
     \<and> uart_tx s' = wire_frame h p \<and> header_ok h p \<and> beat_seq (heartbeat_of_bytes p) = 7"
proof -
  obtain ms b' s' where e: "heartbeat_task fw_env0 7 (fw (fw_boot ([] :: safety_rx_frame list))) = (ms, b', s')"
    by (metis prod_cases3)
  from heartbeat_each_turn [OF _ _ e] e show ?thesis
    by (auto simp: fw_env0_def fw_boot_def safety_state_init_def)
qed

text \<open>Telemetry stays in range.  Whatever the tick counter, the reported temperature lies between
  25.0 and 40.0 degrees and the reported load between 20 and 49 percent; the triangle wave never
  under- or overflows.\<close>

theorem telemetry_in_range:
  "250 \<le> unat (temperature_c_x10 (telemetry_payload tk s)) \<and> unat (temperature_c_x10 (telemetry_payload tk s)) \<le> 400
   \<and> 20 \<le> unat (cpu_load_pct (telemetry_payload tk s)) \<and> unat (cpu_load_pct (telemetry_payload tk s)) \<le> 49"
  using telemetry_temperature [of tk s] telemetry_load [of tk s] by blast

text \<open>Fault scan.  One scan on a ready device reports exactly the rising edges of the two injected
  fault flags, in order, each as one FAULT_EVENT frame with its severity and detail code, adds
  their number to the fault counter, enters safe mode exactly on a rising edge of the critical
  flag, and remembers the flags it saw.\<close>

theorem fault_scan_edges:
  assumes "device_is_ready e" and "length (frame_buf s) = SAFETY_MAX_FRAME_SIZE"
    and "fault_monitor_task e pf s = (ms, pf', s')"
  shows "(\<exists>fs. uart_tx s' = uart_tx s @ wire_frames fs \<and> list_all2 reports fs (rising_faults pf (g_fault_state s)))
    \<and> fs_fault_count (g_fault_state s') = fs_fault_count (g_fault_state s)
        + of_nat (length (rising_faults pf (g_fault_state s)))
    \<and> in_safe_mode (g_fault_state s') = (if inject_critical_fault (g_fault_state s) \<noteq> 0 \<and> \<not> snd pf then 1
         else in_safe_mode (g_fault_state s))
    \<and> pf' = (inject_checksum_error (g_fault_state s) \<noteq> 0, inject_critical_fault (g_fault_state s) \<noteq> 0)"
proof -
  obtain pc pr where pf: "pf = (pc, pr)" by fastforce
  let ?g = "g_fault_state s"
  let ?c1 = "inject_checksum_error ?g \<noteq> 0 \<and> \<not> pc" and ?c2 = "inject_critical_fault ?g \<noteq> 0 \<and> \<not> pr"
  have b: "length (frame_buf s) = 272" using assms(2) by (simp add: proto_const)
  obtain s1 fs1 where s1: "s1 = (if ?c1 then emit_fault e SAFETY_FAULT_CHECKSUM_ERROR 1 2 s else s)"
    "uart_tx s1 = uart_tx s @ wire_frames fs1"
    "list_all2 reports fs1 (if ?c1 then [(SAFETY_FAULT_CHECKSUM_ERROR, 1, 2)] else [])" "length (frame_buf s1) = 272"
    "g_fault_state s1 = ?g\<lparr>fs_fault_count := fs_fault_count ?g + (if ?c1 then 1 else 0)\<rparr>"
    by (rule maybe_emit [OF assms(1) b])
  obtain s2 fs2 where s2: "s2 = (if ?c2 then emit_fault (fw_later e 2) SAFETY_FAULT_CRITICAL 2 3 s1 else s1)"
    "uart_tx s2 = uart_tx s1 @ wire_frames fs2"
    "list_all2 reports fs2 (if ?c2 then [(SAFETY_FAULT_CRITICAL, 2, 3)] else [])" "length (frame_buf s2) = 272"
    "g_fault_state s2 = (g_fault_state s1)\<lparr>fs_fault_count := fs_fault_count (g_fault_state s1) + (if ?c2 then 1 else 0)\<rparr>"
    by (rule maybe_emit [of "fw_later e 2", OF _ s1(4)]) (simp add: assms(1))
  have "s' = (if ?c2 then s2\<lparr>g_fault_state := (g_fault_state s2)\<lparr>in_safe_mode := 1\<rparr>\<rparr> else s2)"
    and pf': "pf' = (inject_checksum_error ?g \<noteq> 0, inject_critical_fault ?g \<noteq> 0)"
    using assms(3) by (auto simp: pf fault_monitor_task_def s1(1) s2(1) fw_const Let_def)
  moreover have "uart_tx s2 = uart_tx s @ wire_frames (fs1 @ fs2)"
    using s1(2) s2(2) by (simp add: wire_frames_def)
  moreover have "list_all2 reports (fs1 @ fs2) (rising_faults pf ?g)"
    using list_all2_appendI [OF s1(3) s2(3)] by (simp add: rising_faults_def pf)
  ultimately show ?thesis using s1(5) s2(5) by (auto simp: rising_faults_def pf)
qed

theorem fault_scan_edges_witness:
  "\<exists>ms s'. fault_monitor_task fw_env0 (False, False)
       ((fw (fw_boot ([] :: safety_rx_frame list)))\<lparr>g_fault_state := safety_state_init\<lparr>inject_critical_fault := 1\<rparr>\<rparr>)
       = (ms, (False, True), s') \<and> in_safe_mode (g_fault_state s') = 1 \<and> fs_fault_count (g_fault_state s') = 1"
proof -
  let ?s = "(fw (fw_boot ([] :: safety_rx_frame list)))\<lparr>g_fault_state := safety_state_init\<lparr>inject_critical_fault := 1\<rparr>\<rparr>"
  obtain ms pf' s' where e: "fault_monitor_task fw_env0 (False, False) ?s = (ms, pf', s')" by (metis prod_cases3)
  from fault_scan_edges [OF _ _ e] e show ?thesis
    by (auto simp: fw_env0_def fw_boot_def safety_state_init_def rising_faults_def)
qed

text \<open>A critical fault can be missed.  If the last scan saw the critical flag set, and before the
  next scan the flag is cleared by a reset command and set again by an injection command, that
  scan reports nothing and does not enter safe mode, although the critical fault is present: the
  edge detection compares only successive scans.\<close>

theorem critical_fault_missed:
  assumes "cmd_accepted m1" and "command (cmd_of m1) = SAFETY_CMD_RESET_FAULT_STATE"
    and "cmd_accepted m2" and "command (cmd_of m2) = SAFETY_CMD_INJECT_FAULT" and "arg8 (cmd_of m2) = SAFETY_FAULT_CRITICAL"
    and "fault_monitor_task e3 (pc, True) (handle_command e2 m2 (handle_command e1 m1 s)) = (ms, pf', s')"
  shows "inject_critical_fault (g_fault_state s') = 1 \<and> in_safe_mode (g_fault_state s') = 0
    \<and> s' = handle_command e2 m2 (handle_command e1 m1 s)"
proof -
  have "g_fault_state (handle_command e2 m2 (handle_command e1 m1 s)) =
      (g_fault_state s)\<lparr>inject_task_hang := 0, inject_checksum_error := 0, inject_critical_fault := 1,
         fs_fault_count := 0, in_safe_mode := 0\<rparr>"
    using assms(1-5) by (simp add: handle_command_fault_state cmd_effect_def cmd_consts proto_const)
  then show ?thesis using assms(6) by (auto simp: fault_monitor_task_def Let_def)
qed

theorem critical_fault_missed_witness:
  "let cmd = (\<lambda>c a. msg_of (safety_frame_init SAFETY_FRAME_COMMAND 1 8 0)
         (command_bytes \<lparr>command = c, arg8 = a, arg16 = 0, arg32 = 0\<rparr>));
       s = handle_command fw_env0 (cmd SAFETY_CMD_INJECT_FAULT SAFETY_FAULT_CRITICAL)
             (handle_command fw_env0 (cmd SAFETY_CMD_RESET_FAULT_STATE 0) (fw (fw_boot ([] :: safety_rx_frame list))));
       s' = snd (snd (fault_monitor_task fw_env0 (False, True) s))
   in inject_critical_fault (g_fault_state s') = 1 \<and> in_safe_mode (g_fault_state s') = 0"
proof -
  define cmd where "cmd = (\<lambda>c a. msg_of (safety_frame_init SAFETY_FRAME_COMMAND 1 8 0)
         (command_bytes \<lparr>command = c, arg8 = a, arg16 = 0, arg32 = 0\<rparr>))"
  have c: "cmd_of (cmd c a) = \<lparr>command = c, arg8 = a, arg16 = 0, arg32 = 0\<rparr>"
    and l: "payload_length (rxf_hdr (cmd c a)) = 8" for c a by (simp_all add: cmd_def cmd_of_def msg_of_def)
  let ?s = "handle_command fw_env0 (cmd SAFETY_CMD_INJECT_FAULT SAFETY_FAULT_CRITICAL)
             (handle_command fw_env0 (cmd SAFETY_CMD_RESET_FAULT_STATE 0) (fw (fw_boot ([] :: safety_rx_frame list))))"
  have a: "cmd_accepted (cmd SAFETY_CMD_RESET_FAULT_STATE 0)"
    "cmd_accepted (cmd SAFETY_CMD_INJECT_FAULT SAFETY_FAULT_CRITICAL)"
    by (simp_all add: cmd_accepted_def c l)
  obtain ms pf' s' where e: "fault_monitor_task fw_env0 (False, True) ?s = (ms, pf', s')" by (metis prod_cases3)
  have "inject_critical_fault (g_fault_state s') = 1 \<and> in_safe_mode (g_fault_state s') = 0 \<and> s' = ?s"
    by (rule critical_fault_missed [OF a(1) _ a(2) _ _ e]) (simp_all add: c)
  then have "inject_critical_fault (g_fault_state s') = 1 \<and> in_safe_mode (g_fault_state s') = 0" by blast
  then show ?thesis using e unfolding cmd_def by (simp add: Let_def)
qed

end
