(* ===== verification/Firmware_Smp.thy ===== *)
theory Firmware_Smp
  imports Sections Firmware_System
begin

text \<open>
  The firmware on two processors (\<open>CONFIG_SMP\<close>): the four tasks run in parallel and are preempted anywhere.
  A turn of a task is the program of its accesses to what the tasks share, each an atomic section:
  one read or write of an atomic variable (\<open>atomic_get\<close>, \<open>atomic_set\<close>, \<open>atomic_clear\<close>, \<open>atomic_inc\<close>), one
  message taken from the queue, and packing and putting out one frame, which happens under \<open>tx_mutex\<close>.  The
  sequence number of a frame is taken before the mutex, in a section of its own.
\<close>

section \<open>Definitions\<close>

subsection \<open>Sections of the shared variables\<close>

definition atomic_read :: "(safety_fault_state \<Rightarrow> atomic_t) \<Rightarrow> ('q firmware, atomic_t) sections" where
  "atomic_read v = locked (\<lambda>s. (v (g_fault_state s), s))"

definition atomic_write :: "(safety_fault_state \<Rightarrow> safety_fault_state) \<Rightarrow> ('q firmware, unit) sections" where
  "atomic_write w = update (\<lambda>s. s\<lparr>g_fault_state := w (g_fault_state s)\<rparr>)"

subsection \<open>Sending\<close>

definition take_sequence :: "('q firmware, u16) sections" where
  "take_sequence = locked (\<lambda>s. (ucast (tx_sequence s), s\<lparr>tx_sequence := tx_sequence s + 1\<rparr>))"

definition transmit :: "SafetyFrameHeader \<Rightarrow> bytes option \<Rightarrow> 'q firmware \<Rightarrow> nat result \<times> 'q firmware" where
  "transmit hdr payload s =
     (let (total, hdr, fb) = safety_frame_pack (frame_buf s) hdr payload;
          s = s\<lparr>frame_buf := fb\<rparr>
      in if total = 0 then (Inl EINVAL, s)
         else (Inr total, s\<lparr>uart_tx := poll_out_loop (frame_buf s) 0 total (uart_tx s)\<rparr>))"

definition send_sections :: "fw_env \<Rightarrow> u8 \<Rightarrow> bytes option \<Rightarrow> u16 \<Rightarrow> ('q firmware, nat result) sections" where
  "send_sections e ty payload plen =
     (if SAFETY_MAX_PAYLOAD < unat plen then Return (Inl EINVAL)
      else if \<not> device_is_ready e then Return (Inl ENODEV)
      else andthen take_sequence
        (\<lambda>seq. locked (transmit (safety_frame_init ty seq plen (fw_now_ms e 0)) payload)))"

subsection \<open>Command handler\<close>

definition ack_sections :: "fw_env \<Rightarrow> u16 \<Rightarrow> ('q firmware, unit) sections" where
  "ack_sections e acked_seq =
     andthen (send_sections e SAFETY_FRAME_ACK (Some (ack_bytes \<lparr>acked_sequence_id = acked_seq, ack_reserved = 0\<rparr>)) 4)
       (\<lambda>_. Return ())"

definition nack_sections :: "fw_env \<Rightarrow> u16 \<Rightarrow> u8 \<Rightarrow> ('q firmware, unit) sections" where
  "nack_sections e nacked_seq rsn =
     andthen (send_sections e SAFETY_FRAME_NACK
        (Some (nack_bytes \<lparr>nacked_sequence_id = nacked_seq, reason = rsn, nack_reserved = 0\<rparr>)) 4)
       (\<lambda>_. Return ())"

definition status_sections :: "fw_env \<Rightarrow> ('q firmware, unit) sections" where
  "status_sections e =
     andthen (atomic_read fs_fault_count) (\<lambda>n.
       andthen (send_sections e SAFETY_FRAME_TELEMETRY
         (Some (telemetry_bytes \<lparr>temperature_c_x10 = 250, voltage_mv = 3300, cpu_load_pct = 25, tm_fault_count = ucast n\<rparr>)) 8)
       (\<lambda>_. Return ()))"

definition inject_sections :: "u8 \<Rightarrow> ('q firmware, bool) sections" where
  "inject_sections ft =
     (if ft = SAFETY_FAULT_TASK_HANG then andthen (atomic_write (\<lambda>g. g\<lparr>inject_task_hang := 1\<rparr>)) (\<lambda>_. Return True)
      else if ft = SAFETY_FAULT_CHECKSUM_ERROR
        then andthen (atomic_write (\<lambda>g. g\<lparr>inject_checksum_error := 1\<rparr>)) (\<lambda>_. Return True)
      else if ft = SAFETY_FAULT_CRITICAL
        then andthen (atomic_write (\<lambda>g. g\<lparr>inject_critical_fault := 1\<rparr>)) (\<lambda>_. Return True)
      else Return False)"

definition clear_sections :: "('q firmware, unit) sections" where
  "clear_sections =
     andthen (atomic_write (\<lambda>g. g\<lparr>inject_task_hang := 0\<rparr>)) (\<lambda>_.
     andthen (atomic_write (\<lambda>g. g\<lparr>inject_checksum_error := 0\<rparr>)) (\<lambda>_.
       atomic_write (\<lambda>g. g\<lparr>inject_critical_fault := 0\<rparr>)))"

definition handle_sections :: "fw_env \<Rightarrow> safety_rx_frame \<Rightarrow> ('q firmware, unit) sections" where
  "handle_sections e frame =
     (let seq = sequence_id (rxf_hdr frame) in
      if payload_length (rxf_hdr frame) \<noteq> 8 then nack_sections e seq SAFETY_NACK_PAYLOAD
      else let cmd = command_of_bytes (take 8 (rxf_payload frame)) in
      if command cmd = SAFETY_CMD_GET_STATUS then andthen (status_sections e) (\<lambda>_. ack_sections (fw_later e 1) seq)
      else if command cmd = SAFETY_CMD_INJECT_FAULT then
        andthen (inject_sections (arg8 cmd))
          (\<lambda>known. if \<not> known then nack_sections e seq SAFETY_NACK_PAYLOAD else ack_sections e seq)
      else if command cmd = SAFETY_CMD_RESET_FAULT_STATE then
        andthen clear_sections (\<lambda>_.
        andthen (atomic_write (\<lambda>g. g\<lparr>fs_fault_count := 0\<rparr>)) (\<lambda>_.
        andthen (atomic_write (\<lambda>g. g\<lparr>in_safe_mode := 0\<rparr>)) (\<lambda>_. ack_sections e seq)))
      else if command cmd = SAFETY_CMD_ENTER_SAFE_MODE then
        andthen (atomic_write (\<lambda>g. g\<lparr>in_safe_mode := 1\<rparr>)) (\<lambda>_. ack_sections e seq)
      else if command cmd = SAFETY_CMD_REQUEST_RECOVERY then
        andthen clear_sections (\<lambda>_.
        andthen (atomic_write (\<lambda>g. g\<lparr>in_safe_mode := 0\<rparr>)) (\<lambda>_.
        andthen (send_sections (fw_later e 1) SAFETY_FRAME_RECOVERY_REPORT
            (Some (recovery_report_bytes \<lparr>recovered = 1, new_state = 0, rr_reserved = 0,
               recovery_uptime_ms = fw_now_ms e 0\<rparr>)) 8)
          (\<lambda>_. ack_sections (fw_later e 2) seq)))
      else nack_sections e seq SAFETY_NACK_UNKNOWN_TYPE)"

definition command_sections :: "fw_env \<Rightarrow> safety_rx_frame \<Rightarrow> ('q firmware, unit) sections" where
  "command_sections e frame =
     (if frame_type (rxf_hdr frame) = SAFETY_FRAME_COMMAND then handle_sections e frame
      else nack_sections e (sequence_id (rxf_hdr frame)) SAFETY_NACK_UNKNOWN_TYPE)"

subsection \<open>Periodic tasks\<close>

definition heartbeat_sections :: "fw_env \<Rightarrow> u32 \<Rightarrow> ('q firmware, u32 \<times> u32) sections" where
  "heartbeat_sections e b =
     andthen (atomic_read heartbeat_interval_ms) (\<lambda>v.
       let interval = (if ucast v = (0 :: u32) then SAFETY_DEFAULT_HEARTBEAT_MS else ucast v) in
       andthen (atomic_read inject_task_hang) (\<lambda>hang.
       andthen (atomic_read in_safe_mode) (\<lambda>safe.
         if hang = 0 \<and> safe = 0
         then andthen (send_sections (fw_later e 1) SAFETY_FRAME_HEARTBEAT
                (Some (heartbeat_bytes \<lparr>uptime_ms = fw_now_ms e 0, beat_seq = b\<rparr>)) 8)
              (\<lambda>_. Return (interval, b + 1))
         else Return (interval, b))))"

text \<open>The payload is computed from the tick and one read of the fault count.\<close>

definition telemetry_sections :: "fw_env \<Rightarrow> u32 \<Rightarrow> ('q firmware, u32 \<times> u32) sections" where
  "telemetry_sections e t =
     andthen (atomic_read in_safe_mode) (\<lambda>safe.
       if safe = 0
       then andthen (locked (\<lambda>s. (telemetry_payload t s, s))) (\<lambda>tm.
            andthen (send_sections e SAFETY_FRAME_TELEMETRY (Some (telemetry_bytes tm)) 8)
              (\<lambda>_. Return (SAFETY_TELEMETRY_PERIOD_MS, t + 1)))
       else Return (SAFETY_TELEMETRY_PERIOD_MS, t + 1))"

definition emit_sections :: "fw_env \<Rightarrow> u8 \<Rightarrow> u8 \<Rightarrow> u16 \<Rightarrow> ('q firmware, unit) sections" where
  "emit_sections e ft sev detail =
     andthen (atomic_write (\<lambda>g. g\<lparr>fs_fault_count := fs_fault_count g + 1\<rparr>)) (\<lambda>_.
     andthen (send_sections (fw_later e 1) SAFETY_FRAME_FAULT_EVENT
         (Some (fault_event_bytes \<lparr>fe_fault_type = ft, severity = sev, detail_code = detail, fault_uptime_ms = fw_now_ms e 0\<rparr>)) 8)
       (\<lambda>_. Return ()))"

definition monitor_sections :: "fw_env \<Rightarrow> bool \<times> bool \<Rightarrow> ('q firmware, u32 \<times> bool \<times> bool) sections" where
  "monitor_sections e = (\<lambda>(prev_checksum, prev_critical).
     andthen (atomic_read inject_checksum_error) (\<lambda>c1.
     andthen (atomic_read inject_critical_fault) (\<lambda>c2.
     andthen (if c1 \<noteq> 0 \<and> \<not> prev_checksum then emit_sections e SAFETY_FAULT_CHECKSUM_ERROR SEV_WARN 2 else Return ()) (\<lambda>_.
     andthen (if c2 \<noteq> 0 \<and> \<not> prev_critical
              then andthen (emit_sections (fw_later e 2) SAFETY_FAULT_CRITICAL SEV_CRITICAL 3)
                     (\<lambda>_. atomic_write (\<lambda>g. g\<lparr>in_safe_mode := 1\<rparr>))
              else Return ()) (\<lambda>_.
     Return (SAFETY_FAULT_SCAN_MS, c1 \<noteq> 0, c2 \<noteq> 0))))))"

subsection \<open>All tasks\<close>

text \<open>What each task still has to do in its current turn; a program that has returned stands for a task between
  two turns, asleep or waiting for a message, and holds its local variables (beat, tick, flags of the last
  scan).  \<open>cmd_frame\<close> is the local variable of the command handler.\<close>

record 'q fw_smp =
  fws_fw :: "'q firmware"
  p_hb :: "('q firmware, u32 \<times> u32) sections"
  p_tm :: "('q firmware, u32 \<times> u32) sections"
  p_mon :: "('q firmware, u32 \<times> bool \<times> bool) sections"
  p_cmd :: "('q firmware, unit) sections"
  cmd_frame :: safety_rx_frame

datatype fws_label = Task fw_task | Rx

inductive fws_step :: "(safety_rx_frame, 'q) k_msgq_ops \<Rightarrow> fws_label \<Rightarrow> 'q fw_smp \<Rightarrow> 'q fw_smp \<Rightarrow> bool" for M where
  heartbeat_begin: "p_hb s = Return (ms, b) \<Longrightarrow> fws_step M (Task Heartbeat) s (s\<lparr>p_hb := heartbeat_sections e b\<rparr>)"
| heartbeat_next: "p_hb s = Section g k \<Longrightarrow>
     fws_step M (Task Heartbeat) s (s\<lparr>fws_fw := g (fws_fw s), p_hb := k (fws_fw s)\<rparr>)"
| telemetry_begin: "p_tm s = Return (ms, t) \<Longrightarrow> fws_step M (Task Telemetry) s (s\<lparr>p_tm := telemetry_sections e t\<rparr>)"
| telemetry_next: "p_tm s = Section g k \<Longrightarrow>
     fws_step M (Task Telemetry) s (s\<lparr>fws_fw := g (fws_fw s), p_tm := k (fws_fw s)\<rparr>)"
| monitor_begin: "p_mon s = Return (ms, pf) \<Longrightarrow> fws_step M (Task Fault_monitor) s (s\<lparr>p_mon := monitor_sections e pf\<rparr>)"
| monitor_next: "p_mon s = Section g k \<Longrightarrow>
     fws_step M (Task Fault_monitor) s (s\<lparr>fws_fw := g (fws_fw s), p_mon := k (fws_fw s)\<rparr>)"
| command_begin: "p_cmd s = Return () \<Longrightarrow> k_msgq_get M (g_rx_msgq (fws_fw s)) = Some (m, q) \<Longrightarrow>
     fws_step M (Task Command) s
       (s\<lparr>fws_fw := (fws_fw s)\<lparr>g_rx_msgq := q\<rparr>, cmd_frame := m, p_cmd := command_sections e m\<rparr>)"
| command_next: "p_cmd s = Section g k \<Longrightarrow>
     fws_step M (Task Command) s (s\<lparr>fws_fw := g (fws_fw s), p_cmd := k (fws_fw s)\<rparr>)"
| rx_interrupt: "uart_isr M rounds (rxs (fws_fw s), g_rx_msgq (fws_fw s)) = (r, q) \<Longrightarrow>
     fws_step M Rx s (s\<lparr>fws_fw := (fws_fw s)\<lparr>rxs := r, g_rx_msgq := q\<rparr>\<rparr>)"

inductive_cases fws_stepE: "fws_step M l s s'"

inductive fws_reachable :: "(safety_rx_frame, 'q) k_msgq_ops \<Rightarrow> 'q fw_smp \<Rightarrow> 'q fw_smp \<Rightarrow> bool" for M s0 where
  start: "fws_reachable M s0 s0"
| step: "fws_reachable M s0 s \<Longrightarrow> fws_step M l s s' \<Longrightarrow> fws_reachable M s0 s'"

definition fws_boot :: "'q \<Rightarrow> safety_rx_frame \<Rightarrow> 'q fw_smp" where
  "fws_boot q m = \<lparr>fws_fw = fw (fw_boot q), p_hb = Return (0, 0), p_tm = Return (0, 0),
     p_mon = Return (0, False, False), p_cmd = Return (), cmd_frame = m\<rparr>"

section \<open>Specification\<close>

definition fws_safe :: "'q fw_smp \<Rightarrow> bool" where
  "fws_safe s \<longleftrightarrow> in_safe_mode (g_fault_state (fws_fw s)) \<noteq> 0"

text \<open>A run during which safe mode holds before every step: the task of each step and the bytes it put out.\<close>

fun safe_run :: "(safety_rx_frame, 'q) k_msgq_ops \<Rightarrow> (fws_label \<times> bytes) list \<Rightarrow> 'q fw_smp \<Rightarrow> 'q fw_smp \<Rightarrow> bool" where
  "safe_run M [] s s' \<longleftrightarrow> s' = s"
| "safe_run M ((l, out) # tr) s s' \<longleftrightarrow> fws_safe s \<and>
     (\<exists>u. fws_step M l s u \<and> uart_tx (fws_fw u) = uart_tx (fws_fw s) @ out \<and> safe_run M tr u s')"

definition transmissions :: "fw_task \<Rightarrow> (fws_label \<times> bytes) list \<Rightarrow> nat" where
  "transmissions t tr = length (filter (\<lambda>(l, out). l = Task t \<and> out \<noteq> []) tr)"

text \<open>A program that transmits frames only with the sequence numbers it has taken, each once: \<open>Some n\<close> when
  it has taken number \<open>n\<close> and not yet transmitted it.\<close>

definition quiet :: "('q firmware \<Rightarrow> 'q firmware) \<Rightarrow> bool" where
  "quiet g \<longleftrightarrow> (\<forall>s. tx_sequence (g s) = tx_sequence s \<and> uart_tx (g s) = uart_tx s \<and> frame_buf (g s) = frame_buf s)"

definition puts_frame :: "nat \<Rightarrow> ('q firmware \<Rightarrow> 'q firmware) \<Rightarrow> bool" where
  "puts_frame n g \<longleftrightarrow> (\<forall>s. length (frame_buf s) = 272 \<longrightarrow> length (frame_buf (g s)) = 272 \<and> tx_sequence (g s) = tx_sequence s
     \<and> (\<exists>h p. header_ok h p \<and> sequence_id h = of_nat n \<and> uart_tx (g s) = uart_tx s @ wire_frame h p))"

inductive task_ok :: "nat option \<Rightarrow> ('q firmware, 'r) sections \<Rightarrow> bool" where
  ret: "task_ok None (Return r)"
| quiet: "quiet g \<Longrightarrow> (\<And>s. task_ok None (k s)) \<Longrightarrow> task_ok None (Section g k)"
| takes: "g = (\<lambda>s. s\<lparr>tx_sequence := tx_sequence s + 1\<rparr>) \<Longrightarrow> (\<And>s n. tx_sequence s = of_nat n \<Longrightarrow> task_ok (Some n) (k s)) \<Longrightarrow>
     task_ok None (Section g k)"
| puts: "puts_frame n g \<Longrightarrow> (\<And>s. task_ok None (k s)) \<Longrightarrow> task_ok (Some n) (Section g k)"

inductive_cases task_ok_SectionE: "task_ok h (Section g k)"
inductive_cases task_ok_ReturnE: "task_ok h (Return r)"

text \<open>At most \<open>n\<close> sections that put out anything, as long as safe mode holds.\<close>

primrec safe_sends :: "('q firmware, 'r) sections \<Rightarrow> nat \<Rightarrow> bool" where
  "safe_sends (Return r) n \<longleftrightarrow> True"
| "safe_sends (Section g k) n \<longleftrightarrow> (\<forall>s. in_safe_mode (g_fault_state s) \<noteq> 0 \<longrightarrow>
     uart_tx (g s) = uart_tx s \<and> safe_sends (k s) n \<or> (\<exists>m. n = Suc m \<and> safe_sends (k s) m))"

text \<open>The numbers \<open>ns\<close> of the frames on the wire and the numbers held by the four tasks are those
  below \<open>N\<close>, each once; the \<open>i\<close>-th frame is at most three ahead.\<close>

definition held :: "nat option \<Rightarrow> nat list" where
  "held h = (case h of None \<Rightarrow> [] | Some n \<Rightarrow> [n])"

definition numbers :: "nat list \<Rightarrow> nat \<Rightarrow> nat list \<Rightarrow> bool" where
  "numbers ns N hs \<longleftrightarrow> distinct (ns @ hs) \<and> set (ns @ hs) = {..<N} \<and> (\<forall>i<length ns. ns ! i \<le> i + 3)"

definition sent :: "'q firmware \<Rightarrow> nat list \<Rightarrow> nat \<Rightarrow> bool" where
  "sent f ns N \<longleftrightarrow> length (frame_buf f) = 272 \<and> tx_sequence f = of_nat N \<and>
     (\<exists>fs. uart_tx f = wire_frames fs \<and> (\<forall>(h, p)\<in>set fs. header_ok h p)
        \<and> map (\<lambda>(h, p). sequence_id h) fs = map of_nat ns)"

definition fws_inv :: "'q fw_smp \<Rightarrow> bool" where
  "fws_inv s \<longleftrightarrow> (\<exists>ns N h1 h2 h3 h4. sent (fws_fw s) ns N \<and> numbers ns N (held h1 @ held h2 @ held h3 @ held h4)
     \<and> task_ok h1 (p_hb s) \<and> task_ok h2 (p_tm s) \<and> task_ok h3 (p_mon s) \<and> task_ok h4 (p_cmd s))"

section \<open>Lemmas\<close>

subsection \<open>The programs without interference\<close>

lemmas section_defs = atomic_read_def atomic_write_def take_sequence_def

lemma send_alone: "run_alone (send_sections e ty p n) s = safety_send_frame e ty p n s"
  by (simp add: send_sections_def safety_send_frame_def transmit_def take_sequence_def run_andthen Let_def split_beta)

lemma replies_alone:
  "run_alone (ack_sections e n) s = ((), send_ack e n s)" "run_alone (nack_sections e n r) s = ((), send_nack e n r s)"
  "run_alone (status_sections e) s = ((), reply_status e s)"
  by (simp_all add: ack_sections_def nack_sections_def status_sections_def send_ack_def send_nack_def reply_status_def
      section_defs run_andthen send_alone split_beta Let_def)

lemma faults_alone:
  "run_alone (inject_sections ft) s = apply_inject ft s" "run_alone clear_sections s = ((), clear_all_injects s)"
  by (simp_all add: inject_sections_def clear_sections_def apply_inject_def clear_all_injects_def section_defs run_andthen Let_def)

lemma handle_alone: "run_alone (handle_sections e m) s = ((), handle_command e m s)"
  by (simp add: handle_sections_def handle_command_def section_defs run_andthen replies_alone faults_alone send_alone
      split_beta Let_def)

lemma tasks_alone:
  "run_alone (heartbeat_sections e b) s = (case heartbeat_task e b s of (ms, b', s') \<Rightarrow> ((ms, b'), s'))"
  "run_alone (telemetry_sections e t) s = (case telemetry_task e t s of (ms, t', s') \<Rightarrow> ((ms, t'), s'))"
  "run_alone (monitor_sections e pf) s = (case fault_monitor_task e pf s of (ms, pf', s') \<Rightarrow> ((ms, pf'), s'))"
  by (simp_all add: heartbeat_sections_def heartbeat_task_def telemetry_sections_def telemetry_task_def
      monitor_sections_def fault_monitor_task_def emit_sections_def emit_fault_def section_defs run_andthen send_alone
      split_beta Let_def)

lemma command_alone:
  "k_msgq_get M (g_rx_msgq s) = Some (m, q) \<Longrightarrow>
     command_handler_task M e s = Some (snd (run_alone (command_sections e m) (s\<lparr>g_rx_msgq := q\<rparr>)))"
  by (simp add: command_handler_task_def command_sections_def handle_alone replies_alone)

subsection \<open>Sequence numbers\<close>

lemma task_ok_andthen: "task_ok h p \<Longrightarrow> (\<And>r. task_ok None (c r)) \<Longrightarrow> task_ok h (andthen p c)"
  by (induction rule: task_ok.induct) (auto intro: task_ok.intros)

lemma transmit_frame:
  assumes "length (frame_buf s) = 272" and "length p \<le> 256" and "unat (payload_length h) = length p"
  obtains fb r where "transmit h (Some p) s = (r, s\<lparr>frame_buf := fb, uart_tx := uart_tx s @ wire_frame h p\<rparr>)" "length fb = 272"
proof -
  from pack_wire_frame [where out = "frame_buf s", OF _ assms(3)] assms(1,2) obtain fb where
    "safety_frame_pack (frame_buf s) h (Some p) =
       (16 + length p, h\<lparr>checksum := safety_crc32 (header_bytes (h\<lparr>checksum := 0\<rparr>) @ p)\<rparr>, fb)" "length fb = 272"
    "take (16 + length p) fb = wire_frame h p" by (auto simp: proto_const)
  then show thesis using that assms(2) by (simp add: transmit_def poll_out_loop_append)
qed

lemma transmit_puts:
  assumes "length p \<le> 256" and "sequence_id h = of_nat n" and "header_ok h p"
  shows "puts_frame n (\<lambda>s. snd (transmit h (Some p) s))"
  unfolding puts_frame_def
proof (intro allI impI)
  fix s :: "'q firmware"
  assume b: "length (frame_buf s) = 272"
  have "unat (payload_length h) = length p" using assms(3) by (simp add: header_ok_def)
  then obtain fb r where "transmit h (Some p) s = (r, s\<lparr>frame_buf := fb, uart_tx := uart_tx s @ wire_frame h p\<rparr>)" "length fb = 272"
    by (rule transmit_frame [OF b assms(1)])
  then show "length (frame_buf (snd (transmit h (Some p) s))) = 272
      \<and> tx_sequence (snd (transmit h (Some p) s)) = tx_sequence s
      \<and> (\<exists>h' p'. header_ok h' p' \<and> sequence_id h' = of_nat n
            \<and> uart_tx (snd (transmit h (Some p) s)) = uart_tx s @ wire_frame h' p')"
    using assms by auto
qed

lemma send_ok:
  assumes "length p \<le> 256" and "plen = of_nat (length p)"
  shows "task_ok None (send_sections e ty (Some p) plen)"
proof -
  let ?h = "\<lambda>n. safety_frame_init ty (of_nat n) plen (fw_now_ms e 0)"
  have "header_ok (?h n) p" for n unfolding assms(2) by (rule header_ok_init) (use assms in \<open>simp add: SAFETY_MAX_PAYLOAD_def\<close>)
  then have "puts_frame n (\<lambda>s. snd (transmit (?h n) (Some p) s))" for n
    by (intro transmit_puts assms(1)) (simp_all add: safety_frame_init_def)
  then have "task_ok (Some n) (locked (transmit (?h n) (Some p)))" for n
    unfolding locked_def by (intro task_ok.puts task_ok.ret)
  moreover have "ucast (of_nat n :: u64) = (of_nat n :: u16)" for n by (simp add: unsigned_of_nat word_of_nat_eq_iff)
  ultimately show ?thesis
    by (auto simp: send_sections_def take_sequence_def andthen_locked intro!: task_ok.intros)
qed

lemma peek_ok: "(\<And>s. task_ok None (c (f s))) \<Longrightarrow> task_ok None (andthen (locked (\<lambda>s. (f s, s))) c)"
  by (auto simp: andthen_locked quiet_def intro!: task_ok.quiet)

lemma read_ok: "(\<And>v. task_ok None (c v)) \<Longrightarrow> task_ok None (andthen (atomic_read f) c)"
  unfolding atomic_read_def by (rule peek_ok)

lemma write_ok: "task_ok None (atomic_write w)"
  by (auto simp: atomic_write_def update_def quiet_def intro!: task_ok.quiet task_ok.ret)

lemmas task_ok_rules = peek_ok read_ok task_ok_andthen write_ok send_ok task_ok.ret

lemma replies_ok:
  "task_ok None (ack_sections e n)" "task_ok None (nack_sections e n r)" "task_ok None (status_sections e)"
  "task_ok None clear_sections" "task_ok None (inject_sections ft)" "task_ok None (emit_sections e ft sev d)"
  unfolding ack_sections_def nack_sections_def status_sections_def clear_sections_def inject_sections_def emit_sections_def
  by (auto intro!: task_ok_rules)

lemma tasks_ok:
  "task_ok None (heartbeat_sections e b)" "task_ok None (telemetry_sections e t)" "task_ok None (monitor_sections e pf)"
  "task_ok None (command_sections e m)"
  unfolding heartbeat_sections_def telemetry_sections_def monitor_sections_def command_sections_def handle_sections_def Let_def
  by (auto intro!: task_ok_rules replies_ok split: prod.split)

lemma numbers_length: "numbers ns N hs \<Longrightarrow> N = length ns + length hs"
  unfolding numbers_def using distinct_card [of "ns @ hs"] by simp

text \<open>A section of one task, with the numbers \<open>as\<close> and \<open>bs\<close> held by the others.\<close>

lemma section_step:
  assumes "task_ok h (Section g k)" and "sent f ns N" and "numbers ns N (as @ held h @ bs)" and "length as + length bs \<le> 3"
  shows "\<exists>ns' N' h'. sent (g f) ns' N' \<and> numbers ns' N' (as @ held h' @ bs) \<and> task_ok h' (k f)"
  using assms(1)
proof cases
  case quiet
  then have "sent (g f) ns N" using assms(2) by (simp add: sent_def quiet_def)
  then show ?thesis using quiet assms(3) by blast
next
  case takes
  then have "sent (g f) ns (Suc N)" using assms(2) by (simp add: sent_def)
  moreover have "numbers ns (Suc N) (as @ held (Some N) @ bs)"
    using assms(3) takes(1) by (auto simp: numbers_def held_def lessThan_Suc)
  moreover have "task_ok (Some N) (k f)" using takes(3) assms(2) by (simp add: sent_def)
  ultimately show ?thesis by blast
next
  case (puts n)
  have f: "length (frame_buf f) = 272" using assms(2) by (simp add: sent_def)
  from puts(2) f obtain h' p where
    fr: "length (frame_buf (g f)) = 272" "tx_sequence (g f) = tx_sequence f" "header_ok h' p" "sequence_id h' = of_nat n"
      "uart_tx (g f) = uart_tx f @ wire_frame h' p" by (auto simp: puts_frame_def)
  obtain fs where "uart_tx f = wire_frames fs" "\<forall>(h, p)\<in>set fs. header_ok h p" "map (\<lambda>(h, p). sequence_id h) fs = map of_nat ns"
    using assms(2) by (auto simp: sent_def)
  then have "sent (g f) (ns @ [n]) N"
    using fr assms(2) by (auto simp: sent_def wire_frames_def intro!: exI [of _ "fs @ [(h', p)]"])
  moreover have "n \<in> set (ns @ as @ held h @ bs)" by (simp add: puts(1) held_def)
  then have "n < N" using assms(3) by (metis lessThan_iff numbers_def)
  then have "n \<le> length ns + 3"
    using numbers_length [OF assms(3)] assms(4) by (simp add: puts(1) held_def)
  then have "numbers (ns @ [n]) N (as @ held None @ bs)"
    using assms(3) puts(1) by (auto simp: numbers_def held_def nth_append less_Suc_eq)
  ultimately show ?thesis using puts(3) by blast
qed

lemma held_length: "length (held h) \<le> 1"
  by (simp add: held_def split: option.split)

lemma sent_cong: "tx_sequence f = tx_sequence f' \<Longrightarrow> uart_tx f = uart_tx f' \<Longrightarrow> frame_buf f = frame_buf f' \<Longrightarrow>
  sent f ns N = sent f' ns N"
  by (simp add: sent_def)

lemma fws_invI:
  "sent (fws_fw s) ns N \<Longrightarrow> numbers ns N (held h1 @ held h2 @ held h3 @ held h4) \<Longrightarrow> task_ok h1 (p_hb s) \<Longrightarrow> task_ok h2 (p_tm s)
    \<Longrightarrow> task_ok h3 (p_mon s) \<Longrightarrow> task_ok h4 (p_cmd s) \<Longrightarrow> fws_inv s"
  unfolding fws_inv_def by blast

lemma fws_step_inv:
  assumes "fws_step M l s s'" and "fws_inv s"
  shows "fws_inv s'"
proof -
  obtain ns N h1 h2 h3 h4 where i: "sent (fws_fw s) ns N" "numbers ns N (held h1 @ held h2 @ held h3 @ held h4)"
    "task_ok h1 (p_hb s)" "task_ok h2 (p_tm s)" "task_ok h3 (p_mon s)" "task_ok h4 (p_cmd s)"
    using assms(2) by (auto simp: fws_inv_def)
  note len = held_length [of h1] held_length [of h2] held_length [of h3] held_length [of h4]
  from assms(1) show ?thesis
  proof cases
    case (heartbeat_begin ms b e)
    then have "h1 = None" using i by (auto elim: task_ok_ReturnE)
    then show ?thesis using i tasks_ok(1) unfolding heartbeat_begin(2) by (intro fws_invI [of _ ns N h1 h2 h3 h4]) simp_all
  next
    case (heartbeat_next g k)
    then obtain ns' N' h' where "sent (g (fws_fw s)) ns' N'" "numbers ns' N' (held h' @ held h2 @ held h3 @ held h4)" "task_ok h' (k (fws_fw s))"
      using section_step [of h1 g k "fws_fw s" ns N "[]" "held h2 @ held h3 @ held h4"] i len by auto
    then show ?thesis using i unfolding heartbeat_next(2) by (intro fws_invI [of _ ns' N' h' h2 h3 h4]) simp_all
  next
    case (telemetry_begin ms t e)
    then have "h2 = None" using i by (auto elim: task_ok_ReturnE)
    then show ?thesis using i tasks_ok(2) unfolding telemetry_begin(2) by (intro fws_invI [of _ ns N h1 h2 h3 h4]) simp_all
  next
    case (telemetry_next g k)
    then obtain ns' N' h' where "sent (g (fws_fw s)) ns' N'" "numbers ns' N' (held h1 @ held h' @ held h3 @ held h4)" "task_ok h' (k (fws_fw s))"
      using section_step [of h2 g k "fws_fw s" ns N "held h1" "held h3 @ held h4"] i len by auto
    then show ?thesis using i unfolding telemetry_next(2) by (intro fws_invI [of _ ns' N' h1 h' h3 h4]) simp_all
  next
    case (monitor_begin ms pf e)
    then have "h3 = None" using i by (auto elim: task_ok_ReturnE)
    then show ?thesis using i tasks_ok(3) unfolding monitor_begin(2) by (intro fws_invI [of _ ns N h1 h2 h3 h4]) simp_all
  next
    case (monitor_next g k)
    then obtain ns' N' h' where "sent (g (fws_fw s)) ns' N'" "numbers ns' N' (held h1 @ held h2 @ held h' @ held h4)" "task_ok h' (k (fws_fw s))"
      using section_step [of h3 g k "fws_fw s" ns N "held h1 @ held h2" "held h4"] i len by auto
    then show ?thesis using i unfolding monitor_next(2) by (intro fws_invI [of _ ns' N' h1 h2 h' h4]) simp_all
  next
    case (command_begin m q e)
    then have "h4 = None" using i by (auto elim: task_ok_ReturnE)
    then show ?thesis using i tasks_ok(4) sent_cong [of "fws_fw s" "(fws_fw s)\<lparr>g_rx_msgq := q\<rparr>" ns N]
      unfolding command_begin(2) by (intro fws_invI [of _ ns N h1 h2 h3 h4]) simp_all
  next
    case (command_next g k)
    then obtain ns' N' h' where "sent (g (fws_fw s)) ns' N'" "numbers ns' N' (held h1 @ held h2 @ held h3 @ held h')" "task_ok h' (k (fws_fw s))"
      using section_step [of h4 g k "fws_fw s" ns N "held h1 @ held h2 @ held h3" "[]"] i len by auto
    then show ?thesis using i unfolding command_next(2) by (intro fws_invI [of _ ns' N' h1 h2 h3 h']) simp_all
  next
    case (rx_interrupt rounds r q)
    then show ?thesis using i sent_cong [of "fws_fw s" "(fws_fw s)\<lparr>rxs := r, g_rx_msgq := q\<rparr>" ns N]
      unfolding rx_interrupt(2) by (intro fws_invI [of _ ns N h1 h2 h3 h4]) simp_all
  qed
qed

lemma fws_boot_inv: "fws_inv (fws_boot q m)"
  unfolding fws_inv_def
  by (rule exI [of _ "[]"], rule exI [of _ 0], (rule exI [of _ None])+)
    (simp add: fws_boot_def fw_boot_def sent_def numbers_def held_def wire_frames_def task_ok.ret proto_const)

subsection \<open>Safe mode\<close>

text \<open>What holds of the programs in progress: at most one transmission is left for the heartbeat and the
  telemetry task while safe mode holds, and only the command handler, with a command that does so, ends it.\<close>

definition keeps_safe :: "('q firmware, 'r) sections \<Rightarrow> bool" where
  "keeps_safe = all_steps (\<lambda>d d' k. in_safe_mode (g_fault_state d) \<noteq> 0 \<longrightarrow> in_safe_mode (g_fault_state d') \<noteq> 0)"

definition one_send :: "('q firmware, 'r) sections \<Rightarrow> bool" where
  "one_send p \<longleftrightarrow> safe_sends p 1 \<and> all_steps (\<lambda>d d' k. safe_sends k 1) p"

lemma transmit_fault_state [simp]: "g_fault_state (snd (transmit h p s)) = g_fault_state s"
  by (simp add: transmit_def Let_def split_beta)

lemma keeps_safe_andthen: "keeps_safe p \<Longrightarrow> (\<And>r. keeps_safe (c r)) \<Longrightarrow> keeps_safe (andthen p c)"
  unfolding keeps_safe_def by (rule all_steps_andthen)

lemma keeps_safe_Return [simp]: "keeps_safe (Return r)"
  by (simp add: keeps_safe_def)

lemma keeps_safe_send [simp]: "keeps_safe (send_sections e ty p n)"
  by (simp add: send_sections_def take_sequence_def locked_def keeps_safe_def)

lemma keeps_safe_read: "keeps_safe (atomic_read v)" "keeps_safe (locked (\<lambda>s. (f s, s)))"
  by (simp_all add: atomic_read_def locked_def keeps_safe_def)

lemma keeps_safe_write: "(\<And>g. in_safe_mode g \<noteq> 0 \<Longrightarrow> in_safe_mode (w g) \<noteq> 0) \<Longrightarrow> keeps_safe (atomic_write w)"
  by (simp add: atomic_write_def update_def keeps_safe_def)

lemmas keeps_safe_rules = keeps_safe_andthen keeps_safe_read keeps_safe_write

lemma replies_keep_safe [simp]:
  "keeps_safe (ack_sections e n)" "keeps_safe (nack_sections e n r)" "keeps_safe (status_sections e)"
  "keeps_safe clear_sections" "keeps_safe (inject_sections ft)" "keeps_safe (emit_sections e ft sev d)"
  unfolding ack_sections_def nack_sections_def status_sections_def clear_sections_def inject_sections_def emit_sections_def
  by (simp_all add: keeps_safe_rules)

lemma tasks_keep_safe:
  "keeps_safe (heartbeat_sections e b)" "keeps_safe (telemetry_sections e t)" "keeps_safe (monitor_sections e pf)"
  unfolding heartbeat_sections_def telemetry_sections_def monitor_sections_def Let_def
  by (simp_all add: keeps_safe_rules split: prod.split)

lemma command_keeps_safe: "\<not> leaves_safe_mode m \<Longrightarrow> keeps_safe (command_sections e m)"
  unfolding command_sections_def handle_sections_def Let_def
  by (auto simp: keeps_safe_rules leaves_safe_mode_def cmd_accepted_def cmd_of_def)

lemma turn_silent: "safe_sends (heartbeat_sections e b) 0" "safe_sends (telemetry_sections e t) 0"
  by (simp_all add: heartbeat_sections_def telemetry_sections_def section_defs andthen_locked Let_def)

lemma tasks_one_send: "one_send (heartbeat_sections e b)" "one_send (telemetry_sections e t)"
  by (simp_all add: one_send_def heartbeat_sections_def telemetry_sections_def section_defs send_sections_def andthen_locked locked_def Let_def)

lemma safe_sends_mono: "safe_sends p n \<Longrightarrow> n \<le> m \<Longrightarrow> safe_sends p m"
proof (induction p arbitrary: n m)
  case (Section g k)
  show ?case unfolding safe_sends.simps
  proof (intro allI impI)
    fix s :: "'a firmware"
    assume "in_safe_mode (g_fault_state s) \<noteq> 0"
    with Section.prems(1) have "uart_tx (g s) = uart_tx s \<and> safe_sends (k s) n \<or> (\<exists>n'. n = Suc n' \<and> safe_sends (k s) n')"
      by simp
    then show "uart_tx (g s) = uart_tx s \<and> safe_sends (k s) m \<or> (\<exists>m'. m = Suc m' \<and> safe_sends (k s) m')"
      using Section.IH [of "k s"] Section.prems(2) by (metis Suc_le_D Suc_le_mono rangeI)
  qed
qed simp

definition tasks_inv :: "'q fw_smp \<Rightarrow> bool" where
  "tasks_inv s \<longleftrightarrow> one_send (p_hb s) \<and> one_send (p_tm s) \<and> keeps_safe (p_hb s) \<and> keeps_safe (p_tm s) \<and> keeps_safe (p_mon s)
     \<and> (leaves_safe_mode (cmd_frame s) \<or> keeps_safe (p_cmd s))"

lemma keeps_safe_Section: "keeps_safe (Section g k) \<Longrightarrow> keeps_safe (k d)"
  by (simp add: keeps_safe_def)

lemma one_send_Section: "one_send (Section g k) \<Longrightarrow> one_send (k d)"
  by (simp add: one_send_def)

lemma one_send_left: "one_send p \<Longrightarrow> safe_sends p (case p of Return _ \<Rightarrow> 0 | Section _ _ \<Rightarrow> 1)"
  by (cases p) (simp_all add: one_send_def del: One_nat_def safe_sends.simps(2))

lemma fws_step_tasks_inv: "fws_step M l s s' \<Longrightarrow> tasks_inv s \<Longrightarrow> tasks_inv s'"
  by (induction rule: fws_step.induct)
    (auto simp: tasks_inv_def tasks_keep_safe tasks_one_send intro: command_keeps_safe dest: keeps_safe_Section one_send_Section)

lemma boot_tasks_inv: "tasks_inv (fws_boot q m)"
  by (simp add: tasks_inv_def fws_boot_def one_send_def)

lemma reachable_tasks_inv: "fws_reachable M (fws_boot q m) s \<Longrightarrow> tasks_inv s"
  by (induction rule: fws_reachable.induct) (erule (1) fws_step_tasks_inv | rule boot_tasks_inv)+

lemma safe_run_tasks_inv: "safe_run M tr s s' \<Longrightarrow> tasks_inv s \<Longrightarrow> tasks_inv s'"
proof (induction tr arbitrary: s)
  case (Cons x tr)
  then show ?case by (cases x) (auto dest: fws_step_tasks_inv)
qed simp

text \<open>A task whose program in progress is \<open>P\<close>, and which begins turns only with programs that are silent in safe mode.\<close>

definition periodic :: "(safety_rx_frame, 'q) k_msgq_ops \<Rightarrow> fw_task \<Rightarrow> ('q fw_smp \<Rightarrow> ('q firmware, 'r) sections) \<Rightarrow> bool" where
  "periodic M t P \<longleftrightarrow> (\<forall>l s u. fws_step M l s u \<longrightarrow>
     (if l = Task t
      then (case P s of Return r \<Rightarrow> fws_fw u = fws_fw s \<and> safe_sends (P u) 0
                      | Section g k \<Rightarrow> fws_fw u = g (fws_fw s) \<and> P u = k (fws_fw s))
      else P u = P s))"

lemma periodic_tasks: "periodic M Heartbeat p_hb" "periodic M Telemetry p_tm"
  unfolding periodic_def by (auto elim!: fws_stepE simp: turn_silent)

lemma safe_run_transmissions:
  assumes "periodic M t P"
  shows "safe_run M tr s s' \<Longrightarrow> safe_sends (P s) n \<Longrightarrow> transmissions t tr \<le> n"
proof (induction tr arbitrary: s n)
  case (Cons x tr)
  obtain l out where x: "x = (l, out)" by fastforce
  with Cons.prems obtain u where u: "fws_safe s" "fws_step M l s u" "uart_tx (fws_fw u) = uart_tx (fws_fw s) @ out"
    "safe_run M tr u s'" by auto
  note p = assms [unfolded periodic_def, rule_format, OF u(2)]
  have "l = Task t \<and> (\<exists>m. n = Suc m \<and> safe_sends (P u) m) \<or> (l \<noteq> Task t \<or> out = []) \<and> safe_sends (P u) n"
  proof (cases "l = Task t")
    case True
    show ?thesis
    proof (cases "P s")
      case (Return r)
      then have "out = []" "safe_sends (P u) 0" using p True u(3) by auto
      then show ?thesis using safe_sends_mono [of "P u" 0 n] by simp
    next
      case (Section g k)
      then show ?thesis using p True u(1,3) Cons.prems(2) by (auto simp: fws_safe_def)
    qed
  qed (use p Cons.prems(2) in simp)
  then show ?case using Cons.IH [OF u(4)] by (auto simp: transmissions_def x intro: le_SucI)
qed (simp add: transmissions_def)

lemma step_leaves_safe:
  assumes "fws_step M l s s'" and "tasks_inv s" and "fws_safe s" and "\<not> fws_safe s'"
  shows "l = Task Command \<and> leaves_safe_mode (cmd_frame s)"
  using assms by (induction rule: fws_step.induct) (auto simp: tasks_inv_def keeps_safe_def fws_safe_def)

subsection \<open>Schedules\<close>

text \<open>Some sections of one task after the other.\<close>

fun run_sections :: "nat \<Rightarrow> ('d, 'r) sections \<Rightarrow> 'd \<Rightarrow> ('d, 'r) sections \<times> 'd" where
  "run_sections (Suc n) (Section g k) d = run_sections n (k d) (g d)"
| "run_sections n p d = (p, d)"

lemma run_task:
  assumes "\<And>s g k. P s = Section g k \<Longrightarrow> fws_step M l s (upd (g (fws_fw s)) (k (fws_fw s)) s)"
    and "\<And>f p s. P (upd f p s) = p" and "\<And>f p s. fws_fw (upd f p s) = f"
    and "\<And>f p f' p' s. upd f p (upd f' p' s) = upd f p s" and "\<And>s. upd (fws_fw s) (P s) s = s"
  shows "fws_reachable M s0 s \<Longrightarrow> run_sections n (P s) (fws_fw s) = (p, f) \<Longrightarrow> fws_reachable M s0 (upd f p s)"
proof (induction n "P s" "fws_fw s" arbitrary: s rule: run_sections.induct)
  case (1 n g k)
  let ?u = "upd (g (fws_fw s)) (k (fws_fw s)) s"
  have "fws_reachable M s0 ?u" using 1(3) assms(1) [OF 1(2) [symmetric]] by (rule fws_reachable.step)
  from 1(1) [of ?u, OF _ _ this] 1(4) show ?case by (simp add: assms(2-4) flip: 1(2))
qed (use assms(5) in \<open>metis Pair_inject run_sections.simps(2,3)\<close>)+

lemma run_heartbeat:
  "fws_reachable M s0 s \<Longrightarrow> run_sections n (p_hb s) (fws_fw s) = (p, f) \<Longrightarrow> fws_reachable M s0 (s\<lparr>fws_fw := f, p_hb := p\<rparr>)"
  by (rule run_task [where P = p_hb and l = "Task Heartbeat" and upd = "\<lambda>f p s. s\<lparr>fws_fw := f, p_hb := p\<rparr>"])
    (simp_all add: fws_step.heartbeat_next)

lemma run_telemetry:
  "fws_reachable M s0 s \<Longrightarrow> run_sections n (p_tm s) (fws_fw s) = (p, f) \<Longrightarrow> fws_reachable M s0 (s\<lparr>fws_fw := f, p_tm := p\<rparr>)"
  by (rule run_task [where P = p_tm and l = "Task Telemetry" and upd = "\<lambda>f p s. s\<lparr>fws_fw := f, p_tm := p\<rparr>"])
    (simp_all add: fws_step.telemetry_next)

lemma run_command:
  "fws_reachable M s0 s \<Longrightarrow> run_sections n (p_cmd s) (fws_fw s) = (p, f) \<Longrightarrow> fws_reachable M s0 (s\<lparr>fws_fw := f, p_cmd := p\<rparr>)"
  by (rule run_task [where P = p_cmd and l = "Task Command" and upd = "\<lambda>f p s. s\<lparr>fws_fw := f, p_cmd := p\<rparr>"])
    (simp_all add: fws_step.command_next)

section \<open>Properties\<close>

text \<open>C26 (what the tasks put on the wire together).  In every state that the four tasks and the receive
  interrupt can reach, in any interleaving of their accesses, the bytes sent so far are whole well-formed
  frames, one after the other.  Their sequence numbers are, modulo 2^16, numbers of which none is
  used twice; of the numbers taken so far at most four, one for each task, are not on the wire yet, so a
  frame is never more than three numbers ahead of its place.  (It can be behind: see below.)\<close>

theorem smp_output:
  assumes "fws_reachable M (fws_boot q m) s"
  shows "\<exists>fs ns N. uart_tx (fws_fw s) = concat (map (\<lambda>(h, p). wire_frame h p) fs) \<and> (\<forall>(h, p)\<in>set fs. header_ok h p)
    \<and> map (\<lambda>(h, p). sequence_id h) fs = map of_nat ns \<and> distinct ns \<and> set ns \<subseteq> {..<N} \<and> N \<le> length ns + 4
    \<and> (\<forall>i<length ns. ns ! i \<le> i + 3) \<and> tx_sequence (fws_fw s) = of_nat N"
proof -
  from assms have "fws_inv s" by (induction rule: fws_reachable.induct) (simp_all add: fws_boot_inv fws_step_inv)
  then obtain ns N h1 h2 h3 h4 where i: "sent (fws_fw s) ns N" "numbers ns N (held h1 @ held h2 @ held h3 @ held h4)"
    by (auto simp: fws_inv_def)
  have "N \<le> length ns + 4"
    using numbers_length [OF i(2)] held_length [of h1] held_length [of h2] held_length [of h3] held_length [of h4] by simp
  moreover have "distinct ns" "set ns \<subseteq> {..<N}" "\<forall>i<length ns. ns ! i \<le> i + 3" using i(2) by (auto simp: numbers_def)
  ultimately show ?thesis using i(1) unfolding sent_def wire_frames_def by blast
qed

text \<open>Two tasks send at once: the heartbeat task has taken number 0 and is preempted before it gets the mutex,
  the telemetry task takes number 1 and sends its frame first.\<close>

text \<open>A heartbeat turn up to the point at which it waits for the mutex, and a whole telemetry turn.\<close>

lemma heartbeat_prefix:
  assumes "device_is_ready e" and "in_safe_mode (g_fault_state f) = 0" and "inject_task_hang (g_fault_state f) = 0"
  obtains k where "run_sections (Suc (Suc (Suc (Suc 0)))) (heartbeat_sections e b) f =
    (Section (\<lambda>d. snd (transmit (safety_frame_init SAFETY_FRAME_HEARTBEAT (ucast (tx_sequence f)) 8 (fw_now_ms e 1))
         (Some (heartbeat_bytes \<lparr>uptime_ms = fw_now_ms e 0, beat_seq = b\<rparr>)) d)) k,
     f\<lparr>tx_sequence := tx_sequence f + 1\<rparr>)"
  using assms that
  by (simp add: heartbeat_sections_def section_defs andthen_locked send_sections_def locked_def Let_def SAFETY_MAX_PAYLOAD_def)

lemma telemetry_turn:
  assumes "device_is_ready e" and "in_safe_mode (g_fault_state f) = 0"
  obtains r where "run_sections (Suc (Suc (Suc (Suc 0)))) (telemetry_sections e t) f = (Return r,
    snd (transmit (safety_frame_init SAFETY_FRAME_TELEMETRY (ucast (tx_sequence f)) 8 (fw_now_ms e 0))
      (Some (telemetry_bytes (telemetry_payload t f))) (f\<lparr>tx_sequence := tx_sequence f + 1\<rparr>)))"
  using assms that
  by (simp add: telemetry_sections_def section_defs andthen_locked send_sections_def locked_def SAFETY_MAX_PAYLOAD_def)

lemma heartbeat_waits:
  assumes "f = fw (fw_boot q)"
  obtains k p where "fws_reachable M (fws_boot q m)
      ((fws_boot q m)\<lparr>fws_fw := f\<lparr>tx_sequence := 1\<rparr>,
         p_hb := Section (\<lambda>d. snd (transmit (safety_frame_init SAFETY_FRAME_HEARTBEAT 0 8 0) (Some p) d)) k\<rparr>)" "length p = 8"
proof -
  let ?s = "(fws_boot q m)\<lparr>p_hb := heartbeat_sections fw_env0 0\<rparr>"
  have f: "device_is_ready fw_env0" "in_safe_mode (g_fault_state f) = 0" "inject_task_hang (g_fault_state f) = 0" "tx_sequence f = 0"
    by (simp_all add: assms fw_env0_def fw_boot_def safety_state_init_def)
  have s: "fws_reachable M (fws_boot q m) ?s"
    by (rule fws_reachable.step [OF fws_reachable.start fws_step.heartbeat_begin [where ms = 0]]) (simp add: fws_boot_def)
  have "fws_fw ?s = f" by (simp add: fws_boot_def assms)
  then obtain k where "run_sections (Suc (Suc (Suc (Suc 0)))) (p_hb ?s) (fws_fw ?s) =
      (Section (\<lambda>d. snd (transmit (safety_frame_init SAFETY_FRAME_HEARTBEAT 0 8 0)
         (Some (heartbeat_bytes \<lparr>uptime_ms = 0, beat_seq = 0\<rparr>)) d)) k, f\<lparr>tx_sequence := 1\<rparr>)"
    using heartbeat_prefix [OF f(1-3), of 0] f(4) by (auto simp: fw_now_ms_def fw_env0_def)
  from run_heartbeat [OF s this] show thesis using that by simp
qed

theorem frames_out_of_sequence:
  "\<exists>s h1 p1 h2 p2. fws_reachable (list_msgq 8) (fws_boot [] m) s
     \<and> uart_tx (fws_fw s) = wire_frame h1 p1 @ wire_frame h2 p2 \<and> frame_type h1 = SAFETY_FRAME_TELEMETRY
     \<and> frame_type h2 = SAFETY_FRAME_HEARTBEAT \<and> sequence_id h1 = 1 \<and> sequence_id h2 = 0"
proof -
  let ?M = "list_msgq 8" and ?b = "fws_boot [] m" and ?f = "fw (fw_boot ([] :: safety_rx_frame list))"
  let ?hh = "safety_frame_init SAFETY_FRAME_HEARTBEAT 0 8 0" and ?th = "safety_frame_init SAFETY_FRAME_TELEMETRY 1 8 0"
  define f1 where "f1 = ?f\<lparr>tx_sequence := 1\<rparr>"
  let ?tp = "telemetry_bytes (telemetry_payload 0 f1)"
  have f1: "in_safe_mode (g_fault_state f1) = 0" "tx_sequence f1 = 1" "uart_tx f1 = []" "length (frame_buf f1) = 272"
    by (simp_all add: f1_def fw_boot_def safety_state_init_def proto_const)
  obtain k p where 1: "fws_reachable ?M ?b (?b\<lparr>fws_fw := f1, p_hb := Section (\<lambda>d. snd (transmit ?hh (Some p) d)) k\<rparr>)" "length p = 8"
    unfolding f1_def by (rule heartbeat_waits [OF refl])
  let ?s = "?b\<lparr>fws_fw := f1, p_hb := Section (\<lambda>d. snd (transmit ?hh (Some p) d)) k, p_tm := telemetry_sections fw_env0 0\<rparr>"
  have 2: "fws_reachable ?M ?b ?s"
    using fws_reachable.step [OF 1(1) fws_step.telemetry_begin [where ms = 0 and t = 0 and e = fw_env0]] by (simp add: fws_boot_def)
  let ?f2 = "f1\<lparr>tx_sequence := 2\<rparr>"
  obtain fb c where "transmit ?th (Some ?tp) ?f2 = (c, ?f2\<lparr>frame_buf := fb, uart_tx := uart_tx ?f2 @ wire_frame ?th ?tp\<rparr>)"
    and fb: "length fb = 272" by (rule transmit_frame [of ?f2 ?tp ?th]) (use f1(4) in simp_all)
  then have tm: "transmit ?th (Some ?tp) (f1\<lparr>tx_sequence := 2\<rparr>) =
      (c, f1\<lparr>tx_sequence := 2, frame_buf := fb, uart_tx := wire_frame ?th ?tp\<rparr>)" using f1(3) by simp
  obtain r where "run_sections (Suc (Suc (Suc (Suc 0)))) (p_tm ?s) (fws_fw ?s) = (Return r, snd (transmit ?th (Some ?tp) (f1\<lparr>tx_sequence := 2\<rparr>)))"
    using telemetry_turn [of fw_env0 f1 0] f1(1,2) by (auto simp: fw_env0_def fw_now_ms_def)
  then have 3: "fws_reachable ?M ?b (?s\<lparr>fws_fw := f1\<lparr>tx_sequence := 2, frame_buf := fb, uart_tx := wire_frame ?th ?tp\<rparr>, p_tm := Return r\<rparr>)"
    using run_telemetry [OF 2] tm by simp
  let ?f3 = "f1\<lparr>tx_sequence := 2, frame_buf := fb, uart_tx := wire_frame ?th ?tp\<rparr>"
  obtain fb' c' where "transmit ?hh (Some p) ?f3 = (c', ?f3\<lparr>frame_buf := fb', uart_tx := uart_tx ?f3 @ wire_frame ?hh p\<rparr>)"
    by (rule transmit_frame [of ?f3 p ?hh]) (use fb 1(2) in simp_all)
  then have hb: "transmit ?hh (Some p) ?f3 = (c', ?f3\<lparr>frame_buf := fb', uart_tx := wire_frame ?th ?tp @ wire_frame ?hh p\<rparr>)"
    by simp
  define s3 where "s3 = ?s\<lparr>fws_fw := ?f3, p_tm := Return r\<rparr>"
  let ?s4 = "s3\<lparr>fws_fw := snd (transmit ?hh (Some p) ?f3), p_hb := k ?f3\<rparr>"
  have s3: "fws_reachable ?M ?b s3" "p_hb s3 = Section (\<lambda>d. snd (transmit ?hh (Some p) d)) k" "fws_fw s3 = ?f3"
    using 3 by (simp_all only: s3_def) (simp_all)
  have "fws_reachable ?M ?b ?s4" using fws_reachable.step [OF s3(1) fws_step.heartbeat_next [OF s3(2)]] by (simp only: s3(3))
  moreover have "uart_tx (fws_fw ?s4) = wire_frame ?th ?tp @ wire_frame ?hh p" using hb by simp
  moreover have "frame_type ?th = SAFETY_FRAME_TELEMETRY" "frame_type ?hh = SAFETY_FRAME_HEARTBEAT"
    "sequence_id ?th = 1" "sequence_id ?hh = 0" by (simp_all add: safety_frame_init_def)
  ultimately show ?thesis by blast
qed

theorem smp_output_witness:
  "\<exists>s fs ns. uart_tx (fws_fw (s :: safety_rx_frame list fw_smp)) = concat (map (\<lambda>(h, p). wire_frame h p) fs) \<and> uart_tx (fws_fw s) \<noteq> []
     \<and> map (\<lambda>(h, p). sequence_id h) fs = map of_nat ns \<and> distinct ns"
proof -
  obtain s h1 p1 h2 p2 where s: "fws_reachable (list_msgq 8) (fws_boot [] (msg_of (safety_frame_init 0 0 0 0) [])) s"
    "uart_tx (fws_fw s) = wire_frame h1 p1 @ wire_frame h2 p2" using frames_out_of_sequence by blast
  have "length (wire_frame h1 p1) \<noteq> 0" by (simp add: wire_frame_def)
  with s(2) smp_output [OF s(1)] show ?thesis by (intro exI [of _ s]) auto
qed

text \<open>C25 (safe mode under concurrency).  From any reachable state, as long as safe mode holds, the heartbeat task
  and the telemetry task each put at most one more frame on the wire, the one of a turn that was already
  under way, and none if the task was between two turns; however long safe mode lasts and however the tasks interleave.
  Safe mode is ended only by a step of the command handler, while it handles an accepted reset or
  recovery command.\<close>

theorem safe_mode_quiet:
  assumes "fws_reachable M (fws_boot q m) s" and "safe_run M tr s s'"
  shows "transmissions Heartbeat tr \<le> (case p_hb s of Return _ \<Rightarrow> 0 | Section _ _ \<Rightarrow> 1)
    \<and> transmissions Telemetry tr \<le> (case p_tm s of Return _ \<Rightarrow> 0 | Section _ _ \<Rightarrow> 1)
    \<and> (\<forall>l u. fws_step M l s' u \<and> fws_safe s' \<and> \<not> fws_safe u \<longrightarrow> l = Task Command \<and> leaves_safe_mode (cmd_frame s'))"
proof (intro conjI allI impI)
  have inv: "one_send (p_hb s)" "one_send (p_tm s)" using reachable_tasks_inv [OF assms(1)] by (simp_all add: tasks_inv_def)
  show "transmissions Heartbeat tr \<le> (case p_hb s of Return _ \<Rightarrow> 0 | Section _ _ \<Rightarrow> 1)"
    by (rule safe_run_transmissions [OF periodic_tasks(1) assms(2)]) (rule one_send_left, fact)
  show "transmissions Telemetry tr \<le> (case p_tm s of Return _ \<Rightarrow> 0 | Section _ _ \<Rightarrow> 1)"
    by (rule safe_run_transmissions [OF periodic_tasks(2) assms(2)]) (rule one_send_left, fact)
next
  fix l u
  assume "fws_step M l s' u \<and> fws_safe s' \<and> \<not> fws_safe u"
  then show "l = Task Command" "leaves_safe_mode (cmd_frame s')"
    using step_leaves_safe [of M l s' u] safe_run_tasks_inv [OF assms(2) reachable_tasks_inv [OF assms(1)]] by auto
qed

text \<open>One more frame does happen: the heartbeat task waits for the mutex when the command handler enters safe mode.\<close>

theorem heartbeat_in_safe_mode:
  assumes "m = msg_of (safety_frame_init SAFETY_FRAME_COMMAND 9 8 0)
      (command_bytes \<lparr>command = SAFETY_CMD_ENTER_SAFE_MODE, arg8 = 0, arg16 = 0, arg32 = 0\<rparr>)"
  shows "\<exists>s s' h p. fws_reachable (list_msgq 8) (fws_boot [m] m) s \<and> fws_safe s
    \<and> safe_run (list_msgq 8) [(Task Heartbeat, wire_frame h p)] s s' \<and> frame_type h = SAFETY_FRAME_HEARTBEAT"
proof -
  let ?M = "list_msgq 8" and ?b = "fws_boot [m] m" and ?hh = "safety_frame_init SAFETY_FRAME_HEARTBEAT 0 8 0"
  define f1 where "f1 = (fw (fw_boot [m]))\<lparr>tx_sequence := 1\<rparr>"
  obtain k p where 1: "fws_reachable ?M ?b (?b\<lparr>fws_fw := f1, p_hb := Section (\<lambda>d. snd (transmit ?hh (Some p) d)) k\<rparr>)" "length p = 8"
    unfolding f1_def by (rule heartbeat_waits [OF refl])
  define s1 where "s1 = ?b\<lparr>fws_fw := f1, p_hb := Section (\<lambda>d. snd (transmit ?hh (Some p) d)) k\<rparr>"
  define f2 where "f2 = f1\<lparr>g_rx_msgq := []\<rparr>"
  define s2 where "s2 = s1\<lparr>fws_fw := f2, cmd_frame := m, p_cmd := command_sections fw_env0 m\<rparr>"
  have "p_cmd s1 = Return ()" "k_msgq_get ?M (g_rx_msgq (fws_fw s1)) = Some (m, [])"
    by (simp_all add: s1_def f1_def fws_boot_def fw_boot_def list_msgq_def)
  from fws_reachable.step [OF 1(1) [folded s1_def] fws_step.command_begin [OF this, of fw_env0]]
  have 2: "fws_reachable ?M ?b s2" by (simp add: s2_def f2_def s1_def)
  let ?f3 = "f2\<lparr>g_fault_state := (g_fault_state f2)\<lparr>in_safe_mode := 1\<rparr>\<rparr>"
  have "command (command_of_bytes (take 8 (rxf_payload m))) = SAFETY_CMD_ENTER_SAFE_MODE" "payload_length (rxf_hdr m) = 8"
    "frame_type (rxf_hdr m) = SAFETY_FRAME_COMMAND" by (simp_all add: assms msg_of_def safety_frame_init_def)
  then have "run_sections (Suc 0) (p_cmd s2) (fws_fw s2) = (ack_sections fw_env0 (sequence_id (rxf_hdr m)), ?f3)"
    by (simp add: s2_def command_sections_def handle_sections_def cmd_consts atomic_write_def andthen_update)
  from run_command [OF 2 this] obtain s3 where s3: "fws_reachable ?M ?b s3" "fws_fw s3 = ?f3" "p_hb s3 = p_hb s1"
    by (auto simp: s2_def)
  have "length (frame_buf ?f3) = 272" by (simp add: f2_def f1_def fw_boot_def proto_const)
  then obtain fb c where t: "transmit ?hh (Some p) ?f3 = (c, ?f3\<lparr>frame_buf := fb, uart_tx := uart_tx ?f3 @ wire_frame ?hh p\<rparr>)"
    by (rule transmit_frame [of ?f3 p ?hh]) (use 1(2) in simp_all)
  have "p_hb s3 = Section (\<lambda>d. snd (transmit ?hh (Some p) d)) k" using s3(3) by (simp add: s1_def)
  note fws_step.heartbeat_next [OF this, of ?M]
  moreover have "fws_safe s3" by (simp add: fws_safe_def s3(2))
  moreover have "uart_tx (snd (transmit ?hh (Some p) (fws_fw s3))) = uart_tx (fws_fw s3) @ wire_frame ?hh p"
    by (simp add: s3(2) t)
  ultimately have "safe_run ?M [(Task Heartbeat, wire_frame ?hh p)] s3
      (s3\<lparr>fws_fw := snd (transmit ?hh (Some p) (fws_fw s3)), p_hb := k (fws_fw s3)\<rparr>)" by auto
  then show ?thesis using s3(1) \<open>fws_safe s3\<close>
    by (intro exI conjI) (assumption, assumption, assumption, simp add: safety_frame_init_def)
qed

theorem safe_mode_quiet_witness:
  "\<exists>s s' tr. safe_run (list_msgq 8) tr s s' \<and> transmissions Heartbeat tr = 1"
proof -
  let ?m = "msg_of (safety_frame_init SAFETY_FRAME_COMMAND 9 8 0)
      (command_bytes \<lparr>command = SAFETY_CMD_ENTER_SAFE_MODE, arg8 = 0, arg16 = 0, arg32 = 0\<rparr>)"
  obtain s s' h p where s: "fws_reachable (list_msgq 8) (fws_boot [?m] ?m) s"
    "safe_run (list_msgq 8) [(Task Heartbeat, wire_frame h p)] s s'" using heartbeat_in_safe_mode [OF refl] by blast
  have "length (wire_frame h p) \<noteq> 0" by (simp add: wire_frame_def)
  then have "1 \<le> transmissions Heartbeat [(Task Heartbeat, wire_frame h p)]" by (simp add: transmissions_def)
  moreover have "transmissions Heartbeat [(Task Heartbeat, wire_frame h p)] \<le> (case p_hb s of Return _ \<Rightarrow> 0 | Section _ _ \<Rightarrow> 1)"
    using safe_mode_quiet [OF s] by blast
  then have "transmissions Heartbeat [(Task Heartbeat, wire_frame h p)] \<le> 1" by (simp split: sections.splits)
  ultimately show ?thesis using s(2) by (metis le_antisym)
qed

end
