(* ===== verification/Trace_User.thy ===== *)
theory Trace_User
  imports Ebpf
begin

text \<open>
  The reporter of the tracer, \<open>ebpf/safety_trace_user.c\<close>: command line, ring buffer callback, sums over
  CPUs, percentiles, the three report files and \<open>main\<close>.  A report is a list of rows of cells; the
  conversion of a number to text is not modelled, and a quotient the code computes in floating point is
  kept as its two operands (\<open>Quot\<close>).  The rank of a percentile, computed in floating point too, is
  the argument \<open>rank\<close>.  Undefined behaviour (a shift by 64) is the value \<open>None\<close>.
\<close>

section \<open>Definitions\<close>

subsection \<open>Command line\<close>

record trace_opts =
  duration_sec :: int
  report_dir :: string
  verbose :: bool

definition env_default :: trace_opts where
  "env_default = \<lparr>duration_sec = 0, report_dir = ''reports'', verbose = False\<rparr>"

datatype parse_result = Parsed trace_opts | Usage_exit | ARGP_ERR_UNKNOWN

definition parse_arg :: "char \<Rightarrow> string \<Rightarrow> trace_opts \<Rightarrow> parse_result" where
  "parse_arg key arg env =
     (if key = CHR ''d'' then
        let (errno, v) = strtol10 arg;
            env = env\<lparr>duration_sec := v\<rparr>
        in if errno \<or> duration_sec env < 0 then Usage_exit else Parsed env
      else if key = CHR ''r'' then Parsed (env\<lparr>report_dir := arg\<rparr>)
      else if key = CHR ''v'' then Parsed (env\<lparr>verbose := True\<rparr>)
      else ARGP_ERR_UNKNOWN)"

subsection \<open>Timeline\<close>

definition MAX_TIMELINE :: nat where [bpf_const]: "MAX_TIMELINE = 4096"

definition timeline_event_size :: nat where [bpf_const]: "timeline_event_size = 16"

definition now_mono_ns :: "u64 \<Rightarrow> u64 \<Rightarrow> u64" where
  "now_mono_ns tv_sec tv_nsec = tv_sec * 1000000000 + tv_nsec"

text \<open>The used part of \<open>g_timeline\<close>, whose length is \<open>g_timeline_n\<close>; an event arrives with the size of
  its record.\<close>

definition handle_rb_event :: "nat \<Rightarrow> timeline_event \<Rightarrow> timeline_event list \<Rightarrow> timeline_event list" where
  "handle_rb_event sz data g_timeline =
     (if sz < timeline_event_size then g_timeline
      else if length g_timeline < MAX_TIMELINE then g_timeline @ [data]
      else g_timeline)"

subsection \<open>Sums over CPUs\<close>

text \<open>The loop over the CPUs.\<close>

fun sum_hist_loop :: "hist list \<Rightarrow> bool \<Rightarrow> hist \<Rightarrow> hist" where
  "sum_hist_loop [] have_min out = out"
| "sum_hist_loop (p # per) have_min out =
     (let out = out\<lparr>hcount := hcount out + hcount p\<rparr>;
          out = out\<lparr>hsum := hsum out + hsum p\<rparr>;
          out = out\<lparr>slots := map (\<lambda>s. slots out ! s + slots p ! s) [0..<MAX_SLOTS]\<rparr>
      in if hcount p = 0 then sum_hist_loop per have_min out
         else let (have_min, out) = (if \<not> have_min \<or> hmin p < hmin out then (True, out\<lparr>hmin := hmin p\<rparr>)
                                     else (have_min, out));
                  out = (if hmax p > hmax out then out\<lparr>hmax := hmax p\<rparr> else out)
              in sum_hist_loop per have_min out)"

text \<open>\<open>calloc\<close> may fail, and then \<open>out\<close> is not written; the lookup may fail, \<open>None\<close>.\<close>

definition sum_percpu_hist :: "bool \<Rightarrow> hist list option \<Rightarrow> hist \<Rightarrow> int \<times> hist" where
  "sum_percpu_hist calloc_ok lookup out =
     (if \<not> calloc_ok then (-1, out)
      else let out = hist_zero
           in case lookup of None \<Rightarrow> (0, out) | Some per \<Rightarrow> (0, sum_hist_loop per False out))"

definition sum_percpu_u64 :: "bool \<Rightarrow> u64 list option \<Rightarrow> u64" where
  "sum_percpu_u64 calloc_ok lookup =
     (if \<not> calloc_ok then 0
      else case lookup of None \<Rightarrow> 0 | Some per \<Rightarrow> fold (\<lambda>c total. total + c) per 0)"

text \<open>The search for the slot of the target rank; \<open>ss\<close> are the slots from \<open>s\<close> on.\<close>

definition slot_bound :: "nat \<Rightarrow> u64 option" where
  "slot_bound s = (if Suc s < 64 then Some (push_bit (Suc s) 1) else None)"

fun percentile_loop :: "u64 \<Rightarrow> u64 \<Rightarrow> nat \<Rightarrow> u64 list \<Rightarrow> u64 \<Rightarrow> u64 option" where
  "percentile_loop target cum s [] mx = Some mx"
| "percentile_loop target cum s (n # ss) mx =
     (let cum = cum + n
      in if cum \<ge> target then (if s = 0 then Some 1 else slot_bound s)
         else percentile_loop target cum (Suc s) ss mx)"

definition hist_percentile_ns :: "(nat \<Rightarrow> u64 \<Rightarrow> u64) \<Rightarrow> hist \<Rightarrow> nat \<Rightarrow> u64 option" where
  "hist_percentile_ns rank h pct =
     (if hcount h = 0 then Some 0
      else let target = rank pct (hcount h);
               target = (if target = 0 then 1 else target)
           in percentile_loop target 0 0 (slots h) (hmax h))"

datatype rcell = Txt string | Val u64 | Quot u64 u64

definition hist_avg_ns :: "hist \<Rightarrow> rcell" where
  "hist_avg_ns h = (if hcount h = 0 then Val 0 else Quot (hsum h) (hcount h))"

subsection \<open>Reports\<close>

type_synonym report = "rcell list list"

record metric_row =
  mname :: string
  munit :: string
  mhist :: hist

text \<open>The row before the call is what the stack holds; the result of the sum is ignored.\<close>

definition collect_metric :: "metric_row \<Rightarrow> string \<Rightarrow> bool \<Rightarrow> hist list option \<Rightarrow> metric_row" where
  "collect_metric row name calloc_ok lookup =
     row\<lparr>mname := name, munit := ''ns'', mhist := snd (sum_percpu_hist calloc_ok lookup (mhist row))\<rparr>"

definition csv_row :: "(nat \<Rightarrow> u64 \<Rightarrow> u64) \<Rightarrow> metric_row \<Rightarrow> rcell list option" where
  "csv_row rank row =
     (let h = mhist row
      in case (hist_percentile_ns rank h 50, hist_percentile_ns rank h 90) of
           (Some p50, Some p90) \<Rightarrow> Some [Txt (mname row), Txt (munit row), Val (hcount h), Val (hmin h),
                                         Val p50, Val p90, Val (hmax h), hist_avg_ns h]
         | _ \<Rightarrow> None)"

definition csv_header :: "rcell list" where
  "csv_header = map Txt [''metric'', ''unit'', ''count'', ''min'', ''p50'', ''p90'', ''max'', ''avg'']"

definition write_csv :: "(nat \<Rightarrow> u64 \<Rightarrow> u64) \<Rightarrow> metric_row list \<Rightarrow> report option" where
  "write_csv rank rows = map_option (\<lambda>rs. csv_header # rs) (those (map (csv_row rank) rows))"

text \<open>The table of non-empty buckets of one metric, from slot \<open>s\<close> on.\<close>

fun bucket_rows :: "nat \<Rightarrow> u64 list \<Rightarrow> report option" where
  "bucket_rows s [] = Some []"
| "bucket_rows s (n # ss) =
     (if n = 0 then bucket_rows (Suc s) ss
      else let lo = (if s = 0 then 0 else push_bit s 1)
           in case (slot_bound s, bucket_rows (Suc s) ss) of
                (Some hi, Some rs) \<Rightarrow> Some ([Val lo, Val (hi - 1), Val n] # rs)
              | _ \<Rightarrow> None)"

definition md_row :: "(nat \<Rightarrow> u64 \<Rightarrow> u64) \<Rightarrow> metric_row \<Rightarrow> rcell list option" where
  "md_row rank row =
     (let h = mhist row
      in case (hist_percentile_ns rank h 50, hist_percentile_ns rank h 90) of
           (Some p50, Some p90) \<Rightarrow> Some [Txt (mname row), Val (hcount h), Val (hmin h),
                                         Val p50, Val p90, Val (hmax h), hist_avg_ns h]
         | _ \<Rightarrow> None)"

definition md_distribution :: "metric_row \<Rightarrow> report option" where
  "md_distribution row =
     (let h = mhist row
      in if hcount h = 0 then Some [[Txt (mname row)], [Txt ''No samples observed.'']]
         else map_option (\<lambda>rs. [Txt (mname row)] # map Txt [''range (ns)'', ''count''] # rs)
                (bucket_rows 0 (slots h)))"

definition md_counts :: "u64 list \<Rightarrow> report" where
  "md_counts counters =
     [map Txt [''Tracepoint'', ''Count''],
      [Txt ''safety_frame_received'', Val (counters ! cnt_index CNT_FRAME_RECEIVED)],
      [Txt ''safety_frame_dropped'', Val (counters ! cnt_index CNT_FRAME_DROPPED)],
      [Txt ''safety_timeout_detected'', Val (counters ! cnt_index CNT_TIMEOUT_DETECTED)],
      [Txt ''safety_recovery_queued'', Val (counters ! cnt_index CNT_RECOVERY_QUEUED)],
      [Txt ''safety_poll_wakeup'', Val (counters ! cnt_index CNT_POLL_WAKEUP)]]"

definition write_md_latency :: "(nat \<Rightarrow> u64 \<Rightarrow> u64) \<Rightarrow> metric_row list \<Rightarrow> u64 list \<Rightarrow> report option" where
  "write_md_latency rank rows counters =
     (case (those (map (md_row rank) rows), those (map md_distribution rows)) of
        (Some ms, Some ds) \<Rightarrow>
          Some (map Txt [''Metric'', ''Count'', ''Min (ns)'', ''p50 (ns)'', ''p90 (ns)'', ''Max (ns)'', ''Avg (ns)'']
                # ms @ concat ds @ md_counts counters)
      | _ \<Rightarrow> None)"

definition tl_kind_str :: "u32 \<Rightarrow> string" where
  "tl_kind_str kind = (if kind = TL_TIMEOUT then ''TIMEOUT'' else if kind = TL_RECOVERY then ''RECOVERY''
     else if kind = TL_HEARTBEAT_RESTORED then ''HEARTBEAT_RESTORED'' else ''UNKNOWN'')"

definition rel_seconds :: "u64 \<Rightarrow> u64 \<Rightarrow> rcell" where
  "rel_seconds g_start_mono_ns t =
     (if t \<le> g_start_mono_ns then Val 0 else Quot (t - g_start_mono_ns) 1000000000)"

fun event_rows :: "u64 \<Rightarrow> nat \<Rightarrow> timeline_event list \<Rightarrow> report" where
  "event_rows start i [] = []"
| "event_rows start i (ev # evs) =
     [Val (of_nat (i + 1)), rel_seconds start (te_ts ev), Txt (tl_kind_str (te_kind ev)), Val (ucast (te_aux ev))]
     # event_rows start (i + 1) evs"

text \<open>The inner loop: from \<open>j\<close> on, the first RECOVERY and the first HEARTBEAT_RESTORED after it, not
  beyond the next TIMEOUT; it gives the index it stops at and the two times, 0 for not found.\<close>

function scan_cycle :: "timeline_event list \<Rightarrow> nat \<Rightarrow> u64 \<Rightarrow> u64 \<Rightarrow> nat \<times> u64 \<times> u64" where
  "scan_cycle gt j t_recovery t_restored =
     (if j < length gt then
        let k = te_kind (gt ! j) in
        if k = TL_TIMEOUT then (j, t_recovery, t_restored)
        else if t_recovery = 0 \<and> k = TL_RECOVERY then scan_cycle gt (j + 1) (te_ts (gt ! j)) t_restored
        else if t_recovery \<noteq> 0 \<and> t_restored = 0 \<and> k = TL_HEARTBEAT_RESTORED
        then (j, t_recovery, te_ts (gt ! j))
        else scan_cycle gt (j + 1) t_recovery t_restored
      else (j, t_recovery, t_restored))"
  by pat_completeness auto
termination by (relation "measure (\<lambda>(gt, j, _). length gt - j)") auto

text \<open>One row of the cycle table: the three durations are shown where they are known.\<close>

definition ms_cell :: "string \<Rightarrow> bool \<Rightarrow> u64 \<Rightarrow> rcell" where
  "ms_cell na known d = (if known then Quot d 1000000 else Txt na)"

definition cycle_row :: "u64 \<Rightarrow> nat \<Rightarrow> u64 \<Rightarrow> u64 \<Rightarrow> u64 \<Rightarrow> rcell list" where
  "cycle_row start cycle t_timeout t_recovery t_restored =
     [Val (of_nat cycle), rel_seconds start t_timeout,
      ms_cell ''n/a'' (t_recovery \<noteq> 0) (t_recovery - t_timeout),
      ms_cell ''n/a'' (t_recovery \<noteq> 0 \<and> t_restored \<noteq> 0) (t_restored - t_recovery),
      ms_cell ''n/a (not yet recovered)'' (t_restored \<noteq> 0) (t_restored - t_timeout)]"

function cycle_loop :: "u64 \<Rightarrow> timeline_event list \<Rightarrow> nat \<Rightarrow> nat \<Rightarrow> report" where
  "cycle_loop start gt cycle i =
     (if i < length gt then
        if te_kind (gt ! i) \<noteq> TL_TIMEOUT then cycle_loop start gt cycle (i + 1)
        else let t_timeout = te_ts (gt ! i);
                 (j, t_recovery, t_restored) = scan_cycle gt (i + 1) 0 0;
                 cycle = cycle + 1
             in cycle_row start cycle t_timeout t_recovery t_restored
                # cycle_loop start gt cycle (if j > i then j else i + 1)
      else [])"
  by pat_completeness auto
termination by (relation "measure (\<lambda>(_, gt, _, i). length gt - i)") auto

declare scan_cycle.simps [simp del] cycle_loop.simps [simp del]

definition write_fault_timeline :: "u64 \<Rightarrow> timeline_event list \<Rightarrow> report" where
  "write_fault_timeline start g_timeline =
     (if length g_timeline = 0
      then [[Txt ''No fault/recovery events were observed during the tracing window.'']]
      else map Txt [''#'', ''t (s)'', ''event'', ''aux''] # event_rows start 0 g_timeline
           @ map Txt [''Cycle'', ''timeout t (s)'', ''timeout->recovery (ms)'', ''recovery->restored (ms)'',
                      ''total fault->recovery (ms)''] # cycle_loop start g_timeline 0 0)"

subsection \<open>Putting the reports together\<close>

text \<open>What the system calls of the reporter return: the number of CPUs, whether allocation and lookup
  number \<open>i\<close> succeed, \<open>mkdir\<close> (success, or the error), \<open>fopen\<close> per path, the floating-point rank.\<close>

datatype mkdir_result = Mkdir_ok | Mkdir_EEXIST | Mkdir_error

record report_env =
  num_possible_cpus :: int
  calloc_ok :: "nat \<Rightarrow> bool"
  lookup_ok :: "nat \<Rightarrow> bool"
  mkdir_res :: mkdir_result
  fopen_ok :: "string \<Rightarrow> bool"
  pct_rank :: "nat \<Rightarrow> u64 \<Rightarrow> u64"
  stack_row :: metric_row

definition ensure_dir :: "mkdir_result \<Rightarrow> int" where
  "ensure_dir r = (case r of Mkdir_ok \<Rightarrow> 0 | Mkdir_EEXIST \<Rightarrow> 0 | Mkdir_error \<Rightarrow> -1)"

text \<open>\<open>bpf_map_lookup_elem\<close> on a per-CPU array from user space: the value of every CPU.\<close>

definition percpu_lookup :: "bool \<Rightarrow> nat \<Rightarrow> 'a list list \<Rightarrow> 'a list option" where
  "percpu_lookup ok i mp = (if ok \<and> (\<forall>row \<in> set mp. i < length row) then Some (map (\<lambda>row. row ! i) mp) else None)"

definition collect_rows :: "report_env \<Rightarrow> bpf_maps \<Rightarrow> metric_row list" where
  "collect_rows r m =
     [collect_metric (stack_row r) ''read_latency_ns'' (calloc_ok r 0) (percpu_lookup (lookup_ok r 0) (sc_index SC_READ) (syscall_lat m)),
      collect_metric (stack_row r) ''write_latency_ns'' (calloc_ok r 1) (percpu_lookup (lookup_ok r 1) (sc_index SC_WRITE) (syscall_lat m)),
      collect_metric (stack_row r) ''ioctl_latency_ns'' (calloc_ok r 2) (percpu_lookup (lookup_ok r 2) (sc_index SC_IOCTL) (syscall_lat m)),
      collect_metric (stack_row r) ''poll_wakeup_ns'' (calloc_ok r 3) (percpu_lookup (lookup_ok r 3) 0 (poll_lat m)),
      collect_metric (stack_row r) ''sched_delay_ns'' (calloc_ok r 4) (percpu_lookup (lookup_ok r 4) 0 (sched_lat m))]"

definition collect_counters :: "report_env \<Rightarrow> bpf_maps \<Rightarrow> u64 list" where
  "collect_counters r m = map (\<lambda>i. sum_percpu_u64 (calloc_ok r (5 + i))
     (percpu_lookup (lookup_ok r (5 + i)) i (tp_counters m))) [0..<CNT_MAX]"

text \<open>The return code and the files written, in order; \<open>None\<close> is undefined behaviour.\<close>

definition generate_reports :: "report_env \<Rightarrow> trace_opts \<Rightarrow> u64 \<Rightarrow> timeline_event list \<Rightarrow> bpf_maps
    \<Rightarrow> (int \<times> (string \<times> report) list) option" where
  "generate_reports r env start g_timeline m =
     (if num_possible_cpus r \<le> 0 then Some (-1, [])
      else let rows = collect_rows r m;
               counters = collect_counters r m
           in if ensure_dir (mkdir_res r) \<noteq> 0 then Some (-1, [])
      else let csv = report_dir env @ ''/latency_report.csv''
           in if \<not> fopen_ok r csv then Some (-1, [])
      else case write_csv (pct_rank r) rows of None \<Rightarrow> None | Some csv_rep \<Rightarrow>
           let md = report_dir env @ ''/latency_report.md''
           in if \<not> fopen_ok r md then Some (-1, [(csv, csv_rep)])
      else case write_md_latency (pct_rank r) rows counters of None \<Rightarrow> None | Some md_rep \<Rightarrow>
           let ft = report_dir env @ ''/fault_timeline.md''
           in if \<not> fopen_ok r ft then Some (-1, [(csv, csv_rep), (md, md_rep)])
      else Some (0, [(csv, csv_rep), (md, md_rep), (ft, write_fault_timeline start g_timeline)]))"

text \<open>One round of the main loop: the flag the signal handler sets, as read before the round, what
  \<open>ring_buffer__poll\<close> returns and the records it hands to the callback, and the clock after it.\<close>

record poll_round =
  exiting :: bool
  poll_ret :: int
  records :: "(nat \<times> timeline_event) list"
  mono_ns :: u64

definition consume :: "(nat \<times> timeline_event) list \<Rightarrow> timeline_event list \<Rightarrow> timeline_event list" where
  "consume rs g_timeline = fold (\<lambda>(sz, ev). handle_rb_event sz ev) rs g_timeline"

definition EINTR_ret :: int where "EINTR_ret = -4"

text \<open>\<open>None\<close>: the loop has not ended after the given rounds.\<close>

fun poll_loop :: "u64 \<Rightarrow> poll_round list \<Rightarrow> int \<Rightarrow> timeline_event list \<Rightarrow> (int \<times> timeline_event list) option" where
  "poll_loop deadline_ns [] err g_timeline = None"
| "poll_loop deadline_ns (p # ps) err g_timeline =
     (if exiting p then Some (err, g_timeline)
      else let err = poll_ret p;
               g_timeline = consume (records p) g_timeline
           in if err = EINTR_ret then Some (0, g_timeline)
              else if err < 0 then Some (err, g_timeline)
              else if deadline_ns \<noteq> 0 \<and> mono_ns p \<ge> deadline_ns then Some (err, g_timeline)
              else poll_loop deadline_ns ps err g_timeline)"

record main_env =
  open_ok :: bool
  load_ret :: int
  attach_ret :: int
  rb_new_ok :: bool
  start_ns :: u64
  rounds :: "poll_round list"
  last_records :: "(nat \<times> timeline_event) list"
  final_maps :: bpf_maps

definition exit_status :: "int \<Rightarrow> int" where
  "exit_status err = (if err \<noteq> 0 then 1 else 0)"

text \<open>\<open>main\<close> after the command line was parsed: exit status and files, \<open>None\<close> while it is running.\<close>

definition trace_main :: "main_env \<Rightarrow> report_env \<Rightarrow> trace_opts \<Rightarrow> (int \<times> (string \<times> report) list) option" where
  "trace_main x r env =
     (if \<not> open_ok x then Some (1, [])
      else if load_ret x \<noteq> 0 then Some (exit_status (load_ret x), [])
      else if attach_ret x \<noteq> 0 then Some (exit_status (attach_ret x), [])
      else if \<not> rb_new_ok x then Some (exit_status (-1), [])
      else let deadline_ns = (if duration_sec env > 0
                              then start_ns x + of_int (duration_sec env) * 1000000000 else 0)
           in case poll_loop deadline_ns (rounds x) 0 [] of
                None \<Rightarrow> None
              | Some (err, g_timeline) \<Rightarrow>
                  let g_timeline = consume (last_records x) g_timeline
                  in case generate_reports r env (start_ns x) g_timeline (final_maps x) of
                       None \<Rightarrow> None
                     | Some (err, files) \<Rightarrow> Some (exit_status err, files))"

section \<open>Lemmas\<close>

subsection \<open>Timeline\<close>

lemma consume_take:
  "\<forall>(sz, ev) \<in> set rs. timeline_event_size \<le> sz \<Longrightarrow> length g \<le> MAX_TIMELINE \<Longrightarrow>
     consume rs g = take MAX_TIMELINE (g @ map snd rs)"
proof (induction rs arbitrary: g)
  case (Cons r rs)
  obtain sz ev where r: "r = (sz, ev)" by (cases r)
  show ?case
  proof (cases "length g < MAX_TIMELINE")
    case True
    then show ?thesis using Cons.IH [of "g @ [ev]"] Cons.prems r
      by (simp add: consume_def handle_rb_event_def)
  next
    case False
    then show ?thesis using Cons.IH [of g] Cons.prems r
      by (simp add: consume_def handle_rb_event_def)
  qed
qed (simp add: consume_def)

subsection \<open>Sums over CPUs\<close>

text \<open>One iteration of the loop over the CPUs, on a histogram with samples.\<close>

definition hist_merge :: "hist \<Rightarrow> bool \<Rightarrow> hist \<Rightarrow> hist" where
  "hist_merge p have_min out = \<lparr>slots = map (\<lambda>s. slots out ! s + slots p ! s) [0..<MAX_SLOTS],
     hcount = hcount out + hcount p, hsum = hsum out + hsum p,
     hmin = (if \<not> have_min \<or> hmin p < hmin out then hmin p else hmin out),
     hmax = (if hmax p > hmax out then hmax p else hmax out)\<rparr>"

definition hist_keep :: "hist \<Rightarrow> hist \<Rightarrow> hist" where
  "hist_keep p out = out\<lparr>slots := map (\<lambda>s. slots out ! s + slots p ! s) [0..<MAX_SLOTS],
     hcount := hcount out + hcount p, hsum := hsum out + hsum p\<rparr>"

lemma sum_hist_loop_step:
  "sum_hist_loop (p # per) have_min out =
     (if hcount p = 0 then sum_hist_loop per have_min (hist_keep p out)
      else sum_hist_loop per True (hist_merge p have_min out))"
  by (cases out; cases have_min) (auto simp: hist_keep_def hist_merge_def Let_def)

lemma describes_count_0:
  "hist_describes h ds \<Longrightarrow> length ds < 2 ^ 64 \<Longrightarrow> hcount h = 0 \<longleftrightarrow> ds = []"
  using of_nat_eq_0_iff_u64 [of "length ds"] by (simp add: hist_describes_def)

lemma describes_keep:
  assumes "hist_describes out ds" and "hist_describes p []"
  shows "hist_describes (hist_keep p out) ds"
  using assms by (simp add: hist_describes_def hist_keep_def)

lemma Min_append: "xs \<noteq> [] \<Longrightarrow> ys \<noteq> [] \<Longrightarrow> Min (set (xs @ ys)) = min (Min (set xs)) (Min (set ys))"
  by (simp add: Min_Un)

lemma Max_append: "xs \<noteq> [] \<Longrightarrow> ys \<noteq> [] \<Longrightarrow> Max (set (xs @ ys)) = max (Max (set xs)) (Max (set ys))"
  by (simp add: Max_Un)

lemma describes_merge:
  assumes "hist_describes out ds" and "hist_describes p es" and "es \<noteq> []"
  shows "hist_describes (hist_merge p (ds \<noteq> []) out) (ds @ es)"
proof -
  have "hmin (hist_merge p (ds \<noteq> []) out) = Min (set (ds @ es))"
    using assms Min_append [of ds es] by (cases "ds = []") (auto simp: hist_describes_def hist_merge_def min_def
      simp del: Min_gr_iff Min_ge_iff Min_le_iff Min_less_iff)
  moreover have "hmax (hist_merge p (ds \<noteq> []) out) = Max (set (ds @ es))"
  proof (cases "ds = []")
    case True
    then show ?thesis using assms word_gt_0 [of "Max (set es)"] by (auto simp: hist_describes_def hist_merge_def)
  next
    case False
    then have "Max (set (ds @ es)) = max (hmax out) (hmax p)"
      using assms Max_append [of ds es] by (simp add: hist_describes_def)
    then show ?thesis by (simp add: hist_merge_def max_def not_less less_imp_le)
  qed
  ultimately show ?thesis
    using assms by (auto simp: hist_describes_def hist_merge_def)
qed

lemma sum_hist_loop_describes:
  assumes "list_all2 hist_describes per dss" and "hist_describes out ds" and "length (ds @ concat dss) < 2 ^ 64"
  shows "hist_describes (sum_hist_loop per (ds \<noteq> []) out) (ds @ concat dss)"
  using assms
proof (induction per dss arbitrary: out ds rule: list_all2_induct)
  case (Cons p per es dss)
  have "length es < 2 ^ 64" using Cons.prems(2) by simp
  note zero = describes_count_0 [OF Cons.hyps(1) this]
  show ?case
  proof (cases "es = []")
    case True
    then have "hist_describes (hist_keep p out) ds"
      using describes_keep Cons by simp
    from Cons.IH [OF this] True zero Cons.prems(2) show ?thesis
      by (simp only: sum_hist_loop_step) simp
  next
    case False
    from Cons.IH [OF describes_merge [OF Cons.prems(1) Cons.hyps(1) False]] False zero Cons.prems(2)
    show ?thesis by (simp only: sum_hist_loop_step) simp
  qed
qed simp

subsection \<open>Percentiles\<close>

lemma slots_below:
  "(\<Sum>s<Suc t. length (filter (in_slot s) ds)) = length (filter (\<lambda>d. unat d < 2 ^ Suc t) ds)"
proof (induction t)
  case 0
  show ?case by (simp add: in_slot_def)
next
  case (Suc t)
  have "length (filter (\<lambda>d. unat d < 2 ^ Suc (Suc t)) ds) =
      length (filter (\<lambda>d. unat d < 2 ^ Suc t) ds) + length (filter (in_slot (Suc t)) ds)"
    by (induction ds) (auto simp: in_slot_def)
  with Suc show ?case by (simp del: power_Suc)
qed

text \<open>The loop finds the first slot at which the accumulated count reaches the target.\<close>

lemma percentile_loop_finds:
  fixes f :: "nat \<Rightarrow> nat"
  assumes "ss = map (\<lambda>u. of_nat (f u)) [s..<n]" and "(\<Sum>u<n. f u) < 2 ^ 64" and "s \<le> n"
    and "(\<Sum>u < s. f u) < unat target" and "unat target \<le> (\<Sum>u<n. f u)"
  shows "\<exists>t. s \<le> t \<and> t < n \<and> (\<Sum>u<t. f u) < unat target \<and> unat target \<le> (\<Sum>u<Suc t. f u)
    \<and> percentile_loop target (of_nat (\<Sum>u < s. f u)) s ss mx = (if t = 0 then Some 1 else slot_bound t)"
  using assms
proof (induction ss arbitrary: s)
  case Nil
  then have "s = n" by (cases "s < n") auto
  with Nil show ?case by simp
next
  case (Cons m ss)
  then have s: "s < n" by (cases "s < n") auto
  with Cons.prems(1) have m: "m = of_nat (f s)" "ss = map (\<lambda>u. of_nat (f u)) [Suc s..<n]"
    by (simp_all add: upt_rec)
  have le: "(\<Sum>u<Suc s. f u) \<le> (\<Sum>u<n. f u)" using s by (intro sum_mono2) auto
  then have lt: "(\<Sum>u<Suc s. f u) < 2 ^ 64" using Cons.prems(2) by (rule le_less_trans)
  have cum: "of_nat (\<Sum>u < s. f u) + m = of_nat (\<Sum>u<Suc s. f u)" by (simp add: m)
  have reach: "target \<le> of_nat (\<Sum>u<Suc s. f u) \<longleftrightarrow> unat target \<le> (\<Sum>u<Suc s. f u)"
    using lt by (simp add: word_le_nat_alt unat_of_nat del: sum.lessThan_Suc of_nat_sum)
  show ?case
  proof (cases "unat target \<le> (\<Sum>u<Suc s. f u)")
    case True
    then show ?thesis using reach cum s Cons.prems(4) by (intro exI [of _ s]) (simp del: sum.lessThan_Suc of_nat_sum)
  next
    case False
    from Cons.IH [OF m(2) Cons.prems(2) Suc_leI [OF s] _ Cons.prems(5)] False
    obtain t where "Suc s \<le> t" "t < n" "(\<Sum>u<t. f u) < unat target" "unat target \<le> (\<Sum>u<Suc t. f u)"
      "percentile_loop target (of_nat (\<Sum>u<Suc s. f u)) (Suc s) ss mx = (if t = 0 then Some 1 else slot_bound t)"
      by (auto simp del: sum.lessThan_Suc of_nat_sum)
    then show ?thesis using reach cum False by (intro exI [of _ t]) (simp del: sum.lessThan_Suc of_nat_sum)
  qed
qed

lemma sorted_nth_le:
  assumes "sorted xs" and "0 < t" and "t \<le> length (filter P xs)" and "\<And>x y. P y \<Longrightarrow> x \<le> y \<Longrightarrow> P x"
  shows "P (xs ! (t - 1))"
proof (rule ccontr)
  assume n: "\<not> P (xs ! (t - 1))"
  have t: "t \<le> length xs" using le_trans [OF assms(3) length_filter_le] .
  have "\<not> P x" if "x \<in> set (drop (t - 1) xs)" for x
  proof -
    from that obtain i where "i < length xs - (t - 1)" "x = xs ! (t - 1 + i)"
      by (auto simp: in_set_conv_nth)
    then have "xs ! (t - 1) \<le> x" using sorted_nth_mono [OF assms(1), of "t - 1" "t - 1 + i"] t by simp
    then show ?thesis using n assms(4) by blast
  qed
  then have "filter P (drop (t - 1) xs) = []" by (simp add: filter_empty_conv)
  then have "filter P xs = filter P (take (t - 1) xs)"
    by (metis append_Nil2 append_take_drop_id filter_append)
  then have "length (filter P xs) \<le> t - 1"
    using length_filter_le [of P "take (t - 1) xs"] t by simp
  with assms(2,3) show False by simp
qed

lemma sorted_nth_ge:
  assumes "sorted xs" and "length (filter P xs) < t" and "t \<le> length xs" and "\<And>x y. P y \<Longrightarrow> x \<le> y \<Longrightarrow> P x"
  shows "\<not> P (xs ! (t - 1))"
proof
  assume p: "P (xs ! (t - 1))"
  have "P x" if "x \<in> set (take t xs)" for x
  proof -
    from that obtain i where "i < t" "x = xs ! i" using assms(3) by (auto simp: in_set_conv_nth)
    then have "x \<le> xs ! (t - 1)" using sorted_nth_mono [OF assms(1), of i "t - 1"] assms(3) by simp
    then show ?thesis using p assms(4) by blast
  qed
  then have "filter P (take t xs) = take t xs" by (simp add: filter_id_conv)
  then have "t \<le> length (filter P xs)"
    using assms(3) filter_append [of P "take t xs" "drop t xs"] by simp
  with assms(2) show False by simp
qed

lemma percentile_rank:
  assumes "hist_describes h ds" and "ds \<noteq> []" and "length ds < 2 ^ 64" and "\<forall>d \<in> set ds. unat d < 2 ^ 63"
    and "t = (if rank pct (hcount h) = 0 then 1 else unat (rank pct (hcount h)))" and "t \<le> length ds"
  shows "\<exists>r. hist_percentile_ns rank h pct = Some r
    \<and> t \<le> length (filter (\<lambda>d. d \<le> r) ds) \<and> length (filter (\<lambda>d. unat d < unat r div 2) ds) < t"
proof -
  let ?f = "\<lambda>s. length (filter (in_slot s) ds)"
  let ?target = "if rank pct (hcount h) = 0 then 1 else rank pct (hcount h)"
  have tot: "(\<Sum>s<64. ?f s) = length ds" by (rule sum_slots)
  have t: "unat ?target = t" using assms(5) by simp
  have "0 < unat ?target" by (simp add: unat_gt_0)
  then have "0 < t" unfolding t .
  have "slots h = map (\<lambda>s. of_nat (?f s)) [0..<64]"
    using assms(1) by (intro nth_equalityI) (auto simp: hist_describes_def MAX_SLOTS_def)
  from percentile_loop_finds [OF this, of ?target "hmax h"] tot assms(3,6) \<open>0 < t\<close>
  obtain u where u: "u < 64" "(\<Sum>s<u. ?f s) < t" "t \<le> (\<Sum>s<Suc u. ?f s)"
    "percentile_loop ?target 0 0 (slots h) (hmax h) = (if u = 0 then Some 1 else slot_bound u)"
    unfolding t by auto
  have p: "hist_percentile_ns rank h pct = (if u = 0 then Some 1 else slot_bound u)"
    using u(4) describes_count_0 [OF assms(1,3)] assms(2) by (simp add: hist_percentile_ns_def Let_def)
  show ?thesis
  proof (cases u)
    case 0
    have "filter (in_slot 0) ds = filter (\<lambda>d. d \<le> 1) ds"
      by (rule filter_cong) (auto simp: in_slot_def word_le_nat_alt)
    then show ?thesis using p u 0 \<open>0 < t\<close> by simp
  next
    case (Suc v)
    have "Suc u < 64"
    proof (rule ccontr)
      assume "\<not> Suc u < 64"
      with u(1) have "u = 63" by simp
      then have "(\<Sum>s<u. ?f s) = length (filter (\<lambda>d. unat d < 2 ^ 63) ds)" using slots_below [of ds 62] by simp
      also have "\<dots> = length ds" using assms(4) by (metis filter_True)
      finally show False using u(2) assms(6) by simp
    qed
    then have "unat (push_bit (Suc u) 1 :: u64) = 2 ^ Suc u" using unat_pow_2 [of "Suc u"] by simp
    moreover have "length (filter (\<lambda>d. unat d < 2 ^ Suc u) ds) \<le> length (filter (\<lambda>d. unat d \<le> 2 ^ Suc u) ds)"
      by (induction ds) auto
    moreover have "(2 :: nat) ^ Suc (Suc v) div 2 = 2 ^ Suc v" by simp
    ultimately show ?thesis
      using p u Suc \<open>Suc u < 64\<close> slots_below [of ds u] slots_below [of ds v]
      by (auto simp: slot_bound_def word_le_nat_alt simp del: push_bit_of_1 power_Suc sum.lessThan_Suc)
  qed
qed

subsection \<open>Fault cycles\<close>

text \<open>The specification: one cycle per TIMEOUT, read off the events up to the next TIMEOUT.\<close>

fun first_restored :: "timeline_event list \<Rightarrow> u64" where
  "first_restored [] = 0"
| "first_restored (ev # evs) = (if te_kind ev = TL_HEARTBEAT_RESTORED then te_ts ev else first_restored evs)"

fun recovery_times :: "timeline_event list \<Rightarrow> u64 \<times> u64" where
  "recovery_times [] = (0, 0)"
| "recovery_times (ev # evs) = (if te_kind ev = TL_RECOVERY then (te_ts ev, first_restored evs) else recovery_times evs)"

definition until_timeout :: "timeline_event list \<Rightarrow> timeline_event list" where
  "until_timeout evs = takeWhile (\<lambda>ev. te_kind ev \<noteq> TL_TIMEOUT) evs"

fun cycles :: "timeline_event list \<Rightarrow> (u64 \<times> u64 \<times> u64) list" where
  "cycles [] = []"
| "cycles (ev # evs) = (if te_kind ev = TL_TIMEOUT then (te_ts ev, recovery_times (until_timeout evs)) # cycles evs
     else cycles evs)"

lemma kinds_distinct [simp]: "TL_RECOVERY \<noteq> TL_TIMEOUT" "TL_HEARTBEAT_RESTORED \<noteq> TL_TIMEOUT"
  "TL_RECOVERY \<noteq> TL_HEARTBEAT_RESTORED" "TL_TIMEOUT \<noteq> TL_RECOVERY" "TL_TIMEOUT \<noteq> TL_HEARTBEAT_RESTORED"
  "TL_HEARTBEAT_RESTORED \<noteq> TL_RECOVERY"
  by (simp_all add: bpf_const)

lemma scan_restored:
  assumes "\<forall>ev \<in> set gt. te_ts ev \<noteq> 0" and "j \<le> length gt" and "tr \<noteq> 0"
  shows "\<exists>j'. scan_cycle gt j tr 0 = (j', tr, first_restored (until_timeout (drop j gt)))
    \<and> j \<le> j' \<and> j' \<le> length gt \<and> cycles (drop j' gt) = cycles (drop j gt)"
  using assms(2)
proof (induction "length gt - j" arbitrary: j)
  case 0
  then show ?case by (subst scan_cycle.simps) (simp add: until_timeout_def)
next
  case (Suc n)
  then have j: "j < length gt" by simp
  then have d: "drop j gt = gt ! j # drop (Suc j) gt" by (simp add: Cons_nth_drop_Suc)
  consider "te_kind (gt ! j) = TL_TIMEOUT" | "te_kind (gt ! j) = TL_HEARTBEAT_RESTORED"
    | "te_kind (gt ! j) \<noteq> TL_TIMEOUT" "te_kind (gt ! j) \<noteq> TL_HEARTBEAT_RESTORED" by blast
  then show ?case
  proof cases
    case 3
    have "n = length gt - Suc j" using Suc.hyps(2) j by simp
    from Suc.hyps(1) [OF this] j obtain j' where
      "scan_cycle gt (Suc j) tr 0 = (j', tr, first_restored (until_timeout (drop (Suc j) gt)))"
      "Suc j \<le> j'" "j' \<le> length gt" "cycles (drop j' gt) = cycles (drop (Suc j) gt)" by auto
    then show ?thesis using 3 j assms(3) by (subst scan_cycle.simps) (auto simp: d until_timeout_def Let_def)
  qed (use j assms(3) in \<open>subst scan_cycle.simps, auto simp: d until_timeout_def Let_def\<close>)+
qed

lemma scan_recovery:
  assumes "\<forall>ev \<in> set gt. te_ts ev \<noteq> 0" and "j \<le> length gt"
  shows "\<exists>j'. scan_cycle gt j 0 0 = (j', recovery_times (until_timeout (drop j gt)))
    \<and> j \<le> j' \<and> j' \<le> length gt \<and> cycles (drop j' gt) = cycles (drop j gt)"
  using assms(2)
proof (induction "length gt - j" arbitrary: j)
  case 0
  then show ?case by (subst scan_cycle.simps) (simp add: until_timeout_def)
next
  case (Suc n)
  then have j: "j < length gt" by simp
  then have d: "drop j gt = gt ! j # drop (Suc j) gt" by (simp add: Cons_nth_drop_Suc)
  consider "te_kind (gt ! j) = TL_TIMEOUT" | "te_kind (gt ! j) = TL_RECOVERY"
    | "te_kind (gt ! j) \<noteq> TL_TIMEOUT" "te_kind (gt ! j) \<noteq> TL_RECOVERY" by blast
  then show ?case
  proof cases
    case 1
    then show ?thesis using j by (subst scan_cycle.simps) (auto simp: d until_timeout_def Let_def)
  next
    case 2
    have "te_ts (gt ! j) \<noteq> 0" using assms(1) j by simp
    from scan_restored [OF assms(1) Suc_leI [OF j] this] 2 j show ?thesis
      by (subst scan_cycle.simps) (auto simp: d until_timeout_def Let_def)
  next
    case 3
    have "n = length gt - Suc j" using Suc.hyps(2) j by simp
    from Suc.hyps(1) [OF this] j obtain j' where
      "scan_cycle gt (Suc j) 0 0 = (j', recovery_times (until_timeout (drop (Suc j) gt)))"
      "Suc j \<le> j'" "j' \<le> length gt" "cycles (drop j' gt) = cycles (drop (Suc j) gt)" by auto
    then show ?thesis using 3 j by (subst scan_cycle.simps) (auto simp: d until_timeout_def Let_def)
  qed
qed

fun numbered_rows :: "u64 \<Rightarrow> nat \<Rightarrow> (u64 \<times> u64 \<times> u64) list \<Rightarrow> report" where
  "numbered_rows start c [] = []"
| "numbered_rows start c ((t, tr, ts) # cs) = cycle_row start (c + 1) t tr ts # numbered_rows start (c + 1) cs"

lemma cycle_loop_spec:
  assumes "\<forall>ev \<in> set gt. te_ts ev \<noteq> 0" and "i \<le> length gt"
  shows "cycle_loop start gt c i = numbered_rows start c (cycles (drop i gt))"
  using assms(2)
proof (induction "length gt - i" arbitrary: i c rule: less_induct)
  case less
  show ?case
  proof (cases "i < length gt")
    case True
    then have d: "drop i gt = gt ! i # drop (Suc i) gt" by (simp add: Cons_nth_drop_Suc)
    obtain j' where j': "scan_cycle gt (Suc i) 0 0 = (j', recovery_times (until_timeout (drop (Suc i) gt)))"
      "Suc i \<le> j'" "j' \<le> length gt" "cycles (drop j' gt) = cycles (drop (Suc i) gt)"
      using scan_recovery [OF assms(1) Suc_leI [OF True]] by blast
    obtain tr ts where r: "recovery_times (until_timeout (drop (Suc i) gt)) = (tr, ts)" by fastforce
    have "cycle_loop start gt (c + 1) j' = numbered_rows start (c + 1) (cycles (drop (Suc i) gt))"
      using less.hyps [of j' "c + 1"] True j' by simp
    moreover have "cycle_loop start gt c (Suc i) = numbered_rows start c (cycles (drop (Suc i) gt))"
      using less.hyps [of "Suc i" c] True by simp
    ultimately show ?thesis
      using True j' r by (subst cycle_loop.simps) (simp add: d Let_def)
  next
    case False
    then show ?thesis by (subst cycle_loop.simps) simp
  qed
qed

lemma length_numbered_rows [simp]: "length (numbered_rows start c cs) = length cs"
  by (induction start c cs rule: numbered_rows.induct) simp_all

lemma length_cycles: "length (cycles evs) = length (filter (\<lambda>ev. te_kind ev = TL_TIMEOUT) evs)"
  by (induction evs) simp_all

section \<open>Properties\<close>

text \<open>Sum over CPUs.  When every CPU's histogram describes its own samples, fewer than
  \<open>2 ^ 64\<close> in all, the sum that the reporter computes, whatever the output structure held before,
  describes all samples together: slots, count, sum, minimum and maximum.\<close>

theorem percpu_sum_describes:
  assumes "list_all2 hist_describes per dss" and "length (concat dss) < 2 ^ 64"
  shows "\<exists>h. sum_percpu_hist True (Some per) out = (0, h) \<and> hist_describes h (concat dss)"
  using sum_hist_loop_describes [OF assms(1) hist_zero_describes] assms(2)
  by (simp add: sum_percpu_hist_def Let_def)

theorem percpu_sum_describes_witness:
  "\<exists>h. sum_percpu_hist True (Some [hist_of [7, 9], hist_zero, hist_of [3]]) hist_zero = (0, h)
     \<and> hcount h = 3 \<and> hmin h = 3 \<and> hmax h = 9"
proof -
  have "list_all2 hist_describes [hist_of [7, 9], hist_zero, hist_of [3]] [[7, 9], [], [3]]"
    by (simp add: hist_of_describes hist_zero_describes)
  from percpu_sum_describes [OF this, of hist_zero] show ?thesis
    by (auto simp: hist_describes_def)
qed

text \<open>C39 (percentile).  For samples below \<open>2 ^ 63\<close> and a rank between 1 and their number, the
  percentile is defined, and the sample of that rank lies between half the reported value and the
  reported value.  The rank computed in floating point is the parameter \<open>rank\<close>; 0 counts as 1.\<close>

theorem percentile_within_factor_two:
  assumes "hist_describes h ds" and "length ds < 2 ^ 64" and "\<forall>d \<in> set ds. unat d < 2 ^ 63"
    and "t = (if rank pct (hcount h) = 0 then 1 else unat (rank pct (hcount h)))" and "t \<le> length ds"
  shows "\<exists>r. hist_percentile_ns rank h pct = Some r \<and> sort ds ! (t - 1) \<le> r
    \<and> unat r div 2 \<le> unat (sort ds ! (t - 1))"
proof -
  have t: "0 < t" using assms(4) by (simp add: unat_gt_0)
  with assms(5) have "ds \<noteq> []" by auto
  from percentile_rank [where rank = rank and pct = pct, OF assms(1) this assms(2-5)]
  obtain r where r: "hist_percentile_ns rank h pct = Some r" "t \<le> length (filter (\<lambda>d. d \<le> r) ds)"
    "length (filter (\<lambda>d. unat d < unat r div 2) ds) < t" by blast
  have same: "length (filter P (sort ds)) = length (filter P ds)" for P
    by (simp add: filter_sort)
  have "sort ds ! (t - 1) \<le> r"
    by (rule sorted_nth_le [where P = "\<lambda>d. d \<le> r"]) (use r(2) t same in auto)
  moreover have "\<not> unat (sort ds ! (t - 1)) < unat r div 2"
    by (rule sorted_nth_ge [where P = "\<lambda>d. unat d < unat r div 2"])
      (use r(3) assms(5) same in \<open>auto simp: word_le_nat_alt\<close>)
  ultimately show ?thesis using r(1) by auto
qed

theorem percentile_within_factor_two_witness:
  "\<exists>r. hist_percentile_ns (\<lambda>pct n. n div 2 + 1) (hist_of [100, 3, 900]) 50 = Some r
     \<and> sort [100, 3, 900] ! (2 - 1) \<le> r \<and> unat r div 2 \<le> unat (sort [100, 3, 900 :: u64] ! (2 - 1))"
proof -
  have h: "hist_describes (hist_of [100, 3, 900]) [100, 3, 900]" by (rule hist_of_describes) simp
  then have "hcount (hist_of [100, 3, 900]) = 3" by (simp add: hist_describes_def)
  then have "2 = (if hcount (hist_of [100, 3, 900]) div 2 + 1 = 0 then 1 else unat (hcount (hist_of [100, 3, 900]) div 2 + 1))"
    by simp
  then show ?thesis
    by (intro percentile_within_factor_two [OF h, where rank = "\<lambda>pct n. n div 2 + 1"]) simp_all
qed

text \<open>Fault cycles.  The report's cycle table has one row per TIMEOUT event, in order, numbered from
  1; each row holds the time of the first RECOVERY before the next TIMEOUT and of the first
  HEARTBEAT_RESTORED between that RECOVERY and the next TIMEOUT.  The nested loops always end.\<close>

theorem fault_cycles:
  assumes "\<forall>ev \<in> set g_timeline. te_ts ev \<noteq> 0"
  shows "cycle_loop start g_timeline 0 0 = numbered_rows start 0 (cycles g_timeline)
    \<and> length (cycle_loop start g_timeline 0 0) = length (filter (\<lambda>ev. te_kind ev = TL_TIMEOUT) g_timeline)"
  using cycle_loop_spec [OF assms, of 0 start 0] by (simp add: length_cycles)

theorem fault_cycles_witness:
  "cycle_loop 0 [\<lparr>te_ts = 5, te_kind = TL_TIMEOUT, te_aux = 1\<rparr>, \<lparr>te_ts = 6, te_kind = TL_RECOVERY, te_aux = 1\<rparr>,
     \<lparr>te_ts = 9, te_kind = TL_HEARTBEAT_RESTORED, te_aux = 1\<rparr>, \<lparr>te_ts = 11, te_kind = TL_TIMEOUT, te_aux = 2\<rparr>] 0 0
   = [cycle_row 0 1 5 6 9, cycle_row 0 (Suc 1) 11 0 0]"
  by (subst fault_cycles [THEN conjunct1]) (simp_all add: until_timeout_def)

end
