(* ===== verification/Framer.thy ===== *)
theory Framer
  imports Firmware_Rx
begin

text \<open>
  The three byte stream framers of the host side: \<open>FrameAssembler\<close> of the supervisor
  (\<open>safety-supervisord/protocol.cpp\<close>), \<open>LinkFramer\<close> of the link daemon (\<open>safety-linkd/main.cpp\<close>) and
  \<open>ByteFramer\<close> of the test bridge (\<open>bridge/pty_bridge.cpp\<close>).  Each keeps the bytes it could not use
  yet in \<open>buf_\<close>; a call of \<open>feed\<close> appends the new bytes and moves a cursor \<open>pos\<close> through the buffer,
  which here is the rest of the buffer from the cursor on.  A loop returns what it emits and the bytes
  it keeps.
\<close>

section \<open>Definitions\<close>

text \<open>The search for the magic bytes that all three start with; it stops at them or at the last byte.\<close>

fun hunt_magic :: "bytes \<Rightarrow> bytes" where
  "hunt_magic (a # b # bs) =
     (if get16 (a # b # bs) 0 = SAFETY_PROTO_MAGIC then a # b # bs else hunt_magic (b # bs))"
| "hunt_magic bs = bs"

lemma length_hunt_magic: "length (hunt_magic bs) \<le> length bs"
  by (induction bs rule: hunt_magic.induct) auto

record ParsedFrame =
  pf_header :: SafetyFrameHeader
  pf_payload :: bytes
  pf_result :: safety_validate_result

function assembler_loop :: "bytes \<Rightarrow> ParsedFrame list \<times> bytes" where
  "assembler_loop bs =
     (let bs = hunt_magic bs in
      if length bs < 2 then ([], bs)
      else if length bs < SAFETY_HEADER_SIZE then ([], bs)
      else let hdr = header_of_bytes bs in
        if SAFETY_MAX_PAYLOAD < unat (payload_length hdr) then
          let f = \<lparr>pf_header = hdr, pf_payload = [], pf_result = SAFETY_VALIDATE_BAD_LENGTH\<rparr>;
              (out, bs) = assembler_loop (tl bs)
          in (f # out, bs)
        else let total = SAFETY_HEADER_SIZE + unat (payload_length hdr) in
          if length bs < total then ([], bs)
          else let f = \<lparr>pf_header = hdr, pf_payload = take (unat (payload_length hdr)) (drop SAFETY_HEADER_SIZE bs),
                        pf_result = safety_frame_validate (take total bs)\<rparr>;
                   (out, bs) = assembler_loop (drop total bs)
               in (f # out, bs))"
  by pat_completeness auto
termination
proof (relation "measure length", goal_cases)
  case (2 bs x)
  then show ?case using length_hunt_magic [of bs] by (cases x) (auto simp: proto_const)
next
  case (3 bs x)
  then show ?case using length_hunt_magic [of bs] by (auto simp: proto_const)
qed simp

text \<open>\<open>FrameAssembler::feed\<close> on the kept bytes and the new ones.\<close>

definition assembler_feed :: "bytes \<Rightarrow> bytes \<Rightarrow> ParsedFrame list \<times> bytes" where
  "assembler_feed bs data = assembler_loop (bs @ data)"

function link_loop :: "bytes \<Rightarrow> bytes list \<times> bytes" where
  "link_loop bs =
     (let bs = hunt_magic bs in
      if length bs < 2 then ([], bs)
      else if length bs < SAFETY_HEADER_SIZE then ([], bs)
      else let hdr = header_of_bytes bs in
        if SAFETY_MAX_PAYLOAD < unat (payload_length hdr) then link_loop (tl bs)
        else let total = SAFETY_HEADER_SIZE + unat (payload_length hdr) in
          if length bs < total then ([], bs)
          else let (out, bs') = link_loop (drop total bs)
               in (take total bs # out, bs'))"
  by pat_completeness auto
termination
proof (relation "measure length", goal_cases)
  case (2 bs x)
  then show ?case using length_hunt_magic [of bs] by (cases x) (auto simp: proto_const)
next
  case (3 bs x)
  then show ?case using length_hunt_magic [of bs] by (auto simp: proto_const)
qed simp

definition link_feed :: "bytes \<Rightarrow> bytes \<Rightarrow> bytes list \<times> bytes" where
  "link_feed bs data = link_loop (bs @ data)"

text \<open>\<open>ByteFramer\<close> passes on what precedes the magic bytes as a piece of its own.\<close>

function byte_loop :: "bytes \<Rightarrow> bytes list \<times> bytes" where
  "byte_loop bs =
     (let rest = hunt_magic bs;
          found = (2 \<le> length rest);
          noise = take (length bs - length rest) bs;
          pre = (if noise \<noteq> [] then [noise] else [])
      in if \<not> found then (pre, rest)
         else if length rest < SAFETY_HEADER_SIZE then (pre, rest)
         else let hdr = header_of_bytes rest;
                  plen = unat (payload_length hdr)
              in if SAFETY_MAX_PAYLOAD < plen then
                   let (out, bs') = byte_loop (tl rest) in (pre @ take 1 rest # out, bs')
                 else let total = SAFETY_HEADER_SIZE + plen in
                   if length rest < total then (pre, rest)
                   else let (out, bs') = byte_loop (drop total rest) in (pre @ take total rest # out, bs'))"
  by pat_completeness auto
termination
proof (relation "measure length", goal_cases)
  case (2 bs x)
  then show ?case using length_hunt_magic [of bs] by (cases x) (auto simp: proto_const)
next
  case (3 bs x)
  then show ?case using length_hunt_magic [of bs] by (auto simp: proto_const)
qed simp

definition byte_feed :: "bytes \<Rightarrow> bytes \<Rightarrow> bytes list \<times> bytes" where
  "byte_feed bs data = byte_loop (bs @ data)"

declare assembler_loop.simps [simp del] link_loop.simps [simp del] byte_loop.simps [simp del]

section \<open>Parsing a stream piece by piece\<close>

text \<open>The interface of a parser whose loop takes steps, each emitting something and using up bytes, and
  stops when it needs more: a step that is possible stays the same when more bytes follow.\<close>

locale incremental_parser =
  fixes step :: "bytes \<Rightarrow> ('f list \<times> bytes) option" and run :: "bytes \<Rightarrow> 'f list \<times> bytes"
  assumes run_step: "run bs = (case step bs of None \<Rightarrow> ([], bs) | Some (fs, r) \<Rightarrow> (fs @ fst (run r), snd (run r)))"
    and step_append: "step bs = Some (fs, r) \<Longrightarrow> step (bs @ cs) = Some (fs, r @ cs)"
    and step_shrinks: "step bs = Some (fs, r) \<Longrightarrow> length r < length bs"
begin

lemma run_None: "step bs = None \<Longrightarrow> run bs = ([], bs)"
  by (subst run_step) simp

lemma run_Some: "step bs = Some (fs, r) \<Longrightarrow> run bs = (fs @ fst (run r), snd (run r))"
  by (subst run_step) simp

lemma run_append:
  "run (xs @ ys) = (fst (run xs) @ fst (run (snd (run xs) @ ys)), snd (run (snd (run xs) @ ys)))"
proof (induction "length xs" arbitrary: xs rule: less_induct)
  case less
  show ?case
  proof (cases "step xs")
    case None
    then show ?thesis by (simp add: run_None)
  next
    case (Some p)
    obtain fs r where p: "p = (fs, r)" by (cases p)
    with Some have s: "step xs = Some (fs, r)" by simp
    from less [OF step_shrinks [OF s]] show ?thesis
      by (simp add: run_Some [OF s] run_Some [OF step_append [OF s]])
  qed
qed

lemma run_Nil: "run [] = ([], [])"
  using step_shrinks [of "[]"] by (cases "step []") (auto simp: run_None)

end

text \<open>Feeding the pieces of a stream one after the other.\<close>

fun feed_pieces :: "(bytes \<Rightarrow> bytes \<Rightarrow> 'f list \<times> bytes) \<Rightarrow> bytes \<Rightarrow> bytes list \<Rightarrow> 'f list \<times> bytes" where
  "feed_pieces feed kept [] = ([], kept)"
| "feed_pieces feed kept (d # ds) =
     (let (fs, kept) = feed kept d; (gs, kept) = feed_pieces feed kept ds in (fs @ gs, kept))"

context incremental_parser
begin

lemma feed_pieces_run:
  "fst (run kept) = [] \<Longrightarrow> snd (run kept) = kept \<Longrightarrow>
     feed_pieces (\<lambda>b d. run (b @ d)) kept ds = run (kept @ concat ds)"
proof (induction ds arbitrary: kept)
  case Nil
  then show ?case by (simp add: prod_eq_iff)
next
  case (Cons d ds)
  have "fst (run (snd (run (kept @ d)))) = []" and "snd (run (snd (run (kept @ d)))) = snd (run (kept @ d))"
    using run_append [of "kept @ d" "[]"] by (auto simp: prod_eq_iff)
  from Cons.IH [OF this] run_append [of "kept @ d" "concat ds"] show ?case
    by (simp add: split_beta Let_def)
qed

lemma feed_pieces_start: "feed_pieces (\<lambda>b d. run (b @ d)) [] ds = run (concat ds)"
  using feed_pieces_run [of "[]" ds] by (simp add: run_Nil)

end

text \<open>One step of the assembler and of the link framer: a byte that is not at the magic bytes is
  dropped, a header that announces too much is dropped by one byte, a complete frame is used up.\<close>

definition frame_step :: "(SafetyFrameHeader \<Rightarrow> 'f list) \<Rightarrow> (bytes \<Rightarrow> 'f) \<Rightarrow> bytes \<Rightarrow> ('f list \<times> bytes) option" where
  "frame_step bad good bs =
     (if length bs < 2 then None
      else if get16 bs 0 \<noteq> SAFETY_PROTO_MAGIC then Some ([], tl bs)
      else if length bs < 16 then None
      else if 256 < unat (payload_length (header_of_bytes bs)) then Some (bad (header_of_bytes bs), tl bs)
      else let total = 16 + unat (payload_length (header_of_bytes bs))
           in if length bs < total then None else Some ([good (take total bs)], drop total bs))"

lemma header_of_bytes_append: "16 \<le> length bs \<Longrightarrow> header_of_bytes (bs @ cs) = header_of_bytes bs"
  by (metis hdr.dec_take take_append append_Nil2 diff_is_0_eq length_append le_add1 le_trans take0)

lemma header_of_take: "16 \<le> n \<Longrightarrow> n \<le> length bs \<Longrightarrow> header_of_bytes (take n bs) = header_of_bytes bs"
  using header_of_bytes_append [of "take n bs" "drop n bs"] by simp

lemma frame_step_append:
  "frame_step bad good bs = Some (fs, r) \<Longrightarrow> frame_step bad good (bs @ cs) = Some (fs, r @ cs)"
  by (auto simp: frame_step_def get16_prefix header_of_bytes_append Let_def tl_append split: if_splits list.splits)

lemma frame_step_shrinks: "frame_step bad good bs = Some (fs, r) \<Longrightarrow> length r < length bs"
  by (auto simp: frame_step_def Let_def split: if_splits)

lemma hunt_cases:
  "hunt_magic bs = (if 2 \<le> length bs \<and> get16 bs 0 \<noteq> SAFETY_PROTO_MAGIC then hunt_magic (tl bs) else bs)"
  by (cases bs rule: hunt_magic.cases) auto

text \<open>A loop of the shape both have is the iteration of this step.\<close>

lemma loop_is_run:
  fixes loop :: "bytes \<Rightarrow> 'f list \<times> bytes"
  assumes "\<And>bs. loop bs = (let bs = hunt_magic bs in
      if length bs < 16 then ([], bs)
      else if 256 < unat (payload_length (header_of_bytes bs))
      then (bad (header_of_bytes bs) @ fst (loop (tl bs)), snd (loop (tl bs)))
      else let total = 16 + unat (payload_length (header_of_bytes bs))
           in if length bs < total then ([], bs)
              else (good (take total bs) # fst (loop (drop total bs)), snd (loop (drop total bs))))"
  shows "incremental_parser (frame_step bad good) loop"
proof
  fix bs
  show "loop bs = (case frame_step bad good bs of None \<Rightarrow> ([], bs) | Some (fs, r) \<Rightarrow> (fs @ fst (loop r), snd (loop r)))"
  proof (cases "2 \<le> length bs \<and> get16 bs 0 \<noteq> SAFETY_PROTO_MAGIC")
    case True
    then have "hunt_magic bs = hunt_magic (tl bs)" by (subst hunt_cases) (rule if_P)
    then have "loop bs = loop (tl bs)" using assms [of bs] assms [of "tl bs"] by simp
    then show ?thesis using True by (simp add: frame_step_def)
  next
    case False
    then have "hunt_magic bs = bs" by (subst hunt_cases) (rule if_not_P)
    then show ?thesis using False assms [of bs] by (auto simp: frame_step_def Let_def)
  qed
qed (auto dest: frame_step_append frame_step_shrinks)

definition bad_frame :: "SafetyFrameHeader \<Rightarrow> ParsedFrame list" where
  "bad_frame hdr = [\<lparr>pf_header = hdr, pf_payload = [], pf_result = SAFETY_VALIDATE_BAD_LENGTH\<rparr>]"

definition parsed :: "bytes \<Rightarrow> ParsedFrame" where
  "parsed raw = \<lparr>pf_header = header_of_bytes raw, pf_payload = drop 16 raw, pf_result = safety_frame_validate raw\<rparr>"

interpretation asm: incremental_parser "frame_step bad_frame parsed" assembler_loop
proof (rule loop_is_run)
  fix bs
  show "assembler_loop bs = (let bs = hunt_magic bs in
      if length bs < 16 then ([], bs)
      else if 256 < unat (payload_length (header_of_bytes bs))
      then (bad_frame (header_of_bytes bs) @ fst (assembler_loop (tl bs)), snd (assembler_loop (tl bs)))
      else let total = 16 + unat (payload_length (header_of_bytes bs))
           in if length bs < total then ([], bs)
              else (parsed (take total bs) # fst (assembler_loop (drop total bs)), snd (assembler_loop (drop total bs))))"
    by (subst assembler_loop.simps)
      (simp add: proto_const bad_frame_def parsed_def Let_def split_beta header_of_take drop_take)
qed

interpretation lnk: incremental_parser "frame_step (\<lambda>_. []) (\<lambda>raw. raw)" link_loop
proof (rule loop_is_run)
  fix bs
  show "link_loop bs = (let bs = hunt_magic bs in
      if length bs < 16 then ([], bs)
      else if 256 < unat (payload_length (header_of_bytes bs))
      then ([] @ fst (link_loop (tl bs)), snd (link_loop (tl bs)))
      else let total = 16 + unat (payload_length (header_of_bytes bs))
           in if length bs < total then ([], bs)
              else (take total bs # fst (link_loop (drop total bs)), snd (link_loop (drop total bs))))"
    by (subst link_loop.simps) (simp add: proto_const Let_def split_beta)
qed

section \<open>Frames in a stream\<close>

lemma get16_magic: "get16 (a # b # bs) 0 = SAFETY_PROTO_MAGIC \<longleftrightarrow> a = 0x46 \<and> b = 0x53"
proof
  assume "get16 (a # b # bs) 0 = SAFETY_PROTO_MAGIC"
  moreover have "le16 (get16 (a # b # bs) 0) = [a, b]" using le16_get16 [of 0 "a # b # bs"] by simp
  ultimately show "a = 0x46 \<and> b = 0x53" by (simp add: le16_def SAFETY_PROTO_MAGIC_def)
qed (simp add: get16_def SAFETY_PROTO_MAGIC_def)

lemma wire_frame_magic:
  assumes "header_ok h p"
  obtains t where "wire_frame h p = 0x46 # 0x53 # t"
proof -
  let ?h = "h\<lparr>checksum := safety_crc32 (header_bytes (h\<lparr>checksum := 0\<rparr>) @ p)\<rparr>"
  have "magic ?h = SAFETY_PROTO_MAGIC" using assms by (simp add: header_ok_def)
  then obtain t where "header_bytes ?h = 0x46 # 0x53 # t" by (rule header_bytes_magic)
  then show thesis using that by (simp add: wire_frame_def)
qed

locale frame_parser = incremental_parser "frame_step bad good" run
  for bad :: "SafetyFrameHeader \<Rightarrow> 'f list" and good :: "bytes \<Rightarrow> 'f" and run :: "bytes \<Rightarrow> 'f list \<times> bytes"
begin

lemma run_frame:
  assumes "header_ok h p"
  shows "run (wire_frame h p @ rest) = (good (wire_frame h p) # fst (run rest), snd (run rest))"
proof -
  obtain t where t: "wire_frame h p = 0x46 # 0x53 # t" using assms by (rule wire_frame_magic)
  have "get16 (wire_frame h p @ rest) 0 = SAFETY_PROTO_MAGIC" by (simp add: t get16_magic)
  then have "frame_step bad good (wire_frame h p @ rest) = Some ([good (wire_frame h p)], rest)"
    using assms by (simp add: frame_step_def header_ok_def proto_const Let_def)
  from run_Some [OF this] show ?thesis by simp
qed

lemma run_noise:
  "no_magic z \<Longrightarrow> run (z @ 0x46 # rest) = run (0x46 # rest)"
proof (induction z)
  case (Cons a z)
  obtain b bs where n: "z @ 0x46 # rest = b # bs" by (cases z) auto
  have "\<not> (a = 0x46 \<and> b = 0x53)" using Cons.prems n by (cases z) auto
  then have "frame_step bad good (a # b # bs) = Some ([], b # bs)" by (simp add: frame_step_def get16_magic)
  from run_Some [OF this] have "run (a # b # bs) = run (b # bs)" by simp
  with Cons.IH [OF no_magic_tl [OF Cons.prems]] n show ?case by simp
qed simp

lemma run_stream:
  assumes "\<forall>(z, h, p) \<in> set xs. no_magic z \<and> header_ok h p"
  shows "run (noisy_stream xs @ rest) = (map (\<lambda>(z, h, p). good (wire_frame h p)) xs @ fst (run rest), snd (run rest))"
  using assms
proof (induction xs)
  case (Cons x xs)
  obtain z h p where x: "x = (z, h, p)" by (cases x)
  then have "header_ok h p" "no_magic z" using Cons.prems by auto
  moreover from wire_frame_magic [OF this(1)] obtain t where "wire_frame h p = 0x46 # t" by metis
  ultimately have "run (z @ wire_frame h p @ rest') = run (wire_frame h p @ rest')" for rest'
    using run_noise [of z "t @ rest'"] by simp
  then show ?case
    using Cons run_frame [OF \<open>header_ok h p\<close>] by (simp add: x noisy_stream_def)
qed (simp add: noisy_stream_def)

end

interpretation asmf: frame_parser bad_frame parsed assembler_loop
  by unfold_locales

interpretation lnkf: frame_parser "\<lambda>_. []" "\<lambda>raw. raw" link_loop
  by unfold_locales

lemma assembler_pieces: "feed_pieces assembler_feed [] ds = assembler_loop (concat ds)"
  using asm.feed_pieces_start [of ds] by (simp add: assembler_feed_def [abs_def])

lemma link_pieces: "feed_pieces link_feed [] ds = link_loop (concat ds)"
  using lnk.feed_pieces_start [of ds] by (simp add: link_feed_def [abs_def])

lemma parsed_frame:
  "header_ok h p \<Longrightarrow> parsed (wire_frame h p) = \<lparr>pf_header = rxf_hdr (msg_of h p), pf_payload = p,
     pf_result = SAFETY_VALIDATE_OK\<rparr>"
  by (simp add: parsed_def msg_of_def)

text \<open>The bridge's framer loses nothing.\<close>

lemma hunt_suffix: "take (length bs - length (hunt_magic bs)) bs @ hunt_magic bs = bs"
proof (induction bs rule: hunt_magic.induct)
  case (1 a b bs)
  then show ?case using length_hunt_magic [of "b # bs"] by (auto simp: Suc_diff_le)
qed auto

lemma byte_loop_transparent: "concat (fst (byte_loop bs)) @ snd (byte_loop bs) = bs"
proof (induction bs rule: byte_loop.induct)
  case (1 bs)
  let ?rest = "hunt_magic bs"
  let ?pre = "take (length bs - length ?rest) bs"
  let ?n = "unat (payload_length (header_of_bytes ?rest))"
  let ?ps = "if ?pre \<noteq> [] then [?pre] else []"
  have pre: "?pre @ ?rest = bs" by (rule hunt_suffix)
  have ps: "concat (?ps @ x # f) @ t = ?pre @ x @ concat f @ t" for x :: bytes and f t by simp
  show ?case
  proof (cases "length ?rest < 16 \<or> (?n \<le> 256 \<and> length ?rest < 16 + ?n)")
    case True
    then have "byte_loop bs = (?ps, ?rest)"
      by (subst byte_loop.simps) (auto simp: proto_const Let_def)
    moreover have "concat ?ps = ?pre" by simp
    ultimately show ?thesis using pre by (simp only: fst_conv snd_conv)
  next
    case False
    then have ne: "?rest \<noteq> []" "take 1 ?rest @ tl ?rest = ?rest" by (cases ?rest; auto)+
    show ?thesis
    proof (cases "256 < ?n")
      case True
      then have "byte_loop bs = (?ps @ take 1 ?rest # fst (byte_loop (tl ?rest)),
          snd (byte_loop (tl ?rest)))"
        using False by (subst byte_loop.simps) (simp add: proto_const Let_def split_beta)
      moreover have "concat (fst (byte_loop (tl ?rest))) @ snd (byte_loop (tl ?rest)) = tl ?rest"
        using 1(1) [OF refl refl refl refl _ _ refl refl] True False by (simp add: proto_const)
      ultimately show ?thesis using pre ne(2) by (simp only: fst_conv snd_conv ps)
    next
      case small: False
      then have "byte_loop bs = (?ps @ take (16 + ?n) ?rest #
          fst (byte_loop (drop (16 + ?n) ?rest)), snd (byte_loop (drop (16 + ?n) ?rest)))"
        using False by (subst byte_loop.simps) (simp add: proto_const Let_def split_beta)
      moreover have "concat (fst (byte_loop (drop (16 + ?n) ?rest))) @ snd (byte_loop (drop (16 + ?n) ?rest))
          = drop (16 + ?n) ?rest"
        using 1(2) [OF refl refl refl refl _ _ refl refl _ refl] small False by (simp add: proto_const)
      ultimately show ?thesis using pre by (simp only: fst_conv snd_conv ps append_take_drop_id)
    qed
  qed
qed

lemma byte_pieces_transparent:
  "concat (fst (feed_pieces byte_feed kept ds)) @ snd (feed_pieces byte_feed kept ds) = kept @ concat ds"
proof (induction ds arbitrary: kept)
  case (Cons d ds)
  from Cons [of "snd (byte_feed kept d)"] byte_loop_transparent [of "kept @ d"] show ?case
    by (simp add: split_beta Let_def byte_feed_def)
qed simp

section \<open>Properties\<close>

text \<open>Framing does not depend on the pieces.  However the bytes of a stream are cut into reads,
  feeding them one after the other gives the frames, and leaves the bytes, that feeding the whole stream
  at once gives; for the supervisor's assembler and for the link daemon's framer.\<close>

theorem framing_piecewise:
  "feed_pieces assembler_feed [] ds = assembler_feed [] (concat ds)
   \<and> feed_pieces link_feed [] ds = link_feed [] (concat ds)"
  by (simp add: assembler_pieces link_pieces assembler_feed_def link_feed_def)

text \<open>C27 (frames in noise).  A stream of frames, each preceded by noise in which the magic bytes do not
  follow each other, and cut into reads at any places, gives exactly its frames, in order, with nothing
  left over: the assembler their headers and payloads with a successful validation, the link framer
  their bytes.\<close>

theorem framing_delivers:
  assumes "\<forall>(z, h, p) \<in> set xs. no_magic z \<and> header_ok h p" and "concat ds = noisy_stream xs"
  shows "feed_pieces assembler_feed [] ds =
      (map (\<lambda>(z, h, p). \<lparr>pf_header = rxf_hdr (msg_of h p), pf_payload = p, pf_result = SAFETY_VALIDATE_OK\<rparr>) xs, [])
    \<and> feed_pieces link_feed [] ds = (map (\<lambda>(z, h, p). wire_frame h p) xs, [])"
proof -
  have "map (\<lambda>(z, h, p). parsed (wire_frame h p)) xs =
      map (\<lambda>(z, h, p). \<lparr>pf_header = rxf_hdr (msg_of h p), pf_payload = p, pf_result = SAFETY_VALIDATE_OK\<rparr>) xs"
    using assms(1) by (auto simp: parsed_frame)
  then show ?thesis
    using asmf.run_stream [OF assms(1), of "[]"] lnkf.run_stream [OF assms(1), of "[]"] assms(2)
    by (simp add: assembler_pieces link_pieces asm.run_Nil lnk.run_Nil)
qed

theorem framing_delivers_witness:
  "let h = safety_frame_init SAFETY_FRAME_ACK 3 0 5; f = wire_frame h []
   in feed_pieces link_feed [] [[0x46, 1] @ take 5 f, drop 5 f] = ([f], [])"
  using framing_delivers [of "[([0x46, 1], safety_frame_init SAFETY_FRAME_ACK 3 0 5, [])]"
      "[[0x46, 1] @ take 5 (wire_frame (safety_frame_init SAFETY_FRAME_ACK 3 0 5) []),
        drop 5 (wire_frame (safety_frame_init SAFETY_FRAME_ACK 3 0 5) [])]"]
  by (simp add: noisy_stream_def header_ok_def proto_const Let_def)

end
