(* ===== verification/Health.thy ===== *)
theory Health
  imports Framer
begin

text \<open>
  The supervisor's health state machine (\<open>safety-supervisord/health_state_machine.cpp\<close>) and its event
  log (\<open>logger_worker.cpp\<close>): the log record, its JSON line, and the writer thread, whose turns take
  what is queued and append it to the file.  The transition hook is the caller's: the event loop and
  the mock run log each transition, the replay counts it.
\<close>

section \<open>Health state machine\<close>

datatype HealthState = BOOTING | HEALTHY | DEGRADED | RECOVERING | FAILED | SAFE_MODE

datatype HealthEvent = HEARTBEAT_OK | HEARTBEAT_TIMEOUT | RECOVERY_SENT | HEARTBEAT_RESTORED
  | RECOVERY_FAILED | CRITICAL_FAULT

record TransitionResult =
  tr_valid :: bool
  tr_from :: HealthState
  tr_to :: HealthState
  tr_event :: HealthEvent

definition state_name :: "HealthState \<Rightarrow> string" where
  "state_name s = (case s of BOOTING \<Rightarrow> ''BOOTING'' | HEALTHY \<Rightarrow> ''HEALTHY'' | DEGRADED \<Rightarrow> ''DEGRADED''
     | RECOVERING \<Rightarrow> ''RECOVERING'' | FAILED \<Rightarrow> ''FAILED'' | SAFE_MODE \<Rightarrow> ''SAFE_MODE'')"

definition event_name :: "HealthEvent \<Rightarrow> string" where
  "event_name e = (case e of HEARTBEAT_OK \<Rightarrow> ''HEARTBEAT_OK'' | HEARTBEAT_TIMEOUT \<Rightarrow> ''HEARTBEAT_TIMEOUT''
     | RECOVERY_SENT \<Rightarrow> ''RECOVERY_SENT'' | HEARTBEAT_RESTORED \<Rightarrow> ''HEARTBEAT_RESTORED''
     | RECOVERY_FAILED \<Rightarrow> ''RECOVERY_FAILED'' | CRITICAL_FAULT \<Rightarrow> ''CRITICAL_FAULT'')"

text \<open>\<open>HealthStateMachine::apply\<close>: the result and the state afterwards; the hook is called if the
  result is valid.\<close>

definition apply_event :: "HealthState \<Rightarrow> HealthEvent \<Rightarrow> TransitionResult \<times> HealthState" where
  "apply_event st ev =
     (let to_st = (case st of
            BOOTING \<Rightarrow> if ev = HEARTBEAT_OK then HEALTHY else st
          | HEALTHY \<Rightarrow> if ev = HEARTBEAT_TIMEOUT then DEGRADED
                       else if ev = CRITICAL_FAULT then SAFE_MODE else st
          | DEGRADED \<Rightarrow> if ev = RECOVERY_SENT then RECOVERING
                        else if ev = RECOVERY_FAILED then FAILED
                        else if ev = CRITICAL_FAULT then SAFE_MODE else st
          | RECOVERING \<Rightarrow> if ev = HEARTBEAT_RESTORED then HEALTHY
                          else if ev = RECOVERY_FAILED then FAILED else st
          | FAILED \<Rightarrow> st
          | SAFE_MODE \<Rightarrow> st);
          r = \<lparr>tr_valid = (to_st \<noteq> st), tr_from = st, tr_to = to_st, tr_event = ev\<rparr>
      in (r, if tr_valid r then to_st else st))"

section \<open>Log\<close>

datatype LogKind = RX_FRAME | TX_ACK | TX_NACK | TX_COMMAND | TIMEOUT | STATE_CHANGE | DUPLICATE
  | CHECKSUM_ERROR | RECOVERY_RESULT

definition log_kind_name :: "LogKind \<Rightarrow> string" where
  "log_kind_name k = (case k of RX_FRAME \<Rightarrow> ''rx_frame'' | TX_ACK \<Rightarrow> ''tx_ack'' | TX_NACK \<Rightarrow> ''tx_nack''
     | TX_COMMAND \<Rightarrow> ''tx_command'' | TIMEOUT \<Rightarrow> ''timeout'' | STATE_CHANGE \<Rightarrow> ''state_change''
     | DUPLICATE \<Rightarrow> ''duplicate'' | CHECKSUM_ERROR \<Rightarrow> ''checksum_error'' | RECOVERY_RESULT \<Rightarrow> ''recovery_result'')"

record LogEvent =
  le_ts_ms :: int
  le_kind :: LogKind
  le_frame_type :: string
  le_seq :: int
  le_fault :: string
  le_from_state :: string
  le_to_state :: string
  le_detail :: string

text \<open>A \<open>LogEvent\<close> with its default member values, of a given kind.\<close>

definition log_event :: "LogKind \<Rightarrow> LogEvent" where
  "log_event k = \<lparr>le_ts_ms = 0, le_kind = k, le_frame_type = [], le_seq = -1, le_fault = [],
     le_from_state = [], le_to_state = [], le_detail = []\<rparr>"

definition hex_digit :: "nat \<Rightarrow> char" where
  "hex_digit d = ''0123456789abcdef'' ! d"

definition escape_char :: "char \<Rightarrow> string" where
  "escape_char c =
     (if c = CHR 0x22 then [CHR 0x5C, CHR 0x22]
      else if c = CHR 0x5C then [CHR 0x5C, CHR 0x5C]
      else if c = CHR 0x0A then [CHR 0x5C, CHR ''n'']
      else if c = CHR 0x0D then [CHR 0x5C, CHR ''r'']
      else if c = CHR 0x09 then [CHR 0x5C, CHR ''t'']
      else if (of_char c :: nat) < 0x20
      then CHR 0x5C # ''u00'' @ [hex_digit (of_char c div 16), hex_digit (of_char c mod 16)]
      else [c])"

text \<open>What \<open>append_json_escaped\<close> appends.\<close>

definition json_escaped :: "string \<Rightarrow> string" where
  "json_escaped s = concat (map escape_char s)"

text \<open>A quoted key with the colon behind it, as it stands in the literals of \<open>serialize_event\<close>.\<close>

definition json_key :: "string \<Rightarrow> string" where
  "json_key k = CHR 0x22 # k @ [CHR 0x22, CHR '':'']"

definition serialize_event :: "LogEvent \<Rightarrow> string" where
  "serialize_event e =
     ''{'' @ json_key ''ts_ms'' @ int_to_string (le_ts_ms e)
     @ '','' @ json_key ''kind'' @ CHR 0x22 # log_kind_name (le_kind e)
     @ CHR 0x22 # '','' @ json_key ''frame_type'' @ CHR 0x22 # json_escaped (le_frame_type e)
     @ CHR 0x22 # '','' @ json_key ''seq'' @ int_to_string (le_seq e)
     @ '','' @ json_key ''fault'' @ CHR 0x22 # json_escaped (le_fault e)
     @ CHR 0x22 # '','' @ json_key ''from_state'' @ CHR 0x22 # json_escaped (le_from_state e)
     @ CHR 0x22 # '','' @ json_key ''to_state'' @ CHR 0x22 # json_escaped (le_to_state e)
     @ CHR 0x22 # '','' @ json_key ''detail'' @ CHR 0x22 # json_escaped (le_detail e)
     @ CHR 0x22 # ''}''"

text \<open>The writer thread.  Its state: the queue, the flag of \<open>stop\<close>, the lines written, and whether the
  thread has returned.\<close>

record LoggerWorker =
  lw_queue :: "LogEvent list"
  lw_stopping :: bool
  lw_file :: "string list"
  lw_done :: bool

definition logger_start :: LoggerWorker where
  "logger_start = \<lparr>lw_queue = [], lw_stopping = False, lw_file = [], lw_done = False\<rparr>"

definition logger_push :: "LogEvent \<Rightarrow> LoggerWorker \<Rightarrow> LoggerWorker" where
  "logger_push ev l = l\<lparr>lw_queue := lw_queue l @ [ev]\<rparr>"

definition logger_stop :: "LoggerWorker \<Rightarrow> LoggerWorker" where
  "logger_stop l = l\<lparr>lw_stopping := True\<rparr>"

text \<open>One turn of \<open>LoggerWorker::run\<close>: it waits, \<open>None\<close>, for a stop or an event; the batch that was
  swapped out is written without the lock, so events pushed meanwhile, \<open>pushed\<close>, are in the queue
  after the turn.\<close>

definition logger_run :: "LogEvent list \<Rightarrow> LoggerWorker \<Rightarrow> LoggerWorker option" where
  "logger_run pushed l =
     (if lw_done l \<or> \<not> (lw_stopping l \<or> lw_queue l \<noteq> []) then None
      else let batch = lw_queue l;
               l = l\<lparr>lw_queue := []\<rparr>
           in if lw_stopping l \<and> batch = [] then Some (l\<lparr>lw_done := True, lw_queue := pushed\<rparr>)
              else Some (l\<lparr>lw_file := lw_file l @ map serialize_event batch, lw_queue := pushed\<rparr>))"

section \<open>Properties\<close>

text \<open>The actions of the threads that share the logger, in any order: an event is pushed, the writer
  takes a turn during which events are pushed, \<open>stop\<close> is called.  \<open>None\<close> if the writer would wait.\<close>

datatype log_action = A_push LogEvent | A_turn "LogEvent list" | A_stop

fun log_actions :: "log_action list \<Rightarrow> LoggerWorker \<Rightarrow> LoggerWorker option" where
  "log_actions [] l = Some l"
| "log_actions (A_push e # as) l = log_actions as (logger_push e l)"
| "log_actions (A_turn es # as) l = (case logger_run es l of None \<Rightarrow> None | Some l \<Rightarrow> log_actions as l)"
| "log_actions (A_stop # as) l = log_actions as (logger_stop l)"

fun pushed_events :: "log_action list \<Rightarrow> LogEvent list" where
  "pushed_events [] = []"
| "pushed_events (A_push e # as) = e # pushed_events as"
| "pushed_events (A_turn es # as) = es @ pushed_events as"
| "pushed_events (A_stop # as) = pushed_events as"

lemma logger_run_order:
  "logger_run es l = Some l' \<Longrightarrow>
     lw_file l' @ map serialize_event (lw_queue l') = lw_file l @ map serialize_event (lw_queue l @ es)"
  by (auto simp: logger_run_def Let_def split: if_splits)

lemma log_actions_order:
  "log_actions as l = Some l' \<Longrightarrow>
     lw_file l' @ map serialize_event (lw_queue l') = lw_file l @ map serialize_event (lw_queue l @ pushed_events as)"
  by (induction as l rule: log_actions.induct)
    (auto simp: logger_push_def logger_stop_def dest: logger_run_order split: option.splits)

text \<open>The log is complete and in order.  However the pushes, the turns of the writer and \<open>stop\<close>
  interleave, the lines in the file followed by the queued events are the pushed events in the order
  of the pushes.  Once \<open>stop\<close> was called and nothing more is pushed, the writer returns after at most
  two turns, and the file then holds every event.\<close>

theorem logger_complete:
  assumes "log_actions as logger_start = Some l"
  shows "lw_file l @ map serialize_event (lw_queue l) = map serialize_event (pushed_events as)
    \<and> (lw_stopping l \<and> \<not> lw_done l \<longrightarrow> (\<exists>n\<le>2. \<exists>l'. log_actions (replicate n (A_turn [])) l = Some l'
         \<and> lw_done l' \<and> lw_file l' = map serialize_event (pushed_events as)))"
proof
  show 1: "lw_file l @ map serialize_event (lw_queue l) = map serialize_event (pushed_events as)"
    using log_actions_order [OF assms] by (simp add: logger_start_def)
  show "lw_stopping l \<and> \<not> lw_done l \<longrightarrow> (\<exists>n\<le>2. \<exists>l'. log_actions (replicate n (A_turn [])) l = Some l'
      \<and> lw_done l' \<and> lw_file l' = map serialize_event (pushed_events as))"
    by (intro impI exI [of _ "if lw_queue l = [] then 1 else 2"])
      (use 1 in \<open>auto simp: logger_run_def numeral_2_eq_2 Let_def\<close>)
qed

theorem logger_complete_witness:
  "\<exists>n\<le>2. \<exists>l l'. log_actions [A_push (log_event TIMEOUT), A_turn [log_event DUPLICATE], A_stop] logger_start = Some l
     \<and> log_actions (replicate n (A_turn [])) l = Some l' \<and> lw_done l'
     \<and> lw_file l' = map serialize_event [log_event TIMEOUT, log_event DUPLICATE]"
proof -
  obtain l where l: "log_actions [A_push (log_event TIMEOUT), A_turn [log_event DUPLICATE], A_stop] logger_start = Some l"
    "lw_stopping l" "\<not> lw_done l"
    by (simp add: logger_start_def logger_push_def logger_stop_def logger_run_def)
  from logger_complete [OF l(1)] l show ?thesis by auto
qed

end
