(* ===== verification/Replay.thy ===== *)
theory Replay
  imports Health
begin

text \<open>
  The replay mode of the supervisor (\<open>safety-supervisord/replay_mode.cpp\<close>): the extraction of a field
  from a line of the event log, and the run of the health state machine over a log.  A position in a
  line is the rest of the line from it on.
\<close>

section \<open>Definitions\<close>

text \<open>\<open>std::string::find\<close> and the step over the match: the rest behind the first occurrence.\<close>

fun find_after :: "string \<Rightarrow> string \<Rightarrow> string option" where
  "find_after pat [] = (if pat = [] then Some [] else None)"
| "find_after pat (c # cs) =
     (if take (length pat) (c # cs) = pat then Some (drop (length pat) (c # cs)) else find_after pat cs)"

definition contains :: "string \<Rightarrow> string \<Rightarrow> bool" where
  "contains s pat \<longleftrightarrow> find_after pat s \<noteq> None"

definition unescape :: "char \<Rightarrow> char" where
  "unescape nx = (if nx = CHR ''n'' then CHR 0x0A else if nx = CHR ''r'' then CHR 0x0D
     else if nx = CHR ''t'' then CHR 0x09 else nx)"

text \<open>The loop of \<open>extract_string\<close>.\<close>

fun read_string :: "string \<Rightarrow> string" where
  "read_string [] = []"
| "read_string (c # cs) =
     (if c = CHR 0x5C \<and> cs \<noteq> [] then unescape (hd cs) # read_string (tl cs)
      else if c = CHR 0x22 then []
      else c # read_string cs)"

definition extract_string :: "string \<Rightarrow> string \<Rightarrow> string option" where
  "extract_string line key =
     (let pat = CHR 0x22 # key @ [CHR 0x22, CHR '':'', CHR 0x22]
      in map_option read_string (find_after pat line))"

text \<open>\<open>extract_int\<close> finds nothing, a value, or \<open>std::stol\<close> throws.\<close>

datatype int_field = Not_found | Value int | Throws

definition extract_int :: "string \<Rightarrow> string \<Rightarrow> int_field" where
  "extract_int line key =
     (let pat = CHR 0x22 # key @ [CHR 0x22, CHR '':'']
      in case find_after pat line of
           None \<Rightarrow> Not_found
         | Some p \<Rightarrow>
             if p \<noteq> [] \<and> hd p = CHR 0x22 then Not_found
             else let sign = (if p \<noteq> [] \<and> (hd p = CHR ''-'' \<or> hd p = CHR ''+'') then [hd p] else []);
                      digits = takeWhile is_digit (drop (length sign) p);
                      txt = sign @ digits
                  in if txt = [] then Not_found
                     else case stol txt of None \<Rightarrow> Throws | Some v \<Rightarrow> Value v)"

text \<open>The state of a replay: the machine, the lines written, and the counters of the summary.\<close>

record replay =
  rp_fsm :: HealthState
  rp_out :: "string list"
  state_entry_counts :: "HealthState \<Rightarrow> nat"
  transitions :: nat
  lines_total :: nat
  rp_rx_frames :: nat
  timeouts :: nat
  ignored :: nat

definition replay_init :: replay where
  "replay_init = \<lparr>rp_fsm = BOOTING, rp_out = [], state_entry_counts = (\<lambda>_. 0), transitions = 0,
     lines_total = 0, rp_rx_frames = 0, timeouts = 0, ignored = 0\<rparr>"

text \<open>\<open>fsm.apply\<close> with the hook of \<open>run_replay\<close>.\<close>

definition replay_apply :: "HealthEvent \<Rightarrow> replay \<Rightarrow> replay" where
  "replay_apply ev s =
     (let (r, st) = apply_event (rp_fsm s) ev;
          s = s\<lparr>rp_fsm := st\<rparr>
      in if tr_valid r
         then s\<lparr>transitions := transitions s + 1,
                state_entry_counts := (state_entry_counts s)(tr_to r := state_entry_counts s (tr_to r) + 1),
                rp_out := rp_out s @ [serialize_event ((log_event STATE_CHANGE)
                  \<lparr>le_from_state := state_name (tr_from r), le_to_state := state_name (tr_to r),
                   le_detail := event_name (tr_event r)\<rparr>)]\<rparr>
         else s)"

definition extract_or_empty :: "string \<Rightarrow> string \<Rightarrow> string" where
  "extract_or_empty line key = (case extract_string line key of None \<Rightarrow> [] | Some v \<Rightarrow> v)"

text \<open>The body of the loop for one line; \<open>None\<close> when the number of the time stamp throws.\<close>

definition replay_line :: "string \<Rightarrow> replay \<Rightarrow> replay option" where
  "replay_line line s =
     (if line = [] then Some s
      else let s = s\<lparr>lines_total := lines_total s + 1\<rparr>
      in case extract_string line ''kind'' of None \<Rightarrow> Some s
       | Some kind \<Rightarrow>
         if extract_int line ''ts_ms'' = Throws then None
         else if kind = ''rx_frame'' then
           let s = s\<lparr>rp_rx_frames := rp_rx_frames s + 1\<rparr>;
               ftype = extract_or_empty line ''frame_type''
           in if ftype = ''HEARTBEAT''
              then Some (replay_apply (if rp_fsm s = RECOVERING then HEARTBEAT_RESTORED else HEARTBEAT_OK) s)
              else if ftype = ''FAULT_EVENT''
              then let detail = extract_or_empty line ''detail'';
                       critical = (contains detail ''critical'' \<or> contains detail ''severity=2'')
                   in Some (if critical then replay_apply CRITICAL_FAULT s else s)
              else Some s
         else if kind = ''timeout'' then
           Some (replay_apply HEARTBEAT_TIMEOUT (s\<lparr>timeouts := timeouts s + 1\<rparr>))
         else if kind = ''tx_command'' then
           (if contains (extract_or_empty line ''detail'') ''REQUEST_RECOVERY''
            then Some (replay_apply RECOVERY_SENT s) else Some (s\<lparr>ignored := ignored s + 1\<rparr>))
         else Some (s\<lparr>ignored := ignored s + 1\<rparr>))"

fun replay_lines :: "string list \<Rightarrow> replay \<Rightarrow> replay option" where
  "replay_lines [] s = Some s"
| "replay_lines (line # lines) s = (case replay_line line s of None \<Rightarrow> None | Some s \<Rightarrow> replay_lines lines s)"

text \<open>\<open>run_replay\<close>: the input, \<open>None\<close> if it cannot be opened, whether the output can; the return code
  and the final state, \<open>None\<close> for an exception that ends the process.\<close>

definition run_replay :: "string list option \<Rightarrow> bool \<Rightarrow> (int \<times> replay) option" where
  "run_replay input out_ok =
     (case input of None \<Rightarrow> Some (1, replay_init)
      | Some lines \<Rightarrow> if \<not> out_ok then Some (1, replay_init)
          else map_option (\<lambda>s. (0, s)) (replay_lines lines replay_init))"

text \<open>The summary on standard output: the given paths, the counters, the final state and how often each state was entered.\<close>

definition all_states :: "HealthState list" where
  "all_states = [BOOTING, HEALTHY, DEGRADED, RECOVERING, FAILED, SAFE_MODE]"

definition replay_summary :: "string \<Rightarrow> string \<Rightarrow> replay \<Rightarrow> string list" where
  "replay_summary input_path out_path s =
     [''==== Replay Summary ====''] @ [''input              : '' @ input_path] @ [''output             : '' @ out_path]
     @ [''lines read         : '' @ nat_to_string (lines_total s)]
     @ [''rx_frame events    : '' @ nat_to_string (rp_rx_frames s)]
     @ [''timeout events     : '' @ nat_to_string (timeouts s)]
     @ [''ignored events     : '' @ nat_to_string (ignored s)]
     @ [''valid transitions  : '' @ nat_to_string (transitions s)]
     @ [''final state        : '' @ state_name (rp_fsm s)]
     @ [''------------------------''] @ [''state entry counts:'']
     @ map (\<lambda>h. ''  '' @ state_name h @ '' : '' @ nat_to_string (state_entry_counts s h)) all_states
     @ [''========================'']"

section \<open>The log line and its fields\<close>

text \<open>A key without quotes and backslashes that does not start like what separates fields.\<close>

definition plain_key :: "string \<Rightarrow> bool" where
  "plain_key k \<longleftrightarrow> k \<noteq> [] \<and> CHR 0x22 \<notin> set k \<and> CHR 0x5C \<notin> set k
     \<and> hd k \<noteq> CHR '','' \<and> hd k \<noteq> CHR ''}'' \<and> hd k \<noteq> CHR '':''"

definition key_pat :: "string \<Rightarrow> string \<Rightarrow> string" where
  "key_pat k t = CHR 0x22 # k @ CHR 0x22 # CHR '':'' # t"

lemma find_skip: "c \<noteq> CHR 0x22 \<Longrightarrow> find_after (CHR 0x22 # p) (c # r) = find_after (CHR 0x22 # p) r"
  by simp

lemma find_skip_all:
  "CHR 0x22 \<notin> set w \<Longrightarrow> find_after (CHR 0x22 # p) (w @ r) = find_after (CHR 0x22 # p) r"
  by (induction w) auto

lemma find_hit: "find_after pat (pat @ r) = Some r"
proof (cases "pat @ r")
  case (Cons c cs)
  then have "take (length pat) (c # cs) = pat" "drop (length pat) (c # cs) = r"
    by (metis append_eq_conv_conj)+
  then show ?thesis by (simp add: Cons)
qed simp

lemma find_miss:
  "take (length p) r \<noteq> p \<Longrightarrow> find_after (CHR 0x22 # p) (CHR 0x22 # r) = find_after (CHR 0x22 # p) r"
  by simp

declare find_after.simps(2) [simp del]

text \<open>Two quoted texts of which one starts the other are equal.\<close>

lemma quoted_prefix:
  "CHR 0x22 \<notin> set k \<Longrightarrow> CHR 0x22 \<notin> set k' \<Longrightarrow>
     take (length k + Suc (length t)) (k' @ CHR 0x22 # r) = k @ CHR 0x22 # t \<Longrightarrow> k = k'"
proof (induction k arbitrary: k')
  case Nil
  then show ?case by (cases k') auto
next
  case (Cons a k)
  then show ?case by (cases k') auto
qed

lemma escape_start:
  obtains t where "escape_char c = CHR 0x5C # t" | "escape_char c = [c]" "c \<noteq> CHR 0x22" "c \<noteq> CHR 0x5C"
proof -
  have "escape_char c = [c] \<and> c \<noteq> CHR 0x22 \<and> c \<noteq> CHR 0x5C \<or> (\<exists>t. escape_char c = CHR 0x5C # t)"
    by (simp add: escape_char_def)
  then show thesis using that by blast
qed

lemma escaped_no_match:
  "CHR 0x22 \<notin> set k \<Longrightarrow> CHR 0x5C \<notin> set k \<Longrightarrow> d \<noteq> CHR '':'' \<Longrightarrow>
     take (length k + Suc (Suc (length t))) (json_escaped s @ CHR 0x22 # d # r) \<noteq> k @ CHR 0x22 # CHR '':'' # t"
proof (induction s arbitrary: k)
  case Nil
  then show ?case by (cases k) (auto simp: json_escaped_def)
next
  case (Cons c s)
  show ?case
  proof (rule escape_start [of c])
    fix u assume "escape_char c = CHR 0x5C # u"
    then show ?thesis using Cons.prems by (cases k) (auto simp: json_escaped_def)
  next
    assume c: "escape_char c = [c]" "c \<noteq> CHR 0x22" "c \<noteq> CHR 0x5C"
    then have e: "json_escaped (c # s) = c # json_escaped s" by (simp add: json_escaped_def)
    show ?thesis
    proof (cases k)
      case Nil
      then show ?thesis using c e by simp
    next
      case (Cons a k')
      then show ?thesis using Cons.IH [of k'] Cons.prems e by auto
    qed
  qed
qed

lemma json_escaped_Cons: "json_escaped (c # s) = escape_char c @ json_escaped s"
  by (simp add: json_escaped_def)

lemma json_escaped_Nil [simp]: "json_escaped [] = []"
  by (simp add: json_escaped_def)

lemma escape_quote_only:
  "escape_char c = [CHR 0x5C, CHR 0x22] \<or> CHR 0x22 \<notin> set (escape_char c)"
proof -
  have "hex_digit n \<noteq> CHR 0x22" if "n < 16" for n
    using that unfolding hex_digit_def by (auto simp: less_Suc_eq numeral_eq_Suc)
  from this [of "of_char c mod 16"] this [of "of_char c div 16"]
  have "(of_char c :: nat) < 32 \<Longrightarrow> hex_digit (of_char c mod 16) \<noteq> CHR 0x22 \<and> hex_digit (of_char c div 16) \<noteq> CHR 0x22"
    by simp
  then show ?thesis by (auto simp: escape_char_def)
qed

text \<open>Inside a string value the pattern of a key is not found, nor across its end.\<close>

lemma find_value_skip:
  assumes "plain_key k" and "d \<noteq> CHR '':''" and "hd k \<noteq> d"
  shows "find_after (key_pat k t) (CHR 0x22 # json_escaped s @ CHR 0x22 # d # r) = find_after (key_pat k t) (d # r)"
proof -
  have k: "CHR 0x22 \<notin> set k" "CHR 0x5C \<notin> set k" "k \<noteq> []" using assms(1) by (auto simp: plain_key_def)
  let ?f = "find_after (key_pat k t)"
  have miss: "?f (CHR 0x22 # json_escaped u @ CHR 0x22 # d # r) = ?f (json_escaped u @ CHR 0x22 # d # r)" for u
    using escaped_no_match [OF k(1,2) assms(2), of t u r]
    unfolding key_pat_def by (intro find_miss) simp
  have fin: "?f (CHR 0x22 # d # r) = ?f (d # r)"
    using assms(3) k(3) unfolding key_pat_def by (intro find_miss) (cases k; simp)
  have "?f (json_escaped s @ CHR 0x22 # d # r) = ?f (d # r)"
  proof (induction s)
    case (Cons c s)
    show ?case
    proof (cases "escape_char c = [CHR 0x5C, CHR 0x22]")
      case True
      then have "?f (json_escaped (c # s) @ CHR 0x22 # d # r) = ?f (CHR 0x22 # json_escaped s @ CHR 0x22 # d # r)"
        by (simp add: json_escaped_Cons key_pat_def find_skip)
      then show ?thesis using miss Cons by simp
    next
      case False
      then have "CHR 0x22 \<notin> set (escape_char c)" using escape_quote_only by blast
      then show ?thesis using Cons by (simp add: json_escaped_Cons key_pat_def find_skip_all)
    qed
  qed (simp add: fin)
  with miss show ?thesis by simp
qed

lemma find_key_skip:
  assumes "plain_key k" and "CHR 0x22 \<notin> set k'" and "k \<noteq> k'"
  shows "find_after (key_pat k t) (json_key k' @ r) = find_after (key_pat k t) r"
proof -
  let ?p = "k @ CHR 0x22 # CHR '':'' # t"
  have k: "CHR 0x22 \<notin> set k" "k \<noteq> []" "hd k \<noteq> CHR '':''" using assms(1) by (auto simp: plain_key_def)
  have "take (length ?p) (k' @ CHR 0x22 # CHR '':'' # r) \<noteq> ?p"
    using quoted_prefix [OF k(1) assms(2), of "CHR '':'' # t" "CHR '':'' # r"] assms(3) by auto
  then have "find_after (CHR 0x22 # ?p) (json_key k' @ r) = find_after (CHR 0x22 # ?p) (k' @ CHR 0x22 # CHR '':'' # r)"
    unfolding json_key_def append_Cons append_assoc append_Nil by (rule find_miss)
  also have "\<dots> = find_after (CHR 0x22 # ?p) (CHR 0x22 # CHR '':'' # r)" by (rule find_skip_all [OF assms(2)])
  also have "\<dots> = find_after (CHR 0x22 # ?p) (CHR '':'' # r)"
    using k(2,3) by (intro find_miss) (cases k; simp)
  finally show ?thesis by (simp add: key_pat_def find_skip)
qed

text \<open>Text without control characters other than the three with an escape of their own.\<close>

definition loggable :: "string \<Rightarrow> bool" where
  "loggable s \<longleftrightarrow> (\<forall>c \<in> set s. 0x20 \<le> (of_char c :: nat) \<or> c \<in> {CHR 0x09, CHR 0x0A, CHR 0x0D})"

lemma read_escaped: "loggable s \<Longrightarrow> read_string (json_escaped s @ CHR 0x22 # r) = s"
proof (induction s)
  case (Cons c s)
  then have "loggable s" and c: "0x20 \<le> (of_char c :: nat) \<or> c \<in> {CHR 0x09, CHR 0x0A, CHR 0x0D}"
    by (auto simp: loggable_def)
  with Cons.IH have "read_string (json_escaped s @ CHR 0x22 # r) = s" by simp
  then show ?case using c by (auto simp: json_escaped_Cons escape_char_def unescape_def)
qed simp

text \<open>Passing over a field, and finding one.\<close>

lemma find_string_field:
  assumes "plain_key k" and "CHR 0x22 \<notin> set k'" and "k \<noteq> k'" and "d = CHR '','' \<or> d = CHR ''}''"
  shows "find_after (key_pat k t) (json_key k' @ CHR 0x22 # json_escaped s @ CHR 0x22 # d # r) = find_after (key_pat k t) r"
proof -
  have "hd k \<noteq> d" "d \<noteq> CHR '':''" "d \<noteq> CHR 0x22" using assms by (auto simp: plain_key_def)
  then show ?thesis
    using find_key_skip [OF assms(1-3)] find_value_skip [OF assms(1), of d t s r] by (simp add: key_pat_def find_skip)
qed

lemma int_to_string_no_quote: "CHR 0x22 \<notin> set (int_to_string i)"
  using nat_to_string_digits [of "nat i"] nat_to_string_digits [of "nat (- i)"]
  by (auto simp: int_to_string_def dest: digit_not_sign)

lemma find_int_field:
  assumes "plain_key k" and "CHR 0x22 \<notin> set k'" and "k \<noteq> k'"
  shows "find_after (key_pat k t) (json_key k' @ int_to_string i @ CHR '','' # r) = find_after (key_pat k t) r"
  using find_key_skip [OF assms] find_skip_all [OF int_to_string_no_quote] by (simp add: key_pat_def find_skip)

lemma find_punct:
  "find_after (key_pat k t) (CHR ''{'' # r) = find_after (key_pat k t) r"
  by (simp add: key_pat_def find_skip)

lemma find_field: "find_after (key_pat k t) (json_key k @ t @ r) = Some r"
  using find_hit [of "key_pat k t" r] by (simp add: key_pat_def json_key_def)

lemmas find_string_field_hit = find_field [where t = "[CHR 0x22]", simplified]
lemmas find_int_field_hit = find_field [where t = "[]", simplified]

lemma kind_escaped: "log_kind_name k = json_escaped (log_kind_name k)"
  by (cases k) (simp_all add: log_kind_name_def json_escaped_def escape_char_def)

lemma loggable_kind: "loggable (log_kind_name k)"
  by (cases k) (simp_all add: log_kind_name_def loggable_def)

lemma serialize_fields:
  "serialize_event e =
     CHR ''{'' # json_key ''ts_ms'' @ int_to_string (le_ts_ms e) @ CHR '','' #
     json_key ''kind'' @ CHR 0x22 # json_escaped (log_kind_name (le_kind e)) @ CHR 0x22 # CHR '','' #
     json_key ''frame_type'' @ CHR 0x22 # json_escaped (le_frame_type e) @ CHR 0x22 # CHR '','' #
     json_key ''seq'' @ int_to_string (le_seq e) @ CHR '','' #
     json_key ''fault'' @ CHR 0x22 # json_escaped (le_fault e) @ CHR 0x22 # CHR '','' #
     json_key ''from_state'' @ CHR 0x22 # json_escaped (le_from_state e) @ CHR 0x22 # CHR '','' #
     json_key ''to_state'' @ CHR 0x22 # json_escaped (le_to_state e) @ CHR 0x22 # CHR '','' #
     json_key ''detail'' @ CHR 0x22 # json_escaped (le_detail e) @ CHR 0x22 # CHR ''}'' # []"
  unfolding serialize_event_def using kind_escaped [of "le_kind e"] by simp

lemma extract_string_pat:
  "extract_string line k = map_option read_string (find_after (key_pat k [CHR 0x22]) line)"
  by (simp add: extract_string_def key_pat_def)

lemmas find_fields = find_punct find_string_field find_int_field find_string_field_hit find_int_field_hit

lemma extract_serialized:
  "loggable (le_frame_type e) \<Longrightarrow> extract_string (serialize_event e) ''frame_type'' = Some (le_frame_type e)"
  "loggable (le_fault e) \<Longrightarrow> extract_string (serialize_event e) ''fault'' = Some (le_fault e)"
  "loggable (le_from_state e) \<Longrightarrow> extract_string (serialize_event e) ''from_state'' = Some (le_from_state e)"
  "loggable (le_to_state e) \<Longrightarrow> extract_string (serialize_event e) ''to_state'' = Some (le_to_state e)"
  "loggable (le_detail e) \<Longrightarrow> extract_string (serialize_event e) ''detail'' = Some (le_detail e)"
  "extract_string (serialize_event e) ''kind'' = Some (log_kind_name (le_kind e))"
  by (simp_all add: extract_string_pat serialize_fields find_fields plain_key_def read_escaped loggable_kind)

lemma takeWhile_digits: "takeWhile is_digit (nat_to_string n @ CHR '','' # r) = nat_to_string n"
  using nat_to_string_digits [of n] by (simp add: takeWhile_append2 is_digit_def)

lemma extract_int_text:
  assumes "find_after (key_pat k []) line = Some (int_to_string i @ CHR '','' # r)" and "- (2 ^ 63) \<le> i" and "i < 2 ^ 63"
  shows "extract_int line k = Value i"
proof -
  obtain c cs where n: "nat_to_string (nat \<bar>i\<bar>) = c # cs" by (cases "nat_to_string (nat \<bar>i\<bar>)") auto
  then have c: "is_digit c" using nat_to_string_digits [of "nat \<bar>i\<bar>"] by simp
  have f: "find_after (CHR 0x22 # k @ [CHR 0x22, CHR '':'']) line = Some (int_to_string i @ CHR '','' # r)"
    using assms(1) by (simp add: key_pat_def)
  show ?thesis
  proof (cases "i < 0")
    case True
    then have "int_to_string i = CHR ''-'' # nat_to_string (nat \<bar>i\<bar>)" by (simp add: int_to_string_def)
    then show ?thesis using f stol_int_to_string [OF assms(2,3)] takeWhile_digits [of "nat \<bar>i\<bar>" r]
      by (simp add: extract_int_def Let_def)
  next
    case False
    then have "int_to_string i = nat_to_string (nat \<bar>i\<bar>)" by (simp add: int_to_string_def)
    then show ?thesis using f n digit_not_sign [OF c] stol_int_to_string [OF assms(2,3)] takeWhile_digits [of "nat \<bar>i\<bar>" r]
      by (simp add: extract_int_def Let_def)
  qed
qed

lemma extract_serialized_int:
  "- (2 ^ 63) \<le> le_ts_ms e \<Longrightarrow> le_ts_ms e < 2 ^ 63 \<Longrightarrow> extract_int (serialize_event e) ''ts_ms'' = Value (le_ts_ms e)"
  "- (2 ^ 63) \<le> le_seq e \<Longrightarrow> le_seq e < 2 ^ 63 \<Longrightarrow> extract_int (serialize_event e) ''seq'' = Value (le_seq e)"
  by (rule extract_int_text, simp add: serialize_fields find_fields plain_key_def, simp, simp)+

section \<open>Replaying a log\<close>

text \<open>What an event of the log does to the state machine of the replay.\<close>

definition replay_event :: "LogEvent \<Rightarrow> HealthState \<Rightarrow> HealthState" where
  "replay_event e st = (case le_kind e of
       RX_FRAME \<Rightarrow>
         if le_frame_type e = ''HEARTBEAT''
         then snd (apply_event st (if st = RECOVERING then HEARTBEAT_RESTORED else HEARTBEAT_OK))
         else if le_frame_type e = ''FAULT_EVENT'' \<and> (contains (le_detail e) ''critical'' \<or> contains (le_detail e) ''severity=2'')
         then snd (apply_event st CRITICAL_FAULT) else st
     | TIMEOUT \<Rightarrow> snd (apply_event st HEARTBEAT_TIMEOUT)
     | TX_COMMAND \<Rightarrow> if contains (le_detail e) ''REQUEST_RECOVERY'' then snd (apply_event st RECOVERY_SENT) else st
     | _ \<Rightarrow> st)"

text \<open>Events whose texts have no control characters but line breaks and tabs, and whose time fits 64 bits.\<close>

definition loggable_event :: "LogEvent \<Rightarrow> bool" where
  "loggable_event e \<longleftrightarrow> - (2 ^ 63) \<le> le_ts_ms e \<and> le_ts_ms e < 2 ^ 63 \<and> - (2 ^ 63) \<le> le_seq e \<and> le_seq e < 2 ^ 63
     \<and> loggable (le_frame_type e) \<and> loggable (le_fault e) \<and> loggable (le_from_state e)
     \<and> loggable (le_to_state e) \<and> loggable (le_detail e)"

lemma replay_apply_fields [simp]:
  "rp_fsm (replay_apply ev s) = snd (apply_event (rp_fsm s) ev)"
  "lines_total (replay_apply ev s) = lines_total s" "rp_rx_frames (replay_apply ev s) = rp_rx_frames s"
  "timeouts (replay_apply ev s) = timeouts s"
  by (simp_all add: replay_apply_def split_beta Let_def)

lemma replay_apply_transitions:
  "transitions s = length (rp_out s) \<Longrightarrow> transitions (replay_apply ev s) = length (rp_out (replay_apply ev s))"
  by (simp add: replay_apply_def split_beta Let_def)

lemma log_kind_names:
  "log_kind_name k = ''rx_frame'' \<longleftrightarrow> k = RX_FRAME" "log_kind_name k = ''timeout'' \<longleftrightarrow> k = TIMEOUT"
  "log_kind_name k = ''tx_command'' \<longleftrightarrow> k = TX_COMMAND"
  by (cases k; simp add: log_kind_name_def)+

lemma replay_line_serialized:
  assumes "loggable_event e"
  shows "\<exists>s'. replay_line (serialize_event e) s = Some s' \<and> rp_fsm s' = replay_event e (rp_fsm s)
    \<and> lines_total s' = lines_total s + 1 \<and> (transitions s = length (rp_out s) \<longrightarrow> transitions s' = length (rp_out s'))
    \<and> rp_rx_frames s' = rp_rx_frames s + (if le_kind e = RX_FRAME then 1 else 0)
    \<and> timeouts s' = timeouts s + (if le_kind e = TIMEOUT then 1 else 0)"
proof -
  have "serialize_event e \<noteq> []" by (simp add: serialize_event_def)
  moreover have "extract_int (serialize_event e) ''ts_ms'' \<noteq> Throws"
    using assms extract_serialized_int(1) [of e] by (simp add: loggable_event_def)
  moreover have "extract_or_empty (serialize_event e) ''frame_type'' = le_frame_type e"
    "extract_or_empty (serialize_event e) ''detail'' = le_detail e"
    using assms by (simp_all add: extract_or_empty_def loggable_event_def extract_serialized)
  ultimately show ?thesis
    by (cases "le_kind e") (simp_all add: replay_line_def Let_def extract_serialized log_kind_names replay_event_def
        replay_apply_transitions)
qed

lemma replay_lines_serialized:
  assumes "\<forall>e\<in>set es. loggable_event e" and "transitions s = length (rp_out s)"
  shows "\<exists>s'. replay_lines (map serialize_event es) s = Some s' \<and> rp_fsm s' = fold replay_event es (rp_fsm s)
    \<and> lines_total s' = lines_total s + length es \<and> transitions s' = length (rp_out s')
    \<and> rp_rx_frames s' = rp_rx_frames s + length (filter (\<lambda>e. le_kind e = RX_FRAME) es)
    \<and> timeouts s' = timeouts s + length (filter (\<lambda>e. le_kind e = TIMEOUT) es)"
  using assms
proof (induction es arbitrary: s)
  case (Cons e es)
  then obtain t where t: "replay_line (serialize_event e) s = Some t" "rp_fsm t = replay_event e (rp_fsm s)"
    "lines_total t = lines_total s + 1" "transitions t = length (rp_out t)"
    "rp_rx_frames t = rp_rx_frames s + (if le_kind e = RX_FRAME then 1 else 0)"
    "timeouts t = timeouts s + (if le_kind e = TIMEOUT then 1 else 0)"
    using replay_line_serialized [of e s] by auto
  from Cons.IH [OF _ t(4)] Cons.prems(1) t show ?case by auto
qed simp

text \<open>The counters of the summary agree with each other after any lines at all: the entries of the states add up to the
  transitions, which are the lines written; the state is one that was entered, or still BOOTING, which is never entered; and no
  line is counted twice.\<close>

definition counters_agree :: "replay \<Rightarrow> bool" where
  "counters_agree s \<longleftrightarrow> transitions s = length (rp_out s) \<and> transitions s = (\<Sum>h\<leftarrow>all_states. state_entry_counts s h)
     \<and> state_entry_counts s BOOTING = 0 \<and> (rp_fsm s = BOOTING \<longleftrightarrow> transitions s = 0)
     \<and> (rp_fsm s \<noteq> BOOTING \<longrightarrow> 0 < state_entry_counts s (rp_fsm s))
     \<and> rp_rx_frames s + timeouts s + ignored s \<le> lines_total s"

lemma replay_apply_agree: "counters_agree s \<Longrightarrow> counters_agree (replay_apply ev s)"
  by (cases "rp_fsm s"; cases ev) (auto simp: counters_agree_def replay_apply_def apply_event_def all_states_def Let_def)

lemma count_agree:
  assumes "counters_agree s"
  shows "counters_agree (s\<lparr>lines_total := Suc (lines_total s)\<rparr>)"
    "counters_agree (s\<lparr>lines_total := Suc (lines_total s), rp_rx_frames := Suc (rp_rx_frames s)\<rparr>)"
    "counters_agree (s\<lparr>lines_total := Suc (lines_total s), timeouts := Suc (timeouts s)\<rparr>)"
    "counters_agree (s\<lparr>lines_total := Suc (lines_total s), ignored := Suc (ignored s)\<rparr>)"
  using assms by (simp_all add: counters_agree_def)

lemma replay_line_agree: "replay_line line s = Some s' \<Longrightarrow> counters_agree s \<Longrightarrow> counters_agree s'"
  using count_agree [of s]
  by (auto simp: replay_line_def Let_def split: if_splits option.splits intro!: replay_apply_agree)

lemma replay_lines_agree: "replay_lines lines s = Some s' \<Longrightarrow> counters_agree s \<Longrightarrow> counters_agree s'"
  by (induction lines arbitrary: s) (auto dest: replay_line_agree split: option.splits)

section \<open>Properties\<close>

text \<open>C32 (the log can be read back).  For every event whose texts hold no control characters other than
  line breaks and tabs and whose numbers fit 64 bits, quotes, backslashes and the keys themselves inside
  the texts included, the replay's two extraction functions read each field of the line that the logger
  writes back unchanged.\<close>

theorem log_roundtrip:
  assumes "loggable_event e"
  shows "extract_int (serialize_event e) ''ts_ms'' = Value (le_ts_ms e)
    \<and> extract_string (serialize_event e) ''kind'' = Some (log_kind_name (le_kind e))
    \<and> extract_string (serialize_event e) ''frame_type'' = Some (le_frame_type e)
    \<and> extract_int (serialize_event e) ''seq'' = Value (le_seq e)
    \<and> extract_string (serialize_event e) ''fault'' = Some (le_fault e)
    \<and> extract_string (serialize_event e) ''from_state'' = Some (le_from_state e)
    \<and> extract_string (serialize_event e) ''to_state'' = Some (le_to_state e)
    \<and> extract_string (serialize_event e) ''detail'' = Some (le_detail e)"
  using assms by (simp add: loggable_event_def extract_serialized extract_serialized_int)

theorem log_roundtrip_witness:
  "let e = (log_event TIMEOUT)\<lparr>le_ts_ms := -5, le_detail := [CHR 0x22, CHR 0x5C, CHR ''x'']\<rparr>
   in extract_int (serialize_event e) ''ts_ms'' = Value (-5)
      \<and> extract_string (serialize_event e) ''detail'' = Some [CHR 0x22, CHR 0x5C, CHR ''x'']"
  using log_roundtrip [of "(log_event TIMEOUT)\<lparr>le_ts_ms := -5, le_detail := [CHR 0x22, CHR 0x5C, CHR ''x'']\<rparr>"]
  by (simp add: loggable_event_def loggable_def log_event_def Let_def)

text \<open>C33 (the replay of a log).  A replay of the lines of any such events returns 0 and does not throw; its
  state machine makes the transitions that the events call for, in order; it counts every line, received
  frame and timeout, and writes one line for each transition; and the counters of its summary agree with each other: the
  entries of the states add up to the transitions, BOOTING is never entered, and the final state is BOOTING exactly
  if there was no transition.\<close>

theorem replay_of_log:
  assumes "\<forall>e\<in>set es. loggable_event e"
  shows "\<exists>s. run_replay (Some (map serialize_event es)) True = Some (0, s)
    \<and> rp_fsm s = fold replay_event es BOOTING \<and> lines_total s = length es \<and> length (rp_out s) = transitions s
    \<and> rp_rx_frames s = length (filter (\<lambda>e. le_kind e = RX_FRAME) es)
    \<and> timeouts s = length (filter (\<lambda>e. le_kind e = TIMEOUT) es) \<and> counters_agree s"
proof -
  have "counters_agree replay_init" by (simp add: counters_agree_def replay_init_def all_states_def)
  then show ?thesis using replay_lines_serialized [OF assms, of replay_init] replay_lines_agree
    by (fastforce simp: run_replay_def replay_init_def)
qed

theorem replay_of_log_witness:
  "\<exists>s. run_replay (Some [serialize_event ((log_event RX_FRAME)\<lparr>le_frame_type := ''HEARTBEAT''\<rparr>),
       serialize_event (log_event TIMEOUT)]) True = Some (0, s) \<and> rp_fsm s = DEGRADED"
  using replay_of_log [of "[(log_event RX_FRAME)\<lparr>le_frame_type := ''HEARTBEAT''\<rparr>, log_event TIMEOUT]"]
  by (auto simp: loggable_event_def loggable_def log_event_def replay_event_def apply_event_def)

end
