(* ===== verification/Supervisor.thy ===== *)
theory Supervisor
  imports Replay
begin

text \<open>
  The live supervisor (\<open>safety-supervisord\<close>): frame builders, duplicate detection and retry counts of
  \<open>protocol.cpp\<close>, the device client, the event loop of \<open>event_loop.cpp\<close> and the recovery worker of
  \<open>recovery_worker.cpp\<close>.  A turn of the event loop is atomic; the worker's code between two points at
  which it does not hold its lock is one step, so requests can arrive exactly at those points.  Frames
  written to the device, log events, requests and reports are kept as the lists of what was sent.
\<close>

section \<open>Definitions\<close>

subsection \<open>Names and frames\<close>

definition sup_frame_type_name :: "u8 \<Rightarrow> string" where
  "sup_frame_type_name t =
     (if t = SAFETY_FRAME_HEARTBEAT then ''HEARTBEAT'' else if t = SAFETY_FRAME_TELEMETRY then ''TELEMETRY''
      else if t = SAFETY_FRAME_FAULT_EVENT then ''FAULT_EVENT'' else if t = SAFETY_FRAME_COMMAND then ''COMMAND''
      else if t = SAFETY_FRAME_ACK then ''ACK'' else if t = SAFETY_FRAME_NACK then ''NACK''
      else if t = SAFETY_FRAME_RECOVERY_REPORT then ''RECOVERY_REPORT'' else [])"

definition sup_fault_type_name :: "u8 \<Rightarrow> string" where
  "sup_fault_type_name f =
     (if f = SAFETY_FAULT_NONE then ''NONE'' else if f = SAFETY_FAULT_TASK_HANG then ''HEARTBEAT_STOP''
      else if f = SAFETY_FAULT_CHECKSUM_ERROR then ''CHECKSUM_ERROR''
      else if f = SAFETY_FAULT_CRITICAL then ''CRITICAL'' else [])"

definition pack_frame :: "u8 \<Rightarrow> u16 \<Rightarrow> u32 \<Rightarrow> bytes option \<Rightarrow> u16 \<Rightarrow> bytes" where
  "pack_frame ty seq ts_ms payload plen =
     (let hdr = safety_frame_init ty seq plen ts_ms;
          out = replicate (SAFETY_HEADER_SIZE + unat plen) 0;
          hdr = hdr\<lparr>checksum := safety_frame_compute_checksum hdr payload plen\<rparr>;
          out = memcpy_at out 0 (header_bytes hdr)
      in case payload of
           Some p \<Rightarrow> if plen \<noteq> 0 then memcpy_at out SAFETY_HEADER_SIZE (take (unat plen) p) else out
         | None \<Rightarrow> out)"

definition build_heartbeat :: "u16 \<Rightarrow> u32 \<Rightarrow> u32 \<Rightarrow> u32 \<Rightarrow> bytes" where
  "build_heartbeat seq ts_ms uptime beat = pack_frame SAFETY_FRAME_HEARTBEAT seq ts_ms
     (Some (heartbeat_bytes \<lparr>uptime_ms = uptime, beat_seq = beat\<rparr>)) 8"

definition build_ack :: "u16 \<Rightarrow> u32 \<Rightarrow> u16 \<Rightarrow> bytes" where
  "build_ack seq ts_ms acked_seq = pack_frame SAFETY_FRAME_ACK seq ts_ms
     (Some (ack_bytes \<lparr>acked_sequence_id = acked_seq, ack_reserved = 0\<rparr>)) 4"

definition build_nack :: "u16 \<Rightarrow> u32 \<Rightarrow> u16 \<Rightarrow> u8 \<Rightarrow> bytes" where
  "build_nack seq ts_ms nacked_seq rsn = pack_frame SAFETY_FRAME_NACK seq ts_ms
     (Some (nack_bytes \<lparr>nacked_sequence_id = nacked_seq, reason = rsn, nack_reserved = 0\<rparr>)) 4"

definition build_command :: "u16 \<Rightarrow> u32 \<Rightarrow> u8 \<Rightarrow> u8 \<Rightarrow> u16 \<Rightarrow> u32 \<Rightarrow> bytes" where
  "build_command seq ts_ms cmd a8 a16 a32 = pack_frame SAFETY_FRAME_COMMAND seq ts_ms
     (Some (command_bytes \<lparr>command = cmd, arg8 = a8, arg16 = a16, arg32 = a32\<rparr>)) 8"

subsection \<open>Duplicates and retries\<close>

definition is_duplicate :: "u8 \<Rightarrow> u16 \<Rightarrow> (u8 \<times> u16) set \<Rightarrow> bool \<times> (u8 \<times> u16) set" where
  "is_duplicate ty seq seen = (let key = (ty, seq) in (key \<in> seen, insert key seen))"

type_synonym RetryTracker = "(u16 \<times> u32) list"

fun retry_bump :: "u16 \<Rightarrow> RetryTracker \<Rightarrow> u32 \<times> RetryTracker" where
  "retry_bump seq [] = (1, [(seq, 1)])"
| "retry_bump seq (e # es) =
     (if fst e = seq then (snd e + 1, (seq, snd e + 1) # es)
      else let (n, es) = retry_bump seq es in (n, e # es))"

fun retry_count_of :: "u16 \<Rightarrow> RetryTracker \<Rightarrow> u32" where
  "retry_count_of seq [] = 0"
| "retry_count_of seq (e # es) = (if fst e = seq then snd e else retry_count_of seq es)"

definition retry_clear :: "u16 \<Rightarrow> RetryTracker \<Rightarrow> RetryTracker" where
  "retry_clear seq es = filter (\<lambda>e. fst e \<noteq> seq) es"

subsection \<open>Device client\<close>

text \<open>What \<open>write\<close> returns: the number of bytes taken, or an error.  The loop of \<open>write_all\<close> gives
  whether everything was written and what the device taken, call by call; \<open>None\<close> while the results
  given so far do not end it.\<close>

datatype write_ret = Wrote nat | Write_EINTR | Write_error

fun write_all :: "write_ret list \<Rightarrow> bytes \<Rightarrow> bytes list \<Rightarrow> (bool \<times> bytes list) option" where
  "write_all rs data taken =
     (if data = [] then Some (True, taken)
      else case rs of [] \<Rightarrow> None
         | Wrote n # rs \<Rightarrow> write_all rs (drop n data) (taken @ [take n data])
         | Write_EINTR # rs \<Rightarrow> write_all rs data taken
         | Write_error # rs \<Rightarrow> Some (False, taken))"

declare write_all.simps [simp del]

datatype read_ret = Read_bytes bytes | Read_EOF | Read_EINTR | Read_error

fun read_some :: "read_ret list \<Rightarrow> read_ret option" where
  "read_some [] = None"
| "read_some (Read_EINTR # rs) = read_some rs"
| "read_some (r # rs) = Some r"

subsection \<open>State\<close>

datatype RecoveryOutcome = SENT | SUCCESS | REC_FAILED

record RecoveryReport =
  outcome :: RecoveryOutcome
  rr_seq :: u16
  rr_ts_ms :: int

datatype Request = RECOVER u16 int | RESTORED int

text \<open>Where the worker thread is while it does not hold its lock: waiting for a request, waiting until
  the deadline, about to send a command, about to report a success or a failure, about to take the
  lock again inside the loop over the requests or at the top of its loop, returned.\<close>

datatype worker_pc = P_wait | P_wait_until | P_send u16 int | P_success u16 int | P_failed u16 int
  | P_relock_drain | P_relock_top | P_exit

record supervisor =
  fsm :: HealthState
  assembler_buf :: bytes
  dup_seen :: "(u8 \<times> u16) set"
  sup_tx_seq :: u16
  timer_settings :: "(nat \<times> nat) list"
  reports :: "RecoveryReport list"
  logged :: "LogEvent list"
  dev_out :: "bytes list"
  rw_queue :: "Request list"
  rw_stopping :: bool
  rw_active :: bool
  rw_active_seq :: u16
  rw_deadline_at_ms :: int
  rw_pc :: worker_pc

definition push_log :: "LogEvent \<Rightarrow> supervisor \<Rightarrow> supervisor" where
  "push_log ev s = s\<lparr>logged := logged s @ [ev]\<rparr>"

definition send_out :: "bytes \<Rightarrow> supervisor \<Rightarrow> supervisor" where
  "send_out data s = s\<lparr>dev_out := dev_out s @ [data]\<rparr>"

text \<open>\<open>fsm_.apply\<close> with the hook that \<open>run_live\<close> installs.\<close>

definition fsm_apply :: "HealthEvent \<Rightarrow> supervisor \<Rightarrow> TransitionResult \<times> supervisor" where
  "fsm_apply ev s =
     (let (r, st) = apply_event (fsm s) ev;
          s = s\<lparr>fsm := st\<rparr>
      in (r, if tr_valid r
             then push_log ((log_event STATE_CHANGE)\<lparr>le_from_state := state_name (tr_from r),
                    le_to_state := state_name (tr_to r), le_detail := event_name (tr_event r)\<rparr>) s
             else s))"

subsection \<open>Event loop\<close>

definition arm_heartbeat_timer :: "u32 \<Rightarrow> supervisor \<Rightarrow> supervisor" where
  "arm_heartbeat_timer hb_timeout_ms s =
     s\<lparr>timer_settings := timer_settings s @ [(unat hb_timeout_ms div 1000, unat hb_timeout_ms mod 1000 * 1000000)]\<rparr>"

definition request_recovery :: "u16 \<Rightarrow> int \<Rightarrow> supervisor \<Rightarrow> supervisor" where
  "request_recovery seq now s = s\<lparr>rw_queue := rw_queue s @ [RECOVER seq now]\<rparr>"

definition notify_heartbeat_restored :: "int \<Rightarrow> supervisor \<Rightarrow> supervisor" where
  "notify_heartbeat_restored now s = s\<lparr>rw_queue := rw_queue s @ [RESTORED now]\<rparr>"

definition post_recovery_report :: "RecoveryReport \<Rightarrow> supervisor \<Rightarrow> supervisor" where
  "post_recovery_report rep s = s\<lparr>reports := reports s @ [rep]\<rparr>"

fun validate_code :: "safety_validate_result \<Rightarrow> int" where
  "validate_code SAFETY_VALIDATE_OK = 0"
| "validate_code SAFETY_VALIDATE_BAD_MAGIC = 1"
| "validate_code SAFETY_VALIDATE_BAD_VERSION = 2"
| "validate_code SAFETY_VALIDATE_BAD_LENGTH = 3"
| "validate_code SAFETY_VALIDATE_BAD_CHECKSUM = 4"

definition frame_log :: "LogKind \<Rightarrow> ParsedFrame \<Rightarrow> string \<Rightarrow> LogEvent" where
  "frame_log k f name = (log_event k)\<lparr>le_ts_ms := uint (timestamp_ms (pf_header f)), le_frame_type := name,
     le_seq := uint (sequence_id (pf_header f))\<rparr>"

definition next_tx_seq :: "supervisor \<Rightarrow> supervisor" where
  "next_tx_seq s = s\<lparr>sup_tx_seq := sup_tx_seq s + 1\<rparr>"

text \<open>The payload of a FAULT_EVENT, zeros if it is too short.\<close>

definition fault_severity :: "ParsedFrame \<Rightarrow> u8" where
  "fault_severity f = (if 8 \<le> length (pf_payload f) then severity (fault_event_of_bytes (pf_payload f)) else 0)"

text \<open>The body of the loop of \<open>process_frames\<close>.\<close>

definition process_frame :: "u32 \<Rightarrow> ParsedFrame \<Rightarrow> supervisor \<Rightarrow> supervisor" where
  "process_frame hb_timeout_ms f s =
     (let ty = frame_type (pf_header f);
          seq = sequence_id (pf_header f);
          ts = timestamp_ms (pf_header f);
          ftname = sup_frame_type_name ty
      in if pf_result f \<noteq> SAFETY_VALIDATE_OK then
           let s = push_log ((frame_log CHECKSUM_ERROR f ftname)
                     \<lparr>le_detail := ''validate_result='' @ int_to_string (validate_code (pf_result f))\<rparr>) s;
               nack = build_nack (sup_tx_seq s) ts seq SAFETY_NACK_CHECKSUM;
               s = next_tx_seq s;
               s = send_out nack s
           in push_log (frame_log TX_NACK f ''NACK'') s
         else let (dup, seen) = is_duplicate ty seq (dup_seen s);
                  s = s\<lparr>dup_seen := seen\<rparr>
         in if dup then push_log (frame_log DUPLICATE f ftname) s
         else let s = push_log (frame_log RX_FRAME f ftname) s
         in if ty = SAFETY_FRAME_HEARTBEAT then
              let s = arm_heartbeat_timer hb_timeout_ms s;
                  before = fsm s;
                  ev = (if before = RECOVERING then HEARTBEAT_RESTORED else HEARTBEAT_OK);
                  (_, s) = fsm_apply ev s;
                  s = (if before = RECOVERING then notify_heartbeat_restored (uint ts) s else s);
                  ack = build_ack (sup_tx_seq s) ts seq;
                  s = next_tx_seq s;
                  s = send_out ack s
              in push_log (frame_log TX_ACK f ''ACK'') s
            else if ty = SAFETY_FRAME_FAULT_EVENT then
              (if fault_severity f \<ge> 2 then snd (fsm_apply CRITICAL_FAULT s)
               else if fsm s = HEALTHY then snd (fsm_apply HEARTBEAT_TIMEOUT s) else s)
            else s)"

fun process_frames :: "u32 \<Rightarrow> ParsedFrame list \<Rightarrow> supervisor \<Rightarrow> supervisor" where
  "process_frames hb [] s = s"
| "process_frames hb (f # fs) s = process_frames hb fs (process_frame hb f s)"

text \<open>\<open>handle_readable\<close> with what the read returned.\<close>

definition handle_readable :: "u32 \<Rightarrow> read_ret \<Rightarrow> supervisor \<Rightarrow> supervisor" where
  "handle_readable hb r s = (case r of
       Read_bytes bs \<Rightarrow>
         if bs = [] then s
         else let (frames, kept) = assembler_feed (assembler_buf s) bs
              in process_frames hb frames (s\<lparr>assembler_buf := kept\<rparr>)
     | _ \<Rightarrow> s)"

definition on_heartbeat_timeout :: "u32 \<Rightarrow> int \<Rightarrow> supervisor \<Rightarrow> supervisor" where
  "on_heartbeat_timeout hb now s =
     (let s = push_log ((log_event TIMEOUT)\<lparr>le_ts_ms := now, le_detail := ''heartbeat timeout (backup timer)''\<rparr>) s;
          before = fsm s;
          (r, s) = fsm_apply HEARTBEAT_TIMEOUT s;
          s = (if tr_valid r \<and> before = HEALTHY
               then let seq = sup_tx_seq s in request_recovery seq now (next_tx_seq s) else s)
      in arm_heartbeat_timer hb s)"

definition drain_report :: "RecoveryReport \<Rightarrow> supervisor \<Rightarrow> supervisor" where
  "drain_report rep s =
     (let (res, s) = (case outcome rep of
            SENT \<Rightarrow> (''RECOVERY_SENT'', snd (fsm_apply RECOVERY_SENT
               (push_log ((log_event TX_COMMAND)\<lparr>le_ts_ms := rr_ts_ms rep, le_frame_type := ''COMMAND'',
                  le_seq := uint (rr_seq rep), le_detail := ''REQUEST_RECOVERY''\<rparr>) s)))
          | SUCCESS \<Rightarrow> (''RECOVERY_SUCCESS'', s)
          | REC_FAILED \<Rightarrow> (''RECOVERY_FAILED'', snd (fsm_apply RECOVERY_FAILED s)))
      in push_log ((log_event RECOVERY_RESULT)\<lparr>le_ts_ms := rr_ts_ms rep, le_seq := uint (rr_seq rep),
           le_detail := res\<rparr>) s)"

definition drain_recovery_reports :: "supervisor \<Rightarrow> supervisor" where
  "drain_recovery_reports s = fold drain_report (reports s) (s\<lparr>reports := []\<rparr>)"

subsection \<open>Recovery worker\<close>

datatype worker_loc = L_top | L_woken | L_drain | L_check

definition loc_rank :: "worker_loc \<Rightarrow> bool \<Rightarrow> nat" where
  "loc_rank l mt = (case l of L_woken \<Rightarrow> 3 | L_drain \<Rightarrow> if mt then 2 else 0
     | L_check \<Rightarrow> if mt then 1 else 2 | L_top \<Rightarrow> if mt then 0 else 1)"

text \<open>\<open>RecoveryWorker::run\<close> from a place at which it holds the lock to the next one at which it does
  not: the top of its loop, behind a wait, the loop over the requests, the check behind it.\<close>

function worker_run :: "u32 \<Rightarrow> worker_loc \<Rightarrow> supervisor \<Rightarrow> supervisor" where
  "worker_run deadline_ms L_top s =
     (if rw_stopping s then s\<lparr>rw_pc := P_exit\<rparr>
      else if rw_queue s = [] then s\<lparr>rw_pc := (if rw_active s then P_wait_until else P_wait)\<rparr>
      else worker_run deadline_ms L_drain s)"
| "worker_run deadline_ms L_woken s =
     (if rw_stopping s then s\<lparr>rw_pc := P_exit\<rparr> else worker_run deadline_ms L_drain s)"
| "worker_run deadline_ms L_drain s =
     (case rw_queue s of
        [] \<Rightarrow> worker_run deadline_ms L_check s
      | RECOVER seq ts # q \<Rightarrow>
          s\<lparr>rw_queue := q, rw_active := True, rw_active_seq := seq,
            rw_deadline_at_ms := ts + uint deadline_ms, rw_pc := P_send seq ts\<rparr>
      | RESTORED ts # q \<Rightarrow>
          if rw_active s then s\<lparr>rw_queue := q, rw_active := False, rw_pc := P_success (rw_active_seq s) ts\<rparr>
          else worker_run deadline_ms L_drain (s\<lparr>rw_queue := q\<rparr>))"
| "worker_run deadline_ms L_check s =
     (if rw_active s \<and> rw_queue s = []
      then s\<lparr>rw_active := False, rw_pc := P_failed (rw_active_seq s) (rw_deadline_at_ms s)\<rparr>
      else worker_run deadline_ms L_top s)"
  by pat_completeness auto
termination
  by (relation "measure (\<lambda>(_, l, s). 4 * length (rw_queue s) + loc_rank l (rw_queue s = []))")
    (auto simp: loc_rank_def)

declare worker_run.simps [simp del]

text \<open>The worker's steps outside the lock; \<open>sent\<close> is what \<open>send_cmd_\<close> returns.\<close>

definition worker_send :: "bool \<Rightarrow> u16 \<Rightarrow> int \<Rightarrow> supervisor \<Rightarrow> supervisor" where
  "worker_send sent seq ts s =
     (let cmd = build_command seq (of_int ts) SAFETY_CMD_REQUEST_RECOVERY SAFETY_FAULT_NONE 0 0;
          s = send_out cmd s;
          s = (if sent then post_recovery_report \<lparr>outcome = SENT, rr_seq = seq, rr_ts_ms = ts\<rparr> s else s)
      in s\<lparr>rw_pc := P_relock_drain\<rparr>)"

definition worker_success :: "u16 \<Rightarrow> int \<Rightarrow> supervisor \<Rightarrow> supervisor" where
  "worker_success seq ts s =
     (post_recovery_report \<lparr>outcome = SUCCESS, rr_seq = seq, rr_ts_ms = ts\<rparr> s)\<lparr>rw_pc := P_relock_drain\<rparr>"

definition worker_failed :: "u16 \<Rightarrow> int \<Rightarrow> supervisor \<Rightarrow> supervisor" where
  "worker_failed seq ts s =
     (post_recovery_report \<lparr>outcome = REC_FAILED, rr_seq = seq, rr_ts_ms = ts\<rparr> s)\<lparr>rw_pc := P_relock_top\<rparr>"

definition recovery_stop :: "supervisor \<Rightarrow> supervisor" where
  "recovery_stop s = s\<lparr>rw_stopping := True\<rparr>"

subsection \<open>Both threads\<close>

text \<open>The steps of the event loop and of the worker, in any order; \<open>W_wake\<close> is the return of a wait,
  of which \<open>wait_until\<close> may return at any time.\<close>

datatype sup_label = L_read read_ret | L_timeout int | L_reports | L_stop | W_wake | W_send bool | W_report | W_lock

inductive sup_step :: "u32 \<Rightarrow> sup_label \<Rightarrow> supervisor \<Rightarrow> supervisor \<Rightarrow> bool" for hb where
  read: "sup_step hb (L_read r) s (handle_readable hb r s)"
| timeout: "sup_step hb (L_timeout now) s (on_heartbeat_timeout hb now s)"
| reports: "sup_step hb L_reports s (drain_recovery_reports s)"
| stop: "sup_step hb L_stop s (recovery_stop s)"
| wake: "rw_pc s = P_wait \<Longrightarrow> rw_stopping s \<or> rw_queue s \<noteq> [] \<Longrightarrow> sup_step hb W_wake s (worker_run hb L_woken s)"
| wake_until: "rw_pc s = P_wait_until \<Longrightarrow> sup_step hb W_wake s (worker_run hb L_woken s)"
| send: "rw_pc s = P_send seq ts \<Longrightarrow> sup_step hb (W_send sent) s (worker_send sent seq ts s)"
| success: "rw_pc s = P_success seq ts \<Longrightarrow> sup_step hb W_report s (worker_success seq ts s)"
| failed: "rw_pc s = P_failed seq ts \<Longrightarrow> sup_step hb W_report s (worker_failed seq ts s)"
| lock_drain: "rw_pc s = P_relock_drain \<Longrightarrow> sup_step hb W_lock s (worker_run hb L_drain s)"
| lock_top: "rw_pc s = P_relock_top \<Longrightarrow> sup_step hb W_lock s (worker_run hb L_top s)"

inductive_cases sup_stepE: "sup_step hb l s s'"

inductive sup_reachable :: "u32 \<Rightarrow> supervisor \<Rightarrow> supervisor \<Rightarrow> bool" for hb s0 where
  start: "sup_reachable hb s0 s0"
| step: "sup_reachable hb s0 s \<Longrightarrow> sup_step hb l s s' \<Longrightarrow> sup_reachable hb s0 s'"

text \<open>The state in which \<open>run_live\<close> constructs the objects, and the one after it has set everything up and
  started the worker, which waits.\<close>

definition sup_idle :: supervisor where
  "sup_idle = \<lparr>fsm = BOOTING, assembler_buf = [], dup_seen = {}, sup_tx_seq = 0, timer_settings = [], reports = [],
     logged = [], dev_out = [], rw_queue = [], rw_stopping = False, rw_active = False, rw_active_seq = 0,
     rw_deadline_at_ms = 0, rw_pc = P_relock_top\<rparr>"

definition sup_init :: "u32 \<Rightarrow> supervisor" where
  "sup_init hb = worker_run hb L_top (arm_heartbeat_timer hb sup_idle)"

section \<open>Lemmas\<close>

subsection \<open>Builders\<close>

lemma pack_frame_wire:
  assumes "unat n = length p" and "length p \<le> SAFETY_MAX_PAYLOAD"
  shows "pack_frame ty seq ts (Some p) n = wire_frame (safety_frame_init ty seq n ts) p"
proof -
  have z: "n = 0 \<longleftrightarrow> p = []" using assms(1) by (metis length_0_conv unsigned_0 unsigned_eq_0_iff)
  show ?thesis
    using assms z by (auto simp: pack_frame_def wire_frame_def compute_checksum_crc32 memcpy_at_def
        SAFETY_HEADER_SIZE_def Let_def)
qed

lemma build_wire:
  "build_ack seq ts a = wire_frame (safety_frame_init SAFETY_FRAME_ACK seq 4 ts) (ack_bytes \<lparr>acked_sequence_id = a, ack_reserved = 0\<rparr>)"
  "build_nack seq ts a r = wire_frame (safety_frame_init SAFETY_FRAME_NACK seq 4 ts)
     (nack_bytes \<lparr>nacked_sequence_id = a, reason = r, nack_reserved = 0\<rparr>)"
  "build_command seq ts c a8 a16 a32 = wire_frame (safety_frame_init SAFETY_FRAME_COMMAND seq 8 ts)
     (command_bytes \<lparr>command = c, arg8 = a8, arg16 = a16, arg32 = a32\<rparr>)"
  "build_heartbeat seq ts u b = wire_frame (safety_frame_init SAFETY_FRAME_HEARTBEAT seq 8 ts)
     (heartbeat_bytes \<lparr>uptime_ms = u, beat_seq = b\<rparr>)"
  by (simp_all add: build_ack_def build_nack_def build_command_def build_heartbeat_def pack_frame_wire SAFETY_MAX_PAYLOAD_def)

lemma init_header_ok: "unat n = length p \<Longrightarrow> length p \<le> 256 \<Longrightarrow> header_ok (safety_frame_init ty seq n ts) p"
  by (simp add: header_ok_def SAFETY_MAX_PAYLOAD_def)

definition valid_frame :: "bytes \<Rightarrow> bool" where
  "valid_frame d \<longleftrightarrow> (\<exists>h p. header_ok h p \<and> d = wire_frame h p)"

lemma build_valid [simp]:
  "valid_frame (build_ack seq ts a)" "valid_frame (build_nack seq ts a r)" "valid_frame (build_command seq ts c a8 a16 a32)"
  unfolding valid_frame_def build_wire by (rule exI, rule exI, rule conjI, rule init_header_ok, simp_all)+

subsection \<open>Frame conditions\<close>

lemmas sup_upd = push_log_def send_out_def arm_heartbeat_timer_def request_recovery_def notify_heartbeat_restored_def
  post_recovery_report_def next_tx_seq_def

lemma fsm_apply_fields [simp]:
  "fsm (snd (fsm_apply ev s)) = snd (apply_event (fsm s) ev)"
  "tr_valid (fst (fsm_apply ev s)) = tr_valid (fst (apply_event (fsm s) ev))"
  "dup_seen (snd (fsm_apply ev s)) = dup_seen s" "sup_tx_seq (snd (fsm_apply ev s)) = sup_tx_seq s"
  "dev_out (snd (fsm_apply ev s)) = dev_out s" "rw_queue (snd (fsm_apply ev s)) = rw_queue s"
  "rw_pc (snd (fsm_apply ev s)) = rw_pc s" "rw_active (snd (fsm_apply ev s)) = rw_active s"
  "rw_stopping (snd (fsm_apply ev s)) = rw_stopping s" "reports (snd (fsm_apply ev s)) = reports s"
  "assembler_buf (snd (fsm_apply ev s)) = assembler_buf s" "timer_settings (snd (fsm_apply ev s)) = timer_settings s"
  by (simp_all add: fsm_apply_def sup_upd split_beta Let_def)

lemma process_frame_worker [simp]:
  "rw_pc (process_frame hb f s) = rw_pc s" "rw_active (process_frame hb f s) = rw_active s"
  "rw_stopping (process_frame hb f s) = rw_stopping s" "reports (process_frame hb f s) = reports s"
  by (simp_all add: process_frame_def is_duplicate_def sup_upd Let_def split_beta)

lemma process_frames_worker [simp]:
  "rw_pc (process_frames hb fs s) = rw_pc s" "rw_active (process_frames hb fs s) = rw_active s"
  "rw_stopping (process_frames hb fs s) = rw_stopping s" "reports (process_frames hb fs s) = reports s"
  by (induction fs arbitrary: s) simp_all

lemma handle_readable_worker [simp]:
  "rw_pc (handle_readable hb r s) = rw_pc s" "rw_active (handle_readable hb r s) = rw_active s"
  by (simp_all add: handle_readable_def split_beta Let_def split: read_ret.split)

lemma on_timeout_fields [simp]:
  "rw_pc (on_heartbeat_timeout hb now s) = rw_pc s" "rw_active (on_heartbeat_timeout hb now s) = rw_active s"
  "fsm (on_heartbeat_timeout hb now s) = snd (apply_event (fsm s) HEARTBEAT_TIMEOUT)"
  "dev_out (on_heartbeat_timeout hb now s) = dev_out s"
  by (simp_all add: on_heartbeat_timeout_def sup_upd Let_def split_beta)

lemma drain_report_fields [simp]:
  "rw_pc (drain_report rep s) = rw_pc s" "rw_active (drain_report rep s) = rw_active s"
  "dev_out (drain_report rep s) = dev_out s" "rw_queue (drain_report rep s) = rw_queue s"
  by (simp_all add: drain_report_def sup_upd Let_def split_beta split: RecoveryOutcome.split)

lemma drain_report_fsm:
  "fsm (drain_report rep s) = (case outcome rep of SENT \<Rightarrow> snd (apply_event (fsm s) RECOVERY_SENT)
     | SUCCESS \<Rightarrow> fsm s | REC_FAILED \<Rightarrow> snd (apply_event (fsm s) RECOVERY_FAILED))"
  by (simp add: drain_report_def sup_upd Let_def split_beta split: RecoveryOutcome.split)

lemma fold_drain_fields [simp]:
  "rw_pc (fold drain_report rs s) = rw_pc s" "rw_active (fold drain_report rs s) = rw_active s"
  "dev_out (fold drain_report rs s) = dev_out s" "rw_queue (fold drain_report rs s) = rw_queue s"
  by (induction rs arbitrary: s) simp_all

lemma drain_reports_fields [simp]:
  "rw_pc (drain_recovery_reports s) = rw_pc s" "rw_active (drain_recovery_reports s) = rw_active s"
  "dev_out (drain_recovery_reports s) = dev_out s" "rw_queue (drain_recovery_reports s) = rw_queue s"
  by (simp_all add: drain_recovery_reports_def)

lemma worker_run_fields [simp]:
  "fsm (worker_run hb l s) = fsm s \<and> dev_out (worker_run hb l s) = dev_out s \<and> reports (worker_run hb l s) = reports s"
  by (induction hb l s rule: worker_run.induct)
    (subst worker_run.simps, auto split: list.split Request.split)+

lemma worker_steps_fields [simp]:
  "fsm (worker_send b q ts s) = fsm s" "fsm (worker_success q ts s) = fsm s" "fsm (worker_failed q ts s) = fsm s"
  "fsm (recovery_stop s) = fsm s"
  "dev_out (worker_success q ts s) = dev_out s" "dev_out (worker_failed q ts s) = dev_out s"
  "dev_out (recovery_stop s) = dev_out s"
  "dev_out (worker_send b q ts s) =
     dev_out s @ [build_command q (of_int ts) SAFETY_CMD_REQUEST_RECOVERY SAFETY_FAULT_NONE 0 0]"
  by (simp_all add: worker_send_def worker_success_def worker_failed_def recovery_stop_def sup_upd Let_def)

subsection \<open>Answers\<close>

definition frame_key :: "ParsedFrame \<Rightarrow> u8 \<times> u16" where
  "frame_key f = (frame_type (pf_header f), sequence_id (pf_header f))"

definition frame_ok :: "ParsedFrame \<Rightarrow> bool" where
  "frame_ok f \<longleftrightarrow> pf_result f = SAFETY_VALIDATE_OK"

definition fresh_heartbeat :: "(u8 \<times> u16) set \<Rightarrow> ParsedFrame \<Rightarrow> bool" where
  "fresh_heartbeat seen f \<longleftrightarrow> frame_ok f \<and> frame_type (pf_header f) = SAFETY_FRAME_HEARTBEAT \<and> frame_key f \<notin> seen"

text \<open>The frames of a batch that deserve an answer, the keys seen so far given; and the answer.\<close>

fun answered :: "(u8 \<times> u16) set \<Rightarrow> ParsedFrame list \<Rightarrow> ParsedFrame list" where
  "answered seen [] = []"
| "answered seen (f # fs) =
     (if \<not> frame_ok f then f # answered seen fs
      else (if fresh_heartbeat seen f then [f] else []) @ answered (insert (frame_key f) seen) fs)"

definition answer :: "u16 \<Rightarrow> ParsedFrame \<Rightarrow> bytes" where
  "answer n f = (if frame_ok f then build_ack n (timestamp_ms (pf_header f)) (sequence_id (pf_header f))
     else build_nack n (timestamp_ms (pf_header f)) (sequence_id (pf_header f)) SAFETY_NACK_CHECKSUM)"

fun answers_from :: "u16 \<Rightarrow> ParsedFrame list \<Rightarrow> bytes list" where
  "answers_from n [] = []"
| "answers_from n (f # fs) = answer n f # answers_from (n + 1) fs"

lemma answer_valid [simp]: "valid_frame (answer n f)"
  by (simp add: answer_def)

lemma answers_valid: "d \<in> set (answers_from n fs) \<Longrightarrow> valid_frame d"
  by (induction fs arbitrary: n) auto

lemmas frame_preds = frame_key_def frame_ok_def fresh_heartbeat_def

lemma heartbeat_not_fault [simp]: "SAFETY_FRAME_HEARTBEAT \<noteq> SAFETY_FRAME_FAULT_EVENT"
  by (simp add: proto_const)

text \<open>One frame: what is answered, remembered and counted, and when the timer is armed.\<close>

lemma process_frame_fields:
  "dev_out (process_frame hb f s) = dev_out s
     @ (if \<not> frame_ok f \<or> fresh_heartbeat (dup_seen s) f then [answer (sup_tx_seq s) f] else [])"
  "sup_tx_seq (process_frame hb f s) =
     (if \<not> frame_ok f \<or> fresh_heartbeat (dup_seen s) f then sup_tx_seq s + 1 else sup_tx_seq s)"
  "dup_seen (process_frame hb f s) = (if frame_ok f then insert (frame_key f) (dup_seen s) else dup_seen s)"
  "timer_settings (process_frame hb f s) = timer_settings s
     @ (if fresh_heartbeat (dup_seen s) f then [(unat hb div 1000, unat hb mod 1000 * 1000000)] else [])"
  by (auto simp: process_frame_def is_duplicate_def frame_preds answer_def sup_upd Let_def split_beta)

lemma process_frame_fsm:
  "fsm (process_frame hb f s) =
     (if \<not> frame_ok f \<or> frame_key f \<in> dup_seen s then fsm s
      else if frame_type (pf_header f) = SAFETY_FRAME_HEARTBEAT
      then snd (apply_event (fsm s) (if fsm s = RECOVERING then HEARTBEAT_RESTORED else HEARTBEAT_OK))
      else if frame_type (pf_header f) = SAFETY_FRAME_FAULT_EVENT
      then if 2 \<le> fault_severity f then snd (apply_event (fsm s) CRITICAL_FAULT)
           else if fsm s = HEALTHY then snd (apply_event (fsm s) HEARTBEAT_TIMEOUT) else fsm s
      else fsm s)"
  by (simp add: process_frame_def is_duplicate_def frame_preds sup_upd Let_def split_beta)

lemma process_frames_out:
  "dev_out (process_frames hb fs s) = dev_out s @ answers_from (sup_tx_seq s) (answered (dup_seen s) fs)"
  "dup_seen (process_frames hb fs s) = dup_seen s \<union> frame_key ` {f \<in> set fs. frame_ok f}"
  by (induction fs arbitrary: s) (auto simp: process_frame_fields fresh_heartbeat_def)

lemma answers_nth: "i < length fs \<Longrightarrow> answers_from n fs ! i = answer (n + of_nat i) (fs ! i)"
  by (induction fs arbitrary: n i) (auto simp: nth_Cons' of_nat_diff ac_simps)

lemma length_answers [simp]: "length (answers_from n fs) = length fs"
  by (induction fs arbitrary: n) auto

subsection \<open>Transitions\<close>

lemmas health_split = HealthState.splits HealthEvent.splits

lemma apply_event_final [simp]:
  "snd (apply_event FAILED ev) = FAILED" "snd (apply_event SAFE_MODE ev) = SAFE_MODE"
  by (simp_all add: apply_event_def)

lemma apply_event_HEALTHY:
  "snd (apply_event st ev) = HEALTHY \<Longrightarrow> st \<noteq> HEALTHY \<Longrightarrow>
     st = BOOTING \<and> ev = HEARTBEAT_OK \<or> st = RECOVERING \<and> ev = HEARTBEAT_RESTORED"
  by (cases st; cases ev) (auto simp: apply_event_def)

definition final_state :: "HealthState \<Rightarrow> bool" where
  "final_state st \<longleftrightarrow> st = FAILED \<or> st = SAFE_MODE"

lemma final_stays: "final_state st \<Longrightarrow> snd (apply_event st ev) = st"
  by (auto simp: final_state_def)

lemma process_frames_final: "final_state (fsm s) \<Longrightarrow> fsm (process_frames hb fs s) = fsm s"
proof (induction fs arbitrary: s)
  case (Cons f fs)
  then have "fsm (process_frame hb f s) = fsm s" by (auto simp: process_frame_fsm final_stays final_state_def)
  with Cons show ?case by simp
qed simp

lemma fold_drain_final: "final_state (fsm s) \<Longrightarrow> fsm (fold drain_report rs s) = fsm s"
proof (induction rs arbitrary: s)
  case (Cons r rs)
  then have "fsm (drain_report r s) = fsm s"
    by (simp add: drain_report_fsm final_stays split: RecoveryOutcome.split)
  with Cons show ?case by simp
qed simp

lemma handle_readable_frames:
  "handle_readable hb (Read_bytes bs) s = (if bs = [] then s
     else process_frames hb (fst (assembler_feed (assembler_buf s) bs))
            (s\<lparr>assembler_buf := snd (assembler_feed (assembler_buf s) bs)\<rparr>))"
  "(\<And>bs. r \<noteq> Read_bytes bs) \<Longrightarrow> handle_readable hb r s = s"
  by (auto simp: handle_readable_def split_beta Let_def split: read_ret.split)

lemma sup_step_final:
  "sup_step hb l s s' \<Longrightarrow> final_state (fsm s) \<Longrightarrow> fsm s' = fsm s"
  by (erule sup_stepE)
    (auto simp: handle_readable_def process_frames_final final_stays drain_recovery_reports_def fold_drain_final
      split_beta Let_def split: read_ret.split)

lemma process_frames_healthy:
  "fsm (process_frames hb fs s) = HEALTHY \<Longrightarrow> fsm s \<noteq> HEALTHY \<Longrightarrow>
     (fsm s = BOOTING \<or> fsm s = RECOVERING) \<and> (\<exists>f\<in>set fs. fresh_heartbeat (dup_seen s) f)"
proof (induction fs arbitrary: s)
  case (Cons f fs)
  show ?case
  proof (cases "fsm (process_frame hb f s) = HEALTHY")
    case True
    then have "fresh_heartbeat (dup_seen s) f" "fsm s = BOOTING \<or> fsm s = RECOVERING"
      using Cons.prems(2) apply_event_HEALTHY [of "fsm s"]
      by (auto simp: process_frame_fsm fresh_heartbeat_def split: if_splits)
    then show ?thesis by auto
  next
    case False
    with Cons obtain g where g: "g \<in> set fs" "fresh_heartbeat (dup_seen (process_frame hb f s)) g"
      and st: "fsm (process_frame hb f s) = BOOTING \<or> fsm (process_frame hb f s) = RECOVERING" by fastforce
    from g(2) have "fresh_heartbeat (dup_seen s) g"
      by (auto simp: process_frame_fields fresh_heartbeat_def split: if_splits)
    moreover have "fsm s = BOOTING \<or> fsm s = RECOVERING"
      using st Cons.prems(2) by (cases "fsm s") (auto simp: process_frame_fsm apply_event_def split: if_splits)
    ultimately show ?thesis using g(1) by auto
  qed
qed simp

lemma fold_drain_healthy: "fsm (fold drain_report rs s) = HEALTHY \<Longrightarrow> fsm s = HEALTHY"
proof (induction rs arbitrary: s)
  case (Cons r rs)
  then have "fsm (drain_report r s) = HEALTHY" by simp
  then show ?case using apply_event_HEALTHY [of "fsm s"]
    by (auto simp: drain_report_fsm split: RecoveryOutcome.splits)
qed simp

subsection \<open>The worker\<close>

text \<open>Only while a command is being sent, or behind that, is a recovery active.\<close>

definition worker_inv :: "supervisor \<Rightarrow> bool" where
  "worker_inv s \<longleftrightarrow> rw_pc s \<noteq> P_wait_until \<and>
     (rw_active s \<longrightarrow> (case rw_pc s of P_send _ _ \<Rightarrow> True | P_relock_drain \<Rightarrow> True | _ \<Rightarrow> False))"

lemma worker_run_inv:
  "(l = L_top \<or> l = L_woken \<longrightarrow> \<not> rw_active s) \<Longrightarrow> (l = L_check \<longrightarrow> rw_queue s = []) \<Longrightarrow> worker_inv (worker_run hb l s)"
  by (induction hb l s rule: worker_run.induct)
    (subst worker_run.simps, (auto simp: worker_inv_def split: list.split Request.split)[1])+

lemma sup_step_worker_inv: "sup_step hb l s s' \<Longrightarrow> worker_inv s \<Longrightarrow> worker_inv s'"
proof (induction rule: sup_step.induct)
  case (stop s)
  then show ?case by (simp add: worker_inv_def recovery_stop_def)
next
  case (wake s)
  then show ?case by (intro worker_run_inv) (simp_all add: worker_inv_def)
next
  case (lock_top s)
  then show ?case by (intro worker_run_inv) (simp_all add: worker_inv_def)
next
  case (lock_drain s)
  show ?case by (rule worker_run_inv) simp_all
qed (auto simp: worker_inv_def worker_send_def worker_success_def worker_failed_def sup_upd Let_def)

lemma sup_init_fields [simp]:
  "rw_pc (sup_init hb) = P_wait" "rw_active (sup_init hb) = False" "fsm (sup_init hb) = BOOTING"
  "dev_out (sup_init hb) = []" "dup_seen (sup_init hb) = {}" "rw_queue (sup_init hb) = []"
  "reports (sup_init hb) = []" "rw_stopping (sup_init hb) = False" "sup_tx_seq (sup_init hb) = 0"
  "assembler_buf (sup_init hb) = []"
  by (simp_all add: sup_init_def sup_idle_def worker_run.simps sup_upd)

lemma reachable_worker_inv: "sup_reachable hb (sup_init hb) s \<Longrightarrow> worker_inv s"
  by (induction rule: sup_reachable.induct) (simp add: worker_inv_def, erule sup_step_worker_inv)

text \<open>Steps with given labels, one after the other.\<close>

fun sup_run :: "u32 \<Rightarrow> sup_label list \<Rightarrow> supervisor \<Rightarrow> supervisor \<Rightarrow> bool" where
  "sup_run hb [] s s' \<longleftrightarrow> s' = s"
| "sup_run hb (l # ls) s s' \<longleftrightarrow> (\<exists>t. sup_step hb l s t \<and> sup_run hb ls t s')"

lemma sup_run_empty: "sup_run hb [] s s"
  by simp

lemma sup_runI: "sup_step hb l s t \<Longrightarrow> sup_run hb ls t s' \<Longrightarrow> sup_run hb (l # ls) s s'"
  by auto

lemma worker_run_after_send:
  "rw_active s \<Longrightarrow> rw_queue s = [] \<Longrightarrow>
     worker_run hb L_drain s = s\<lparr>rw_active := False, rw_pc := P_failed (rw_active_seq s) (rw_deadline_at_ms s)\<rparr>"
  by (simp add: worker_run.simps)

lemma drain_failure:
  "REC_FAILED \<in> outcome ` set rs \<Longrightarrow> fsm s = DEGRADED \<or> fsm s = RECOVERING \<Longrightarrow> fsm (fold drain_report rs s) = FAILED"
proof (induction rs arbitrary: s)
  case (Cons r rs)
  show ?case
  proof (cases "outcome r = REC_FAILED")
    case True
    then have "fsm (drain_report r s) = FAILED" using Cons.prems(2) by (auto simp: drain_report_fsm apply_event_def)
    then show ?thesis by (simp add: fold_drain_final final_state_def)
  next
    case False
    then have "fsm (drain_report r s) = DEGRADED \<or> fsm (drain_report r s) = RECOVERING"
      using Cons.prems(2) by (cases "outcome r") (auto simp: drain_report_fsm apply_event_def)
    then show ?thesis using Cons False by auto
  qed
qed simp

lemma handle_readable_out_valid:
  "(\<And>d. d \<in> set (dev_out s) \<Longrightarrow> valid_frame d) \<Longrightarrow> d \<in> set (dev_out (handle_readable hb r s)) \<Longrightarrow> valid_frame d"
  by (auto simp: handle_readable_def process_frames_out split_beta Let_def answers_valid
      split: read_ret.splits if_splits)

lemma sup_step_out_valid:
  "sup_step hb l s s' \<Longrightarrow> \<forall>d\<in>set (dev_out s). valid_frame d \<Longrightarrow> \<forall>d\<in>set (dev_out s'). valid_frame d"
  by (induction rule: sup_step.induct) (auto intro: handle_readable_out_valid)

lemma answers_map: "answers_from n fs = map (\<lambda>i. answer (n + of_nat i) (fs ! i)) [0..<length fs]"
  by (rule nth_equalityI) (auto simp: answers_nth)

lemma answer_fields:
  "safety_frame_validate (answer n f) = SAFETY_VALIDATE_OK" "sequence_id (header_of_bytes (answer n f)) = n"
  "frame_type (header_of_bytes (answer n f)) = (if frame_ok f then SAFETY_FRAME_ACK else SAFETY_FRAME_NACK)"
  "frame_ok f \<Longrightarrow> acked_sequence_id (ack_of_bytes (drop SAFETY_HEADER_SIZE (answer n f))) = sequence_id (pf_header f)"
  "\<not> frame_ok f \<Longrightarrow> nacked_sequence_id (nack_of_bytes (drop SAFETY_HEADER_SIZE (answer n f))) = sequence_id (pf_header f)"
  "\<not> frame_ok f \<Longrightarrow> reason (nack_of_bytes (drop SAFETY_HEADER_SIZE (answer n f))) = SAFETY_NACK_CHECKSUM"
  using answer_valid [of n f]
  by (auto simp: valid_frame_def answer_def build_wire SAFETY_HEADER_SIZE_def safety_frame_init_def)

lemma empty_buf_same: "assembler_buf s = [] \<Longrightarrow> s\<lparr>assembler_buf := []\<rparr> = s"
  by (cases s) simp

lemma msg_of_fields [simp]:
  "frame_type (rxf_hdr (msg_of h p)) = frame_type h" "sequence_id (rxf_hdr (msg_of h p)) = sequence_id h"
  "timestamp_ms (rxf_hdr (msg_of h p)) = timestamp_ms h"
  by (simp_all add: msg_of_def)

text \<open>A read that returns exactly one frame, nothing being left from before.\<close>

lemma read_wire_frame:
  assumes "header_ok h p" and "assembler_buf s = []"
  shows "handle_readable hb (Read_bytes (wire_frame h p)) s =
    process_frame hb \<lparr>pf_header = rxf_hdr (msg_of h p), pf_payload = p, pf_result = SAFETY_VALIDATE_OK\<rparr> s"
  using asmf.run_frame [OF assms(1), of "[]"] assms
  by (simp add: handle_readable_frames assembler_feed_def parsed_frame asm.run_Nil empty_buf_same)

lemma heartbeat_read:
  assumes "assembler_buf s = []"
  shows "handle_readable hb (Read_bytes (build_heartbeat seq ts u b)) s =
    process_frame hb \<lparr>pf_header = rxf_hdr (msg_of (safety_frame_init SAFETY_FRAME_HEARTBEAT seq 8 ts)
      (heartbeat_bytes \<lparr>uptime_ms = u, beat_seq = b\<rparr>)), pf_payload = heartbeat_bytes \<lparr>uptime_ms = u, beat_seq = b\<rparr>,
      pf_result = SAFETY_VALIDATE_OK\<rparr> s"
  unfolding build_wire by (rule read_wire_frame) (simp_all add: init_header_ok assms)

lemma process_frames_deaf:
  assumes "\<forall>f\<in>set fs. frame_ok f \<and> frame_key f \<in> dup_seen s"
  shows "timer_settings (process_frames hb fs s) = timer_settings s \<and> dev_out (process_frames hb fs s) = dev_out s
    \<and> fsm (process_frames hb fs s) = fsm s"
  using assms
proof (induction fs arbitrary: s)
  case (Cons f fs)
  then show ?case by (simp add: process_frame_fields process_frame_fsm fresh_heartbeat_def insert_absorb)
qed simp

text \<open>No recovery is under way or asked for.\<close>

definition no_recovery :: "supervisor \<Rightarrow> bool" where
  "no_recovery s \<longleftrightarrow> (\<forall>q\<in>set (rw_queue s). \<exists>t. q = RESTORED t) \<and> \<not> rw_active s
     \<and> rw_pc s \<in> {P_wait, P_relock_drain, P_relock_top, P_exit}
     \<and> reports s = []"

definition stuck_degraded :: "supervisor \<Rightarrow> bool" where
  "stuck_degraded s \<longleftrightarrow> (fsm s = DEGRADED \<or> fsm s = SAFE_MODE) \<and> no_recovery s"

lemma worker_run_no_recovery:
  "(\<forall>q\<in>set (rw_queue s). \<exists>t. q = RESTORED t) \<Longrightarrow> \<not> rw_active s \<Longrightarrow> reports s = [] \<Longrightarrow> no_recovery (worker_run hb l s)"
  by (induction hb l s rule: worker_run.induct)
    (subst worker_run.simps, (auto simp: no_recovery_def split: list.split Request.split)[1])+

lemma worker_run_stuck: "stuck_degraded s \<Longrightarrow> stuck_degraded (worker_run hb l s)"
  using worker_run_no_recovery [of s hb l] by (simp add: stuck_degraded_def) (simp add: no_recovery_def)

lemma process_frame_queue:
  "rw_queue (process_frame hb f s) = rw_queue s @
     (if fresh_heartbeat (dup_seen s) f \<and> fsm s = RECOVERING then [RESTORED (uint (timestamp_ms (pf_header f)))] else [])"
  by (auto simp: process_frame_def is_duplicate_def frame_preds sup_upd Let_def split_beta)

lemma process_frames_stuck: "stuck_degraded s \<Longrightarrow> stuck_degraded (process_frames hb fs s)"
proof (induction fs arbitrary: s)
  case (Cons f fs)
  have "stuck_degraded (process_frame hb f s)"
    using Cons.prems by (auto simp: stuck_degraded_def no_recovery_def process_frame_queue process_frame_fsm apply_event_def)
  with Cons.IH show ?case by simp
qed simp

lemma on_timeout_queue:
  "fsm s \<noteq> HEALTHY \<Longrightarrow> rw_queue (on_heartbeat_timeout hb now s) = rw_queue s"
  "reports (on_heartbeat_timeout hb now s) = reports s"
  by (simp_all add: on_heartbeat_timeout_def sup_upd Let_def split_beta)

lemma sup_step_stuck: "sup_step hb l s s' \<Longrightarrow> stuck_degraded s \<Longrightarrow> stuck_degraded s'"
proof (induction rule: sup_step.induct)
  case (read r s)
  have "stuck_degraded (s\<lparr>assembler_buf := b\<rparr>)" for b using read by (simp add: stuck_degraded_def no_recovery_def)
  with read show ?case by (simp add: handle_readable_def process_frames_stuck split_beta Let_def split: read_ret.split)
next
  case (timeout now s)
  then show ?case by (auto simp: stuck_degraded_def no_recovery_def on_timeout_queue apply_event_def)
next
  case (reports s)
  then show ?case by (simp add: stuck_degraded_def no_recovery_def drain_recovery_reports_def)
qed (erule worker_run_stuck | (auto simp: stuck_degraded_def no_recovery_def recovery_stop_def)[1])+

section \<open>Properties\<close>

text \<open>C17 (answers of the supervisor).  Of the frames of a read, exactly those that do not validate and the
  heartbeats with a sequence number not seen before are answered, in order, the former by a NACK and the
  latter by an ACK, each naming the sequence number of its frame; the answers carry consecutive sequence
  numbers and all validate.  The keys of the frames that validate are remembered.\<close>

theorem frames_answered:
  "let s' = process_frames hb fs s; as = answered (dup_seen s) fs
   in dev_out s' = dev_out s @ map (\<lambda>i. answer (sup_tx_seq s + of_nat i) (as ! i)) [0..<length as]
      \<and> dup_seen s' = dup_seen s \<union> frame_key ` {f \<in> set fs. frame_ok f}
      \<and> (\<forall>n f. let h = header_of_bytes (answer n f); p = drop SAFETY_HEADER_SIZE (answer n f) in
           safety_frame_validate (answer n f) = SAFETY_VALIDATE_OK \<and> sequence_id h = n \<and>
           (if frame_ok f
            then frame_type h = SAFETY_FRAME_ACK \<and> acked_sequence_id (ack_of_bytes p) = sequence_id (pf_header f)
            else frame_type h = SAFETY_FRAME_NACK \<and> reason (nack_of_bytes p) = SAFETY_NACK_CHECKSUM
              \<and> nacked_sequence_id (nack_of_bytes p) = sequence_id (pf_header f)))"
  using process_frames_out [of hb fs s] answers_map answer_fields by (simp add: Let_def)

text \<open>C16 (HEALTHY takes a heartbeat).  The only step by which the supervisor's state becomes HEALTHY is a
  read, in the state BOOTING or RECOVERING, that completes a valid HEARTBEAT frame whose sequence number
  was not seen before; no timer, recovery report or step of the worker does it.\<close>

theorem healthy_only_by_heartbeat:
  assumes "sup_step hb l s s'" and "fsm s \<noteq> HEALTHY" and "fsm s' = HEALTHY"
  shows "(fsm s = BOOTING \<or> fsm s = RECOVERING) \<and>
    (\<exists>bs. l = L_read (Read_bytes bs) \<and>
       (\<exists>f\<in>set (fst (assembler_feed (assembler_buf s) bs)). fresh_heartbeat (dup_seen s) f))"
  using assms
proof cases
  case (read r)
  then obtain bs where r: "r = Read_bytes bs" using assms(2,3) by (cases r) (auto simp: handle_readable_frames)
  with read assms(2,3) have "bs \<noteq> []" by (auto simp: handle_readable_frames)
  with r read assms(2,3) process_frames_healthy show ?thesis by (fastforce simp: handle_readable_frames)
next
  case reports
  then show ?thesis using assms(2,3) fold_drain_healthy by (fastforce simp: drain_recovery_reports_def)
qed (use assms(2,3) apply_event_HEALTHY in \<open>auto\<close>)

theorem healthy_only_by_heartbeat_witness:
  "let s = sup_init 350; bs = build_heartbeat 7 100 100 1; s' = handle_readable 350 (Read_bytes bs) s
   in fsm s = BOOTING \<and> fsm s' = HEALTHY \<and>
      (\<exists>f\<in>set (fst (assembler_feed (assembler_buf s) bs)). fresh_heartbeat (dup_seen s) f)"
proof -
  let ?bs = "build_heartbeat 7 100 100 1"
  have "fsm (handle_readable 350 (Read_bytes ?bs) (sup_init 350)) = HEALTHY"
    by (simp add: heartbeat_read process_frame_fsm frame_preds proto_const apply_event_def)
  with healthy_only_by_heartbeat [OF sup_step.read [of 350 "Read_bytes ?bs" "sup_init 350"]] show ?thesis
    by (simp add: Let_def)
qed

text \<open>Terminal states.  FAILED and SAFE_MODE are never left, whatever the two threads do.\<close>

theorem terminal_states:
  assumes "sup_reachable hb s s'" and "fsm s = FAILED \<or> fsm s = SAFE_MODE"
  shows "fsm s' = fsm s"
  using assms by (induction rule: sup_reachable.induct) (auto simp: final_state_def dest: sup_step_final)

theorem terminal_states_witness:
  "let s = (sup_init 350)\<lparr>fsm := FAILED\<rparr> in fsm (handle_readable 350 (Read_bytes (build_heartbeat 7 100 100 1)) s) = FAILED"
  using terminal_states [OF sup_reachable.step [OF sup_reachable.start
      sup_step.read [of 350 "Read_bytes (build_heartbeat 7 100 100 1)" "(sup_init 350)\<lparr>fsm := FAILED\<rparr>"]]]
  by (simp add: Let_def)

text \<open>C21 (the supervisor writes frames only).  Everything the supervisor has written to the device, the
  answers of the event loop and the commands of the recovery worker, is a frame that validates.\<close>

theorem supervisor_output_valid:
  assumes "sup_reachable hb (sup_init hb) s" and "d \<in> set (dev_out s)"
  shows "safety_frame_validate d = SAFETY_VALIDATE_OK"
proof -
  from assms(1) have "\<forall>d\<in>set (dev_out s). valid_frame d"
    by (induction rule: sup_reachable.induct) (simp, erule (1) sup_step_out_valid)
  with assms(2) show ?thesis by (auto simp: valid_frame_def)
qed

theorem supervisor_output_valid_witness:
  "dev_out (handle_readable 350 (Read_bytes (build_heartbeat 7 100 100 1)) (sup_init 350)) = [build_ack 0 100 7]
   \<and> safety_frame_validate (build_ack 0 100 7) = SAFETY_VALIDATE_OK"
proof -
  let ?s = "handle_readable 350 (Read_bytes (build_heartbeat 7 100 100 1)) (sup_init 350)"
  have "dev_out ?s = [build_ack 0 100 7]"
    by (simp add: heartbeat_read process_frame_fields frame_preds answer_def proto_const)
  with supervisor_output_valid [OF sup_reachable.step [OF sup_reachable.start sup_step.read], of "build_ack 0 100 7"
      350 "Read_bytes (build_heartbeat 7 100 100 1)"] show ?thesis by simp
qed

text \<open>C18 (the recovery deadline is not waited for).  In no state that can be reached does the worker wait
  for a heartbeat until the deadline.  When a worker with a recovery under way, its command just sent, goes on at all,
  the requests that are queued at that moment decide: with none it is about to report the failure of this
  recovery, with a restored heartbeat its success, with a further request it is about to send again.  The
  failure that it is about to report is its next report, and an event loop that drains a report of failure
  in DEGRADED or RECOVERING ends in FAILED, which no heartbeat leaves.\<close>

theorem recovery_gives_up_at_once:
  assumes "sup_reachable hb (sup_init hb) s"
  shows "rw_pc s \<noteq> P_wait_until
    \<and> (\<forall>l s'. rw_pc s = P_relock_drain \<and> rw_active s \<and> sup_step hb l s s' \<and> rw_pc s' \<noteq> P_relock_drain \<longrightarrow>
         rw_pc s' = (case rw_queue s of
             [] \<Rightarrow> P_failed (rw_active_seq s) (rw_deadline_at_ms s)
           | RESTORED ts # _ \<Rightarrow> P_success (rw_active_seq s) ts
           | RECOVER seq ts # _ \<Rightarrow> P_send seq ts))
    \<and> (\<forall>l s' seq ts. rw_pc s = P_failed seq ts \<and> sup_step hb l s s' \<and> rw_pc s' \<noteq> P_failed seq ts \<longrightarrow>
         reports s' = reports s @ [\<lparr>outcome = REC_FAILED, rr_seq = seq, rr_ts_ms = ts\<rparr>])
    \<and> (REC_FAILED \<in> outcome ` set (reports s) \<and> (fsm s = DEGRADED \<or> fsm s = RECOVERING) \<longrightarrow>
         fsm (drain_recovery_reports s) = FAILED)"
proof (intro conjI allI impI)
  show "rw_pc s \<noteq> P_wait_until" using reachable_worker_inv [OF assms] by (simp add: worker_inv_def)
next
  fix l s'
  assume "rw_pc s = P_relock_drain \<and> rw_active s \<and> sup_step hb l s s' \<and> rw_pc s' \<noteq> P_relock_drain"
  then show "rw_pc s' = (case rw_queue s of
             [] \<Rightarrow> P_failed (rw_active_seq s) (rw_deadline_at_ms s)
           | RESTORED ts # _ \<Rightarrow> P_success (rw_active_seq s) ts
           | RECOVER seq ts # _ \<Rightarrow> P_send seq ts)"
    by (auto elim!: sup_stepE simp: worker_run.simps recovery_stop_def split: list.split Request.split)
next
  fix l s' seq ts
  assume "rw_pc s = P_failed seq ts \<and> sup_step hb l s s' \<and> rw_pc s' \<noteq> P_failed seq ts"
  then show "reports s' = reports s @ [\<lparr>outcome = REC_FAILED, rr_seq = seq, rr_ts_ms = ts\<rparr>]"
    by (auto elim!: sup_stepE simp: worker_failed_def recovery_stop_def sup_upd)
next
  assume "REC_FAILED \<in> outcome ` set (reports s) \<and> (fsm s = DEGRADED \<or> fsm s = RECOVERING)"
  then show "fsm (drain_recovery_reports s) = FAILED"
    using drain_failure [of "reports s" "s\<lparr>reports := []\<rparr>"] by (simp add: drain_recovery_reports_def)
qed

theorem recovery_gives_up_at_once_witness:
  "\<exists>s s'. sup_run 350 [L_read (Read_bytes (build_heartbeat 7 100 100 1)), L_timeout 450, W_wake, W_send True] (sup_init 350) s
     \<and> sup_run 350 [W_lock, W_report] s s' \<and> rw_pc s = P_relock_drain \<and> outcome ` set (reports s') = {SENT, REC_FAILED}
     \<and> fsm (drain_recovery_reports s') = FAILED"
proof -
  let ?bs = "build_heartbeat 7 100 100 1"
  let ?a = "handle_readable 350 (Read_bytes ?bs) (sup_init 350)"
  let ?b = "on_heartbeat_timeout 350 450 ?a"
  let ?c = "worker_run 350 L_woken ?b"
  let ?d = "worker_send True 1 450 ?c"
  let ?e = "worker_run 350 L_drain ?d"
  let ?f = "worker_failed 1 800 ?e"
  have a: "fsm ?a = HEALTHY" "rw_queue ?a = []" "rw_stopping ?a = False" "sup_tx_seq ?a = 1" "reports ?a = []" "rw_pc ?a = P_wait"
    by (simp_all add: heartbeat_read process_frame_fsm process_frame_fields frame_preds proto_const apply_event_def
        process_frame_def is_duplicate_def sup_upd Let_def split_beta)
  have b: "rw_queue ?b = [RECOVER 1 450]" "rw_stopping ?b = False" "reports ?b = []" "fsm ?b = DEGRADED" "rw_pc ?b = P_wait"
    using a by (simp_all add: on_heartbeat_timeout_def sup_upd Let_def split_beta apply_event_def)
  have c: "rw_queue ?c = []" "rw_pc ?c = P_send 1 450" "reports ?c = []" "fsm ?c = DEGRADED" "rw_active ?c"
    "rw_active_seq ?c = 1" "rw_deadline_at_ms ?c = 800"
    using b by (simp_all add: worker_run.simps)
  have d: "rw_queue ?d = []" "rw_pc ?d = P_relock_drain" "rw_active ?d" "rw_active_seq ?d = 1" "rw_deadline_at_ms ?d = 800"
    "fsm ?d = DEGRADED" "outcome ` set (reports ?d) = {SENT}"
    using c by (simp_all add: worker_send_def sup_upd Let_def)
  have steps: "sup_step 350 (L_read (Read_bytes ?bs)) (sup_init 350) ?a" "sup_step 350 (L_timeout 450) ?a ?b"
    "sup_step 350 W_wake ?b ?c" "sup_step 350 (W_send True) ?c ?d" "sup_step 350 W_lock ?d ?e"
    using b c d by (auto intro: sup_step.intros)
  then have r: "sup_reachable 350 (sup_init 350) ?d" "sup_reachable 350 (sup_init 350) ?e" by (meson sup_reachable.intros)+
  have e: "rw_pc ?e = P_failed 1 800" "reports ?e = reports ?d" "fsm ?e = DEGRADED"
    using recovery_gives_up_at_once [OF r(1)] d steps(5) worker_run_after_send [of ?d 350] by simp_all
  have f: "sup_step 350 W_report ?e ?f" using e by (auto intro: sup_step.intros)
  then have "sup_reachable 350 (sup_init 350) ?f" using r(2) by (meson sup_reachable.intros)
  moreover have "outcome ` set (reports ?f) = {SENT, REC_FAILED}" "fsm ?f = DEGRADED"
    using e d by (auto simp: worker_failed_def sup_upd)
  ultimately have "fsm (drain_recovery_reports ?f) = FAILED" using recovery_gives_up_at_once [of 350 ?f] by auto
  moreover have "sup_run 350 [L_read (Read_bytes ?bs), L_timeout 450, W_wake, W_send True] (sup_init 350) ?d"
    by (rule sup_runI [OF steps(1) sup_runI [OF steps(2) sup_runI [OF steps(3) sup_runI [OF steps(4) sup_run_empty]]]])
  moreover have "sup_run 350 [W_lock, W_report] ?d ?f" by (rule sup_runI [OF steps(5) sup_runI [OF f sup_run_empty]])
  ultimately show ?thesis using d(2) \<open>outcome ` set (reports ?f) = {SENT, REC_FAILED}\<close> by blast
qed

text \<open>C20 (a wrapped sequence number is a duplicate).  Once a heartbeat has been seen with each of the 65536
  sequence numbers, every further valid heartbeat is taken for a duplicate: it is not answered, does not
  arm the timer and does not move the state machine, so the next expiry of the timer degrades a healthy
  link.\<close>

theorem heartbeats_ignored_after_wrap:
  assumes "\<forall>f\<in>set (fs @ gs). frame_ok f \<and> frame_type (pf_header f) = SAFETY_FRAME_HEARTBEAT"
    and "(\<lambda>f. sequence_id (pf_header f)) ` set fs = UNIV"
  shows "let s1 = process_frames hb fs s; s2 = process_frames hb gs s1
    in timer_settings s2 = timer_settings s1 \<and> dev_out s2 = dev_out s1 \<and> fsm s2 = fsm s1
       \<and> (fsm s1 = HEALTHY \<longrightarrow> fsm (on_heartbeat_timeout hb now s2) = DEGRADED)"
proof -
  have "frame_key g \<in> dup_seen (process_frames hb fs s)" if "g \<in> set gs" for g
  proof -
    obtain f where "f \<in> set fs" "sequence_id (pf_header f) = sequence_id (pf_header g)" using assms(2) by (metis UNIV_I imageE)
    with assms(1) that have "frame_key f = frame_key g" "frame_ok f" by (auto simp: frame_key_def)
    with \<open>f \<in> set fs\<close> show ?thesis unfolding process_frames_out by (metis (mono_tags) UnI2 image_eqI mem_Collect_eq)
  qed
  then show ?thesis using process_frames_deaf [of gs "process_frames hb fs s" hb] assms(1)
    by (simp add: Let_def apply_event_def)
qed

theorem heartbeats_ignored_after_wrap_witness:
  "let hb = \<lambda>q. \<lparr>pf_header = safety_frame_init SAFETY_FRAME_HEARTBEAT q 8 0, pf_payload = [], pf_result = SAFETY_VALIDATE_OK\<rparr>;
       s = process_frames 350 (map (\<lambda>n. hb (of_nat n)) [0..<65536]) (sup_init 350)
   in timer_settings (process_frames 350 [hb 0] s) = timer_settings s"
proof -
  let ?hb = "\<lambda>q. \<lparr>pf_header = safety_frame_init SAFETY_FRAME_HEARTBEAT q 8 0, pf_payload = [], pf_result = SAFETY_VALIDATE_OK\<rparr>"
  have "q \<in> of_nat ` {0..<65536}" for q :: u16
    using unsigned_less [where w = q and 'a = nat] by (intro image_eqI [of _ _ "unat q"]) auto
  then have "(\<lambda>f. sequence_id (pf_header f)) ` set (map (\<lambda>n. ?hb (of_nat n)) [0..<65536]) = UNIV"
    by (auto simp: image_image safety_frame_init_def)
  from heartbeats_ignored_after_wrap [OF _ this, of "[?hb 0]"] show ?thesis
    by (simp add: frame_ok_def safety_frame_init_def Let_def)
qed

text \<open>C19 (a non-critical fault degrades for good).  When a new FAULT_EVENT frame below critical severity
  reaches a healthy supervisor with no recovery under way, the state becomes DEGRADED and no recovery
  is asked for: whatever the two threads do afterwards, heartbeats and timer expiries included, the
  state stays DEGRADED or becomes SAFE_MODE, and no command is sent.\<close>

theorem fault_degrades_for_good:
  assumes "fsm s = HEALTHY" and "no_recovery s"
    and "frame_ok f" and "frame_key f \<notin> dup_seen s" and "frame_type (pf_header f) = SAFETY_FRAME_FAULT_EVENT"
    and "fault_severity f < 2" and "sup_reachable hb (process_frame hb f s) s'"
  shows "fsm (process_frame hb f s) = DEGRADED \<and> (fsm s' = DEGRADED \<or> fsm s' = SAFE_MODE)
    \<and> (\<forall>seq ts. rw_pc s' \<noteq> P_send seq ts)"
proof -
  have "SAFETY_FRAME_FAULT_EVENT \<noteq> SAFETY_FRAME_HEARTBEAT" by (simp add: proto_const)
  then have 1: "fsm (process_frame hb f s) = DEGRADED"
    using assms(1-6) by (simp add: process_frame_fsm apply_event_def not_le)
  moreover have "stuck_degraded (process_frame hb f s)"
    using 1 assms(1,2) by (simp add: stuck_degraded_def no_recovery_def process_frame_queue)
  with assms(7) have "stuck_degraded s'" by (induction rule: sup_reachable.induct) (auto dest: sup_step_stuck)
  ultimately show ?thesis by (auto simp: stuck_degraded_def no_recovery_def)
qed

theorem fault_degrades_for_good_witness:
  "let f = \<lparr>pf_header = safety_frame_init SAFETY_FRAME_FAULT_EVENT 4 8 50, pf_payload = [1, 1, 0, 0, 0, 0, 0, 0],
             pf_result = SAFETY_VALIDATE_OK\<rparr>;
       s = process_frame 350 f ((sup_init 350)\<lparr>fsm := HEALTHY\<rparr>)
   in fsm (on_heartbeat_timeout 350 9 s) = DEGRADED \<or> fsm (on_heartbeat_timeout 350 9 s) = SAFE_MODE"
proof -
  let ?f = "\<lparr>pf_header = safety_frame_init SAFETY_FRAME_FAULT_EVENT 4 8 50, pf_payload = [1, 1, 0, 0, 0, 0, 0, 0],
             pf_result = SAFETY_VALIDATE_OK\<rparr>"
  let ?s = "(sup_init 350)\<lparr>fsm := HEALTHY\<rparr>"
  have "fault_severity ?f < 2" by (simp add: fault_severity_def fault_event_of_bytes_def)
  moreover have "frame_ok ?f" "frame_key ?f \<notin> dup_seen ?s" "no_recovery ?s"
    "frame_type (pf_header ?f) = SAFETY_FRAME_FAULT_EVENT"
    by (simp_all add: frame_ok_def no_recovery_def safety_frame_init_def)
  moreover have "sup_reachable 350 (process_frame 350 ?f ?s) (on_heartbeat_timeout 350 9 (process_frame 350 ?f ?s))"
    by (rule sup_reachable.step [OF sup_reachable.start sup_step.timeout])
  ultimately show ?thesis using fault_degrades_for_good [of ?s ?f 350] by (simp add: Let_def del: on_timeout_fields)
qed

end
