(* ===== verification/Supervisor_Stop.thy ===== *)
theory Supervisor_Stop
  imports Supervisor
begin

text \<open>
  The end of the live mode: \<open>RecoveryWorker::stop\<close>, then \<open>LoggerWorker::stop\<close>, called by the main thread
  while the two worker threads run.  Each \<open>stop\<close> sets its flag under the lock, notifies the condition
  variable and joins the thread; a thread that waits on its condition variable goes on only
  when it is notified or the library wakes it for no reason, and then only if what it waits for
  holds.  The steps of the three threads interleave in any order.
\<close>

section \<open>Definitions\<close>

subsection \<open>State\<close>

text \<open>Where the main thread is: about to set a flag, to notify, to join, first of the recovery worker and then
  of the logger; returned.\<close>

datatype main_pc = M_rec_stop | M_rec_notify | M_rec_join | M_log_stop | M_log_notify | M_log_join | M_done

text \<open>\<open>rec_asleep\<close> and \<open>log_asleep\<close>: since the thread began its current wait, its condition variable has not been
  notified (\<open>rec_asleep\<close> has a meaning only at \<open>P_wait\<close>).  \<open>rec_started\<close>: there is a recovery thread to join.\<close>

record shutdown =
  mpc :: main_pc
  rc :: int
  sv :: supervisor
  rec_started :: bool
  rec_asleep :: bool
  lgw :: LoggerWorker
  log_asleep :: bool

subsection \<open>Steps\<close>

text \<open>The two \<open>stop\<close> functions from the flag to the join; a second call returns at once.\<close>

definition main_turn :: "shutdown \<Rightarrow> shutdown option" where
  "main_turn t = (case mpc t of
       M_rec_stop \<Rightarrow> if rw_stopping (sv t) then Some (t\<lparr>mpc := M_log_stop\<rparr>)
                     else Some (t\<lparr>sv := recovery_stop (sv t), mpc := M_rec_notify\<rparr>)
     | M_rec_notify \<Rightarrow> Some (t\<lparr>rec_asleep := False, mpc := M_rec_join\<rparr>)
     | M_rec_join \<Rightarrow> if rec_started t \<and> rw_pc (sv t) \<noteq> P_exit then None else Some (t\<lparr>mpc := M_log_stop\<rparr>)
     | M_log_stop \<Rightarrow> if lw_stopping (lgw t) then Some (t\<lparr>mpc := M_done\<rparr>)
                     else Some (t\<lparr>lgw := logger_stop (lgw t), mpc := M_log_notify\<rparr>)
     | M_log_notify \<Rightarrow> Some (t\<lparr>log_asleep := False, mpc := M_log_join\<rparr>)
     | M_log_join \<Rightarrow> if lw_done (lgw t) then Some (t\<lparr>mpc := M_done\<rparr>) else None
     | M_done \<Rightarrow> None)"

text \<open>A turn of the logger thread that is not asleep: \<open>logger_run\<close>, or it goes to sleep.  The main thread
  pushes no events any more.\<close>

definition logger_turn :: "shutdown \<Rightarrow> shutdown option" where
  "logger_turn t =
     (if lw_done (lgw t) \<or> log_asleep t then None
      else case logger_run [] (lgw t) of None \<Rightarrow> Some (t\<lparr>log_asleep := True\<rparr>)
         | Some l \<Rightarrow> Some (t\<lparr>lgw := l\<rparr>))"

datatype shut_label = Sh_main | Sh_worker | Sh_logger | Sh_spurious

definition worker_label :: "sup_label \<Rightarrow> bool" where
  "worker_label l = (case l of W_wake \<Rightarrow> True | W_send _ \<Rightarrow> True | W_report \<Rightarrow> True | W_lock \<Rightarrow> True | _ \<Rightarrow> False)"

inductive shut_step :: "u32 \<Rightarrow> shut_label \<Rightarrow> shutdown \<Rightarrow> shutdown \<Rightarrow> bool" for hb where
  main: "main_turn t = Some t' \<Longrightarrow> shut_step hb Sh_main t t'"
| worker: "rec_started t \<Longrightarrow> rw_pc (sv t) \<noteq> P_wait \<or> \<not> rec_asleep t \<Longrightarrow> worker_label l \<Longrightarrow> sup_step hb l (sv t) s \<Longrightarrow>
     shut_step hb Sh_worker t (t\<lparr>sv := s, rec_asleep := True\<rparr>)"
| worker_sleeps: "rec_started t \<Longrightarrow> rw_pc (sv t) = P_wait \<Longrightarrow> \<not> rec_asleep t \<Longrightarrow>
     \<not> rw_stopping (sv t) \<Longrightarrow> rw_queue (sv t) = [] \<Longrightarrow> shut_step hb Sh_worker t (t\<lparr>rec_asleep := True\<rparr>)"
| logger: "logger_turn t = Some t' \<Longrightarrow> shut_step hb Sh_logger t t'"
| worker_spurious: "rec_started t \<Longrightarrow> rw_pc (sv t) = P_wait \<Longrightarrow> rec_asleep t \<Longrightarrow> sup_step hb W_wake (sv t) s \<Longrightarrow>
     shut_step hb Sh_spurious t (t\<lparr>sv := s\<rparr>)"
| logger_spurious: "log_asleep t \<Longrightarrow> logger_run [] (lgw t) = Some l \<Longrightarrow>
     shut_step hb Sh_spurious t (t\<lparr>lgw := l, log_asleep := False\<rparr>)"

inductive_cases shut_stepE: "shut_step hb l t t'"

fun shut_run :: "u32 \<Rightarrow> shut_label list \<Rightarrow> shutdown \<Rightarrow> shutdown \<Rightarrow> bool" where
  "shut_run hb [] t t' \<longleftrightarrow> t' = t"
| "shut_run hb (l # ls) t t' \<longleftrightarrow> (\<exists>u. shut_step hb l t u \<and> shut_run hb ls u t')"

text \<open>The main thread begins to stop the two: of the events it has pushed, the logger has taken the first
  \<open>n\<close>, and each thread may be asleep or not.\<close>

definition shutdown_from :: "main_pc \<Rightarrow> int \<Rightarrow> bool \<Rightarrow> nat \<Rightarrow> bool \<Rightarrow> bool \<Rightarrow> supervisor \<Rightarrow> shutdown" where
  "shutdown_from pc r started n ra la s = \<lparr>mpc = pc, rc = r, sv = s, rec_started = started, rec_asleep = ra,
     lgw = \<lparr>lw_queue = drop n (logged s), lw_stopping = False, lw_file = map serialize_event (take n (logged s)),
            lw_done = False\<rparr>,
     log_asleep = la\<rparr>"

subsection \<open>Measure\<close>

text \<open>Bounds on the steps that are left for each thread.\<close>

definition main_rank :: "main_pc \<Rightarrow> nat" where
  "main_rank pc = (case pc of M_rec_stop \<Rightarrow> 6 | M_rec_notify \<Rightarrow> 5 | M_rec_join \<Rightarrow> 4 | M_log_stop \<Rightarrow> 3
     | M_log_notify \<Rightarrow> 2 | M_log_join \<Rightarrow> 1 | M_done \<Rightarrow> 0)"

definition pc_rank :: "bool \<Rightarrow> worker_pc \<Rightarrow> nat" where
  "pc_rank asleep pc = (case pc of P_exit \<Rightarrow> 0 | P_wait \<Rightarrow> if asleep then 1 else 2 | P_wait_until \<Rightarrow> 0
     | P_relock_top \<Rightarrow> 3 | P_failed _ _ \<Rightarrow> 4 | P_relock_drain \<Rightarrow> 5 | P_success _ _ \<Rightarrow> 6 | P_send _ _ \<Rightarrow> 6)"

definition worker_rank :: "bool \<Rightarrow> supervisor \<Rightarrow> nat" where
  "worker_rank asleep s = 6 * length (rw_queue s) + pc_rank asleep (rw_pc s)"

definition logger_rank :: "bool \<Rightarrow> LoggerWorker \<Rightarrow> nat" where
  "logger_rank asleep l = (if lw_done l then 0 else (if asleep then 1 else 2) + (if lw_queue l = [] then 0 else 2))"

definition steps_left :: "shutdown \<Rightarrow> nat" where
  "steps_left t = 2 * main_rank (mpc t) + (if rec_started t then worker_rank (rec_asleep t) (sv t) else 0)
     + logger_rank (log_asleep t) (lgw t)"

text \<open>What holds while the threads are being stopped.\<close>

definition shut_inv :: "shutdown \<Rightarrow> bool" where
  "shut_inv t \<longleftrightarrow>
     (rec_started t \<longrightarrow> worker_inv (sv t) \<and> (mpc t = M_rec_stop \<longleftrightarrow> \<not> rw_stopping (sv t))
        \<and> (mpc t = M_rec_join \<longrightarrow> rw_pc (sv t) \<noteq> P_wait \<or> \<not> rec_asleep t)
        \<and> (main_rank (mpc t) \<le> 3 \<longrightarrow> rw_pc (sv t) = P_exit))
     \<and> (lw_stopping (lgw t) \<longleftrightarrow> main_rank (mpc t) \<le> 2) \<and> (mpc t = M_log_join \<longrightarrow> \<not> log_asleep t)
     \<and> (mpc t = M_done \<longrightarrow> lw_done (lgw t)) \<and> (lw_done (lgw t) \<longrightarrow> lw_queue (lgw t) = [] \<and> lw_stopping (lgw t))
     \<and> lw_file (lgw t) @ map serialize_event (lw_queue (lgw t)) = map serialize_event (logged (sv t))"

section \<open>Lemmas\<close>

lemma main_rank_simps [simp]:
  "main_rank M_rec_stop = 6" "main_rank M_rec_notify = 5" "main_rank M_rec_join = 4" "main_rank M_log_stop = 3"
  "main_rank M_log_notify = 2" "main_rank M_log_join = 1" "main_rank M_done = 0"
  by (simp_all add: main_rank_def)

lemma worker_run_stop_flag [simp]: "rw_stopping (worker_run hb l s) = rw_stopping s"
  by (induction hb l s rule: worker_run.induct) (subst worker_run.simps, simp split: list.split Request.split)+

lemma worker_run_logged [simp]: "logged (worker_run hb l s) = logged s"
  by (induction hb l s rule: worker_run.induct) (subst worker_run.simps, simp split: list.split Request.split)+

lemma worker_acts_fields [simp]:
  "rw_stopping (worker_send b q ts s) = rw_stopping s" "rw_stopping (worker_success q ts s) = rw_stopping s"
  "rw_stopping (worker_failed q ts s) = rw_stopping s"
  "logged (worker_send b q ts s) = logged s" "logged (worker_success q ts s) = logged s"
  "logged (worker_failed q ts s) = logged s"
  "rw_pc (worker_send b q ts s) = P_relock_drain" "rw_pc (worker_success q ts s) = P_relock_drain"
  "rw_pc (worker_failed q ts s) = P_relock_top"
  "rw_queue (worker_send b q ts s) = rw_queue s" "rw_queue (worker_success q ts s) = rw_queue s"
  "rw_queue (worker_failed q ts s) = rw_queue s"
  by (simp_all add: worker_send_def worker_success_def worker_failed_def sup_upd Let_def)

lemma worker_step_keeps:
  assumes "sup_step hb l s s'" and "worker_label l"
  shows "rw_stopping s' = rw_stopping s" "logged s' = logged s"
  using assms by (auto elim!: sup_stepE simp: worker_label_def)

lemma worker_run_stopping: "rw_stopping s \<Longrightarrow> rw_pc (worker_run hb l s) \<noteq> P_wait"
proof (induction hb l s rule: worker_run.induct)
  case (1 d s)
  then show ?case by (simp add: worker_run.simps(1) [of d s])
next
  case (2 d s)
  then show ?case by (simp add: worker_run.simps(2) [of d s])
next
  case (3 d s)
  then show ?case by (simp add: worker_run.simps(3) [of d s] split: list.split Request.split)
next
  case (4 d s)
  then show ?case by (simp add: worker_run.simps(4) [of d s])
qed

lemma worker_step_stopping:
  assumes "sup_step hb l s s'" and "worker_label l" and "rw_stopping s"
  shows "rw_pc s' \<noteq> P_wait"
  using assms worker_run_stopping [OF assms(3)] by (auto elim!: sup_stepE simp: worker_label_def)

lemma worker_step_exit: "sup_step hb l s s' \<Longrightarrow> worker_label l \<Longrightarrow> rw_pc s \<noteq> P_exit"
  by (auto elim!: sup_stepE simp: worker_label_def)

lemma worker_run_rank:
  "worker_rank True (worker_run hb l s) \<le> 6 * length (rw_queue s)
     + (if rw_queue s = [] then case l of L_top \<Rightarrow> 1 | L_woken \<Rightarrow> if rw_stopping s then 0 else 4 | _ \<Rightarrow> 4 else 0)"
proof (induction hb l s rule: worker_run.induct)
  case (1 d s)
  show ?case
  proof (cases "rw_stopping s \<or> rw_queue s = []")
    case True
    then show ?thesis by (auto simp: worker_run.simps(1) [of d s] worker_rank_def pc_rank_def)
  qed (use 1 in \<open>simp add: worker_run.simps(1) [of d s]\<close>)
next
  case (2 d s)
  show ?case
  proof (cases "rw_stopping s")
    case True
    then show ?thesis by (simp add: worker_run.simps(2) [of d s] worker_rank_def pc_rank_def)
  qed (use 2 in \<open>auto simp: worker_run.simps(2) [of d s]\<close>)
next
  case (3 d s)
  show ?case
  proof (cases "rw_queue s")
    case Nil
    then show ?thesis using 3(1) by (simp add: worker_run.simps(3) [of d s])
  next
    case (Cons x q)
    show ?thesis
    proof (cases x)
      case (RESTORED ts)
      then show ?thesis using 3(2) [OF Cons RESTORED] Cons
        by (auto simp: worker_run.simps(3) [of d s] worker_rank_def pc_rank_def split: if_splits)
    qed (use Cons in \<open>simp add: worker_run.simps(3) [of d s] worker_rank_def pc_rank_def\<close>)
  qed
next
  case (4 d s)
  show ?case
  proof (cases "rw_active s \<and> rw_queue s = []")
    case True
    then show ?thesis by (simp add: worker_run.simps(4) [of d s] worker_rank_def pc_rank_def)
  qed (use 4 in \<open>auto simp: worker_run.simps(4) [of d s] split: if_splits\<close>)
qed

lemma worker_step_rank:
  assumes "sup_step hb l s s'" and "worker_label l" and "worker_inv s"
  shows "worker_rank True s' < worker_rank True s"
  using assms
proof (induction rule: sup_step.induct)
  case (wake s)
  then show ?case using worker_run_rank [of hb L_woken s] by (auto simp: worker_rank_def pc_rank_def split: if_splits)
next
  case (lock_drain s)
  then show ?case using worker_run_rank [of hb L_drain s] by (auto simp: worker_rank_def pc_rank_def split: if_splits)
next
  case (lock_top s)
  then show ?case using worker_run_rank [of hb L_top s] by (auto simp: worker_rank_def pc_rank_def split: if_splits)
qed (simp_all add: worker_label_def worker_inv_def worker_rank_def pc_rank_def)

lemma worker_rank_stop [simp]: "worker_rank a (recovery_stop s) = worker_rank a s"
  by (simp add: worker_rank_def recovery_stop_def)

lemma logger_rank_stop [simp]: "logger_rank a (logger_stop l) = logger_rank a l"
  by (simp add: logger_rank_def logger_stop_def)

lemma logger_rank_asleep: "logger_rank True l \<le> logger_rank a l" "logger_rank a l \<le> logger_rank True l + 1"
  by (auto simp: logger_rank_def)

lemma worker_rank_asleep: "worker_rank True s \<le> worker_rank a s" "worker_rank a s \<le> worker_rank True s + 1"
  by (auto simp: worker_rank_def pc_rank_def split: worker_pc.split)

text \<open>Every step decreases the measure; every state but the last has a step that is not spurious.\<close>

lemma logger_run_effect:
  assumes "logger_run [] l = Some l'"
  shows "logger_rank False l' < logger_rank True l \<or> lw_queue l \<noteq> [] \<and> \<not> lw_done l \<and> lw_queue l' = [] \<and> \<not> lw_done l'"
    "lw_stopping l' = lw_stopping l" "lw_done l' \<longrightarrow> lw_queue l' = [] \<and> lw_stopping l'"
    "lw_file l' @ map serialize_event (lw_queue l') = lw_file l @ map serialize_event (lw_queue l)"
  using assms by (auto simp: logger_run_def logger_rank_def Let_def split: if_splits)

lemma shut_step_decreases:
  assumes "shut_step hb l t t'" and "shut_inv t"
  shows "steps_left t' < steps_left t"
  using assms(1)
proof cases
  case main
  then show ?thesis using worker_rank_asleep(1) [of "sv t" "rec_asleep t"] worker_rank_asleep(2) [of False "sv t"]
      logger_rank_asleep(1) [of "lgw t" "log_asleep t"] logger_rank_asleep(2) [of False "lgw t"]
    by (cases "mpc t") (auto simp: main_turn_def steps_left_def split: if_split_asm)
next
  case (worker l s)
  then show ?thesis using worker_step_rank [OF worker(6,5)] assms(2) worker_rank_asleep(1) [of "sv t" "rec_asleep t"]
    by (auto simp: steps_left_def shut_inv_def)
next
  case worker_sleeps
  then show ?thesis by (simp add: steps_left_def worker_rank_def pc_rank_def)
next
  case logger
  then show ?thesis
    by (auto simp: logger_turn_def steps_left_def logger_rank_def logger_run_def Let_def split: option.splits if_splits)
next
  case (worker_spurious s)
  then show ?thesis using worker_step_rank [OF worker_spurious(6)] assms(2)
    by (auto simp: steps_left_def shut_inv_def worker_label_def)
next
  case (logger_spurious l)
  then show ?thesis
    by (auto simp: steps_left_def logger_rank_def logger_run_def Let_def split: if_splits)
qed

lemma shut_step_inv:
  assumes "shut_step hb l t t'" and "shut_inv t"
  shows "shut_inv t' \<and> rc t' = rc t \<and> rec_started t' = rec_started t"
  using assms(1)
proof cases
  case main
  then show ?thesis using assms(2)
    by (cases "mpc t") (auto simp: main_turn_def shut_inv_def worker_inv_def logger_stop_def recovery_stop_def split: if_splits)
next
  case (worker l s)
  then have "worker_inv s" using assms(2) sup_step_worker_inv by (auto simp: shut_inv_def)
  with worker_step_keeps [OF worker(6,5)] worker_step_stopping [OF worker(6,5)] worker_step_exit [OF worker(6,5)]
  show ?thesis using assms(2) worker(3) unfolding worker(2) shut_inv_def by (cases "mpc t") (simp_all, blast+)
next
  case worker_sleeps
  then show ?thesis using assms(2) by (auto simp: shut_inv_def)
next
  case logger
  then have nd: "\<not> lw_done (lgw t)" "\<not> log_asleep t" by (auto simp: logger_turn_def split: if_splits)
  show ?thesis
  proof (cases "logger_run [] (lgw t)")
    case None
    then have "\<not> lw_stopping (lgw t)" using nd by (auto simp: logger_run_def Let_def split: if_splits)
    moreover have "t' = t\<lparr>log_asleep := True\<rparr>" using logger nd None by (simp add: logger_turn_def)
    ultimately show ?thesis using assms(2) by (auto simp: shut_inv_def)
  next
    case (Some l)
    then have "t' = t\<lparr>lgw := l\<rparr>" using logger nd by (simp add: logger_turn_def)
    then show ?thesis using assms(2) nd logger_run_effect(2-4) [OF Some] by (auto simp: shut_inv_def)
  qed
next
  case (worker_spurious s)
  have w: "worker_label W_wake" by (simp add: worker_label_def)
  have "worker_inv s" using assms(2) worker_spurious sup_step_worker_inv by (auto simp: shut_inv_def)
  with worker_step_keeps [OF worker_spurious(6) w] worker_step_stopping [OF worker_spurious(6) w]
    worker_step_exit [OF worker_spurious(6) w]
  show ?thesis using assms(2) worker_spurious(3-5) unfolding worker_spurious(2) shut_inv_def by (cases "mpc t") (simp_all, blast+)
next
  case (logger_spurious l)
  then show ?thesis using assms(2) logger_run_effect(2-4) [OF logger_spurious(4)]
    by (auto simp: shut_inv_def logger_run_def split: if_splits)
qed

lemma worker_can_step:
  assumes "rw_stopping s" and "rw_pc s \<noteq> P_exit"
  shows "\<exists>l s'. sup_step hb l s s' \<and> worker_label l"
proof -
  have w: "worker_label W_wake" "worker_label (W_send b)" "worker_label W_report" "worker_label W_lock" for b
    by (simp_all add: worker_label_def)
  show ?thesis
    using assms sup_step.intros(5-11) [of s] w by (cases "rw_pc s") blast+
qed

lemma shut_step_progress:
  assumes "shut_inv t" and "mpc t \<noteq> M_done"
  shows "\<exists>l t'. shut_step hb l t t' \<and> l \<noteq> Sh_spurious"
proof (cases "main_turn t")
  case None
  show ?thesis
  proof (cases "mpc t = M_rec_join")
    case True
    with None have w: "rec_started t" "rw_pc (sv t) \<noteq> P_exit" by (auto simp: main_turn_def split: if_splits)
    with True assms(1) have a: "rw_stopping (sv t)" "rw_pc (sv t) \<noteq> P_wait \<or> \<not> rec_asleep t" by (auto simp: shut_inv_def)
    obtain l s where "sup_step hb l (sv t) s" "worker_label l" using worker_can_step [OF a(1) w(2)] by blast
    then show ?thesis using shut_step.worker [OF w(1) a(2)] by blast
  next
    case False
    with None assms have "mpc t = M_log_join" "\<not> lw_done (lgw t)" by (auto simp: main_turn_def split: main_pc.splits if_splits)
    with assms(1) have "logger_turn t \<noteq> None" by (auto simp: logger_turn_def shut_inv_def split: option.split)
    then show ?thesis using shut_step.logger by blast
  qed
qed (use shut_step.main in blast)

lemma shut_run_bounded:
  "shut_run hb ls t t' \<Longrightarrow> shut_inv t \<Longrightarrow>
     shut_inv t' \<and> length ls + steps_left t' \<le> steps_left t \<and> rc t' = rc t \<and> rec_started t' = rec_started t"
proof (induction ls arbitrary: t)
  case (Cons l ls)
  then obtain u where u: "shut_step hb l t u" "shut_run hb ls u t'" by auto
  with Cons shut_step_decreases [OF u(1)] shut_step_inv [OF u(1)] show ?case by fastforce
qed simp

text \<open>Both threads come to their ends, whatever the interleaving.\<close>

lemma shutdown_ends:
  assumes "shut_run hb ls t0 t" and "shut_inv t0"
  shows "length ls \<le> steps_left t0"
    and "(\<forall>l t'. shut_step hb l t t' \<longrightarrow> l = Sh_spurious) \<Longrightarrow> mpc t = M_done \<and> rc t = rc t0
      \<and> (rec_started t0 \<longrightarrow> rw_pc (sv t) = P_exit) \<and> lw_done (lgw t)
      \<and> lw_file (lgw t) = map serialize_event (logged (sv t))"
proof -
  note r = shut_run_bounded [OF assms]
  then show "length ls \<le> steps_left t0" by linarith
  assume "\<forall>l t'. shut_step hb l t t' \<longrightarrow> l = Sh_spurious"
  with shut_step_progress [of t hb] r have "mpc t = M_done" by blast
  with r show "mpc t = M_done \<and> rc t = rc t0 \<and> (rec_started t0 \<longrightarrow> rw_pc (sv t) = P_exit) \<and> lw_done (lgw t)
      \<and> lw_file (lgw t) = map serialize_event (logged (sv t))" by (auto simp: shut_inv_def)
qed

lemma shutdown_from_inv:
  "worker_inv s \<Longrightarrow> \<not> rw_stopping s \<Longrightarrow> shut_inv (shutdown_from M_rec_stop r True n ra la s)"
  "shut_inv (shutdown_from M_log_stop r False n ra la s)"
  by (auto simp: shut_inv_def shutdown_from_def simp flip: map_append)

lemma shutdown_from_rank:
  "steps_left (shutdown_from pc r started n ra la s) \<le> 6 * length (rw_queue s) + 22"
  by (auto simp: steps_left_def shutdown_from_def main_rank_def worker_rank_def pc_rank_def logger_rank_def
      split: main_pc.split worker_pc.split)

end
