(* ===== verification/Supervisor_Main.thy ===== *)
theory Supervisor_Main
  imports Supervisor_Stop
begin

text \<open>
  The entry point of the supervisor (\<open>safety-supervisord/main.cpp\<close>): the command line, the mock mode
  with its virtual clock, the live mode, and the loop \<open>EventLoop::run\<close> with \<open>setup\<close> of
  \<open>event_loop.cpp\<close>.  What the operating system answers (files, descriptors, \<open>epoll_wait\<close>, the clock,
  the stop flag) is an argument.
\<close>

section \<open>Definitions\<close>

subsection \<open>Command line\<close>

datatype Mode = LIVE | MOCK | REPLAY

record Args =
  mode :: Mode
  device :: string
  mock_file :: string
  replay_file :: string
  report_dir :: string
  a_hb_timeout_ms :: u32
  a_duration_ms :: u32

definition default_args :: Args where
  "default_args = \<lparr>mode = LIVE, device = ''/dev/safety_copro'', mock_file = [], replay_file = [],
     report_dir = ''reports'', a_hb_timeout_ms = 350, a_duration_ms = 0\<rparr>"

text \<open>The loop over the arguments behind the program name, with the number of modes named so far.\<close>

fun sup_parse_loop :: "nat \<Rightarrow> Args \<Rightarrow> string list \<Rightarrow> Args cmdline" where
  "sup_parse_loop mode_count a [] = (if 1 < mode_count then Usage_error else Parsed a)"
| "sup_parse_loop mode_count a (opt # rest) =
     (if opt = ''--help'' \<or> opt = ''-h'' then Help
      else if opt = ''--device'' then
        (case rest of [] \<Rightarrow> Usage_error | v # rest \<Rightarrow> sup_parse_loop mode_count (a\<lparr>device := v\<rparr>) rest)
      else if opt = ''--mock-device'' then
        (case rest of [] \<Rightarrow> Usage_error
         | v # rest \<Rightarrow> sup_parse_loop (mode_count + 1) (a\<lparr>mock_file := v, mode := MOCK\<rparr>) rest)
      else if opt = ''--replay'' then
        (case rest of [] \<Rightarrow> Usage_error
         | v # rest \<Rightarrow> sup_parse_loop (mode_count + 1) (a\<lparr>replay_file := v, mode := REPLAY\<rparr>) rest)
      else if opt = ''--report-dir'' then
        (case rest of [] \<Rightarrow> Usage_error | v # rest \<Rightarrow> sup_parse_loop mode_count (a\<lparr>report_dir := v\<rparr>) rest)
      else if opt = ''--heartbeat-timeout-ms'' then
        (case rest of [] \<Rightarrow> Usage_error
         | v # rest \<Rightarrow> (case stoul v of None \<Rightarrow> Stoul_throws
              | Some n \<Rightarrow> sup_parse_loop mode_count (a\<lparr>a_hb_timeout_ms := ucast n\<rparr>) rest))
      else if opt = ''--duration-ms'' then
        (case rest of [] \<Rightarrow> Usage_error
         | v # rest \<Rightarrow> (case stoul v of None \<Rightarrow> Stoul_throws
              | Some n \<Rightarrow> sup_parse_loop mode_count (a\<lparr>a_duration_ms := ucast n\<rparr>) rest))
      else Usage_error)"

definition sup_parse_args :: "string list \<Rightarrow> Args cmdline" where
  "sup_parse_args argv = sup_parse_loop 0 default_args argv"

subsection \<open>Mock mode\<close>

record mock =
  mk_fsm :: HealthState
  mk_dup :: "(u8 \<times> u16) set"
  mk_log :: "LogEvent list"
  have_last_hb :: bool
  last_hb_ts :: u32
  in_recovery :: bool
  mk_tx_seq :: u16
  nack_count :: nat

definition mock_init :: mock where
  "mock_init = \<lparr>mk_fsm = BOOTING, mk_dup = {}, mk_log = [], have_last_hb = False, last_hb_ts = 0,
     in_recovery = False, mk_tx_seq = 0, nack_count = 0\<rparr>"

definition mock_push :: "LogEvent \<Rightarrow> mock \<Rightarrow> mock" where
  "mock_push ev m = m\<lparr>mk_log := mk_log m @ [ev]\<rparr>"

text \<open>\<open>fsm.apply\<close> with the hook of \<open>run_mock\<close>.\<close>

definition mock_apply :: "HealthEvent \<Rightarrow> mock \<Rightarrow> TransitionResult \<times> mock" where
  "mock_apply ev m =
     (let (r, st) = apply_event (mk_fsm m) ev;
          m = m\<lparr>mk_fsm := st\<rparr>
      in (r, if tr_valid r
             then mock_push ((log_event STATE_CHANGE)\<lparr>le_from_state := state_name (tr_from r),
                    le_to_state := state_name (tr_to r), le_detail := event_name (tr_event r)\<rparr>) m
             else m))"

text \<open>The gap to the heartbeat before: the timeout and the simulated recovery request.\<close>

definition mock_gap :: "u32 \<Rightarrow> ParsedFrame \<Rightarrow> mock \<Rightarrow> mock" where
  "mock_gap hb_timeout f m =
     (let ts = timestamp_ms (pf_header f); gap = ts - last_hb_ts m in
      if have_last_hb m \<and> hb_timeout < gap then
        let m = mock_push ((log_event TIMEOUT)\<lparr>le_ts_ms := uint ts, le_frame_type := ''HEARTBEAT'',
                  le_detail := ''gap='' @ int_to_string (uint gap) @ ''ms > '' @ int_to_string (uint hb_timeout) @ ''ms''\<rparr>) m;
            before = mk_fsm m;
            (r, m) = mock_apply HEARTBEAT_TIMEOUT m
        in if tr_valid r \<and> before = HEALTHY then
             let seq = mk_tx_seq m;
                 m = m\<lparr>mk_tx_seq := seq + 1\<rparr>;
                 m = mock_push ((log_event TX_COMMAND)\<lparr>le_ts_ms := uint ts, le_frame_type := ''COMMAND'',
                       le_seq := uint seq, le_detail := ''REQUEST_RECOVERY''\<rparr>) m;
                 (_, m) = mock_apply RECOVERY_SENT m
             in m\<lparr>in_recovery := True\<rparr>
           else m
      else m)"

definition mock_heartbeat :: "u32 \<Rightarrow> ParsedFrame \<Rightarrow> mock \<Rightarrow> mock" where
  "mock_heartbeat hb_timeout f m =
     (let ts = timestamp_ms (pf_header f);
          m = mock_gap hb_timeout f m;
          m = m\<lparr>have_last_hb := True, last_hb_ts := ts\<rparr>;
          before = mk_fsm m;
          (_, m) = mock_apply (if before = RECOVERING then HEARTBEAT_RESTORED else HEARTBEAT_OK) m;
          m = (if in_recovery m \<and> before = RECOVERING
               then (mock_push ((log_event RECOVERY_RESULT)\<lparr>le_ts_ms := uint ts, le_detail := ''RECOVERY_SUCCESS''\<rparr>) m)
                      \<lparr>in_recovery := False\<rparr>
               else m)
      in mock_push (frame_log TX_ACK f ''ACK'') m)"

text \<open>The body of the loop of \<open>run_mock\<close>.\<close>

definition mock_frame :: "u32 \<Rightarrow> ParsedFrame \<Rightarrow> mock \<Rightarrow> mock" where
  "mock_frame hb_timeout f m =
     (let ty = frame_type (pf_header f);
          seq = sequence_id (pf_header f);
          ftname = sup_frame_type_name ty
      in if pf_result f \<noteq> SAFETY_VALIDATE_OK then
           let m = mock_push ((frame_log CHECKSUM_ERROR f ftname)
                     \<lparr>le_detail := ''validate_result='' @ int_to_string (validate_code (pf_result f))\<rparr>) m;
               m = m\<lparr>nack_count := nack_count m + 1\<rparr>;
               m = mock_push ((frame_log TX_NACK f ''NACK'')\<lparr>le_detail := ''nack #'' @ nat_to_string (nack_count m)\<rparr>) m
           in m\<lparr>mk_dup := snd (is_duplicate ty seq (mk_dup m))\<rparr>
         else let (dup, seen) = is_duplicate ty seq (mk_dup m);
                  m = m\<lparr>mk_dup := seen\<rparr>
         in if dup then mock_push (frame_log DUPLICATE f ftname) m
         else let rx = frame_log RX_FRAME f ftname;
                  rx = (if ty = SAFETY_FRAME_FAULT_EVENT \<and> 8 \<le> length (pf_payload f)
                        then rx\<lparr>le_fault := sup_fault_type_name (fe_fault_type (fault_event_of_bytes (pf_payload f)))\<rparr> else rx);
                  m = mock_push rx m
         in if ty = SAFETY_FRAME_HEARTBEAT then mock_heartbeat hb_timeout f m
            else if ty = SAFETY_FRAME_FAULT_EVENT \<and> 2 \<le> fault_severity f then snd (mock_apply CRITICAL_FAULT m)
            else m)"

text \<open>\<open>run_mock\<close> on the bytes of the file, \<open>None\<close> if it cannot be opened, and whether the report file
  can be: the return code, the number of frames and the state at the end.\<close>

definition run_mock :: "bytes option \<Rightarrow> bool \<Rightarrow> u32 \<Rightarrow> int \<times> nat \<times> mock" where
  "run_mock data log_ok hb_timeout =
     (case data of None \<Rightarrow> (1, 0, mock_init)
      | Some bs \<Rightarrow>
          if \<not> log_ok then (1, 0, mock_init)
          else let (frames, _) = assembler_feed [] bs
               in (0, length frames, fold (mock_frame hb_timeout) frames mock_init))"

text \<open>The summary on standard output.\<close>

definition mock_summary :: "string \<Rightarrow> string \<Rightarrow> nat \<Rightarrow> mock \<Rightarrow> string list" where
  "mock_summary mock_path out_path n m =
     [''==== Mock Run Summary ====''] @ [''input            : '' @ mock_path] @ [''report           : '' @ out_path]
     @ [''frames parsed    : '' @ nat_to_string n]
     @ [''nack (bad frames): '' @ nat_to_string (nack_count m)]
     @ [''final state      : '' @ state_name (mk_fsm m)]
     @ [''=========================='']"

subsection \<open>Event loop\<close>

text \<open>\<open>EventLoop::setup\<close>: which of its system calls succeed, in their order.\<close>

record setup_calls =
  epoll_create1_ok :: bool
  timerfd_create_ok :: bool
  eventfd_ok :: bool
  add_device_ok :: bool
  add_timer_ok :: bool
  add_wake_ok :: bool

definition loop_setup :: "setup_calls \<Rightarrow> u32 \<Rightarrow> supervisor \<Rightarrow> bool \<times> supervisor" where
  "loop_setup c hb s =
     (if \<not> epoll_create1_ok c then (False, s)
      else if \<not> timerfd_create_ok c then (False, s)
      else if \<not> eventfd_ok c then (False, s)
      else if \<not> add_device_ok c then (False, s)
      else if \<not> add_timer_ok c then (False, s)
      else if \<not> add_wake_ok c then (False, s)
      else (True, arm_heartbeat_timer hb s))"

text \<open>A ready descriptor: the timer, with the clock that \<open>on_heartbeat_timeout\<close> reads, the eventfd, or
  the device, with what the read returns.  \<open>others\<close> is what the recovery worker did since the event
  before.\<close>

datatype ready_fd = Timer_fd int | Wake_fd | Device_fd read_ret

record epoll_ready =
  others :: "supervisor \<Rightarrow> supervisor"
  ready :: ready_fd

datatype epoll_ret = Epoll_EINTR | Epoll_error | Epoll_events "epoll_ready list"

definition dispatch :: "u32 \<Rightarrow> epoll_ready \<Rightarrow> supervisor \<Rightarrow> supervisor" where
  "dispatch hb ev s =
     (let s = others ev s in
      case ready ev of Timer_fd now \<Rightarrow> on_heartbeat_timeout hb now s
      | Wake_fd \<Rightarrow> drain_recovery_reports s
      | Device_fd r \<Rightarrow> handle_readable hb r s)"

text \<open>One iteration of the loop reads the stop flag, the clock, and calls \<open>epoll_wait\<close>.\<close>

record loop_round =
  running :: bool
  round_now :: int
  epoll :: epoll_ret

text \<open>The timeout passed to \<open>epoll_wait\<close>; \<open>None\<close> when the duration has elapsed.\<close>

definition epoll_timeout :: "u32 \<Rightarrow> int \<Rightarrow> int \<Rightarrow> int option" where
  "epoll_timeout duration_ms started now =
     (if 0 < duration_ms then
        let elapsed = now - started in
        if uint duration_ms \<le> elapsed then None
        else let remaining = sint (of_int (uint duration_ms - elapsed) :: 32 word)
             in Some (if remaining < 200 then remaining else 200)
      else Some 200)"

text \<open>\<open>EventLoop::run\<close> over the iterations to come: the state and the iterations left when it returns,
  \<open>None\<close> while it still runs.\<close>

fun loop_run :: "u32 \<Rightarrow> u32 \<Rightarrow> int \<Rightarrow> loop_round list \<Rightarrow> supervisor \<Rightarrow> (supervisor \<times> loop_round list) option" where
  "loop_run hb duration_ms started [] s = None"
| "loop_run hb duration_ms started (r # rs) s =
     (if \<not> running r then Some (s, rs)
      else case epoll_timeout duration_ms started (round_now r) of None \<Rightarrow> Some (s, rs)
      | Some timeout \<Rightarrow>
          (case epoll r of
             Epoll_EINTR \<Rightarrow> loop_run hb duration_ms started rs s
           | Epoll_error \<Rightarrow> Some (s, rs)
           | Epoll_events evs \<Rightarrow> loop_run hb duration_ms started rs (fold (dispatch hb) evs s)))"

text \<open>\<open>run_live\<close>: opening the device and the log, \<open>setup\<close>, the loop, and the two stops.
  \<open>start\<close> lets the worker run until it waits.  The result is the return code, \<open>Inl\<close>, where the function returns
  with no thread to join, and else, \<open>Inr\<close>, the state in which the main thread begins to stop the threads,
  of which it may find the logger behind and each of them asleep or not (\<open>n\<close>, \<open>ra\<close>, \<open>la\<close>).  \<open>None\<close>: the loop still runs.\<close>

definition run_live :: "bool \<Rightarrow> bool \<Rightarrow> setup_calls \<Rightarrow> u32 \<Rightarrow> u32 \<Rightarrow> int \<Rightarrow> loop_round list \<Rightarrow> nat \<Rightarrow> bool \<Rightarrow> bool \<Rightarrow>
    (int + shutdown) option" where
  "run_live dev_ok log_ok calls hb duration_ms started rounds n ra la =
     (if \<not> dev_ok then Some (Inl 1)
      else if \<not> log_ok then Some (Inl 1)
      else let (ok, s) = loop_setup calls hb sup_idle in
        if \<not> ok then Some (Inr (shutdown_from M_log_stop 1 False n ra la s))
        else let s = worker_run hb L_top s in
          case loop_run hb duration_ms started rounds s of None \<Rightarrow> None
          | Some (s, _) \<Rightarrow> Some (Inr (shutdown_from M_rec_stop 0 True n ra la s)))"

text \<open>\<open>main\<close>: what the program does with its arguments.\<close>

datatype action = Exit int | Abort | Run_replay string string | Run_mock Args | Run_live Args

definition sup_main :: "string list \<Rightarrow> action" where
  "sup_main argv = (case sup_parse_args argv of
       Usage_error \<Rightarrow> Exit 2
     | Stoul_throws \<Rightarrow> Abort
     | Help \<Rightarrow> Exit 0
     | Parsed a \<Rightarrow> (case mode a of REPLAY \<Rightarrow> Run_replay (replay_file a) (report_dir a)
         | MOCK \<Rightarrow> Run_mock a | LIVE \<Rightarrow> Run_live a))"

section \<open>Lemmas\<close>

subsection \<open>Command line\<close>

text \<open>The arguments that set every option to a given value.\<close>

definition render_args :: "Args \<Rightarrow> string list" where
  "render_args a = [''--device'', device a, ''--report-dir'', report_dir a,
       ''--heartbeat-timeout-ms'', nat_to_string (unat (a_hb_timeout_ms a)),
       ''--duration-ms'', nat_to_string (unat (a_duration_ms a))]
     @ (case mode a of LIVE \<Rightarrow> [] | MOCK \<Rightarrow> [''--mock-device'', mock_file a] | REPLAY \<Rightarrow> [''--replay'', replay_file a])"

lemma stoul_u32: "\<exists>n. stoul (nat_to_string (unat w)) = Some n \<and> (ucast n :: u32) = w" for w :: u32
proof -
  have "unat w < 2 ^ 64" using unsigned_less [where w = w and 'a = nat] by simp
  moreover have "(ucast (ucast w :: u64) :: u32) = w" by (rule ucast_up_ucast_id) (simp add: is_up)
  ultimately show ?thesis using stoul_nat_to_string [of "unat w"] by simp
qed

subsection \<open>Mock mode\<close>

lemma mock_apply_fields [simp]:
  "mk_fsm (snd (mock_apply ev m)) = snd (apply_event (mk_fsm m) ev)"
  "tr_valid (fst (mock_apply ev m)) = tr_valid (fst (apply_event (mk_fsm m) ev))"
  "have_last_hb (snd (mock_apply ev m)) = have_last_hb m" "last_hb_ts (snd (mock_apply ev m)) = last_hb_ts m"
  "in_recovery (snd (mock_apply ev m)) = in_recovery m" "mk_tx_seq (snd (mock_apply ev m)) = mk_tx_seq m"
  "mk_dup (snd (mock_apply ev m)) = mk_dup m" "nack_count (snd (mock_apply ev m)) = nack_count m"
  by (simp_all add: mock_apply_def mock_push_def split_beta Let_def)

lemma mock_push_fields [simp]:
  "mk_fsm (mock_push ev m) = mk_fsm m" "have_last_hb (mock_push ev m) = have_last_hb m"
  "last_hb_ts (mock_push ev m) = last_hb_ts m" "in_recovery (mock_push ev m) = in_recovery m"
  "mk_tx_seq (mock_push ev m) = mk_tx_seq m" "mk_dup (mock_push ev m) = mk_dup m"
  "nack_count (mock_push ev m) = nack_count m" "mk_log (mock_push ev m) = mk_log m @ [ev]"
  by (simp_all add: mock_push_def)

text \<open>Between frames the mock run has no recovery under way.\<close>

definition mock_settled :: "mock \<Rightarrow> bool" where
  "mock_settled m \<longleftrightarrow> \<not> in_recovery m \<and> (mk_fsm m = BOOTING \<and> \<not> have_last_hb m
     \<or> mk_fsm m = HEALTHY \<and> have_last_hb m \<or> mk_fsm m = SAFE_MODE)"

text \<open>The frame comes too late after the heartbeat before it.\<close>

definition late :: "u32 \<Rightarrow> ParsedFrame \<Rightarrow> mock \<Rightarrow> bool" where
  "late hb f m \<longleftrightarrow> have_last_hb m \<and> hb < timestamp_ms (pf_header f) - last_hb_ts m"

lemma mock_gap_fields:
  "mk_fsm (mock_gap hb f m) = (if late hb f m \<and> mk_fsm m = HEALTHY then RECOVERING else mk_fsm m)"
  "in_recovery (mock_gap hb f m) = (in_recovery m \<or> late hb f m \<and> mk_fsm m = HEALTHY)"
  "have_last_hb (mock_gap hb f m) = have_last_hb m"
  unfolding mock_gap_def Let_def late_def [symmetric] split_beta
  by (cases "late hb f m"; cases "mk_fsm m"; simp add: apply_event_def)+

lemma mock_heartbeat_fields:
  "mk_fsm (mock_heartbeat hb f m) = snd (apply_event (mk_fsm (mock_gap hb f m))
     (if mk_fsm (mock_gap hb f m) = RECOVERING then HEARTBEAT_RESTORED else HEARTBEAT_OK))"
  "in_recovery (mock_heartbeat hb f m) = (in_recovery (mock_gap hb f m) \<and> mk_fsm (mock_gap hb f m) \<noteq> RECOVERING)"
  "have_last_hb (mock_heartbeat hb f m)"
  by (auto simp: mock_heartbeat_def split_beta Let_def)

lemma mock_heartbeat_settled: "mock_settled m \<Longrightarrow> mock_settled (mock_heartbeat hb f m)"
  by (auto simp: mock_settled_def mock_heartbeat_fields mock_gap_fields apply_event_def)

lemma mock_frame_settled:
  assumes "mock_settled m"
  shows "mock_settled (mock_frame hb f m)"
proof -
  have p: "mock_settled (mock_push e (m\<lparr>mk_dup := d\<rparr>))" for e d using assms by (simp add: mock_settled_def)
  have "mock_settled (snd (mock_apply CRITICAL_FAULT m'))" if "mock_settled m'" for m'
    using that by (auto simp: mock_settled_def apply_event_def)
  with p mock_heartbeat_settled show ?thesis
    by (simp add: mock_frame_def is_duplicate_def split_beta Let_def) (use assms in \<open>simp add: mock_settled_def\<close>)
qed

lemma mock_frames_settled: "mock_settled m \<Longrightarrow> mock_settled (fold (mock_frame hb) fs m)"
  by (induction fs arbitrary: m) (simp_all add: mock_frame_settled)

subsection \<open>Event loop\<close>

lemma reachable_trans: "sup_reachable hb b c \<Longrightarrow> sup_reachable hb a b \<Longrightarrow> sup_reachable hb a c"
  by (induction rule: sup_reachable.induct) (auto intro: sup_reachable.step)

definition worker_only :: "u32 \<Rightarrow> epoll_ready \<Rightarrow> bool" where
  "worker_only hb ev \<longleftrightarrow> (\<forall>s. \<exists>ls. (\<forall>l\<in>set ls. worker_label l) \<and> sup_run hb ls s (others ev s))"

definition round_events :: "loop_round \<Rightarrow> epoll_ready list" where
  "round_events r = (case epoll r of Epoll_events evs \<Rightarrow> evs | _ \<Rightarrow> [])"

lemma run_reachable: "sup_run hb ls s s' \<Longrightarrow> sup_reachable hb s s'"
proof (induction ls arbitrary: s)
  case (Cons l ls)
  then obtain t where "sup_step hb l s t" "sup_reachable hb t s'" by auto
  then show ?case using reachable_trans sup_reachable.step [OF sup_reachable.start] by blast
qed (simp add: sup_reachable.start)

lemma worker_run_keeps_flag: "sup_run hb ls s s' \<Longrightarrow> \<forall>l\<in>set ls. worker_label l \<Longrightarrow> rw_stopping s' = rw_stopping s"
  by (induction ls arbitrary: s) (auto dest: worker_step_keeps)

lemma dispatch_reachable: "worker_only hb ev \<Longrightarrow> sup_reachable hb s (dispatch hb ev s)"
proof -
  assume "worker_only hb ev"
  then have "sup_reachable hb s (others ev s)" using run_reachable by (fastforce simp: worker_only_def)
  from sup_reachable.step [OF this] show ?thesis
    by (auto simp: dispatch_def Let_def split: ready_fd.split intro: sup_step.intros)
qed

text \<open>The event loop does not stop the worker.\<close>

lemma loop_acts_flag [simp]:
  "rw_stopping (handle_readable hb r s) = rw_stopping s" "rw_stopping (on_heartbeat_timeout hb now s) = rw_stopping s"
  "rw_stopping (drain_report rep s) = rw_stopping s"
  by (simp_all add: handle_readable_def on_heartbeat_timeout_def drain_report_def sup_upd split_beta Let_def
      split: read_ret.split RecoveryOutcome.split)

lemma fold_drain_flag [simp]: "rw_stopping (fold drain_report rs s) = rw_stopping s"
  by (induction rs arbitrary: s) simp_all

lemma dispatch_flag: "worker_only hb ev \<Longrightarrow> rw_stopping (dispatch hb ev s) = rw_stopping s"
  using worker_run_keeps_flag [of hb _ s "others ev s"]
  by (auto simp: worker_only_def dispatch_def drain_recovery_reports_def Let_def split: ready_fd.split)

lemma fold_dispatch_flag:
  "\<forall>ev\<in>set evs. worker_only hb ev \<Longrightarrow> rw_stopping (fold (dispatch hb) evs s) = rw_stopping s"
  by (induction evs arbitrary: s) (simp_all add: dispatch_flag)

lemma loop_run_flag:
  "loop_run hb d started rs s = Some (s', left) \<Longrightarrow> \<forall>r\<in>set rs. \<forall>ev\<in>set (round_events r). worker_only hb ev
    \<Longrightarrow> rw_stopping s' = rw_stopping s"
proof (induction rs arbitrary: s)
  case (Cons r rs)
  have "rw_stopping (fold (dispatch hb) evs s) = rw_stopping s" if "epoll r = Epoll_events evs" for evs
    using that Cons.prems(2) by (intro fold_dispatch_flag) (auto simp: round_events_def)
  with Cons show ?case by (auto split: if_splits option.splits epoll_ret.splits)
qed simp

lemma fold_dispatch_reachable:
  "\<forall>ev\<in>set evs. worker_only hb ev \<Longrightarrow> sup_reachable hb s (fold (dispatch hb) evs s)"
proof (induction evs arbitrary: s)
  case (Cons ev evs)
  then have "sup_reachable hb s (dispatch hb ev s)" "sup_reachable hb (dispatch hb ev s) (fold (dispatch hb) evs (dispatch hb ev s))"
    by (auto intro: dispatch_reachable)
  then show ?case using reachable_trans by auto
qed (simp add: sup_reachable.start)

lemma loop_run_reachable:
  "loop_run hb d started rs s = Some (s', left) \<Longrightarrow> \<forall>r\<in>set rs. \<forall>ev\<in>set (round_events r). worker_only hb ev
    \<Longrightarrow> sup_reachable hb s s'"
proof (induction rs arbitrary: s)
  case (Cons r rs)
  have "sup_reachable hb s (fold (dispatch hb) evs s)" if "epoll r = Epoll_events evs" for evs
    using that Cons.prems(2) by (intro fold_dispatch_reachable) (auto simp: round_events_def)
  with Cons show ?case
    by (auto split: if_splits option.splits epoll_ret.splits intro: sup_reachable.start reachable_trans)
qed simp

lemma loop_run_returns:
  "r \<in> set rs \<Longrightarrow> \<not> running r \<or> epoll_timeout d started (round_now r) = None \<Longrightarrow> loop_run hb d started rs s \<noteq> None"
  by (induction rs arbitrary: s) (auto split: option.split epoll_ret.split)

lemma run_live_stops:
  assumes "\<forall>r\<in>set rounds. \<forall>ev\<in>set (round_events r). worker_only hb ev"
    and "\<not> fst (loop_setup c hb sup_idle) \<or> (\<exists>r\<in>set rounds. \<not> running r \<or> (0 < d \<and> started + uint d \<le> round_now r))"
  shows "\<exists>t0. run_live True True c hb d started rounds n ra la = Some (Inr t0) \<and> shut_inv t0
    \<and> steps_left t0 \<le> 6 * length (rw_queue (sv t0)) + 22 \<and> rc t0 = (if fst (loop_setup c hb sup_idle) then 0 else 1)
    \<and> (rec_started t0 \<longleftrightarrow> fst (loop_setup c hb sup_idle))
    \<and> (fst (loop_setup c hb sup_idle) \<longrightarrow> sup_reachable hb (sup_init hb) (sv t0))"
proof (cases "fst (loop_setup c hb sup_idle)")
  case True
  then have su: "loop_setup c hb sup_idle = (True, arm_heartbeat_timer hb sup_idle)"
    by (auto simp: loop_setup_def split: if_splits)
  from True assms(2) obtain r where "r \<in> set rounds" "\<not> running r \<or> epoll_timeout d started (round_now r) = None"
    by (auto simp: epoll_timeout_def Let_def)
  from loop_run_returns [OF this, of hb "sup_init hb"] obtain s left where
    s: "loop_run hb d started rounds (sup_init hb) = Some (s, left)" by auto
  let ?t = "shutdown_from M_rec_stop 0 True n ra la s"
  have "run_live True True c hb d started rounds n ra la = Some (Inr ?t)"
    using s by (simp add: run_live_def su sup_init_def)
  moreover have "sup_reachable hb (sup_init hb) s" by (rule loop_run_reachable [OF s assms(1)])
  moreover from this have "shut_inv ?t"
    using reachable_worker_inv loop_run_flag [OF s assms(1)] by (intro shutdown_from_inv) simp_all
  ultimately show ?thesis
    using True shutdown_from_rank [of M_rec_stop 0 True n ra la s] by (auto simp: shutdown_from_def)
next
  case False
  then show ?thesis
    using shutdown_from_inv(2) [of 1 n ra la] shutdown_from_rank [of M_log_stop 1 False n ra la]
    by (auto simp: run_live_def split_beta Let_def) (auto simp: shutdown_from_def)
qed

subsection \<open>Log of the mock run\<close>

definition kind_count :: "LogKind \<Rightarrow> mock \<Rightarrow> nat" where
  "kind_count k m = length (filter (\<lambda>e. le_kind e = k) (mk_log m))"

lemma kind_count_push [simp]: "kind_count k (mock_push ev m) = kind_count k m + (if le_kind ev = k then 1 else 0)"
  by (simp add: kind_count_def)

lemma kind_count_apply [simp]: "k \<noteq> STATE_CHANGE \<Longrightarrow> kind_count k (snd (mock_apply ev m)) = kind_count k m"
  by (simp add: kind_count_def mock_apply_def mock_push_def log_event_def split_beta Let_def)

lemma kind_count_upd [simp]:
  "kind_count k (m\<lparr>mk_tx_seq := a\<rparr>) = kind_count k m" "kind_count k (m\<lparr>in_recovery := b\<rparr>) = kind_count k m"
  "kind_count k (m\<lparr>have_last_hb := b, last_hb_ts := c\<rparr>) = kind_count k m"
  "kind_count k (m\<lparr>mk_dup := d\<rparr>) = kind_count k m" "kind_count k (m\<lparr>nack_count := n\<rparr>) = kind_count k m"
  by (simp_all add: kind_count_def)

lemma log_event_kind [simp]: "le_kind (log_event k) = k" "le_kind (frame_log k f name) = k"
  by (simp_all add: log_event_def frame_log_def)

lemma mock_gap_counts:
  "kind_count TX_COMMAND (mock_gap hb f m) = kind_count TX_COMMAND m + (if late hb f m \<and> mk_fsm m = HEALTHY then 1 else 0)"
  "kind_count RECOVERY_RESULT (mock_gap hb f m) = kind_count RECOVERY_RESULT m"
  "kind_count TIMEOUT (mock_gap hb f m) = kind_count TIMEOUT m + (if late hb f m then 1 else 0)"
  "kind_count TX_NACK (mock_gap hb f m) = kind_count TX_NACK m" "nack_count (mock_gap hb f m) = nack_count m"
  unfolding mock_gap_def Let_def late_def [symmetric] split_beta
  by (cases "late hb f m"; cases "mk_fsm m"; simp add: apply_event_def)+

lemma mock_heartbeat_counts:
  "kind_count TX_COMMAND (mock_heartbeat hb f m) = kind_count TX_COMMAND (mock_gap hb f m)"
  "kind_count RECOVERY_RESULT (mock_heartbeat hb f m) = kind_count RECOVERY_RESULT m
     + (if in_recovery (mock_gap hb f m) \<and> mk_fsm (mock_gap hb f m) = RECOVERING then 1 else 0)"
  "kind_count TX_NACK (mock_heartbeat hb f m) = kind_count TX_NACK m" "nack_count (mock_heartbeat hb f m) = nack_count m"
  by (auto simp: mock_heartbeat_def mock_gap_counts split_beta Let_def)

definition mock_log_inv :: "mock \<Rightarrow> bool" where
  "mock_log_inv m \<longleftrightarrow> mock_settled m \<and> kind_count TX_COMMAND m = kind_count RECOVERY_RESULT m
     \<and> kind_count TX_NACK m = nack_count m"

lemma mock_heartbeat_log_inv:
  assumes "mock_log_inv m"
  shows "mock_log_inv (mock_heartbeat hb f m)"
proof -
  have "\<not> in_recovery m" "mk_fsm m \<noteq> RECOVERING" using assms by (auto simp: mock_log_inv_def mock_settled_def)
  with assms show ?thesis
    by (simp add: mock_log_inv_def mock_heartbeat_settled mock_heartbeat_counts mock_gap_counts mock_gap_fields)
qed

lemma mock_frame_log_inv: "mock_log_inv m \<Longrightarrow> mock_log_inv (mock_frame hb f m)"
proof -
  assume m: "mock_log_inv m"
  have p: "mock_log_inv (mock_push e (m\<lparr>mk_dup := d\<rparr>))" if "le_kind e \<in> {DUPLICATE, RX_FRAME}" for e d
    using m that by (auto simp: mock_log_inv_def mock_settled_def)
  have "mock_log_inv (snd (mock_apply CRITICAL_FAULT m'))" if "mock_log_inv m'" for m'
    using that by (auto simp: mock_log_inv_def mock_settled_def apply_event_def)
  with p mock_heartbeat_log_inv show ?thesis
    by (simp add: mock_frame_def is_duplicate_def split_beta Let_def) (use m in \<open>simp add: mock_log_inv_def mock_settled_def\<close>)
qed

lemma mock_frames_log_inv: "mock_log_inv m \<Longrightarrow> mock_log_inv (fold (mock_frame hb) fs m)"
  by (induction fs arbitrary: m) (simp_all add: mock_frame_log_inv)

lemma mock_frame_nacks: "nack_count (mock_frame hb f m) = nack_count m + (if frame_ok f then 0 else 1)"
  by (simp add: mock_frame_def is_duplicate_def frame_ok_def mock_heartbeat_counts split_beta Let_def)

lemma mock_frames_nacks: "nack_count (fold (mock_frame hb) fs m) = nack_count m + length (filter (\<lambda>f. \<not> frame_ok f) fs)"
  by (induction fs arbitrary: m) (simp_all add: mock_frame_nacks)

section \<open>Properties\<close>

text \<open>Options.  The arguments that set every option to given values, with at most one of the two
  mode options, parse to exactly these values; both mode options together, an unknown option, and an
  option without its value are usage errors with exit code 2, whatever stands before them is.\<close>

theorem command_line_roundtrip:
  assumes "mode a \<noteq> MOCK \<longrightarrow> mock_file a = []" and "mode a \<noteq> REPLAY \<longrightarrow> replay_file a = []"
  shows "sup_parse_args (render_args a) = Parsed a
    \<and> sup_main (render_args a @ [''--device'']) = Exit 2 \<and> sup_main (render_args a @ [''--verbose'']) = Exit 2
    \<and> sup_main [''--mock-device'', f, ''--replay'', g] = Exit 2"
proof -
  obtain n1 n2 where n: "stoul (nat_to_string (unat (a_hb_timeout_ms a))) = Some n1" "(ucast n1 :: u32) = a_hb_timeout_ms a"
    "stoul (nat_to_string (unat (a_duration_ms a))) = Some n2" "(ucast n2 :: u32) = a_duration_ms a"
    using stoul_u32 [of "a_hb_timeout_ms a"] stoul_u32 [of "a_duration_ms a"] by blast
  have "default_args\<lparr>device := device a, report_dir := report_dir a, a_hb_timeout_ms := a_hb_timeout_ms a,
      a_duration_ms := a_duration_ms a, mock_file := mock_file a, replay_file := replay_file a, mode := mode a\<rparr> = a"
    by (simp add: default_args_def)
  with n assms show ?thesis
    by (cases "mode a") (simp_all add: sup_main_def sup_parse_args_def render_args_def default_args_def)
qed

theorem command_line_roundtrip_witness:
  "sup_parse_args (render_args (default_args\<lparr>mode := MOCK, mock_file := ''x.bin'', a_hb_timeout_ms := 500\<rparr>)) =
     Parsed (default_args\<lparr>mode := MOCK, mock_file := ''x.bin'', a_hb_timeout_ms := 500\<rparr>)"
  using command_line_roundtrip [of "default_args\<lparr>mode := MOCK, mock_file := ''x.bin'', a_hb_timeout_ms := 500\<rparr>"]
  by (simp add: default_args_def)

text \<open>Mock run.  A mock run over any file returns 0 and leaves the state machine BOOTING without, or
  HEALTHY with, an accepted heartbeat, or in SAFE_MODE, never DEGRADED, RECOVERING or FAILED; in its log
  every recovery request is followed up by a recovery result, and there is one NACK for each frame that
  does not validate.\<close>

theorem mock_run_settles:
  "let (rc, n, m) = run_mock (Some bs) True hb; frames = fst (assembler_feed [] bs)
   in rc = 0 \<and> n = length frames
     \<and> (mk_fsm m = BOOTING \<and> \<not> have_last_hb m \<or> mk_fsm m = HEALTHY \<and> have_last_hb m \<or> mk_fsm m = SAFE_MODE)
     \<and> \<not> in_recovery m \<and> kind_count TX_COMMAND m = kind_count RECOVERY_RESULT m
     \<and> kind_count TX_NACK m = length (filter (\<lambda>f. \<not> frame_ok f) frames)"
proof -
  let ?fs = "fst (assembler_feed [] bs)"
  have "mock_log_inv mock_init" by (simp add: mock_log_inv_def mock_settled_def mock_init_def kind_count_def)
  from mock_frames_log_inv [OF this, of hb ?fs] mock_frames_nacks [of hb ?fs mock_init] show ?thesis
    by (simp add: run_mock_def mock_log_inv_def mock_settled_def mock_init_def split_beta Let_def)
qed

text \<open>C34 (the live mode returns).  Once device and log are open, and if set-up fails or some iteration of the
  loop finds the stop flag cleared or the given duration elapsed, the main thread comes to stop its
  threads, with at most the requests behind that the loop has queued.  From there, whatever the interleaving of
  the main thread, the recovery worker and the logger, with waits that end only by a notification or for
  no reason: the number of steps is bounded, and where only a spurious wakeup could still come, the main thread has joined the
  threads it started and returns 0, or 1 after a failed set-up, the recovery worker and the logger
  have returned, and the log holds the line of every event.\<close>

theorem live_run_returns:
  assumes "\<forall>r\<in>set rounds. \<forall>ev\<in>set (round_events r). worker_only hb ev"
    and "\<not> fst (loop_setup c hb sup_idle) \<or> (\<exists>r\<in>set rounds. \<not> running r \<or> (0 < d \<and> started + uint d \<le> round_now r))"
  shows "\<exists>t0. run_live True True c hb d started rounds n ra la = Some (Inr t0)
    \<and> (fst (loop_setup c hb sup_idle) \<longrightarrow> sup_reachable hb (sup_init hb) (sv t0))
    \<and> (\<forall>ls t. shut_run hb ls t0 t \<longrightarrow> length ls \<le> 6 * length (rw_queue (sv t0)) + 22
        \<and> ((\<forall>l t'. shut_step hb l t t' \<longrightarrow> l = Sh_spurious) \<longrightarrow>
             mpc t = M_done \<and> rc t = (if fst (loop_setup c hb sup_idle) then 0 else 1)
             \<and> (fst (loop_setup c hb sup_idle) \<longrightarrow> rw_pc (sv t) = P_exit)
             \<and> lw_done (lgw t) \<and> lw_file (lgw t) = map serialize_event (logged (sv t))))"
proof -
  obtain t0 where t0: "run_live True True c hb d started rounds n ra la = Some (Inr t0)" "shut_inv t0"
      "steps_left t0 \<le> 6 * length (rw_queue (sv t0)) + 22" "rc t0 = (if fst (loop_setup c hb sup_idle) then 0 else 1)"
      "rec_started t0 \<longleftrightarrow> fst (loop_setup c hb sup_idle)"
      "fst (loop_setup c hb sup_idle) \<longrightarrow> sup_reachable hb (sup_init hb) (sv t0)"
    using run_live_stops [OF assms, of n ra la] by blast
  then show ?thesis using shutdown_ends [OF _ t0(2)] by (intro exI [of _ t0]) (auto intro: order_trans)
qed

theorem live_run_returns_witness:
  "\<exists>t0. run_live True True \<lparr>epoll_create1_ok = True, timerfd_create_ok = True, eventfd_ok = True, add_device_ok = True,
      add_timer_ok = True, add_wake_ok = True\<rparr> 350 1000 0
     [\<lparr>running = True, round_now = 10, epoll = Epoll_events [\<lparr>others = (\<lambda>s. s), ready = Timer_fd 10\<rparr>]\<rparr>,
      \<lparr>running = True, round_now = 1000, epoll = Epoll_EINTR\<rparr>] 0 True True = Some (Inr t0)
     \<and> (\<forall>ls t. shut_run 350 ls t0 t \<longrightarrow> length ls \<le> 6 * length (rw_queue (sv t0)) + 22)"
proof -
  have "worker_only 350 \<lparr>others = (\<lambda>s. s), ready = Timer_fd 10\<rparr>"
    by (auto simp: worker_only_def intro!: exI [of _ "[]"])
  then have "\<forall>r\<in>set [\<lparr>running = True, round_now = 10, epoll = Epoll_events [\<lparr>others = (\<lambda>s. s), ready = Timer_fd 10\<rparr>]\<rparr>,
        \<lparr>running = True, round_now = 1000, epoll = Epoll_EINTR\<rparr>]. \<forall>ev\<in>set (round_events r). worker_only 350 ev"
    by (simp add: round_events_def)
  from live_run_returns [OF this, of _ 1000 0 0 True True] show ?thesis
    by simp blast
qed

text \<open>The log of a mock run replays to another state: the run logs a late heartbeat before the timeout it
  stands for.\<close>

theorem mock_replay_diverges:
  "let hb = \<lambda>q ts. \<lparr>pf_header = safety_frame_init SAFETY_FRAME_HEARTBEAT q 8 ts, pf_payload = replicate 8 0,
         pf_result = SAFETY_VALIDATE_OK\<rparr>;
       m = fold (mock_frame 350) [hb 0 0, hb 1 1000] mock_init
   in mk_fsm m = HEALTHY \<and> fold replay_event (mk_log m) BOOTING = RECOVERING"
  by code_simp

end
