(* ===== verification/Linkd.thy ===== *)
theory Linkd
  imports Framer Driver_System
begin

text \<open>
  The link daemon (\<open>safety-linkd/main.cpp\<close>), which carries frames between the UART and the driver.  It
  is composed with the driver's own \<open>safety_ioctl\<close>; what the UART calls, \<open>poll\<close>, the clock and the stop
  flag return are arguments, and so is the kernel's environment, which may differ from call to call.
  The driver never returns EINTR, ENODATA or ENOENT for these commands.
\<close>

section \<open>Definitions\<close>

definition link_frame_type_name :: "u8 \<Rightarrow> string" where
  "link_frame_type_name t =
     (if t = SAFETY_FRAME_HEARTBEAT then ''HEARTBEAT'' else if t = SAFETY_FRAME_TELEMETRY then ''TELEMETRY''
      else if t = SAFETY_FRAME_FAULT_EVENT then ''FAULT_EVENT'' else if t = SAFETY_FRAME_COMMAND then ''COMMAND''
      else if t = SAFETY_FRAME_ACK then ''ACK'' else if t = SAFETY_FRAME_NACK then ''NACK''
      else if t = SAFETY_FRAME_RECOVERY_REPORT then ''RECOVERY_REPORT'' else ''UNKNOWN'')"

subsection \<open>Command line\<close>

record link_args =
  la_uart :: string
  la_device :: string
  la_report_dir :: string
  la_duration_ms :: u32

definition link_default_args :: link_args where
  "link_default_args = \<lparr>la_uart = ''/dev/ttyAMA1'', la_device = ''/dev/safety_copro'',
     la_report_dir = ''reports'', la_duration_ms = 0\<rparr>"

fun link_parse_args :: "link_args \<Rightarrow> string list \<Rightarrow> link_args cmdline" where
  "link_parse_args a [] = Parsed a"
| "link_parse_args a (opt # rest) =
     (if opt = ''--help'' \<or> opt = ''-h'' then Help
      else if opt = ''--uart'' then
        (case rest of [] \<Rightarrow> Usage_error | v # rest \<Rightarrow> link_parse_args (a\<lparr>la_uart := v\<rparr>) rest)
      else if opt = ''--device'' then
        (case rest of [] \<Rightarrow> Usage_error | v # rest \<Rightarrow> link_parse_args (a\<lparr>la_device := v\<rparr>) rest)
      else if opt = ''--report-dir'' then
        (case rest of [] \<Rightarrow> Usage_error | v # rest \<Rightarrow> link_parse_args (a\<lparr>la_report_dir := v\<rparr>) rest)
      else if opt = ''--duration-ms'' then
        (case rest of [] \<Rightarrow> Usage_error
         | v # rest \<Rightarrow> (case stoul v of None \<Rightarrow> Stoul_throws
              | Some n \<Rightarrow> link_parse_args (a\<lparr>la_duration_ms := ucast n\<rparr>) rest))
      else Usage_error)"

subsection \<open>Devices\<close>

text \<open>\<open>mkdir\<close>: whether it succeeded, or that the directory exists.\<close>

datatype mkdir_ret = Mkdir_ok | Mkdir_EEXIST | Mkdir_error

definition make_report_dir :: "mkdir_ret \<Rightarrow> bool" where
  "make_report_dir r \<longleftrightarrow> r = Mkdir_ok \<or> r = Mkdir_EEXIST"

datatype uart_write_ret = UW_wrote nat | UW_EINTR | UW_EAGAIN | UW_error

text \<open>\<open>write_all\<close>: success and the bytes the UART took, \<open>None\<close> while the returns given do not end it.\<close>

fun uart_write_all :: "uart_write_ret list \<Rightarrow> bytes \<Rightarrow> (bool \<times> bytes) option" where
  "uart_write_all rs data =
     (if data = [] then Some (True, [])
      else case rs of [] \<Rightarrow> None
         | UW_wrote n # rs \<Rightarrow> map_option (\<lambda>(ok, taken). (ok, take n data @ taken)) (uart_write_all rs (drop n data))
         | UW_EINTR # rs \<Rightarrow> uart_write_all rs data
         | UW_EAGAIN # rs \<Rightarrow> uart_write_all rs data
         | UW_error # rs \<Rightarrow> Some (False, []))"

declare uart_write_all.simps [simp del]

text \<open>An entry of the event report without its time stamp; \<open>strerror\<close> gives the details of a failure.\<close>

record link_log =
  ll_kind :: string
  ll_frame_type :: string
  ll_seq :: int
  ll_bytes :: nat
  ll_detail :: string

definition link_log_text :: "int \<Rightarrow> link_log \<Rightarrow> string" where
  "link_log_text now l =
     ''{'' @ CHR 0x22 # ''ts_ms'' @ CHR 0x22 # '':'' @ int_to_string now
     @ '','' @ CHR 0x22 # ''kind'' @ CHR 0x22 # '':'' @ CHR 0x22 # ll_kind l
     @ CHR 0x22 # '','' @ CHR 0x22 # ''frame_type'' @ CHR 0x22 # '':'' @ CHR 0x22 # ll_frame_type l
     @ CHR 0x22 # '','' @ CHR 0x22 # ''seq'' @ CHR 0x22 # '':'' @ int_to_string (ll_seq l)
     @ '','' @ CHR 0x22 # ''bytes'' @ CHR 0x22 # '':'' @ nat_to_string (ll_bytes l)
     @ '','' @ CHR 0x22 # ''detail'' @ CHR 0x22 # '':'' @ CHR 0x22 # ll_detail l @ CHR 0x22 # ''}'' @ [CHR 0x0A]"

definition push_rx_frame :: "(safety_fifo_slot, 'q) kfifo_ops \<Rightarrow> kenv \<Rightarrow> bytes \<Rightarrow> 'q safety_copro_dev
    \<Rightarrow> unit result \<times> 'q safety_copro_dev" where
  "push_rx_frame K e frame dev =
     (if frame = [] \<or> SAFETY_MAX_FRAME_SIZE < length frame then (Inl EMSGSIZE, dev)
      else let io = \<lparr>io_len = of_nat (length frame), io_data = memcpy_at (replicate SAFETY_MAX_FRAME_SIZE 0) 0 frame\<rparr>
           in case safety_ioctl K e SAFETY_IOC_PUSH_RX_FRAME
                     \<lparr>arg_u32 = Some (io_len io), arg_frame = Some io, arg_writable = True\<rparr> dev of
                (Inl err, dev) \<Rightarrow> (Inl err, dev) | (Inr _, dev) \<Rightarrow> (Inr (), dev))"

definition pop_tx_frame :: "(safety_fifo_slot, 'q) kfifo_ops \<Rightarrow> kenv \<Rightarrow> 'q safety_copro_dev
    \<Rightarrow> safety_copro_frame_io result \<times> 'q safety_copro_dev" where
  "pop_tx_frame K e dev =
     (let io = \<lparr>io_len = 0, io_data = replicate SAFETY_MAX_FRAME_SIZE 0\<rparr>
      in case safety_ioctl K e SAFETY_IOC_POP_TX_FRAME
                \<lparr>arg_u32 = Some (io_len io), arg_frame = Some io, arg_writable = True\<rparr> dev of
           (Inl err, dev) \<Rightarrow> (Inl err, dev)
         | (Inr (Out_frame io), dev) \<Rightarrow> (Inr io, dev)
         | (Inr _, dev) \<Rightarrow> (Inr io, dev))"

subsection \<open>Main loop\<close>

text \<open>The state of the daemon with the device it has opened: the framer's bytes, what the UART was
  given, the report.\<close>

record 'q linkd =
  ld_framer :: bytes
  ld_dev :: "'q safety_copro_dev"
  ld_uart_out :: bytes
  ld_report :: "link_log list"

definition link_note :: "link_log \<Rightarrow> 'q linkd \<Rightarrow> 'q linkd" where
  "link_note l s = s\<lparr>ld_report := ld_report s @ [l]\<rparr>"

definition link_header :: "bytes \<Rightarrow> SafetyFrameHeader" where
  "link_header frame = (if SAFETY_HEADER_SIZE \<le> length frame then header_of_bytes frame
     else header_of_bytes (replicate SAFETY_HEADER_SIZE 0))"

text \<open>The body of the loop over the frames of a read.\<close>

definition linkd_push :: "(safety_fifo_slot, 'q) kfifo_ops \<Rightarrow> (errno \<Rightarrow> string) \<Rightarrow> ('q safety_copro_dev \<Rightarrow> kenv) \<Rightarrow> bytes \<Rightarrow> 'q linkd \<Rightarrow> 'q linkd" where
  "linkd_push K strerror e frame s =
     (let hdr = link_header frame;
          note = (\<lambda>kind detail. \<lparr>ll_kind = kind, ll_frame_type = link_frame_type_name (frame_type hdr),
             ll_seq = uint (sequence_id hdr), ll_bytes = length frame, ll_detail = detail\<rparr>)
      in case push_rx_frame K (e (ld_dev s)) frame (ld_dev s) of
           (Inl err, dev) \<Rightarrow> link_note (note ''push_rx_failed'' (strerror err)) (s\<lparr>ld_dev := dev\<rparr>)
         | (Inr _, dev) \<Rightarrow> link_note (note ''uart_rx_push'' []) (s\<lparr>ld_dev := dev\<rparr>))"

datatype uart_read_ret = UR_bytes bytes | UR_EOF | UR_EINTR | UR_EAGAIN | UR_error

text \<open>How a part of an iteration ends: the iteration goes on, or the program returns.\<close>

datatype link_ctl = Goes_on | Returns int

text \<open>The reading part of an iteration; \<open>None\<close> while it still reads.\<close>

fun linkd_rx :: "(safety_fifo_slot, 'q) kfifo_ops \<Rightarrow> (errno \<Rightarrow> string) \<Rightarrow> ('q safety_copro_dev \<Rightarrow> kenv) \<Rightarrow> uart_read_ret list
    \<Rightarrow> 'q linkd \<Rightarrow> (link_ctl \<times> 'q linkd) option" where
  "linkd_rx K strerror e [] s = None"
| "linkd_rx K strerror e (UR_EINTR # rs) s = linkd_rx K strerror e rs s"
| "linkd_rx K strerror e (UR_EAGAIN # rs) s = Some (Goes_on, s)"
| "linkd_rx K strerror e (UR_error # rs) s = Some (Returns 1, s)"
| "linkd_rx K strerror e (UR_EOF # rs) s = Some (Goes_on, s)"
| "linkd_rx K strerror e (UR_bytes bs # rs) s =
     (if bs = [] then Some (Goes_on, s)
      else let (frames, kept) = link_feed (ld_framer s) bs
           in linkd_rx K strerror e rs (fold (linkd_push K strerror e) frames (s\<lparr>ld_framer := kept\<rparr>)))"

text \<open>The writing part, with the returns of \<open>write\<close> for each frame it pops; \<open>None\<close> while it still runs.\<close>

fun linkd_tx :: "(safety_fifo_slot, 'q) kfifo_ops \<Rightarrow> (errno \<Rightarrow> string) \<Rightarrow> errno \<Rightarrow> ('q safety_copro_dev \<Rightarrow> kenv) \<Rightarrow> uart_write_ret list list
    \<Rightarrow> 'q linkd \<Rightarrow> 'q linkd option" where
  "linkd_tx K strerror werr e ws s =
     (case pop_tx_frame K (e (ld_dev s)) (ld_dev s) of
        (Inl err, dev) \<Rightarrow>
          let s = s\<lparr>ld_dev := dev\<rparr> in
          if err = EAGAIN then Some s
          else Some (link_note \<lparr>ll_kind = ''pop_tx_failed'', ll_frame_type = [], ll_seq = -1, ll_bytes = 0,
                 ll_detail = strerror err\<rparr> s)
      | (Inr tx, dev) \<Rightarrow>
          let s = s\<lparr>ld_dev := dev\<rparr> in
          (case ws of [] \<Rightarrow> None
           | w # ws \<Rightarrow>
             if io_len tx = 0 \<or> SAFETY_MAX_FRAME_SIZE < unat (io_len tx) then linkd_tx K strerror werr e ws s
             else let data = take (unat (io_len tx)) (io_data tx);
                      hdr = link_header data;
                      note = (\<lambda>kind detail. \<lparr>ll_kind = kind, ll_frame_type = link_frame_type_name (frame_type hdr),
                         ll_seq = uint (sequence_id hdr), ll_bytes = unat (io_len tx), ll_detail = detail\<rparr>)
                  in case uart_write_all w data of None \<Rightarrow> None
                     | Some (ok, taken) \<Rightarrow>
                         let s = s\<lparr>ld_uart_out := ld_uart_out s @ taken\<rparr>
                         in linkd_tx K strerror werr e ws (link_note
                              (if ok then note ''pop_tx_uart'' [] else note ''uart_tx_failed'' (strerror werr)) s)))"

declare linkd_tx.simps [simp del]

datatype poll_ret = Poll_EINTR | Poll_error | Poll_revents bool

record link_round =
  lr_running :: bool
  lr_elapsed :: int
  lr_poll :: poll_ret
  lr_reads :: "uart_read_ret list"
  lr_writes :: "uart_write_ret list list"

text \<open>The main loop over the iterations to come: the return code and the state, \<open>None\<close> while it runs.\<close>

fun linkd_loop :: "(safety_fifo_slot, 'q) kfifo_ops \<Rightarrow> (errno \<Rightarrow> string) \<Rightarrow> errno \<Rightarrow> ('q safety_copro_dev \<Rightarrow> kenv) \<Rightarrow> u32 \<Rightarrow> link_round list
    \<Rightarrow> 'q linkd \<Rightarrow> (int \<times> 'q linkd) option" where
  "linkd_loop K strerror werr e duration_ms [] s = None"
| "linkd_loop K strerror werr e duration_ms (r # rs) s =
     (if \<not> lr_running r then Some (0, s)
      else if 0 < duration_ms \<and> uint duration_ms \<le> lr_elapsed r then Some (0, s)
      else case lr_poll r of
        Poll_EINTR \<Rightarrow> linkd_loop K strerror werr e duration_ms rs s
      | Poll_error \<Rightarrow> Some (1, s)
      | Poll_revents pollin \<Rightarrow>
          (case (if pollin then linkd_rx K strerror e (lr_reads r) s else Some (Goes_on, s)) of
             None \<Rightarrow> None
           | Some (Returns rc, s) \<Rightarrow> Some (rc, s)
           | Some (Goes_on, s) \<Rightarrow>
               (case linkd_tx K strerror werr e (lr_writes r) s of None \<Rightarrow> None
                | Some s \<Rightarrow> linkd_loop K strerror werr e duration_ms rs s)))"

text \<open>\<open>main\<close> up to the loop: which of its steps succeed.\<close>

record link_setup =
  ls_mkdir :: mkdir_ret
  ls_report :: bool
  ls_uart :: bool
  ls_raw :: bool
  ls_device :: bool

definition linkd_main :: "(safety_fifo_slot, 'q) kfifo_ops \<Rightarrow> (errno \<Rightarrow> string) \<Rightarrow> errno \<Rightarrow> ('q safety_copro_dev \<Rightarrow> kenv) \<Rightarrow> string list \<Rightarrow> link_setup
    \<Rightarrow> link_round list \<Rightarrow> 'q safety_copro_dev \<Rightarrow> (int cmdline \<times> 'q linkd) option" where
  "linkd_main K strerror werr e argv su rounds dev =
     (let s = \<lparr>ld_framer = [], ld_dev = dev, ld_uart_out = [], ld_report = []\<rparr> in
      case link_parse_args link_default_args argv of
        Usage_error \<Rightarrow> Some (Parsed 2, s)
      | Stoul_throws \<Rightarrow> Some (Stoul_throws, s)
      | Help \<Rightarrow> Some (Parsed 0, s)
      | Parsed a \<Rightarrow>
          if \<not> make_report_dir (ls_mkdir su) then Some (Parsed 1, s)
          else if \<not> ls_report su then Some (Parsed 1, s)
          else if \<not> ls_uart su then Some (Parsed 1, s)
          else if \<not> ls_raw su then Some (Parsed 1, s)
          else if \<not> ls_device su then Some (Parsed 1, s)
          else map_option (\<lambda>(rc, s). (Parsed rc, s)) (linkd_loop K strerror werr e (la_duration_ms a) rounds s))"

section \<open>Lemmas\<close>

lemma uart_write_prefix:
  "uart_write_all rs data = Some (ok, taken) \<Longrightarrow> (\<exists>n. taken = take n data) \<and> (ok \<longrightarrow> taken = data)"
proof (induction rs arbitrary: data taken)
  case Nil
  then show ?case by (subst (asm) uart_write_all.simps) (simp split: if_splits)
next
  case (Cons r rs)
  show ?case
  proof (cases "data = []")
    case True
    then show ?thesis using Cons.prems by (subst (asm) uart_write_all.simps) simp
  next
    case False
    note p = Cons.prems [unfolded uart_write_all.simps [of "r # rs"]]
    show ?thesis
    proof (cases r)
      case (UW_wrote n)
      with p False obtain t where t: "uart_write_all rs (drop n data) = Some (ok, t)" "taken = take n data @ t" by auto
      then obtain m where "t = take m (drop n data)" "ok \<longrightarrow> t = drop n data" using Cons.IH by blast
      with t(2) show ?thesis by (metis append_take_drop_id take_add)
    qed (use p False Cons.IH in \<open>auto intro: exI [of _ 0]\<close>)
  qed
qed

lemma unat_len32: "n \<le> SAFETY_MAX_FRAME_SIZE \<Longrightarrow> unat (of_nat n :: u32) = n"
  by (simp add: proto_const unat_of_nat)

text \<open>The daemon's push is the driver's receive path.\<close>

lemma push_rx_queue:
  assumes "f \<noteq> []" and "length f \<le> SAFETY_MAX_FRAME_SIZE"
  shows "push_rx_frame K e f dev = queue_rx_from_linkd K e f (length f) dev"
proof -
  have "take (length f) (memcpy_at (replicate SAFETY_MAX_FRAME_SIZE 0) 0 f) = f" by (simp add: memcpy_at_def)
  then have "queue_rx_from_linkd K e (memcpy_at (replicate SAFETY_MAX_FRAME_SIZE 0) 0 f) (length f) dev
      = queue_rx_from_linkd K e f (length f) dev"
    using queue_rx_take [of K e "memcpy_at (replicate SAFETY_MAX_FRAME_SIZE 0) 0 f" "length f" dev] by simp
  then show ?thesis using assms
    by (simp add: push_rx_frame_def safety_ioctl_def ioc_cmd_defs ioc_push_rx_frame_def unat_len32 Let_def
        split: prod.split sum.split)
qed

context driver
begin

lemma pop_tx_link:
  assumes "dinv dev"
  obtains (empty) "elems (tx_fifo dev) = []" "pop_tx_frame K e dev = (Inl EAGAIN, dev)"
  | (frame) sl ss d where "elems (tx_fifo dev) = sl # ss" "elems (tx_fifo d) = ss" "dinv d" "rx_fifo d = rx_fifo dev"
      "pop_tx_frame K e dev = (Inr \<lparr>io_len = ucast (slot_len sl), io_data =
         memcpy_at (replicate SAFETY_MAX_FRAME_SIZE 0) 0 (take (unat (slot_len sl)) (slot_data sl))\<rparr>, d)"
      "slot_len sl \<noteq> 0" "unat (slot_len sl) = length (slot_data sl)" "length (slot_data sl) \<le> SAFETY_MAX_FRAME_SIZE"
proof (rule pop_tx_cases [of dev])
  show "wf (tx_fifo dev)" using assms by (simp add: driver_inv_def)
next
  assume "elems (tx_fifo dev) = []" "safety_fifo_pop_tx_frame K dev = (0, None, dev)"
  then show thesis
    by (intro empty) (simp_all add: pop_tx_frame_def safety_ioctl_def ioc_cmd_defs ioc_pop_tx_frame_def Let_def)
next
  fix sl ss q'
  assume *: "elems (tx_fifo dev) = sl # ss" "elems q' = ss"
    "safety_fifo_pop_tx_frame K dev = (slot_len sl, Some sl, dev\<lparr>tx_fifo := q'\<rparr>)"
  then have ok: "tx_slot_ok sl" using assms by (simp add: driver_inv_def)
  then have ne: "slot_len sl \<noteq> 0" using validate_OK_D(1) [of "slot_data sl"] by (auto simp: tx_slot_ok_def)
  have "dinv (dev\<lparr>tx_fifo := q'\<rparr>)" using pop_inv(2) [OF assms] *(3) by simp
  then show thesis
    by (intro frame [of sl ss "dev\<lparr>tx_fifo := q'\<rparr>"])
      (use * ok ne in \<open>simp_all add: tx_slot_ok_def pop_tx_frame_def safety_ioctl_def ioc_cmd_defs ioc_pop_tx_frame_def Let_def\<close>)
qed

end

lemma link_note_fields [simp]:
  "ld_dev (link_note l s) = ld_dev s" "ld_framer (link_note l s) = ld_framer s"
  "ld_uart_out (link_note l s) = ld_uart_out s" "ld_report (link_note l s) = ld_report s @ [l]"
  by (simp_all add: link_note_def)

lemma linkd_push_framer:
  "linkd_push K se e f (s\<lparr>ld_framer := k\<rparr>) = (linkd_push K se e f s)\<lparr>ld_framer := k\<rparr>"
  "ld_framer (linkd_push K se e f s) = ld_framer s" "ld_uart_out (linkd_push K se e f s) = ld_uart_out s"
  by (simp_all add: linkd_push_def link_note_def Let_def split: prod.split sum.split)

lemma linkd_pushes_framer:
  "fold (linkd_push K se e) fs (s\<lparr>ld_framer := k\<rparr>) = (fold (linkd_push K se e) fs s)\<lparr>ld_framer := k\<rparr>"
  "ld_framer (fold (linkd_push K se e) fs s) = ld_framer s"
  by (induction fs arbitrary: s) (simp_all add: linkd_push_framer)

text \<open>Reads until the UART has nothing more: the frames of all of them are pushed, in order.\<close>

lemma linkd_rx_pieces:
  assumes "\<forall>d\<in>set ds. d \<noteq> []"
  shows "linkd_rx K se e (map UR_bytes ds @ [UR_EAGAIN]) s = Some (Goes_on,
    (fold (linkd_push K se e) (fst (feed_pieces link_feed (ld_framer s) ds)) s)\<lparr>ld_framer := snd (feed_pieces link_feed (ld_framer s) ds)\<rparr>)"
  using assms
proof (induction ds arbitrary: s)
  case (Cons d ds)
  then show ?case by (simp add: split_beta Let_def linkd_pushes_framer)
qed simp

definition slot_of :: "bytes \<Rightarrow> safety_fifo_slot" where
  "slot_of f = \<lparr>slot_len = of_nat (length f), slot_data = f\<rparr>"

definition is_heartbeat :: "bytes \<Rightarrow> bool" where
  "is_heartbeat f \<longleftrightarrow> safety_frame_validate f = SAFETY_VALIDATE_OK \<and> rx_type f = SAFETY_FRAME_HEARTBEAT"

definition rx_entry :: "bytes \<Rightarrow> link_log" where
  "rx_entry f = \<lparr>ll_kind = ''uart_rx_push'', ll_frame_type = link_frame_type_name (rx_type f), ll_seq = uint (rx_seq f),
     ll_bytes = length f, ll_detail = []\<rparr>"

context driver
begin

lemma linkd_push_room:
  fixes e and se
  assumes "dinv (ld_dev s)" and "rx_header_fits f" and "length (elems (rx_fifo (ld_dev s))) < unat (fifo_depth (ld_dev s))"
  defines "s' \<equiv> linkd_push K se e f s"
  shows "dinv (ld_dev s') \<and> elems (rx_fifo (ld_dev s')) = elems (rx_fifo (ld_dev s)) @ [slot_of f]
    \<and> tx_fifo (ld_dev s') = tx_fifo (ld_dev s) \<and> fifo_depth (ld_dev s') = fifo_depth (ld_dev s)
    \<and> heartbeat_count (ld_dev s') = heartbeat_count (ld_dev s) + (if is_heartbeat f then 1 else 0)
    \<and> state (ld_dev s') = (if is_heartbeat f then SAFETY_LINK_HB_OK else state (ld_dev s))
    \<and> ld_report s' = ld_report s @ [rx_entry f]"
proof (rule queue_rx_room [OF assms(1-3), where e = "e (ld_dev s)"])
  have l: "16 \<le> length f" "length f \<le> SAFETY_MAX_FRAME_SIZE" "f \<noteq> []" using rx_header_fits_length [OF assms(2)] by auto
  fix d qlen
  assume q: "queue_rx_from_linkd K (e (ld_dev s)) f (length f) (ld_dev s) =
      (Inr (), if safety_frame_validate f = SAFETY_VALIDATE_OK \<and> rx_type f = SAFETY_FRAME_HEARTBEAT
          then safety_timer_rearm (d\<lparr>heartbeat_count := heartbeat_count d + 1, state := SAFETY_LINK_HB_OK\<rparr>) else d)"
    and d: "dinv d" "elems (rx_fifo d) = elems (rx_fifo (ld_dev s)) @ [\<lparr>slot_len = of_nat (length f), slot_data = f\<rparr>]"
      "tx_fifo d = tx_fifo (ld_dev s)" "state d = state (ld_dev s)" "heartbeat_count d = heartbeat_count (ld_dev s)"
  have "unat (fifo_depth d) = unat (fifo_depth (ld_dev s))" using d(1,3) assms(1) by (simp add: driver_inv_def)
  then have "fifo_depth d = fifo_depth (ld_dev s)" by (simp add: word_unat_eq_iff)
  then show ?thesis
    using d q l by (auto simp: s'_def linkd_push_def push_rx_queue slot_of_def is_heartbeat_def rx_entry_def link_header_def
        safety_timer_rearm_def kcall_def driver_inv_def timeline_wf_def proto_const Let_def)
qed

lemma linkd_pushes_room:
  fixes e and se
  assumes "dinv (ld_dev s)" and "\<forall>f\<in>set fs. rx_header_fits f"
    and "length (elems (rx_fifo (ld_dev s))) + length fs \<le> unat (fifo_depth (ld_dev s))"
  defines "s' \<equiv> fold (linkd_push K se e) fs s"
  shows "dinv (ld_dev s') \<and> elems (rx_fifo (ld_dev s')) = elems (rx_fifo (ld_dev s)) @ map slot_of fs
    \<and> tx_fifo (ld_dev s') = tx_fifo (ld_dev s)
    \<and> heartbeat_count (ld_dev s') = heartbeat_count (ld_dev s) + of_nat (length (filter is_heartbeat fs))
    \<and> state (ld_dev s') = (if \<exists>f\<in>set fs. is_heartbeat f then SAFETY_LINK_HB_OK else state (ld_dev s))
    \<and> ld_report s' = ld_report s @ map rx_entry fs"
  using assms(1-3) unfolding s'_def
proof (induction fs arbitrary: s)
  case (Cons f fs)
  have "length (elems (rx_fifo (ld_dev s))) < unat (fifo_depth (ld_dev s))" using Cons.prems(3) by simp
  note p = linkd_push_room [OF Cons.prems(1) _ this, where f = f and se = se and e = e]
  with Cons.prems have "dinv (ld_dev (linkd_push K se e f s))"
    "length (elems (rx_fifo (ld_dev (linkd_push K se e f s)))) + length fs \<le> unat (fifo_depth (ld_dev (linkd_push K se e f s)))"
    by auto
  from Cons.IH [OF this(1) _ this(2)] Cons.prems(2) p show ?case by auto
qed simp

end

context driver
begin

lemma linkd_tx_drains:
  assumes "dinv (ld_dev s)" and "length (elems (tx_fifo (ld_dev s))) = length rs" and "length rs \<le> length ws"
    and "\<And>i. i < length rs \<Longrightarrow> uart_write_all (ws ! i) (slot_data (elems (tx_fifo (ld_dev s)) ! i)) = Some (rs ! i)"
  shows "\<exists>s'. linkd_tx K se werr e ws s = Some s' \<and> dinv (ld_dev s') \<and> elems (tx_fifo (ld_dev s')) = []
    \<and> rx_fifo (ld_dev s') = rx_fifo (ld_dev s) \<and> ld_uart_out s' = ld_uart_out s @ concat (map snd rs)"
  using assms
proof (induction rs arbitrary: s ws)
  case Nil
  from Nil.prems(1) show ?case
    by (rule pop_tx_link [where e = "e (ld_dev s)"]) (use Nil.prems in \<open>simp_all add: linkd_tx.simps [of K se werr e ws] Let_def\<close>)
next
  case (Cons r rs)
  obtain w ws' where ws: "ws = w # ws'" using Cons.prems(3) by (cases ws) auto
  from Cons.prems(1) show ?case
  proof (cases rule: pop_tx_link [where e = "e (ld_dev s)", case_names empty frame])
    case empty
    then show ?thesis using Cons.prems(2) by simp
  next
    case (frame sl ss d)
    obtain ok taken where r: "r = (ok, taken)" by fastforce
    have w: "uart_write_all w (slot_data sl) = Some (ok, taken)" using Cons.prems(4) [of 0] frame(1) r ws by simp
    have n: "unat (ucast (slot_len sl) :: u32) = length (slot_data sl)" "(ucast (slot_len sl) :: u32) \<noteq> 0"
    proof -
      have l: "slot_len sl = of_nat (length (slot_data sl))" by (simp add: frame(7) [symmetric])
      show u: "unat (ucast (slot_len sl) :: u32) = length (slot_data sl)" unfolding l using frame(8) by simp
      show "(ucast (slot_len sl) :: u32) \<noteq> 0" using u frame(6,7) by (metis unsigned_0 unsigned_eq_0_iff)
    qed
    have d: "take (length (slot_data sl)) (memcpy_at (replicate SAFETY_MAX_FRAME_SIZE 0) 0 (slot_data sl)) = slot_data sl"
      by (simp add: memcpy_at_def)
    let ?note = "\<lambda>kind detail. \<lparr>ll_kind = kind, ll_frame_type = link_frame_type_name (frame_type (link_header (slot_data sl))),
       ll_seq = uint (sequence_id (link_header (slot_data sl))), ll_bytes = length (slot_data sl), ll_detail = detail\<rparr>"
    let ?s = "link_note (if ok then ?note ''pop_tx_uart'' [] else ?note ''uart_tx_failed'' (se werr))
       (s\<lparr>ld_dev := d, ld_uart_out := ld_uart_out s @ taken\<rparr>)"
    have step: "linkd_tx K se werr e ws s = linkd_tx K se werr e ws' ?s"
      unfolding ws using frame(5-8) w n d by (subst linkd_tx.simps) (simp add: Let_def)
    have "\<exists>s'. linkd_tx K se werr e ws' ?s = Some s' \<and> dinv (ld_dev s') \<and> elems (tx_fifo (ld_dev s')) = []
        \<and> rx_fifo (ld_dev s') = rx_fifo (ld_dev ?s) \<and> ld_uart_out s' = ld_uart_out ?s @ concat (map snd rs)"
    proof (rule Cons.IH)
      show "uart_write_all (ws' ! i) (slot_data (elems (tx_fifo (ld_dev ?s)) ! i)) = Some (rs ! i)" if "i < length rs" for i
        using Cons.prems(4) [of "Suc i"] that frame(1,2) ws by simp
    qed (use frame Cons.prems(2,3) ws in simp_all)
    then show ?thesis using step frame(4) r by auto
  qed
qed

end

text \<open>One frame on an empty RX queue, from the UART to a reader of the device.\<close>

lemma linkd_one_frame:
  assumes "kfifo K elems qwf" and "driver_inv K elems qwf (ld_dev l)" and "ld_framer l = []"
    and "elems (rx_fifo (ld_dev l)) = []" and "0 < fifo_depth (ld_dev l)"
    and "header_ok h p" and "concat ds = wire_frame h p" and "\<forall>d\<in>set ds. d \<noteq> []"
  obtains l' d' where "linkd_rx K strerror e (map UR_bytes ds @ [UR_EAGAIN]) l = Some (Goes_on, l')"
    "heartbeat_count (ld_dev l') = heartbeat_count (ld_dev l) + (if is_heartbeat (wire_frame h p) then 1 else 0)"
    "state (ld_dev l') = (if is_heartbeat (wire_frame h p) then SAFETY_LINK_HB_OK else state (ld_dev l))"
    "safety_read K nonblock waits 1024 True (ld_dev l') = Some (Inr (wire_frame h p), d')"
proof -
  note drv = driver_kfifo [OF assms(1)]
  let ?f = "wire_frame h p"
  have fits: "rx_header_fits ?f" using assms(6) by (auto simp: rx_header_fits_def header_ok_def proto_const Let_def)
  have feed: "feed_pieces link_feed [] ds = ([?f], [])"
    using lnkf.run_frame [OF assms(6), of "[]"] assms(7) by (simp add: link_pieces lnk.run_Nil)
  have room: "length (elems (rx_fifo (ld_dev l))) + length [?f] \<le> unat (fifo_depth (ld_dev l))"
    using assms(4,5) by (simp add: word_less_nat_alt Suc_le_eq)
  define l' where "l' = (linkd_push K strerror e ?f l)\<lparr>ld_framer := []\<rparr>"
  have rx: "linkd_rx K strerror e (map UR_bytes ds @ [UR_EAGAIN]) l = Some (Goes_on, l')"
    using linkd_rx_pieces [OF assms(8), of K strerror e l] by (simp add: assms(3) feed l'_def)
  have l': "driver_inv K elems qwf (ld_dev l') \<and> elems (rx_fifo (ld_dev l')) = [slot_of ?f]
      \<and> heartbeat_count (ld_dev l') = heartbeat_count (ld_dev l) + (if is_heartbeat ?f then 1 else 0)
      \<and> state (ld_dev l') = (if is_heartbeat ?f then SAFETY_LINK_HB_OK else state (ld_dev l))"
    using driver.linkd_pushes_room [OF drv assms(2) _ room, of strerror e] fits assms(4) by (simp add: l'_def)
  have sl: "slot_len (slot_of ?f) \<noteq> 0" "unat (slot_len (slot_of ?f)) = length (slot_data (slot_of ?f))" "slot_data (slot_of ?f) = ?f"
    using driver.rx_slot_nonempty [OF drv, of "ld_dev l'"] l' by (simp_all add: slot_of_def)
  have "qwf (rx_fifo (ld_dev l'))" using l' by (simp add: driver_inv_def)
  then obtain d' where "safety_read_loop K nonblock waits (ld_dev l') = Some (Inr (slot_len (slot_of ?f), slot_of ?f), d')"
    using driver.read_head [OF drv] l' sl(1) by metis
  moreover have "length ?f \<le> 1024" using rx_header_fits_length [OF fits] by (simp add: proto_const)
  ultimately have "safety_read K nonblock waits 1024 True (ld_dev l') = Some (Inr ?f, d')"
    using sl by (simp add: safety_read_def)
  then show thesis using that rx l' by blast
qed

text \<open>One frame written to an empty TX queue, to the UART.\<close>

lemma linkd_one_command:
  assumes "kfifo K elems qwf" and "driver_inv K elems qwf dev" and "elems (tx_fifo dev) = []" and "0 < fifo_depth dev"
    and "header_ok h p" and "uart_write_all ws (wire_frame h p) = Some (True, t)"
  obtains d l' where "safety_write K ke (Some (wire_frame h p)) (length (wire_frame h p)) dev = (Inr (length (wire_frame h p)), d)"
    "linkd_tx K strerror werr e [ws] (l\<lparr>ld_dev := d\<rparr>) = Some l'" "ld_uart_out l' = ld_uart_out l @ wire_frame h p"
proof -
  note drv = driver_kfifo [OF assms(1)]
  let ?f = "wire_frame h p"
  have v: "safety_frame_validate ?f = SAFETY_VALIDATE_OK" "16 \<le> length ?f" "length ?f \<le> SAFETY_MAX_FRAME_SIZE"
    using assms(5) by (auto simp: header_ok_def proto_const)
  have "length (elems (tx_fifo dev)) < unat (fifo_depth dev)" using assms(3,4) by (simp add: word_less_nat_alt)
  with driver.write_cases [OF drv assms(2) refl v(2,3,1), of ke] assms(3) obtain d where
    d: "safety_write K ke (Some ?f) (length ?f) dev = (Inr (length ?f), d)" "driver_inv K elems qwf d"
      "elems (tx_fifo d) = [\<lparr>slot_len = of_nat (length ?f), slot_data = ?f\<rparr>]" by auto
  have "uart_write_all ws ?f = Some (True, ?f)" using assms(6) uart_write_prefix [OF assms(6)] by simp
  then have "\<exists>l'. linkd_tx K strerror werr e [ws] (l\<lparr>ld_dev := d\<rparr>) = Some l' \<and> ld_uart_out l' = ld_uart_out l @ ?f"
    using driver.linkd_tx_drains [OF drv, of "l\<lparr>ld_dev := d\<rparr>" "[(True, ?f)]" "[ws]" strerror werr e] d(2,3) by auto
  with d(1) that show thesis by blast
qed

section \<open>Properties\<close>

text \<open>UART to driver.  With enough room in the RX queue, the bytes of any frames with noise between
  them, however the reads cut them, end up as exactly these frames in the RX queue, in order and each
  in a slot of its own; the heartbeat counter grows by the number of heartbeats, and the link is up if
  there was one.  Nothing is left in the framer, and the report has one entry for each frame.\<close>

theorem uart_to_driver:
  assumes "kfifo K elems qwf" and "driver_inv K elems qwf (ld_dev s)" and "ld_framer s = []"
    and "\<forall>(z, h, p) \<in> set xs. no_magic z \<and> header_ok h p"
    and "concat ds = noisy_stream xs" and "\<forall>d\<in>set ds. d \<noteq> []"
    and "length (elems (rx_fifo (ld_dev s))) + length xs \<le> unat (fifo_depth (ld_dev s))"
  defines "fs \<equiv> map (\<lambda>(z, h, p). wire_frame h p) xs"
  shows "\<exists>s'. linkd_rx K strerror e (map UR_bytes ds @ [UR_EAGAIN]) s = Some (Goes_on, s')
    \<and> elems (rx_fifo (ld_dev s')) = elems (rx_fifo (ld_dev s)) @ map slot_of fs
    \<and> tx_fifo (ld_dev s') = tx_fifo (ld_dev s) \<and> ld_framer s' = []
    \<and> heartbeat_count (ld_dev s') = heartbeat_count (ld_dev s) + of_nat (length (filter is_heartbeat fs))
    \<and> state (ld_dev s') = (if \<exists>f\<in>set fs. is_heartbeat f then SAFETY_LINK_HB_OK else state (ld_dev s))
    \<and> ld_report s' = ld_report s @ map rx_entry fs"
proof -
  note drv = driver_kfifo [OF assms(1)]
  have feed: "feed_pieces link_feed [] ds = (fs, [])"
    using lnkf.run_stream [OF assms(4), of "[]"] assms(5) by (simp add: fs_def link_pieces lnk.run_Nil)
  have fits: "\<forall>f\<in>set fs. rx_header_fits f"
    using assms(4) by (auto simp: fs_def rx_header_fits_def header_ok_def proto_const Let_def)
  have "length (elems (rx_fifo (ld_dev s))) + length fs \<le> unat (fifo_depth (ld_dev s))" using assms(7) by (simp add: fs_def)
  from driver.linkd_pushes_room [OF drv assms(2) fits this, of strerror e] linkd_rx_pieces [OF assms(6), of K strerror e s] show ?thesis
    by (simp add: assms(3) feed)
qed

theorem uart_to_driver_witness:
  "let hb = wire_frame (safety_frame_init SAFETY_FRAME_HEARTBEAT 5 0 9) [];
       s = \<lparr>ld_framer = [], ld_dev = ready_dev (2, []) (2, []) 2 1 350, ld_uart_out = [], ld_report = []\<rparr>
   in \<exists>s'. linkd_rx bounded_list (\<lambda>_. []) (\<lambda>_. kenv0) [UR_bytes ([1, 2] @ take 3 hb), UR_bytes (drop 3 hb), UR_EAGAIN] s
        = Some (Goes_on, s') \<and> snd (rx_fifo (ld_dev s')) = [slot_of hb] \<and> state (ld_dev s') = SAFETY_LINK_HB_OK"
proof -
  let ?h = "safety_frame_init SAFETY_FRAME_HEARTBEAT 5 0 9"
  let ?hb = "wire_frame ?h []"
  let ?s = "\<lparr>ld_framer = [], ld_dev = ready_dev (2, []) (2, []) 2 1 350, ld_uart_out = [], ld_report = []\<rparr>
    :: safety_fifo_slot blist linkd"
  have ok: "header_ok ?h []" by (simp add: header_ok_def)
  then have "is_heartbeat ?hb" by (simp add: is_heartbeat_def)
  moreover have "no_magic [1, 2]" by simp
  moreover have "snd (rx_fifo (ld_dev ?s)) = []" "unat (fifo_depth (ld_dev ?s)) = 2" by (simp_all add: ready_dev_def kzalloc_dev_def)
  ultimately show ?thesis
    using uart_to_driver [OF kfifo_bounded_list, of ?s "[([1, 2], ?h, [])]" "[[1, 2] @ take 3 ?hb, drop 3 ?hb]" "\<lambda>_. []" "\<lambda>_. kenv0"]
      demo_dev_inv ok
    by (auto simp: noisy_stream_def Let_def simp del: linkd_rx.simps)
qed

text \<open>Driver to UART.  Given the returns of the writes for each queued frame, the writing part of an
  iteration ends, empties the TX queue in order and gives the UART, for each frame, what its writes
  took: the whole frame if they did not fail, a beginning of it if they did.  The RX queue is not
  touched.\<close>

theorem driver_to_uart:
  assumes "kfifo K elems qwf" and "driver_inv K elems qwf (ld_dev s)"
    and "length (elems (tx_fifo (ld_dev s))) = length rs" and "length rs \<le> length ws"
    and "\<forall>i < length rs. uart_write_all (ws ! i) (slot_data (elems (tx_fifo (ld_dev s)) ! i)) = Some (rs ! i)"
  shows "(\<exists>s'. linkd_tx K strerror werr e ws s = Some s' \<and> elems (tx_fifo (ld_dev s')) = []
      \<and> rx_fifo (ld_dev s') = rx_fifo (ld_dev s) \<and> ld_uart_out s' = ld_uart_out s @ concat (map snd rs))
    \<and> (\<forall>i < length rs. let d = slot_data (elems (tx_fifo (ld_dev s)) ! i) in
         (\<exists>n. snd (rs ! i) = take n d) \<and> (fst (rs ! i) \<longrightarrow> snd (rs ! i) = d))"
proof -
  have "(\<exists>n. snd (rs ! i) = take n (slot_data (elems (tx_fifo (ld_dev s)) ! i)))
      \<and> (fst (rs ! i) \<longrightarrow> snd (rs ! i) = slot_data (elems (tx_fifo (ld_dev s)) ! i))" if "i < length rs" for i
    using uart_write_prefix assms(5) that by (metis prod.collapse)
  moreover have "\<exists>s'. linkd_tx K strerror werr e ws s = Some s' \<and> elems (tx_fifo (ld_dev s')) = []
      \<and> rx_fifo (ld_dev s') = rx_fifo (ld_dev s) \<and> ld_uart_out s' = ld_uart_out s @ concat (map snd rs)"
    using driver.linkd_tx_drains [OF driver_kfifo [OF assms(1)] assms(2-4), of strerror werr e] assms(5) by auto
  ultimately show ?thesis by (simp add: Let_def)
qed

theorem driver_to_uart_witness:
  "let f = wire_frame (safety_frame_init SAFETY_FRAME_COMMAND 1 0 2) [];
       s = \<lparr>ld_framer = [], ld_dev = snd (safety_write bounded_list kenv0 (Some f) 16 (ready_dev (2, []) (2, []) 2 1 350)),
             ld_uart_out = [], ld_report = []\<rparr>
   in \<exists>s'. linkd_tx bounded_list (\<lambda>_. []) EIO (\<lambda>_. kenv0) [[UW_wrote 6, UW_EAGAIN, UW_wrote 10]] s = Some s' \<and> ld_uart_out s' = f"
proof -
  let ?f = "wire_frame (safety_frame_init SAFETY_FRAME_COMMAND 1 0 2) []"
  let ?d0 = "ready_dev (2, []) (2, []) 2 1 350 :: safety_fifo_slot blist safety_copro_dev"
  let ?s = "\<lparr>ld_framer = [], ld_dev = snd (safety_write bounded_list kenv0 (Some ?f) 16 ?d0), ld_uart_out = [], ld_report = []\<rparr>"
  have ok: "safety_frame_validate ?f = SAFETY_VALIDATE_OK" by (simp add: header_ok_def)
  have q: "snd (tx_fifo ?d0) = []" "length (snd (tx_fifo ?d0)) < unat (fifo_depth ?d0)" by (simp_all add: ready_dev_def kzalloc_dev_def)
  have inv: "driver_inv bounded_list snd blist_wf (ld_dev ?s)" "snd (tx_fifo (ld_dev ?s)) = [\<lparr>slot_len = 16, slot_data = ?f\<rparr>]"
    using drv.write_cases [OF demo_dev_inv, of ?f 16 kenv0] ok q by (auto simp: proto_const split: if_splits)
  have "drop 6 ?f \<noteq> []" by simp
  then have "uart_write_all [UW_wrote 6, UW_EAGAIN, UW_wrote 10] ?f = Some (True, ?f)"
    by (simp add: uart_write_all.simps take_add [symmetric])
  then show ?thesis
    using driver_to_uart [OF kfifo_bounded_list inv(1), of "[(True, ?f)]" "[[UW_wrote 6, UW_EAGAIN, UW_wrote 10]]"
        "\<lambda>_. []" EIO "\<lambda>_. kenv0"] inv(2) by (auto simp: Let_def)
qed

end
