(* ===== verification/Bridge.thy ===== *)
theory Bridge
  imports Framer Crc
begin

text \<open>
  The host side test bridge (\<open>bridge/pty_bridge.cpp\<close>, \<open>bridge/fault_injector.cpp\<close>): it cuts the bytes of
  each direction into pieces, applies the configured faults to each piece, and passes it on.  What the
  system calls return and the clock are arguments.
\<close>

section \<open>Definitions\<close>

subsection \<open>Fault injector\<close>

record InjectorConfig =
  drop_every :: int
  corrupt_every :: int
  inj_delay_ms :: int
  drop_type :: int
  log_path :: string

definition default_config :: InjectorConfig where
  "default_config = \<lparr>drop_every = 0, corrupt_every = 0, inj_delay_ms = 0, drop_type = -1, log_path = []\<rparr>"

definition bridge_type_name :: "u8 \<Rightarrow> string" where
  "bridge_type_name t =
     (if t = SAFETY_FRAME_HEARTBEAT then ''HEARTBEAT'' else if t = SAFETY_FRAME_TELEMETRY then ''TELEMETRY''
      else if t = SAFETY_FRAME_FAULT_EVENT then ''FAULT_EVENT'' else if t = SAFETY_FRAME_COMMAND then ''COMMAND''
      else if t = SAFETY_FRAME_ACK then ''ACK'' else if t = SAFETY_FRAME_NACK then ''NACK''
      else if t = SAFETY_FRAME_RECOVERY_REPORT then ''RECOVERY_REPORT'' else ''UNKNOWN'')"

text \<open>The injector: its configuration, the number of pieces so far, and the log, \<open>None\<close> if it is not open.\<close>

record FaultInjector =
  cfg :: InjectorConfig
  frame_counter :: int
  inj_log :: "string list option"

definition injector_new :: "InjectorConfig \<Rightarrow> bool \<Rightarrow> FaultInjector" where
  "injector_new c open_ok = \<lparr>cfg = c, frame_counter = 0,
     inj_log = (if log_path c \<noteq> [] \<and> open_ok then Some [''ts_ms,dir,type,seq,len,action''] else None)\<rparr>"

definition log_line :: "int \<Rightarrow> string \<Rightarrow> u8 \<Rightarrow> u16 \<Rightarrow> nat \<Rightarrow> string \<Rightarrow> FaultInjector \<Rightarrow> FaultInjector" where
  "log_line ts dir ty seq len action j = j\<lparr>inj_log := map_option (\<lambda>ls. ls @
     [int_to_string ts @ '','' @ dir @ '','' @ bridge_type_name ty @ '','' @ nat_to_string (unat seq)
      @ '','' @ nat_to_string len @ '','' @ action]) (inj_log j)\<rparr>"

text \<open>\<open>FaultInjector::process\<close> at a time: whether to pass the piece on, the piece and the delay.\<close>

definition process :: "int \<Rightarrow> string \<Rightarrow> bytes \<Rightarrow> FaultInjector \<Rightarrow> (bool \<times> bytes \<times> int) \<times> FaultInjector" where
  "process ts dir frame j =
     (let j = j\<lparr>frame_counter := frame_counter j + 1\<rparr>;
          hdr = (if SAFETY_HEADER_SIZE \<le> length frame then header_of_bytes frame
                 else header_of_bytes (replicate SAFETY_HEADER_SIZE 0));
          ty = frame_type hdr; seq = sequence_id hdr;
          type_match = (drop_type (cfg j) < 0 \<or> ty = of_int (drop_type (cfg j)))
      in if 0 < drop_every (cfg j) \<and> type_match \<and> frame_counter j mod drop_every (cfg j) = 0
         then ((False, frame, 0), log_line ts dir ty seq (length frame) ''DROP'' j)
         else let action = ''FORWARD'';
                  (frame, action) = (if 0 < corrupt_every (cfg j) \<and> frame_counter j mod corrupt_every (cfg j) = 0
                       \<and> SAFETY_HEADER_SIZE \<le> length frame
                     then (frame[12 := frame ! 12 XOR 0xFF], ''CORRUPT'') else (frame, action));
                  (delay, action) = (if 0 < inj_delay_ms (cfg j)
                     then (inj_delay_ms (cfg j), if action = ''FORWARD'' then ''DELAY'' else action) else (0, action))
              in ((True, frame, delay), log_line ts dir ty seq (length frame) action j))"

subsection \<open>Forwarding\<close>

datatype pty_write_ret = PW_wrote nat | PW_EINTR | PW_error

text \<open>The write loop: what the other side took; an error gives the piece up.  \<open>None\<close> while it runs.\<close>

fun pty_write :: "pty_write_ret list \<Rightarrow> bytes \<Rightarrow> bytes option" where
  "pty_write rs data =
     (if data = [] then Some []
      else case rs of [] \<Rightarrow> None
         | PW_wrote n # rs \<Rightarrow> map_option (\<lambda>t. take n data @ t) (pty_write rs (drop n data))
         | PW_EINTR # rs \<Rightarrow> pty_write rs data
         | PW_error # rs \<Rightarrow> Some [])"

declare pty_write.simps [simp del]

text \<open>The loop over the pieces, each with its time and the returns of its writes: what was written and
  the delays slept.\<close>

fun forward_pieces :: "string \<Rightarrow> (int \<times> pty_write_ret list) list \<Rightarrow> bytes list \<Rightarrow> FaultInjector
    \<Rightarrow> ((bytes \<times> int list) \<times> FaultInjector) option" where
  "forward_pieces dir env [] j = Some (([], []), j)"
| "forward_pieces dir env (fr # frs) j =
     (case env of [] \<Rightarrow> None
      | (ts, ws) # env \<Rightarrow>
          let ((fwd, fr, delay), j) = process ts dir fr j in
          if \<not> fwd then forward_pieces dir env frs j
          else case pty_write ws fr of None \<Rightarrow> None
             | Some taken \<Rightarrow> map_option (\<lambda>((out, ds), j). ((taken @ out, (if 0 < delay then [delay] else []) @ ds), j))
                 (forward_pieces dir env frs j))"

text \<open>\<open>forward\<close>: \<open>None\<close> as the bytes read stands for an error or the end of the file.\<close>

definition forward :: "string \<Rightarrow> bytes option \<Rightarrow> (int \<times> pty_write_ret list) list \<Rightarrow> bytes \<Rightarrow> FaultInjector
    \<Rightarrow> ((bytes \<times> int list) \<times> bytes \<times> FaultInjector) option" where
  "forward dir rd env framer j =
     (case rd of None \<Rightarrow> Some (([], []), framer, j)
      | Some bs \<Rightarrow>
          if bs = [] then Some (([], []), framer, j)
          else let (frames, kept) = byte_feed framer bs
               in map_option (\<lambda>(o1, j). (o1, kept, j)) (forward_pieces dir env frames j))"

subsection \<open>Main\<close>

record bridge_args =
  bg_cfg :: InjectorConfig
  left_path :: string
  right_path :: string
  left_name_file :: string
  right_name_file :: string

definition bridge_default_args :: bridge_args where
  "bridge_default_args = \<lparr>bg_cfg = default_config, left_path = [], right_path = [], left_name_file = [], right_name_file = []\<rparr>"

text \<open>\<open>std::atoi\<close>: \<open>strtol\<close> cut to 32 bits.\<close>

definition atoi :: "string \<Rightarrow> int" where
  "atoi v = sint (of_int (snd (strtol10 v)) :: 32 word)"

fun bridge_parse_args :: "bridge_args \<Rightarrow> string list \<Rightarrow> bridge_args cmdline" where
  "bridge_parse_args a [] = Parsed a"
| "bridge_parse_args a (opt # rest) =
     (if opt = ''--help'' \<or> opt = ''-h'' then Help
      else if opt \<notin> {''--left'', ''--right'', ''--left-name'', ''--right-name'', ''--drop'', ''--drop-type'', ''--delay-ms'',
           ''--corrupt'', ''--log''} then Usage_error
      else case rest of [] \<Rightarrow> Usage_error
      | v # rest \<Rightarrow> bridge_parse_args
          (if opt = ''--left'' then a\<lparr>left_path := v\<rparr>
           else if opt = ''--right'' then a\<lparr>right_path := v\<rparr>
           else if opt = ''--left-name'' then a\<lparr>left_name_file := v\<rparr>
           else if opt = ''--right-name'' then a\<lparr>right_name_file := v\<rparr>
           else if opt = ''--drop'' then a\<lparr>bg_cfg := (bg_cfg a)\<lparr>drop_every := atoi v\<rparr>\<rparr>
           else if opt = ''--drop-type'' then a\<lparr>bg_cfg := (bg_cfg a)\<lparr>drop_type := atoi v\<rparr>\<rparr>
           else if opt = ''--delay-ms'' then a\<lparr>bg_cfg := (bg_cfg a)\<lparr>inj_delay_ms := atoi v\<rparr>\<rparr>
           else if opt = ''--corrupt'' then a\<lparr>bg_cfg := (bg_cfg a)\<lparr>corrupt_every := atoi v\<rparr>\<rparr>
           else a\<lparr>bg_cfg := (bg_cfg a)\<lparr>log_path := v\<rparr>\<rparr>) rest)"

text \<open>\<open>make_pty\<close>: which of its calls succeed, and the name it gets.\<close>

record pty_calls =
  posix_openpt_ok :: bool
  grantpt_ok :: bool
  unlockpt_ok :: bool
  ptsname_ret :: "string option"

definition make_pty :: "pty_calls \<Rightarrow> string option" where
  "make_pty c = (if \<not> posix_openpt_ok c then None
     else if \<not> grantpt_ok c \<or> \<not> unlockpt_ok c then None
     else ptsname_ret c)"

text \<open>The endpoints: an exit code, or the two slave paths.  \<open>opens\<close> says which paths can be opened.\<close>

definition bridge_endpoints :: "bridge_args \<Rightarrow> (string \<Rightarrow> bool) \<Rightarrow> pty_calls \<Rightarrow> pty_calls \<Rightarrow> int + string \<times> string" where
  "bridge_endpoints a opens lp rp =
     (if left_path a \<noteq> [] \<or> right_path a \<noteq> [] then
        if left_path a = [] \<or> right_path a = [] then Inl 2
        else if \<not> opens (left_path a) then Inl 1
        else if \<not> opens (right_path a) then Inl 1
        else Inr (left_path a, right_path a)
      else case make_pty lp of None \<Rightarrow> Inl 1
        | Some l \<Rightarrow> (case make_pty rp of None \<Rightarrow> Inl 1 | Some r \<Rightarrow> Inr (l, r)))"

record bridge =
  injector :: FaultInjector
  framer_l2r :: bytes
  framer_r2l :: bytes
  to_left :: bytes
  to_right :: bytes

text \<open>An iteration of the main loop: the stop flag, \<open>poll\<close>, and for each readable side the read and the
  environment of its writes.\<close>

datatype bridge_poll = BP_EINTR | BP_error | BP_timeout | BP_revents bool bool

record bridge_round =
  br_run :: bool
  br_poll :: bridge_poll
  br_left :: "bytes option \<times> (int \<times> pty_write_ret list) list"
  br_right :: "bytes option \<times> (int \<times> pty_write_ret list) list"

definition forward_l2r :: "bytes option \<times> (int \<times> pty_write_ret list) list \<Rightarrow> bridge \<Rightarrow> bridge option" where
  "forward_l2r rd b = map_option (\<lambda>((out, _), kept, j). b\<lparr>injector := j, framer_l2r := kept, to_right := to_right b @ out\<rparr>)
     (forward ''L->R'' (fst rd) (snd rd) (framer_l2r b) (injector b))"

definition forward_r2l :: "bytes option \<times> (int \<times> pty_write_ret list) list \<Rightarrow> bridge \<Rightarrow> bridge option" where
  "forward_r2l rd b = map_option (\<lambda>((out, _), kept, j). b\<lparr>injector := j, framer_r2l := kept, to_left := to_left b @ out\<rparr>)
     (forward ''R->L'' (fst rd) (snd rd) (framer_r2l b) (injector b))"

fun bridge_loop :: "bridge_round list \<Rightarrow> bridge \<Rightarrow> bridge option" where
  "bridge_loop [] b = None"
| "bridge_loop (r # rs) b =
     (if \<not> br_run r then Some b
      else case br_poll r of
        BP_EINTR \<Rightarrow> bridge_loop rs b
      | BP_error \<Rightarrow> Some b
      | BP_timeout \<Rightarrow> bridge_loop rs b
      | BP_revents l rr \<Rightarrow>
          (case (if l then forward_l2r (br_left r) b else Some b) of None \<Rightarrow> None
           | Some b \<Rightarrow> (case (if rr then forward_r2l (br_right r) b else Some b) of None \<Rightarrow> None
               | Some b \<Rightarrow> bridge_loop rs b)))"

section \<open>Lemmas\<close>

text \<open>What becomes of the piece with number \<open>n\<close>.\<close>

definition injected :: "InjectorConfig \<Rightarrow> int \<Rightarrow> bytes \<Rightarrow> bytes option" where
  "injected c n f =
     (let ty = (if SAFETY_HEADER_SIZE \<le> length f then f ! 3 else 0) in
      if 0 < drop_every c \<and> drop_every c dvd n \<and> (drop_type c < 0 \<or> ty = of_int (drop_type c)) then None
      else if 0 < corrupt_every c \<and> corrupt_every c dvd n \<and> SAFETY_HEADER_SIZE \<le> length f
      then Some (f[12 := f ! 12 XOR 0xFF])
      else Some f)"

fun injected_all :: "InjectorConfig \<Rightarrow> int \<Rightarrow> bytes list \<Rightarrow> bytes list" where
  "injected_all c n [] = []"
| "injected_all c n (f # fs) = (case injected c (n + 1) f of None \<Rightarrow> [] | Some g \<Rightarrow> [g]) @ injected_all c (n + 1) fs"

lemma log_line_fields [simp]:
  "cfg (log_line ts dir ty seq len action j) = cfg j" "frame_counter (log_line ts dir ty seq len action j) = frame_counter j"
  by (simp_all add: log_line_def)

lemma process_injected:
  obtains j' delay where "process ts dir f j = (case injected (cfg j) (frame_counter j + 1) f of
      None \<Rightarrow> ((False, f, 0), j') | Some g \<Rightarrow> ((True, g, delay), j'))"
    "cfg j' = cfg j" "frame_counter j' = frame_counter j + 1"
proof -
  have ty: "frame_type (if SAFETY_HEADER_SIZE \<le> length f then header_of_bytes f
      else header_of_bytes (replicate SAFETY_HEADER_SIZE 0)) = (if SAFETY_HEADER_SIZE \<le> length f then f ! 3 else 0)"
    by (simp add: header_of_bytes_def SAFETY_HEADER_SIZE_def)
  have "\<exists>j' delay. process ts dir f j = (case injected (cfg j) (frame_counter j + 1) f of
      None \<Rightarrow> ((False, f, 0), j') | Some g \<Rightarrow> ((True, g, delay), j')) \<and> cfg j' = cfg j \<and> frame_counter j' = frame_counter j + 1"
    unfolding process_def injected_def Let_def ty by (auto simp: dvd_eq_mod_eq_0)
  then show thesis using that by blast
qed

lemma forward_pieces_injected:
  assumes "length env = length fs"
    and "\<And>i g. i < length fs \<Longrightarrow> injected (cfg j) (frame_counter j + 1 + int i) (fs ! i) = Some g \<Longrightarrow>
      pty_write (snd (env ! i)) g = Some g"
  shows "\<exists>ds j'. forward_pieces dir env fs j = Some ((concat (injected_all (cfg j) (frame_counter j) fs), ds), j')
    \<and> cfg j' = cfg j \<and> frame_counter j' = frame_counter j + int (length fs)"
  using assms
proof (induction fs arbitrary: env j)
  case (Cons f fs)
  obtain ts ws env' where env: "env = (ts, ws) # env'" using Cons.prems(1) by (cases env) auto
  obtain j' delay where p: "process ts dir f j = (case injected (cfg j) (frame_counter j + 1) f of
      None \<Rightarrow> ((False, f, 0), j') | Some g \<Rightarrow> ((True, g, delay), j'))"
    and j': "cfg j' = cfg j" "frame_counter j' = frame_counter j + 1" by (rule process_injected)
  have "\<exists>ds j''. forward_pieces dir env' fs j' = Some ((concat (injected_all (cfg j') (frame_counter j') fs), ds), j'')
      \<and> cfg j'' = cfg j' \<and> frame_counter j'' = frame_counter j' + int (length fs)"
  proof (rule Cons.IH)
    show "pty_write (snd (env' ! i)) g = Some g"
      if "i < length fs" "injected (cfg j') (frame_counter j' + 1 + int i) (fs ! i) = Some g" for i g
      using Cons.prems(2) [of "Suc i" g] that env j' by (simp add: add_ac)
  qed (use Cons.prems(1) env in simp)
  then show ?case
    using Cons.prems(2) [of 0] p j' env by (cases "injected (cfg j) (frame_counter j + 1) f") auto
qed simp

lemma corrupted_checksum:
  assumes "safety_frame_validate f = SAFETY_VALIDATE_OK"
  shows "safety_frame_validate (f[12 := f ! 12 XOR 0xFF]) = SAFETY_VALIDATE_BAD_CHECKSUM"
proof -
  let ?g = "f[12 := f ! 12 XOR 0xFF]"
  note d = validate_OK_D [OF assms]
  have l: "16 \<le> length f" using d(1) by simp
  have "f ! 12 XOR 0xFF \<noteq> f ! 12" using xor_left_cancel [of "f ! 12" "0xFF" 0] by simp
  then have ne: "?g \<noteq> f" using l by (metis nth_list_update_eq numeral_less_iff order_less_le_trans semiring_norm(76,78,80,81))
  have "agree_outside 12 1 f ?g" using l by (simp add: agree_outside_nth)
  from validate_detects_burst_lemma [OF assms this _ _ _ ne] have "safety_frame_validate ?g \<noteq> SAFETY_VALIDATE_OK"
    by (simp add: SAFETY_HEADER_SIZE_def)
  moreover have "magic (header_of_bytes ?g) = magic (header_of_bytes f)" "version (header_of_bytes ?g) = version (header_of_bytes f)"
    "payload_length (header_of_bytes ?g) = payload_length (header_of_bytes f)"
    by (simp_all add: header_of_bytes_def get16_def)
  moreover have "\<not> (256 < unat (payload_length (header_of_bytes f)) \<or> length f < 16 + unat (payload_length (header_of_bytes f)))"
    "magic (header_of_bytes f) = SAFETY_PROTO_MAGIC" "version (header_of_bytes f) = SAFETY_PROTO_VERSION"
    using d(1,2) by (auto simp: header_ok_def proto_const)
  ultimately show ?thesis using l validate_cases [of ?g] by (simp split: if_splits)
qed

lemma injected_all_id: "drop_every c \<le> 0 \<Longrightarrow> corrupt_every c \<le> 0 \<Longrightarrow> injected_all c n fs = fs"
  by (induction fs arbitrary: n) (simp_all add: injected_def)

section \<open>Properties\<close>

text \<open>C35 (what the bridge passes on).  When its writes succeed, a call of \<open>forward\<close> passes on, in
  order, the pieces of the bytes it read, but for the injected faults.  Pieces are whole frames and runs
  of noise between them; both count, over both directions.  A piece is dropped if its number is a multiple of
  \<open>drop_every\<close> and its type matches, and not dropped otherwise; a piece whose number is a multiple of \<open>corrupt_every\<close> and which has the
  length of a header has its checksum inverted.  Without faults no byte is lost or changed: what was written and what is kept is what was
  kept before and what was read.  A valid frame whose checksum was inverted fails validation with
  BAD_CHECKSUM and keeps its length.\<close>

theorem bridge_forwards:
  assumes "byte_feed framer bs = (frames, kept)" and "bs \<noteq> []" and "length env = length frames"
    and "\<forall>i < length frames. \<forall>g. injected (cfg j) (frame_counter j + 1 + int i) (frames ! i) = Some g \<longrightarrow>
      pty_write (snd (env ! i)) g = Some g"
  shows "(\<exists>out ds j'. forward dir (Some bs) env framer j = Some ((out, ds), kept, j')
      \<and> out = concat (injected_all (cfg j) (frame_counter j) frames)
      \<and> frame_counter j' = frame_counter j + int (length frames) \<and> cfg j' = cfg j
      \<and> (drop_every (cfg j) \<le> 0 \<and> corrupt_every (cfg j) \<le> 0 \<longrightarrow> out @ kept = framer @ bs))
    \<and> (\<forall>c n f g. safety_frame_validate f = SAFETY_VALIDATE_OK \<and> injected c n f = Some g \<and> g \<noteq> f \<longrightarrow>
         safety_frame_validate g = SAFETY_VALIDATE_BAD_CHECKSUM \<and> length g = length f)"
proof
  obtain ds j' where "forward_pieces dir env frames j = Some ((concat (injected_all (cfg j) (frame_counter j) frames), ds), j')"
    "cfg j' = cfg j" "frame_counter j' = frame_counter j + int (length frames)"
    using forward_pieces_injected [OF assms(3), of j dir] assms(4) by blast
  moreover have "concat frames @ kept = framer @ bs"
    using byte_loop_transparent [of "framer @ bs"] assms(1) by (simp add: byte_feed_def)
  ultimately show "\<exists>out ds j'. forward dir (Some bs) env framer j = Some ((out, ds), kept, j')
      \<and> out = concat (injected_all (cfg j) (frame_counter j) frames)
      \<and> frame_counter j' = frame_counter j + int (length frames) \<and> cfg j' = cfg j
      \<and> (drop_every (cfg j) \<le> 0 \<and> corrupt_every (cfg j) \<le> 0 \<longrightarrow> out @ kept = framer @ bs)"
    using assms(1,2) by (simp add: forward_def injected_all_id)
  show "\<forall>c n f g. safety_frame_validate f = SAFETY_VALIDATE_OK \<and> injected c n f = Some g \<and> g \<noteq> f \<longrightarrow>
      safety_frame_validate g = SAFETY_VALIDATE_BAD_CHECKSUM \<and> length g = length f"
    by (auto simp: injected_def Let_def corrupted_checksum split: if_splits)
qed

theorem bridge_forwards_witness:
  "\<exists>ds j'. forward ''L->R'' (Some [1, 2, 3]) [(0, [PW_EINTR, PW_wrote 1, PW_wrote 1])] []
     (injector_new (default_config\<lparr>inj_delay_ms := 5\<rparr>) False) = Some (([1, 2], ds), [3], j')"
proof -
  let ?j = "injector_new (default_config\<lparr>inj_delay_ms := 5\<rparr>) False"
  have "byte_feed [] [1, 2, 3] = ([[1, 2]], [3])"
    by (simp add: byte_feed_def byte_loop.simps [of "[1, 2, 3]"] get16_def proto_const)
  moreover have "injected (cfg ?j) n f = Some f" for n f by (simp add: injected_def injector_new_def default_config_def)
  moreover have "pty_write [PW_EINTR, PW_wrote 1, PW_wrote 1] [1, 2] = Some [1, 2]" by (simp add: pty_write.simps)
  ultimately show ?thesis
    using bridge_forwards [of "[]" "[1, 2, 3]" "[[1, 2]]" "[3]" "[(0, [PW_EINTR, PW_wrote 1, PW_wrote 1])]" ?j "''L->R''"]
    by (auto simp: injected_all_id)
qed

text \<open>Counting all pieces is not counting those of the configured type: heartbeats that come in turn with
  frames of another type, from an even count on, all pass an injector that is to drop every second heartbeat.\<close>

theorem alternating_heartbeats_pass:
  assumes "drop_every c = 2" and "drop_type c = 1" and "corrupt_every c \<le> 0" and "even n"
    and "\<forall>i < length fs. odd i \<longrightarrow> (if SAFETY_HEADER_SIZE \<le> length (fs ! i) then fs ! i ! 3 else 0) \<noteq> SAFETY_FRAME_HEARTBEAT"
  shows "injected_all c n fs = fs"
  using assms(4,5)
proof (induction fs arbitrary: n rule: induct_list012)
  case (3 f g fs)
  have "injected c (n + 1) f = Some f" using 3(3) assms(1,3) by (simp add: injected_def Let_def)
  moreover have "injected c (n + 2) g = Some g"
    using 3(4) [rule_format, of 1] assms(2,3) by (auto simp: injected_def Let_def proto_const)
  moreover have "injected_all c (n + 2) fs = fs"
  proof (rule 3(1))
    show "\<forall>i < length fs. odd i \<longrightarrow> (if SAFETY_HEADER_SIZE \<le> length (fs ! i) then fs ! i ! 3 else 0) \<noteq> SAFETY_FRAME_HEARTBEAT"
      using 3(4) by (metis Suc_less_eq even_Suc length_Cons nth_Cons_Suc)
  qed (use 3(3) in simp)
  ultimately show ?case by (simp add: add.commute)
qed (use assms(1-3) in \<open>simp_all add: injected_def Let_def\<close>)

end
