(* ===== verification/Safetyctl.thy ===== *)
theory Safetyctl
  imports Driver_System
begin

text \<open>
  The control utility (\<open>safetyctl/commands.cpp\<close>, \<open>safetyctl/main.cpp\<close>), composed with the driver's own
  system calls.  The address space of the process, an argument, says what the driver's copies from and
  to a user address find there; \<open>opened\<close> says whether the device can be opened.
\<close>

section \<open>Definitions\<close>

definition link_state_name :: "u32 \<Rightarrow> string" where
  "link_state_name s = (if s = 0 then ''BOOTING'' else if s = 1 then ''HB_OK'' else if s = 2 then ''HB_TIMEOUT''
     else if s = 3 then ''RECOVERING'' else ''UNKNOWN'')"

text \<open>User memory: the argument an ioctl sees for an address.  Nothing is mapped in the first page.\<close>

type_synonym user_memory = "nat \<Rightarrow> user_arg"

definition null_page_unmapped :: "user_memory \<Rightarrow> bool" where
  "null_page_unmapped mem \<longleftrightarrow>
     (\<forall>a < 4096. arg_u32 (mem a) = None \<and> arg_frame (mem a) = None \<and> \<not> arg_writable (mem a))"

definition command_frame :: "u8 \<Rightarrow> u8 \<Rightarrow> u16 \<Rightarrow> u32 \<Rightarrow> bytes" where
  "command_frame cmd a8 a16 a32 =
     (let p = \<lparr>command = cmd, arg8 = a8, arg16 = a16, arg32 = a32\<rparr>;
          hdr = safety_frame_init SAFETY_FRAME_COMMAND 0 8 0;
          out = replicate (SAFETY_HEADER_SIZE + 8) 0;
          hdr = hdr\<lparr>checksum := safety_frame_compute_checksum hdr (Some (command_bytes p)) 8\<rparr>;
          out = memcpy_at out 0 (header_bytes hdr)
      in memcpy_at out SAFETY_HEADER_SIZE (command_bytes p))"

definition send_command :: "(safety_fifo_slot, 'q) kfifo_ops \<Rightarrow> kenv \<Rightarrow> u8 \<Rightarrow> u8 \<Rightarrow> u16 \<Rightarrow> u32
    \<Rightarrow> 'q safety_copro_dev \<Rightarrow> bool \<times> 'q safety_copro_dev" where
  "send_command K e cmd a8 a16 a32 dev =
     (let out = command_frame cmd a8 a16 a32;
          (n, dev) = safety_write K e (Some out) (length out) dev
      in (n = Inr (length out), dev))"

text \<open>The lines that \<open>status\<close> prints.\<close>

definition status_lines :: "safety_copro_stats \<Rightarrow> string list" where
  "status_lines st =
     [''==== safety_copro status ===='',
      ''current_state        : '' @ link_state_name (st_current_state st) @ '' ('' @ nat_to_string (unat (st_current_state st)) @ '')'',
      ''heartbeat_count      : '' @ nat_to_string (unat (st_heartbeat_count st)),
      ''fault_count          : '' @ nat_to_string (unat (st_fault_count st)),
      ''dropped_frame_count  : '' @ nat_to_string (unat (st_dropped_frame_count st)),
      ''timeout_count        : '' @ nat_to_string (unat (st_timeout_count st)),
      ''retry_count          : '' @ nat_to_string (unat (st_retry_count st)),
      ''protocol_error_count : '' @ nat_to_string (unat (st_protocol_error_count st)),
      ''rx_frames_total      : '' @ nat_to_string (unat (st_rx_frames_total st)),
      ''rx_queue_depth       : '' @ nat_to_string (unat (st_rx_queue_depth st)),
      ''tx_queue_depth       : '' @ nat_to_string (unat (st_tx_queue_depth st)),
      ''============================='']"

text \<open>\<open>cmd_status\<close>, with the address of its local variable: the return code, the lines, the device.\<close>

definition cmd_status :: "(safety_fifo_slot, 'q) kfifo_ops \<Rightarrow> kenv \<Rightarrow> bool \<Rightarrow> user_memory \<Rightarrow> nat
    \<Rightarrow> 'q safety_copro_dev \<Rightarrow> int \<times> string list \<times> 'q safety_copro_dev" where
  "cmd_status K e opened mem st_addr dev =
     (if \<not> opened then (1, [], dev)
      else case safety_ioctl K e SAFETY_IOC_GET_STATS (mem st_addr) dev of
        (Inr (Out_stats st), dev) \<Rightarrow> (0, status_lines st, dev)
      | (_, dev) \<Rightarrow> (1, [], dev))"

text \<open>\<open>cmd_inject\<close>: the fault type itself is the third argument of \<open>ioctl\<close>.\<close>

definition cmd_inject :: "(safety_fifo_slot, 'q) kfifo_ops \<Rightarrow> kenv \<Rightarrow> bool \<Rightarrow> user_memory \<Rightarrow> string
    \<Rightarrow> 'q safety_copro_dev \<Rightarrow> int \<times> 'q safety_copro_dev" where
  "cmd_inject K e opened mem kind dev =
     (if kind \<noteq> ''heartbeat-timeout'' \<and> kind \<noteq> ''checksum-error'' then (2, dev)
      else let fault_type = (if kind = ''heartbeat-timeout'' then ucast SAFETY_FAULT_TASK_HANG
                             else ucast SAFETY_FAULT_CHECKSUM_ERROR) :: u32
      in if \<not> opened then (1, dev)
      else case safety_ioctl K e SAFETY_IOC_INJECT_FAULT (mem (unat fault_type)) dev of
        (Inr _, dev) \<Rightarrow> (0, dev)
      | (Inl err, dev) \<Rightarrow>
          let (ok, dev) = send_command K e SAFETY_CMD_INJECT_FAULT (ucast fault_type) 0 0 dev
          in (if ok then 0 else 1, dev))"

definition cmd_recover :: "(safety_fifo_slot, 'q) kfifo_ops \<Rightarrow> kenv \<Rightarrow> bool \<Rightarrow> user_memory
    \<Rightarrow> 'q safety_copro_dev \<Rightarrow> int \<times> 'q safety_copro_dev" where
  "cmd_recover K e opened mem dev =
     (if \<not> opened then (1, dev)
      else case safety_ioctl K e SAFETY_IOC_FORCE_RECOVERY (mem 0) dev of
        (Inr _, dev) \<Rightarrow> (0, dev)
      | (Inl err, dev) \<Rightarrow>
          let (ok, dev) = send_command K e SAFETY_CMD_REQUEST_RECOVERY 0 0 0 dev
          in (if ok then 0 else 1, dev))"

text \<open>\<open>cmd_dump_report\<close> on the entries of the debugfs directory, \<open>None\<close> if there is none; the content of
  an entry is \<open>None\<close> if it cannot be opened.\<close>

definition cmd_dump_report :: "(string \<times> string list option) list option \<Rightarrow> string list" where
  "cmd_dump_report dir =
     (let dbg = ''/sys/kernel/debug/safety_copro'' in
      case dir of
        Some ents \<Rightarrow>
          [''==== debugfs dump ('' @ dbg @ '') ====''] @
          concat (map (\<lambda>(name, content). (''---- '' @ name @ '' ----'') #
             (case content of Some ls \<Rightarrow> ls | None \<Rightarrow> [''(cannot read)'']))
             (filter (\<lambda>(name, _). name \<noteq> ''.'' \<and> name \<noteq> ''..'') ents)) @
          [''================================='']
      | None \<Rightarrow>
          [''debugfs '' @ CHR 0x27 # dbg @ CHR 0x27 # '' not available.'',
           ''Userspace reports are written by safety-supervisord to:'',
           ''  reports/events.jsonl        (live/mock event log)'',
           ''  reports/replay_events.jsonl (replay state changes)''])"

text \<open>\<open>main\<close>: the device path and the positional arguments, or an exit.\<close>

datatype ctl_action = Ctl_exit int | Ctl_status string | Ctl_inject string string | Ctl_recover string | Ctl_dump string

fun ctl_parse :: "string \<Rightarrow> string list \<Rightarrow> string list \<Rightarrow> int + string \<times> string list" where
  "ctl_parse dev positional [] = Inr (dev, positional)"
| "ctl_parse dev positional (opt # rest) =
     (if opt = ''--help'' \<or> opt = ''-h'' then Inl 0
      else if opt = ''--device'' then
        (case rest of [] \<Rightarrow> Inl 2 | v # rest \<Rightarrow> ctl_parse v positional rest)
      else ctl_parse dev (positional @ [opt]) rest)"

definition ctl_main :: "string list \<Rightarrow> ctl_action" where
  "ctl_main argv = (case ctl_parse ''/dev/safety_copro'' [] argv of
       Inl rc \<Rightarrow> Ctl_exit rc
     | Inr (dev, []) \<Rightarrow> Ctl_exit 2
     | Inr (dev, cmd # args) \<Rightarrow>
         if cmd = ''status'' then Ctl_status dev
         else if cmd = ''inject'' then (case args of [] \<Rightarrow> Ctl_exit 2 | kind # _ \<Rightarrow> Ctl_inject dev kind)
         else if cmd = ''recover'' then Ctl_recover dev
         else if cmd = ''dump-report'' then Ctl_dump dev
         else Ctl_exit 2)"

section \<open>Lemmas\<close>

lemma command_frame_wire:
  "command_frame cmd a8 a16 a32 = wire_frame (safety_frame_init SAFETY_FRAME_COMMAND 0 8 0)
     (command_bytes \<lparr>command = cmd, arg8 = a8, arg16 = a16, arg32 = a32\<rparr>)"
  by (simp add: command_frame_def wire_frame_def compute_checksum_crc32 memcpy_at_def SAFETY_HEADER_SIZE_def Let_def)

lemma command_header_ok: "header_ok (safety_frame_init SAFETY_FRAME_COMMAND 0 8 0) (command_bytes p)"
  by (simp add: header_ok_def proto_const)

lemma command_frame_valid: "safety_frame_validate (command_frame cmd a8 a16 a32) = SAFETY_VALIDATE_OK"
  by (simp add: command_frame_wire command_header_ok)

lemma length_command_frame: "length (command_frame cmd a8 a16 a32) = 24"
  by (simp add: command_frame_wire)

context driver
begin

lemma send_command_cases:
  fixes cmd a8 a16 a32
  assumes "dinv dev"
  defines "f \<equiv> command_frame cmd a8 a16 a32"
  shows "if length (elems (tx_fifo dev)) < unat (fifo_depth dev)
    then \<exists>d. send_command K e cmd a8 a16 a32 dev = (True, d) \<and> dinv d \<and> rx_fifo d = rx_fifo dev \<and> state d = state dev
      \<and> elems (tx_fifo d) = elems (tx_fifo dev) @ [\<lparr>slot_len = 24, slot_data = f\<rparr>]
    else send_command K e cmd a8 a16 a32 dev = (False, record_drop e 0 SAFETY_FRAME_COMMAND dev)"
proof -
  have "safety_frame_validate f = SAFETY_VALIDATE_OK" "length f = 24"
    by (simp_all add: f_def command_frame_valid length_command_frame)
  moreover have "rx_seq f = 0" "rx_type f = SAFETY_FRAME_COMMAND" by (simp_all add: f_def command_frame_wire)
  ultimately show ?thesis
    using write_cases [OF assms(1), of f 24 e] by (auto simp: send_command_def f_def [symmetric] proto_const Let_def split: if_splits)
qed

end

section \<open>Properties\<close>

text \<open>C36 (fault injection from the command line).  \<open>safetyctl inject\<close> passes the fault type itself where
  the driver expects an address, in the page at address zero, where nothing is mapped: the ioctl fails
  and changes nothing, the driver's fault counter included.  The command then falls back to a COMMAND
  frame: with room in the TX queue it returns 0 and has queued exactly one valid INJECT_FAULT command
  for the fault, otherwise it returns 1.\<close>

theorem inject_falls_back:
  assumes "kfifo K elems qwf" and "driver_inv K elems qwf dev" and "null_page_unmapped mem"
    and "kind = ''heartbeat-timeout'' \<and> ft = SAFETY_FAULT_TASK_HANG \<or> kind = ''checksum-error'' \<and> ft = SAFETY_FAULT_CHECKSUM_ERROR"
  defines "f \<equiv> command_frame SAFETY_CMD_INJECT_FAULT ft 0 0"
  shows "safety_ioctl K e SAFETY_IOC_INJECT_FAULT (mem (unat (ucast ft :: u32))) dev = (Inl EFAULT, dev)
    \<and> (if length (elems (tx_fifo dev)) < unat (fifo_depth dev)
       then \<exists>d. cmd_inject K e True mem kind dev = (0, d)
         \<and> elems (tx_fifo d) = elems (tx_fifo dev) @ [\<lparr>slot_len = 24, slot_data = f\<rparr>] \<and> rx_fifo d = rx_fifo dev
       else fst (cmd_inject K e True mem kind dev) = 1)
    \<and> safety_frame_validate f = SAFETY_VALIDATE_OK \<and> frame_type (header_of_bytes f) = SAFETY_FRAME_COMMAND
    \<and> command_of_bytes (drop SAFETY_HEADER_SIZE f) = \<lparr>command = SAFETY_CMD_INJECT_FAULT, arg8 = ft, arg16 = 0, arg32 = 0\<rparr>"
proof -
  have "unat (ucast ft :: u32) < 4096" using assms(4) by (auto simp: proto_const)
  then have ioc: "safety_ioctl K e SAFETY_IOC_INJECT_FAULT (mem (unat (ucast ft :: u32))) dev = (Inl EFAULT, dev)"
    using assms(3) by (simp add: null_page_unmapped_def safety_ioctl_def ioc_cmd_defs ioc_inject_fault_def)
  have "ucast (ucast ft :: u32) = ft" by (rule ucast_up_ucast_id) (simp add: is_up)
  then have inj: "cmd_inject K e True mem kind dev =
      (let (ok, d) = send_command K e SAFETY_CMD_INJECT_FAULT ft 0 0 dev in (if ok then 0 else 1, d))"
    using ioc assms(4) by (auto simp: cmd_inject_def Let_def)
  show ?thesis
    using driver.send_command_cases [OF driver_kfifo [OF assms(1)] assms(2), where cmd = SAFETY_CMD_INJECT_FAULT and ?a8.0 = ft and ?a16.0 = 0 and ?a32.0 = 0 and e = e] ioc inj
    by (auto simp: f_def command_frame_valid split: if_splits) (simp_all add: command_frame_wire SAFETY_HEADER_SIZE_def)
qed

theorem inject_falls_back_witness:
  "\<exists>d. cmd_inject bounded_list kenv0 True (\<lambda>_. \<lparr>arg_u32 = None, arg_frame = None, arg_writable = False\<rparr>) ''checksum-error''
     (ready_dev (2, []) (2, []) 2 1 350) = (0, d)
     \<and> snd (tx_fifo d) = [\<lparr>slot_len = 24, slot_data = command_frame SAFETY_CMD_INJECT_FAULT SAFETY_FAULT_CHECKSUM_ERROR 0 0\<rparr>]"
proof -
  let ?mem = "\<lambda>_ :: nat. \<lparr>arg_u32 = None, arg_frame = None, arg_writable = False\<rparr>"
  let ?d0 = "ready_dev (2, []) (2, []) 2 1 350 :: safety_fifo_slot blist safety_copro_dev"
  have "null_page_unmapped ?mem" by (simp add: null_page_unmapped_def)
  moreover have "snd (tx_fifo ?d0) = []" "unat (fifo_depth ?d0) = 2" by (simp_all add: ready_dev_def kzalloc_dev_def)
  ultimately show ?thesis
    using inject_falls_back [OF kfifo_bounded_list demo_dev_inv, of ?mem "''checksum-error''" SAFETY_FAULT_CHECKSUM_ERROR kenv0]
    by auto
qed

text \<open>\<open>safetyctl recover\<close> schedules the driver's recovery work and queues nothing.\<close>

theorem recover_schedules_work:
  "cmd_recover K e True mem dev = (0, kcall Schedule_work dev) \<and> cmd_recover K e False mem dev = (1, dev)"
  by (simp add: cmd_recover_def safety_ioctl_def ioc_cmd_defs safety_recovery_schedule_def)

text \<open>\<open>safetyctl status\<close> prints what GET_STATS reports and changes nothing.\<close>

theorem status_prints_stats:
  assumes "arg_writable (mem addr)"
  shows "\<exists>st. fst (ioc_get_stats K (mem addr) dev) = Inr (Out_stats st)
    \<and> cmd_status K e True mem addr dev = (0, status_lines st, dev)"
  using assms by (simp add: cmd_status_def safety_ioctl_def ioc_cmd_defs ioc_get_stats_def Let_def)

end
