(* ===== verification/Descriptors.thy ===== *)
theory Descriptors
  imports Prelude
begin

unbundle bit_operations_syntax

text \<open>
  File descriptors on the host side: the classes that own one (\<open>UniqueFd\<close> of
  \<open>safety-supervisord/device_client.h\<close>, \<open>Fd\<close> of \<open>safety-linkd/main.cpp\<close> and of \<open>safetyctl/commands.cpp\<close>) and how
  the programs use them from opening to the end.  The process's table is the set of open
  descriptors with a log of the calls of \<open>close\<close> and whether each found its descriptor open.  An
  object is the value of its member \<open>fd_\<close>.
\<close>

section \<open>Definitions\<close>

record fd_table =
  open_fds :: "int set"
  close_log :: "(int \<times> bool) list"

definition sys_close :: "int \<Rightarrow> fd_table \<Rightarrow> fd_table" where
  "sys_close fd w = w\<lparr>open_fds := open_fds w - {fd}, close_log := close_log w @ [(fd, fd \<in> open_fds w)]\<rparr>"

text \<open>A call that opens a descriptor.  What the kernel answers may depend on the call and on what is
  open: a negative number, or a descriptor that is not in use.\<close>

definition sys_open :: "(nat \<Rightarrow> int set \<Rightarrow> int) \<Rightarrow> nat \<Rightarrow> fd_table \<Rightarrow> int \<times> fd_table" where
  "sys_open kopen i w = (let r = kopen i (open_fds w) in
     (r, if 0 \<le> r then w\<lparr>open_fds := insert r (open_fds w)\<rparr> else w))"

locale fd_kernel =
  fixes kopen :: "nat \<Rightarrow> int set \<Rightarrow> int"
  assumes unused: "0 \<le> kopen i S \<Longrightarrow> kopen i S \<notin> S"

text \<open>The answer POSIX asks for, the lowest descriptor that is not in use, or a failure for the given calls.\<close>

definition kopen_lowest :: "nat set \<Rightarrow> nat \<Rightarrow> int set \<Rightarrow> int" where
  "kopen_lowest fails i S = (if i \<in> fails then -1
     else case List.find (\<lambda>fd. fd \<notin> S) (map int [0..<Suc (card S)]) of None \<Rightarrow> -1 | Some fd \<Rightarrow> fd)"

subsection \<open>UniqueFd\<close>

definition UniqueFd_default :: int where "UniqueFd_default = -1"

definition UniqueFd_valid :: "int \<Rightarrow> bool" where "UniqueFd_valid x \<longleftrightarrow> 0 \<le> x"

definition UniqueFd_reset :: "int \<Rightarrow> int \<Rightarrow> fd_table \<Rightarrow> int \<times> fd_table" where
  "UniqueFd_reset fd x w = (fd, if 0 \<le> x then sys_close x w else w)"

definition UniqueFd_dtor :: "int \<Rightarrow> fd_table \<Rightarrow> fd_table" where
  "UniqueFd_dtor x w = snd (UniqueFd_reset (-1) x w)"

text \<open>The new object and what is left of the other one.\<close>

definition UniqueFd_move :: "int \<Rightarrow> int \<times> int" where
  "UniqueFd_move other = (other, -1)"

definition UniqueFd_release :: "int \<Rightarrow> int \<times> int" where
  "UniqueFd_release x = (x, -1)"

text \<open>Move assignment between two distinct objects: the one assigned to, the other, the table.  An object assigned
  to itself is left alone.\<close>

definition UniqueFd_move_assign :: "int \<Rightarrow> int \<Rightarrow> fd_table \<Rightarrow> int \<times> int \<times> fd_table" where
  "UniqueFd_move_assign x other w = (let (_, w) = UniqueFd_reset (-1) x w in (other, -1, w))"

subsection \<open>Fd of the link daemon and of the control utility\<close>

definition Fd_dtor :: "int \<Rightarrow> fd_table \<Rightarrow> fd_table" where
  "Fd_dtor x w = (if 0 \<le> x then sys_close x w else w)"

definition Fd_move_assign :: "int \<Rightarrow> int \<Rightarrow> fd_table \<Rightarrow> int \<times> int \<times> fd_table" where
  "Fd_move_assign x other w = (let w = (if 0 \<le> x then sys_close x w else w) in (other, -1, w))"

definition Fd_reset :: "int \<Rightarrow> int \<Rightarrow> fd_table \<Rightarrow> int \<times> fd_table" where
  "Fd_reset fd x w = (let w = (if 0 \<le> x then sys_close x w else w) in (fd, w))"

definition ctl_Fd_dtor :: "int \<Rightarrow> fd_table \<Rightarrow> fd_table" where
  "ctl_Fd_dtor x w = (if 0 \<le> x then sys_close x w else w)"

subsection \<open>A program that uses the objects\<close>

text \<open>What a program can do with its objects, which it names by numbers: construct one from an opening
  call or from another object, reset one with a new descriptor, assign, release, destroy; and close a
  descriptor that it has released.  The state is the live objects, the released descriptors, the table.\<close>

datatype fd_op = New_open nat nat | New_default nat | New_move nat nat | Reset_open nat nat | Assign nat nat
  | Release nat | Destroy nat | Close_released

record fd_prog =
  objs :: "nat \<rightharpoonup> int"
  released :: "int list"
  tab :: fd_table

fun fd_step :: "(nat \<Rightarrow> int set \<Rightarrow> int) \<Rightarrow> fd_op \<Rightarrow> fd_prog \<Rightarrow> fd_prog option" where
  "fd_step kopen (New_open x i) s =
     (if objs s x \<noteq> None then None
      else let (r, w) = sys_open kopen i (tab s) in Some (s\<lparr>objs := (objs s)(x \<mapsto> r), tab := w\<rparr>))"
| "fd_step kopen (New_default x) s =
     (if objs s x \<noteq> None then None else Some (s\<lparr>objs := (objs s)(x \<mapsto> UniqueFd_default)\<rparr>))"
| "fd_step kopen (New_move x y) s =
     (case objs s y of None \<Rightarrow> None
      | Some v \<Rightarrow> if objs s x \<noteq> None then None
                  else let (a, b) = UniqueFd_move v in Some (s\<lparr>objs := (objs s)(x \<mapsto> a, y \<mapsto> b)\<rparr>))"
| "fd_step kopen (Reset_open x i) s =
     (case objs s x of None \<Rightarrow> None
      | Some v \<Rightarrow> let (r, w) = sys_open kopen i (tab s); (v, w) = UniqueFd_reset r v w
                  in Some (s\<lparr>objs := (objs s)(x \<mapsto> v), tab := w\<rparr>))"
| "fd_step kopen (Assign x y) s =
     (case (objs s x, objs s y) of
        (Some v, Some u) \<Rightarrow> if x = y then Some s
          else let (a, b, w) = UniqueFd_move_assign v u (tab s) in Some (s\<lparr>objs := (objs s)(x \<mapsto> a, y \<mapsto> b), tab := w\<rparr>)
      | _ \<Rightarrow> None)"
| "fd_step kopen (Release x) s =
     (case objs s x of None \<Rightarrow> None
      | Some v \<Rightarrow> let (r, v) = UniqueFd_release v
                  in Some (s\<lparr>objs := (objs s)(x \<mapsto> v), released := (if 0 \<le> r then r # released s else released s)\<rparr>))"
| "fd_step kopen (Destroy x) s =
     (case objs s x of None \<Rightarrow> None
      | Some v \<Rightarrow> Some (s\<lparr>objs := (objs s)(x := None), tab := UniqueFd_dtor v (tab s)\<rparr>))"
| "fd_step kopen Close_released s =
     (case released s of [] \<Rightarrow> None | r # rs \<Rightarrow> Some (s\<lparr>released := rs, tab := sys_close r (tab s)\<rparr>))"

fun fd_run :: "(nat \<Rightarrow> int set \<Rightarrow> int) \<Rightarrow> fd_op list \<Rightarrow> fd_prog \<Rightarrow> fd_prog option" where
  "fd_run kopen [] s = Some s"
| "fd_run kopen (a # as) s = (case fd_step kopen a s of None \<Rightarrow> None | Some s \<Rightarrow> fd_run kopen as s)"

subsection \<open>The programs\<close>

text \<open>The settings of a terminal and what the link daemon makes of them: \<open>cfmakeraw\<close> of the C library, the flags of
  the Linux ABI.  The settings read (or the failure of \<open>tcgetattr\<close>) and the success of
  \<open>tcsetattr\<close> are given; the result is the function's and the settings it leaves.\<close>

record termios =
  c_iflag :: u32
  c_oflag :: u32
  c_cflag :: u32
  c_lflag :: u32
  c_vmin :: u8
  c_vtime :: u8
  c_speed :: u32

definition cfmakeraw :: "termios \<Rightarrow> termios" where
  "cfmakeraw tio = tio\<lparr>
     c_iflag := c_iflag tio AND NOT (0x001 OR 0x002 OR 0x008 OR 0x020 OR 0x040 OR 0x080 OR 0x100 OR 0x400),
     c_oflag := c_oflag tio AND NOT 0x001,
     c_lflag := c_lflag tio AND NOT (0x008 OR 0x040 OR 0x002 OR 0x001 OR 0x8000),
     c_cflag := (c_cflag tio AND NOT (0x030 OR 0x100)) OR 0x030, c_vmin := 1, c_vtime := 0\<rparr>"

definition CLOCAL :: u32 where "CLOCAL = 0x800"
definition CREAD :: u32 where "CREAD = 0x080"
definition CRTSCTS :: u32 where "CRTSCTS = 0x80000000"
definition B115200 :: u32 where "B115200 = 0x1002"

definition configure_uart_raw :: "termios option \<Rightarrow> bool \<Rightarrow> bool \<times> termios option" where
  "configure_uart_raw tcget tcset_ok = (case tcget of None \<Rightarrow> (False, None)
     | Some tio \<Rightarrow>
        let tio = cfmakeraw tio;
            tio = tio\<lparr>c_cflag := c_cflag tio OR (CLOCAL OR CREAD)\<rparr>;
            tio = tio\<lparr>c_cflag := c_cflag tio AND NOT CRTSCTS\<rparr>;
            tio = tio\<lparr>c_speed := B115200\<rparr>
        in if tcset_ok then (True, Some tio) else (False, None))"

text \<open>\<open>main\<close> of the link daemon from the opening of the UART on: how the UART can be set to raw mode, the
  return code of the main loop, and the table after the destructors.\<close>

definition linkd_fds :: "(nat \<Rightarrow> int set \<Rightarrow> int) \<Rightarrow> termios option \<Rightarrow> bool \<Rightarrow> int \<Rightarrow> fd_table \<Rightarrow> int \<times> fd_table" where
  "linkd_fds kopen tcget tcset_ok rc w =
     (let (uart, w) = sys_open kopen 0 w in
      if \<not> 0 \<le> uart then (1, Fd_dtor uart w)
      else if \<not> fst (configure_uart_raw tcget tcset_ok) then (1, Fd_dtor uart w)
      else let (dev, w) = sys_open kopen 1 w in
        if \<not> 0 \<le> dev then (1, Fd_dtor uart (Fd_dtor dev w))
        else (rc, Fd_dtor uart (Fd_dtor dev w)))"

text \<open>\<open>run_live\<close> of the supervisor: \<open>open_device\<close>, the members of \<open>EventLoop\<close> in \<open>setup\<close>, whether the log
  can be opened and whether the three descriptors can be added.\<close>

definition open_device_fds :: "(nat \<Rightarrow> int set \<Rightarrow> int) \<Rightarrow> int \<Rightarrow> fd_table \<Rightarrow> bool \<times> int \<times> fd_table" where
  "open_device_fds kopen device w =
     (let (dfd, w) = sys_open kopen 0 w in
      if dfd < 0 then (False, device, w)
      else let (device, w) = UniqueFd_reset dfd device w in (True, device, w))"

definition setup_fds :: "(nat \<Rightarrow> int set \<Rightarrow> int) \<Rightarrow> bool \<Rightarrow> int \<times> int \<times> int \<Rightarrow> fd_table \<Rightarrow> bool \<times> (int \<times> int \<times> int) \<times> fd_table" where
  "setup_fds kopen add_ok = (\<lambda>(epoll, timer, wake) w.
     let (ep, w) = sys_open kopen 1 w in
     if ep < 0 then (False, (epoll, timer, wake), w)
     else let (epoll, w) = UniqueFd_reset ep epoll w;
              (tfd, w) = sys_open kopen 2 w in
       if tfd < 0 then (False, (epoll, timer, wake), w)
       else let (timer, w) = UniqueFd_reset tfd timer w;
                (efd, w) = sys_open kopen 3 w in
         if efd < 0 then (False, (epoll, timer, wake), w)
         else let (wake, w) = UniqueFd_reset efd wake w in (add_ok, (epoll, timer, wake), w))"

definition live_fds :: "(nat \<Rightarrow> int set \<Rightarrow> int) \<Rightarrow> bool \<Rightarrow> bool \<Rightarrow> fd_table \<Rightarrow> int \<times> fd_table" where
  "live_fds kopen log_ok add_ok w =
     (case open_device_fds kopen UniqueFd_default w of (ok, device, w) \<Rightarrow>
        if \<not> ok then (1, UniqueFd_dtor device w)
        else if \<not> log_ok then (1, UniqueFd_dtor device w)
        else case setup_fds kopen add_ok (UniqueFd_default, UniqueFd_default, UniqueFd_default) w of
          (ok, (epoll, timer, wake), w) \<Rightarrow>
            let w = UniqueFd_dtor epoll (UniqueFd_dtor timer (UniqueFd_dtor wake w))
            in (if ok then 0 else 1, UniqueFd_dtor device w))"

text \<open>A command of the control utility that opens the device, with the return code of the rest.\<close>

definition ctl_fds :: "(nat \<Rightarrow> int set \<Rightarrow> int) \<Rightarrow> int \<Rightarrow> fd_table \<Rightarrow> int \<times> fd_table" where
  "ctl_fds kopen rc w =
     (let (fd, w) = sys_open kopen 0 w in
      if fd < 0 then (1, w) else (rc, ctl_Fd_dtor fd w))"

text \<open>The bridge, which closes by hand: \<open>make_pty\<close> with the success of its calls, and \<open>main\<close> with or without given
  endpoints.\<close>

record pty_results =
  grant_ok :: bool
  ptsname_ok :: bool

definition make_pty_fds :: "(nat \<Rightarrow> int set \<Rightarrow> int) \<Rightarrow> nat \<Rightarrow> pty_results \<Rightarrow> fd_table \<Rightarrow> int \<times> fd_table" where
  "make_pty_fds kopen i c w =
     (let (master, w) = sys_open kopen i w in
      if master < 0 then (-1, w)
      else if \<not> grant_ok c then (-1, sys_close master w)
      else if \<not> ptsname_ok c then (-1, sys_close master w)
      else (master, w))"

definition bridge_fds :: "(nat \<Rightarrow> int set \<Rightarrow> int) \<Rightarrow> bool \<Rightarrow> bool \<Rightarrow> pty_results \<Rightarrow> pty_results \<Rightarrow> fd_table \<Rightarrow> int \<times> fd_table" where
  "bridge_fds kopen left_given right_given pty_l pty_r w =
     (if (left_given \<or> right_given) \<and> \<not> (left_given \<and> right_given) then (2, w)
      else
        let (early, left, right, w) =
              (if left_given then
                 let (left, w) = sys_open kopen 0 w in
                 if left < 0 then (True, left, -1, w)
                 else let (right, w) = sys_open kopen 1 w in
                   if right < 0 then (True, left, right, sys_close left w) else (False, left, right, w)
               else let (left, w) = make_pty_fds kopen 0 pty_l w in (False, left, -1, w)) in
        if early then (1, w)
        else if left < 0 then (1, w)
        else let (failed, right, w) =
                   (if right < 0 then
                      let (right, w) = make_pty_fds kopen 1 pty_r w in
                      if right < 0 then (True, right, sys_close left w) else (False, right, w)
                    else (False, right, w)) in
          if failed then (1, w) else (0, sys_close right (sys_close left w)))"

subsection \<open>Specification\<close>

text \<open>The descriptors that objects own, and that no descriptor has two owners.\<close>

definition owned :: "(nat \<rightharpoonup> int) \<Rightarrow> int set" where
  "owned m = {v. 0 \<le> v \<and> (\<exists>x. m x = Some v)}"

definition one_owner :: "(nat \<rightharpoonup> int) \<Rightarrow> bool" where
  "one_owner m \<longleftrightarrow> (\<forall>x y v. m x = Some v \<and> m y = Some v \<and> 0 \<le> v \<longrightarrow> x = y)"

text \<open>The table is what the program started with, what its objects own and what they have released, with no
  descriptor in two of these places, and no call of \<open>close\<close> was wrong.\<close>

definition fd_inv :: "int set \<Rightarrow> fd_prog \<Rightarrow> bool" where
  "fd_inv S s \<longleftrightarrow> one_owner (objs s) \<and> distinct (released s)
     \<and> owned (objs s) \<inter> set (released s) = {} \<and> S \<inter> owned (objs s) = {} \<and> S \<inter> set (released s) = {}
     \<and> open_fds (tab s) = S \<union> owned (objs s) \<union> set (released s) \<and> (\<forall>c\<in>set (close_log (tab s)). snd c)"

text \<open>The table is as it was, and every close in between found its descriptor open.\<close>

definition gives_back :: "fd_table \<Rightarrow> fd_table \<Rightarrow> bool" where
  "gives_back w w' \<longleftrightarrow> open_fds w' = open_fds w \<and> (\<exists>l. close_log w' = close_log w @ l \<and> (\<forall>c\<in>set l. snd c))"

section \<open>Lemmas\<close>

lemma gives_back_refl [simp]: "gives_back w w"
  by (simp add: gives_back_def)

lemmas UniqueFd_defs = UniqueFd_default_def UniqueFd_reset_def UniqueFd_dtor_def UniqueFd_move_def UniqueFd_release_def
  UniqueFd_move_assign_def

text \<open>Once configured the line carries every byte as it is: no line editing, echo or signals, no
  translation on input or output, no flow control of either kind, eight data bits without parity, the receiver on, 115200 baud.\<close>

lemma uart_transparent:
  assumes "configure_uart_raw (Some tio) True = (ok, Some tio')"
  shows "ok" "c_lflag tio' AND 0x804B = 0" "c_iflag tio' AND 0x5EB = 0" "c_oflag tio' AND 1 = 0"
    "c_cflag tio' AND CRTSCTS = 0" "c_cflag tio' AND 0x130 = 0x030" "c_cflag tio' AND CREAD = CREAD"
    "c_cflag tio' AND CLOCAL = CLOCAL" "c_speed tio' = B115200"
  using assms
  by (auto simp: configure_uart_raw_def cfmakeraw_def Let_def CLOCAL_def CREAD_def CRTSCTS_def bit.conj_disj_distrib2 and.assoc)

text \<open>The two smaller classes do what \<open>UniqueFd\<close> does.\<close>

lemma Fd_like_UniqueFd [simp]:
  "Fd_dtor x w = UniqueFd_dtor x w" "Fd_reset fd x w = UniqueFd_reset fd x w" "Fd_move_assign x y w = UniqueFd_move_assign x y w"
  "ctl_Fd_dtor x w = UniqueFd_dtor x w"
  by (simp_all add: Fd_dtor_def Fd_reset_def Fd_move_assign_def ctl_Fd_dtor_def UniqueFd_defs)

lemma UniqueFd_dtor_none [simp]: "UniqueFd_dtor (-1) w = w"
  by (simp add: UniqueFd_defs)

interpretation lowest: fd_kernel "kopen_lowest fails" for fails
proof
  fix i and S :: "int set"
  assume "0 \<le> kopen_lowest fails i S"
  then have "List.find (\<lambda>fd. fd \<notin> S) (map int [0..<Suc (card S)]) = Some (kopen_lowest fails i S)"
    by (simp add: kopen_lowest_def split: if_splits option.splits)
  then show "kopen_lowest fails i S \<notin> S" unfolding find_Some_iff by metis
qed

text \<open>It always finds one, and it is the lowest.\<close>

lemma kopen_lowest_least:
  assumes "finite S" and "i \<notin> fails"
  shows "0 \<le> kopen_lowest fails i S \<and> (\<forall>fd. 0 \<le> fd \<and> fd < kopen_lowest fails i S \<longrightarrow> fd \<in> S)"
proof -
  have "\<not> int ` {0..<Suc (card S)} \<subseteq> S"
    using card_mono [OF assms(1), of "int ` {0..<Suc (card S)}"] by (auto simp: card_image)
  then have "List.find (\<lambda>fd. fd \<notin> S) (map int [0..<Suc (card S)]) \<noteq> None"
    by (auto simp: find_None_iff simp del: upt_Suc)
  then obtain k where k: "k < Suc (card S)" "kopen_lowest fails i S = int k" "\<forall>j<k. int j \<in> S"
    using assms(2) by (fastforce simp: kopen_lowest_def find_Some_iff simp del: upt_Suc)
  have "fd \<in> S" if "0 \<le> fd" "fd < int k" for fd
    using k(3) [rule_format, of "nat fd"] that by simp
  then show ?thesis using k(2) by simp
qed

lemma owned_neg [simp]: "v < 0 \<Longrightarrow> v \<notin> owned m"
  by (simp add: owned_def)

lemma ownedI: "m x = Some v \<Longrightarrow> 0 \<le> v \<Longrightarrow> v \<in> owned m"
  by (auto simp: owned_def)

lemma owned_new: "m x = None \<Longrightarrow> owned (m(x \<mapsto> v)) = (if 0 \<le> v then insert v (owned m) else owned m)"
  unfolding owned_def by (auto simp: fun_upd_def) (metis option.distinct(1))+

lemma owned_gone: "one_owner m \<Longrightarrow> m x = Some u \<Longrightarrow> owned (m(x := None)) = owned m - {u}"
  unfolding owned_def one_owner_def by (auto simp: fun_upd_def) (metis option.inject)+

lemma owned_set:
  assumes "one_owner m" and "m x = Some u"
  shows "owned (m(x \<mapsto> v)) = (if 0 \<le> v then insert v (owned m - {u}) else owned m - {u})"
  using owned_new [of "m(x := None)" x v] owned_gone [OF assms] by simp

lemma one_owner_new: "one_owner m \<Longrightarrow> m x = None \<Longrightarrow> v \<notin> owned m \<Longrightarrow> one_owner (m(x \<mapsto> v))"
  unfolding one_owner_def owned_def by (smt (verit) fun_upd_apply mem_Collect_eq option.inject)

lemma one_owner_gone: "one_owner m \<Longrightarrow> one_owner (m(x := None))"
  unfolding one_owner_def by (metis fun_upd_other fun_upd_same option.distinct(1))

lemma one_owner_set:
  assumes "one_owner m" and "m x = Some u" and "v \<notin> owned m - {u}"
  shows "one_owner (m(x \<mapsto> v))"
  using one_owner_new [of "m(x := None)" x v] one_owner_gone [OF assms(1)] owned_gone [OF assms(1,2)] assms(3) by simp

text \<open>Moving from one object to another: first the source is emptied.\<close>

lemma move_new:
  assumes "one_owner m" and "m y = Some v" and "m x = None"
  shows "owned (m(x \<mapsto> v, y \<mapsto> -1)) = owned m" "one_owner (m(x \<mapsto> v, y \<mapsto> -1))"
proof -
  have m: "m(x \<mapsto> v, y \<mapsto> -1) = m(y \<mapsto> -1, x \<mapsto> v)" using assms by (intro fun_upd_twist) auto
  have *: "owned (m(y \<mapsto> -1)) = owned m - {v}" "one_owner (m(y \<mapsto> -1))" "(m(y \<mapsto> -1)) x = None"
    using assms by (auto simp: owned_set one_owner_set)
  show "owned (m(x \<mapsto> v, y \<mapsto> -1)) = owned m" unfolding m
    using owned_new [of "m(y \<mapsto> -1)" x v] *(3) *(1) ownedI [of m y v] assms(2) by auto
  show "one_owner (m(x \<mapsto> v, y \<mapsto> -1))" unfolding m using one_owner_new [of "m(y \<mapsto> -1)" x v] * by simp
qed

lemma move_assign:
  assumes "one_owner m" and "m x = Some u" and "m y = Some v" and "x \<noteq> y"
  shows "owned (m(x \<mapsto> v, y \<mapsto> -1)) = owned m - {u}" "one_owner (m(x \<mapsto> v, y \<mapsto> -1))"
proof -
  have "m(x \<mapsto> v, y \<mapsto> -1) = (m(x := None))(x \<mapsto> v, y \<mapsto> -1)" by simp
  then show "owned (m(x \<mapsto> v, y \<mapsto> -1)) = owned m - {u}" "one_owner (m(x \<mapsto> v, y \<mapsto> -1))"
    using move_new [OF one_owner_gone [OF assms(1), of x], of y v x] owned_gone [OF assms(1,2)] assms by simp_all
qed

lemmas owners = owned_new owned_gone owned_set one_owner_new one_owner_gone one_owner_set move_new move_assign

context fd_kernel
begin

lemma open_unused: "sys_open kopen i w = (r, w') \<Longrightarrow> 0 \<le> r \<Longrightarrow> r \<notin> open_fds w"
  using unused by (auto simp: sys_open_def Let_def)

lemma step_fd_inv:
  assumes "fd_step kopen a s = Some s'" and "fd_inv S s"
  shows "fd_inv S s'"
proof (cases a)
  case (New_open x i)
  then show ?thesis using assms unused [of i "open_fds (tab s)"]
    by (auto simp: fd_inv_def sys_open_def Let_def owners split: if_splits)
next
  case (New_default x)
  then show ?thesis using assms by (auto simp: fd_inv_def owners UniqueFd_defs split: if_splits)
next
  case (New_move x y)
  then show ?thesis using assms by (auto simp: fd_inv_def owners UniqueFd_defs split: if_splits option.splits)
next
  case (Reset_open x i)
  then show ?thesis using assms unused [of i "open_fds (tab s)"] ownedI [of "objs s" x]
    by (auto simp: fd_inv_def owners UniqueFd_defs sys_open_def sys_close_def Let_def split: if_splits option.splits)
next
  case (Assign x y)
  then show ?thesis using assms ownedI [of "objs s" x]
    by (auto simp: fd_inv_def owners UniqueFd_defs sys_close_def Let_def split: if_splits option.splits)
next
  case (Release x)
  then show ?thesis using assms ownedI [of "objs s" x]
    by (auto simp: fd_inv_def owners UniqueFd_defs split: if_splits option.splits)
next
  case (Destroy x)
  then show ?thesis using assms ownedI [of "objs s" x]
    by (auto simp: fd_inv_def owners UniqueFd_defs sys_close_def split: if_splits option.splits)
next
  case Close_released
  then show ?thesis using assms by (auto simp: fd_inv_def sys_close_def split: list.splits)
qed

lemma run_fd_inv: "fd_run kopen as s = Some s' \<Longrightarrow> fd_inv S s \<Longrightarrow> fd_inv S s'"
  by (induction as arbitrary: s) (auto dest: step_fd_inv split: option.splits)

lemma open_failed: "sys_open kopen i w = (r, w') \<Longrightarrow> r < 0 \<Longrightarrow> w' = w"
  by (auto simp: sys_open_def Let_def split: if_splits)

lemma closed_back:
  assumes "sys_open kopen i w = (r, w')" and "0 \<le> r" and "gives_back w' w''"
  shows "gives_back w (sys_close r w'')"
  using assms open_unused [OF assms(1,2)]
  by (fastforce simp: gives_back_def sys_open_def sys_close_def Let_def split: if_splits)

lemma destroyed_back:
  assumes "sys_open kopen i w = (r, w')" and "gives_back w' w''"
  shows "gives_back w (UniqueFd_dtor r w'')"
  using closed_back [OF assms(1) _ assms(2)] open_failed [OF assms(1)] assms(2)
  by (cases "0 \<le> r") (auto simp: UniqueFd_defs)

lemma linkd_back: "gives_back w (snd (linkd_fds kopen tcget tcset_ok rc w))"
  by (auto simp: linkd_fds_def split: prod.splits intro!: destroyed_back)

lemma ctl_back: "gives_back w (snd (ctl_fds kopen rc w))"
  by (auto simp: ctl_fds_def split: prod.splits intro!: destroyed_back dest: open_failed)

lemma setup_back:
  assumes "setup_fds kopen add_ok (-1, -1, -1) w = (ok, (epoll, timer, wake), w')"
  shows "gives_back w (UniqueFd_dtor epoll (UniqueFd_dtor timer (UniqueFd_dtor wake w')))"
proof -
  obtain ep w1 where o1: "sys_open kopen 1 w = (ep, w1)" by fastforce
  obtain tfd w2 where o2: "sys_open kopen 2 w1 = (tfd, w2)" by fastforce
  obtain efd w3 where o3: "sys_open kopen 3 w2 = (efd, w3)" by fastforce
  note failed = open_failed [OF o1] open_failed [OF o2] open_failed [OF o3]
  have "gives_back w (UniqueFd_dtor ep w1)" "gives_back w (UniqueFd_dtor ep (UniqueFd_dtor tfd w2))"
    "gives_back w (UniqueFd_dtor ep (UniqueFd_dtor tfd (UniqueFd_dtor efd w3)))"
    by (intro destroyed_back [OF o1] destroyed_back [OF o2] destroyed_back [OF o3] gives_back_refl)+
  then show ?thesis using assms
    by (auto simp: setup_fds_def UniqueFd_reset_def Let_def o1 o2 o3 failed simp del: One_nat_def split: if_splits)
qed

lemma live_back: "gives_back w (snd (live_fds kopen log_ok add_ok w))"
proof -
  obtain dfd w1 where o: "sys_open kopen 0 w = (dfd, w1)" by fastforce
  obtain ok ep tm wk w2 where s: "setup_fds kopen add_ok (-1, -1, -1) w1 = (ok, (ep, tm, wk), w2)"
    by (metis prod.exhaust)
  show ?thesis using open_failed [OF o]
    by (auto simp: live_fds_def open_device_fds_def UniqueFd_default_def UniqueFd_reset_def Let_def o s
        intro!: destroyed_back [OF o] setup_back [OF s])
qed

lemma make_pty_back:
  assumes "make_pty_fds kopen i c w = (r, w')"
  shows "if r < 0 then gives_back w w' else sys_open kopen i w = (r, w')"
  using assms closed_back [of i w] open_failed [of i w]
  by (fastforce simp: make_pty_fds_def split: prod.splits if_splits)

lemma open_both_back:
  assumes "sys_open kopen i w = (l, w1)" and "sys_open kopen j w1 = (r, w2)" and "0 \<le> l" and "0 \<le> r"
  shows "gives_back w (sys_close r (sys_close l w2))"
proof -
  have "l \<notin> open_fds w" "open_fds w1 = insert l (open_fds w)" "close_log w1 = close_log w"
    and "r \<notin> open_fds w1" "open_fds w2 = insert r (open_fds w1)" "close_log w2 = close_log w1"
    using assms open_unused [OF assms(1,3)] open_unused [OF assms(2,4)] by (auto simp: sys_open_def Let_def)
  then show ?thesis by (auto simp: gives_back_def sys_close_def)
qed

lemma endpoints_back:
  "gives_back w (snd (bridge_fds kopen True True pty_l pty_r w))"
proof -
  obtain l w1 where l: "sys_open kopen 0 w = (l, w1)" by fastforce
  obtain r w2 where r: "sys_open kopen 1 w1 = (r, w2)" by fastforce
  show ?thesis using open_both_back [OF l r] open_failed [OF l] open_failed [OF r] closed_back [OF l, of w1]
    by (auto simp: bridge_fds_def l r simp del: One_nat_def)
qed

lemma ptys_back:
  "gives_back w (snd (bridge_fds kopen False False pty_l pty_r w))"
proof -
  obtain l w1 where l: "make_pty_fds kopen 0 pty_l w = (l, w1)" by fastforce
  obtain r w2 where r: "make_pty_fds kopen 1 pty_r w1 = (r, w2)" by fastforce
  note pty = make_pty_back [OF l] make_pty_back [OF r]
  show ?thesis
  proof (cases "l < 0 \<or> r < 0")
    case True
    then show ?thesis using pty closed_back [of 0 w l w1 w2] by (auto simp: bridge_fds_def l r simp del: One_nat_def)
  next
    case False
    then show ?thesis using pty open_both_back [of 0 w l w1 1 r w2] by (auto simp: bridge_fds_def l r simp del: One_nat_def)
  qed
qed

lemma bridge_back: "gives_back w (snd (bridge_fds kopen left_given right_given pty_l pty_r w))"
  using endpoints_back ptys_back
  by (cases left_given; cases right_given) (simp_all add: bridge_fds_def [of _ True False] bridge_fds_def [of _ False True])

end

section \<open>Properties\<close>

text \<open>C30 (invariant).  A program that handles descriptors through the owning classes only, starting with the open descriptors
  \<open>S\<close>: whatever the kernel answers to its opening calls (a failure or a descriptor that is not in use) and in
  whatever order it constructs, moves, resets, releases and destroys its objects, no call of \<open>close\<close> ever names a
  descriptor that is not open, no descriptor has two owners, the descriptors of \<open>S\<close> stay open and are never owned, and
  once all objects are gone and what was released is closed exactly \<open>S\<close> is open: nothing leaks.\<close>

theorem descriptors_balanced:
  assumes "fd_kernel kopen" and "fd_run kopen ops \<lparr>objs = Map.empty, released = [], tab = \<lparr>open_fds = S, close_log = []\<rparr>\<rparr> = Some s"
  shows "(\<forall>(fd, was_open)\<in>set (close_log (tab s)). was_open)
    \<and> (\<forall>x y v. objs s x = Some v \<and> objs s y = Some v \<and> 0 \<le> v \<longrightarrow> x = y)
    \<and> S \<subseteq> open_fds (tab s) \<and> (\<forall>x v. objs s x = Some v \<and> 0 \<le> v \<longrightarrow> v \<in> open_fds (tab s) - S)
    \<and> (objs s = Map.empty \<and> released s = [] \<longrightarrow> open_fds (tab s) = S)"
proof -
  have "fd_inv S \<lparr>objs = Map.empty, released = [], tab = \<lparr>open_fds = S, close_log = []\<rparr>\<rparr>"
    by (simp add: fd_inv_def owned_def one_owner_def)
  from fd_kernel.run_fd_inv [OF assms this] show ?thesis
    by (auto simp: fd_inv_def one_owner_def owned_def)
qed

theorem descriptors_balanced_witness:
  "\<exists>s. fd_run (kopen_lowest {1}) [New_open 0 0, New_default 1, Assign 1 0, Reset_open 1 1, New_open 2 2, Release 2, Close_released,
        Destroy 0, Destroy 1, Destroy 2]
     \<lparr>objs = Map.empty, released = [], tab = \<lparr>open_fds = {0, 1, 2}, close_log = []\<rparr>\<rparr> = Some s
   \<and> open_fds (tab s) = {0, 1, 2} \<and> close_log (tab s) = [(3, True), (3, True)]"
proof -
  let ?ops = "[New_open 0 0, New_default 1, Assign 1 0, Reset_open 1 1, New_open 2 2, Release 2, Close_released,
        Destroy 0, Destroy 1, Destroy 2]"
  obtain s where s: "fd_run (kopen_lowest {1}) ?ops
     \<lparr>objs = Map.empty, released = [], tab = \<lparr>open_fds = {0, 1, 2}, close_log = []\<rparr>\<rparr> = Some s"
    and "objs s = Map.empty" "released s = []" "close_log (tab s) = [(3, True), (3, True)]"
    by (simp add: sys_open_def sys_close_def kopen_lowest_def UniqueFd_defs)
  with descriptors_balanced [OF lowest.fd_kernel_axioms s] show ?thesis by blast
qed



end
