(* ===== verification/Fault_Log.thy ===== *)
theory Fault_Log
  imports Supervisor_Main
begin

text \<open>
  The generator of the recorded byte stream (\<open>tests/fixtures/gen_fault_log.cpp\<close>), and the baseline demo
  of the repository: the supervisor's mock mode on the generated file, and a replay of the log that
  the mock run has written.
\<close>

section \<open>Definitions\<close>

definition gen_append_frame :: "bytes \<Rightarrow> u8 \<Rightarrow> u16 \<Rightarrow> u32 \<Rightarrow> bytes option \<Rightarrow> u16 \<Rightarrow> bool \<Rightarrow> bytes" where
  "gen_append_frame out ty seq ts_ms payload plen corrupt =
     (let hdr = safety_frame_init ty seq plen ts_ms;
          hdr = hdr\<lparr>checksum := safety_frame_compute_checksum hdr payload plen\<rparr>;
          hdr = (if corrupt then hdr\<lparr>checksum := checksum hdr XOR 0xDEADBEEF\<rparr> else hdr);
          off = length out;
          out = out @ replicate (SAFETY_HEADER_SIZE + unat plen) 0;
          out = memcpy_at out off (header_bytes hdr)
      in case payload of
           Some p \<Rightarrow> if plen \<noteq> 0 then memcpy_at out (off + SAFETY_HEADER_SIZE) (take (unat plen) p) else out
         | None \<Rightarrow> out)"

text \<open>The local variables of \<open>main\<close>.\<close>

record gen_state =
  gen_buf :: bytes
  gen_seq :: u16
  gen_ts :: u32
  gen_beat :: u32

text \<open>The payload of the next heartbeat, and the lambda \<open>hb\<close>.\<close>

definition gen_beat_payload :: "u32 \<Rightarrow> gen_state \<Rightarrow> bytes \<times> gen_state" where
  "gen_beat_payload t s = (heartbeat_bytes \<lparr>uptime_ms = t, beat_seq = gen_beat s\<rparr>, s\<lparr>gen_beat := gen_beat s + 1\<rparr>)"

definition gen_put :: "u8 \<Rightarrow> u32 \<Rightarrow> bytes \<Rightarrow> u16 \<Rightarrow> bool \<Rightarrow> gen_state \<Rightarrow> gen_state" where
  "gen_put ty t p n corrupt s =
     s\<lparr>gen_buf := gen_append_frame (gen_buf s) ty (gen_seq s) t (Some p) n corrupt, gen_seq := gen_seq s + 1\<rparr>"

definition gen_hb :: "u32 \<Rightarrow> gen_state \<Rightarrow> gen_state" where
  "gen_hb t s = (let (p, s) = gen_beat_payload t s in gen_put SAFETY_FRAME_HEARTBEAT t p 8 False s)"

definition gen_tick :: "u32 \<Rightarrow> gen_state \<Rightarrow> gen_state" where
  "gen_tick d s = s\<lparr>gen_ts := gen_ts s + d\<rparr>"

text \<open>The bodies of the loops and blocks of \<open>main\<close>, in their order.\<close>

definition gen_beats :: "nat \<Rightarrow> gen_state \<Rightarrow> gen_state" where
  "gen_beats n = (\<lambda>s. gen_tick 100 (gen_hb (gen_ts s) s)) ^^ n"

definition gen_telemetry :: "gen_state \<Rightarrow> gen_state" where
  "gen_telemetry s = gen_tick 100 (gen_put SAFETY_FRAME_TELEMETRY (gen_ts s)
     (telemetry_bytes \<lparr>temperature_c_x10 = 372, voltage_mv = 3300, cpu_load_pct = 42, tm_fault_count = 0\<rparr>) 8 False s)"

definition gen_gap :: "gen_state \<Rightarrow> gen_state" where
  "gen_gap s = (let s = gen_tick 600 s in gen_tick 100 (gen_hb (gen_ts s) s))"

definition gen_corrupt :: "gen_state \<Rightarrow> gen_state" where
  "gen_corrupt s = (let t = gen_ts s; (p, s) = gen_beat_payload t s
     in gen_tick 100 (gen_put SAFETY_FRAME_HEARTBEAT t p 8 True s))"

definition gen_unknown :: "gen_state \<Rightarrow> gen_state" where
  "gen_unknown s = gen_tick 100 (gen_put 0x7F (gen_ts s) [0xAA, 0xBB, 0xCC, 0xDD] 4 False s)"

definition gen_all :: gen_state where
  "gen_all =
     (let s = \<lparr>gen_buf = [], gen_seq = 0, gen_ts = 1000, gen_beat = 0\<rparr>;
          s = gen_beats 10 s;
          s = (gen_telemetry ^^ 2) s;
          s = gen_gap s;
          s = gen_corrupt s;
          s = gen_unknown s
      in gen_beats 5 s)"

text \<open>\<open>main\<close>: the return code and the file it writes, \<open>fopen\<close> succeeding or not.\<close>

definition gen_main :: "string list \<Rightarrow> bool \<Rightarrow> int \<times> bytes option" where
  "gen_main argv fopen_ok =
     (if length argv < 2 then (2, None)
      else if \<not> fopen_ok then (1, None)
      else (0, Some (gen_buf gen_all)))"

section \<open>Specification\<close>

text \<open>A frame of the file: its type, number, time stamp and payload, and whether its checksum is spoilt.\<close>

type_synonym gen_frame = "u8 \<times> u16 \<times> u32 \<times> bytes \<times> bool"

fun gen_header :: "gen_frame \<Rightarrow> SafetyFrameHeader" where
  "gen_header (ty, seq, ts, p, corrupt) =
     (let h = safety_frame_init ty seq (of_nat (length p)) ts; crc = safety_crc32 (header_bytes (h\<lparr>checksum := 0\<rparr>) @ p)
      in h\<lparr>checksum := (if corrupt then crc XOR 0xDEADBEEF else crc)\<rparr>)"

fun gen_raw :: "gen_frame \<Rightarrow> bytes" where
  "gen_raw (ty, seq, ts, p, corrupt) = header_bytes (gen_header (ty, seq, ts, p, corrupt)) @ p"

fun gen_parsed :: "gen_frame \<Rightarrow> ParsedFrame" where
  "gen_parsed (ty, seq, ts, p, corrupt) = \<lparr>pf_header = gen_header (ty, seq, ts, p, corrupt), pf_payload = p,
     pf_result = (if corrupt then SAFETY_VALIDATE_BAD_CHECKSUM else SAFETY_VALIDATE_OK)\<rparr>"

definition gen_short :: "gen_frame \<Rightarrow> bool" where
  "gen_short f \<longleftrightarrow> (case f of (ty, seq, ts, p, corrupt) \<Rightarrow> length p \<le> 256)"

text \<open>The twenty frames of the file.\<close>

definition gen_beat_frame :: "u16 \<Rightarrow> u32 \<Rightarrow> u32 \<Rightarrow> bool \<Rightarrow> gen_frame" where
  "gen_beat_frame seq ts beat corrupt = (SAFETY_FRAME_HEARTBEAT, seq, ts, heartbeat_bytes \<lparr>uptime_ms = ts, beat_seq = beat\<rparr>, corrupt)"

definition gen_frames :: "gen_frame list" where
  "gen_frames =
     (let tm = telemetry_bytes \<lparr>temperature_c_x10 = 372, voltage_mv = 3300, cpu_load_pct = 42, tm_fault_count = 0\<rparr>
      in map (\<lambda>i. gen_beat_frame (of_nat i) (1000 + 100 * of_nat i) (of_nat i) False) [0..<10]
         @ [(SAFETY_FRAME_TELEMETRY, 10, 2000, tm, False), (SAFETY_FRAME_TELEMETRY, 11, 2100, tm, False)]
         @ [gen_beat_frame 12 2800 10 False]
         @ [gen_beat_frame 13 2900 11 True]
         @ [(0x7F, 14, 3000, [0xAA, 0xBB, 0xCC, 0xDD], False)]
         @ map (\<lambda>i. gen_beat_frame (15 + of_nat i) (3100 + 100 * of_nat i) (12 + of_nat i) False) [0..<5])"

section \<open>Lemmas\<close>

lemma gen_append_raw:
  assumes "n = of_nat (length p)" "length p \<le> 256"
  shows "gen_append_frame out ty seq ts (Some p) n corrupt = out @ gen_raw (ty, seq, ts, p, corrupt)"
proof -
  have n: "unat n = length p" using assms by (simp add: unat_of_nat)
  have z: "n = 0 \<longleftrightarrow> p = []" using n by (metis length_0_conv unsigned_0 unsigned_eq_0_iff)
  show ?thesis using n z assms(1)
    by (auto simp: gen_append_frame_def compute_checksum_crc32 memcpy_at_def SAFETY_HEADER_SIZE_def Let_def)
qed

lemma gen_put_buf:
  assumes "length p \<le> 256" "n = of_nat (length p)"
  shows "gen_put ty t p n corrupt s = s\<lparr>gen_buf := gen_buf s @ gen_raw (ty, gen_seq s, t, p, corrupt), gen_seq := gen_seq s + 1\<rparr>"
  unfolding gen_put_def gen_append_raw [OF assms(2,1)] ..

lemma gen_hb_buf:
  "gen_hb t s = s\<lparr>gen_buf := gen_buf s @ gen_raw (gen_beat_frame (gen_seq s) t (gen_beat s) False),
     gen_seq := gen_seq s + 1, gen_beat := gen_beat s + 1\<rparr>"
  by (simp add: gen_hb_def gen_beat_payload_def gen_put_buf gen_beat_frame_def del: gen_raw.simps)

lemma gen_beats_buf:
  "gen_beats n s = s\<lparr>gen_buf := gen_buf s @ concat (map (\<lambda>i. gen_raw (gen_beat_frame (gen_seq s + of_nat i)
       (gen_ts s + 100 * of_nat i) (gen_beat s + of_nat i) False)) [0..<n]),
     gen_seq := gen_seq s + of_nat n, gen_ts := gen_ts s + 100 * of_nat n, gen_beat := gen_beat s + of_nat n\<rparr>"
proof (induction n)
  case (Suc n)
  have "gen_beats (Suc n) s = gen_tick 100 (gen_hb (gen_ts (gen_beats n s)) (gen_beats n s))" by (simp add: gen_beats_def)
  then show ?case by (simp add: Suc gen_hb_buf gen_tick_def algebra_simps)
qed (simp add: gen_beats_def)

lemma gen_all_buf: "gen_buf gen_all = concat (map gen_raw gen_frames)"
  by (simp add: gen_all_def gen_beats_buf gen_telemetry_def gen_gap_def gen_corrupt_def gen_unknown_def gen_beat_payload_def
      gen_hb_buf gen_put_buf gen_tick_def gen_frames_def gen_beat_frame_def comp_def numeral_2_eq_2 Let_def
      del: gen_raw.simps upt_rec_numeral)

lemma xor_changes: "x XOR k = x \<longleftrightarrow> k = 0" for x k :: "'a :: len word"
  by (metis xor.left_neutral xor.right_neutral xor.assoc xor_self_eq)

lemma raw_header: "header_of_bytes (header_bytes h @ r) = h" "length (header_bytes h) = 16"
  by simp_all

lemma validate_raw:
  assumes "magic h = SAFETY_PROTO_MAGIC" "version h = SAFETY_PROTO_VERSION" "unat (payload_length h) = length p" "length p \<le> 256"
  shows "safety_frame_validate (header_bytes h @ p) = (if checksum h = safety_crc32 (header_bytes (h\<lparr>checksum := 0\<rparr>) @ p)
     then SAFETY_VALIDATE_OK else SAFETY_VALIDATE_BAD_CHECKSUM)"
  using assms by (auto simp: safety_frame_validate_def compute_checksum_crc32 SAFETY_HEADER_SIZE_def SAFETY_MAX_PAYLOAD_def Let_def)

lemma gen_parse:
  assumes "gen_short f"
  shows "assembler_loop (gen_raw f @ rest) = (gen_parsed f # fst (assembler_loop rest), snd (assembler_loop rest))"
proof -
  obtain ty seq ts p c where f: "f = (ty, seq, ts, p, c)" by (metis prod_cases5)
  define h where "h = gen_header f"
  have n: "unat (of_nat (length p) :: u16) = length p" using assms f by (simp add: gen_short_def unat_of_nat)
  have h: "magic h = SAFETY_PROTO_MAGIC" "version h = SAFETY_PROTO_VERSION" "unat (payload_length h) = length p"
    "h\<lparr>checksum := 0\<rparr> = (safety_frame_init ty seq (of_nat (length p)) ts)\<lparr>checksum := 0\<rparr>"
    using n by (simp_all add: h_def f Let_def)
  have raw: "gen_raw f = header_bytes h @ p" by (simp add: f h_def)
  have "checksum h = safety_crc32 (header_bytes (h\<lparr>checksum := 0\<rparr>) @ p) \<longleftrightarrow> \<not> c"
    by (simp add: h(4)) (simp add: h_def f Let_def xor_changes)
  moreover have "length p \<le> 256" using assms by (simp add: gen_short_def f)
  ultimately have v: "safety_frame_validate (gen_raw f) = (if c then SAFETY_VALIDATE_BAD_CHECKSUM else SAFETY_VALIDATE_OK)"
    unfolding raw validate_raw [OF h(1-3) \<open>length p \<le> 256\<close>] by simp
  obtain t where t: "header_bytes h = 0x46 # 0x53 # t" by (rule header_bytes_magic [OF h(1)])
  have "get16 (gen_raw f @ rest) 0 = SAFETY_PROTO_MAGIC" by (simp add: raw t get16_magic)
  moreover have "header_of_bytes (gen_raw f @ rest) = h" "length (gen_raw f) = 16 + length p" by (simp_all add: raw)
  ultimately have "frame_step bad_frame parsed (gen_raw f @ rest) = Some ([parsed (gen_raw f)], rest)"
    using h(3) assms by (simp add: frame_step_def gen_short_def f Let_def)
  moreover have "parsed (gen_raw f) = gen_parsed f" by (simp add: parsed_def v) (simp add: raw h_def f)
  ultimately show ?thesis using asm.run_Some by fastforce
qed

lemma gen_parse_all:
  "\<forall>f\<in>set fs. gen_short f \<Longrightarrow> assembler_loop (concat (map gen_raw fs)) = (map gen_parsed fs, [])"
  by (induction fs) (simp_all add: gen_parse asm.run_Nil)

lemma gen_frames_short: "\<forall>f\<in>set gen_frames. gen_short f"
  by (auto simp: gen_frames_def gen_beat_frame_def gen_short_def Let_def)

text \<open>The mock run does not look at checksums, so the frames may be given without theirs.\<close>

fun gen_plain :: "gen_frame \<Rightarrow> ParsedFrame" where
  "gen_plain (ty, seq, ts, p, corrupt) = \<lparr>pf_header = safety_frame_init ty seq (of_nat (length p)) ts, pf_payload = p,
     pf_result = (if corrupt then SAFETY_VALIDATE_BAD_CHECKSUM else SAFETY_VALIDATE_OK)\<rparr>"

lemma mock_frame_checksum: "mock_frame hb (f\<lparr>pf_header := (pf_header f)\<lparr>checksum := c\<rparr>\<rparr>) m = mock_frame hb f m"
proof -
  let ?f = "f\<lparr>pf_header := (pf_header f)\<lparr>checksum := c\<rparr>\<rparr>"
  have log: "frame_log k ?f name = frame_log k f name" for k name by (simp add: frame_log_def)
  have "mock_gap hb ?f m = mock_gap hb f m" for m by (simp add: mock_gap_def)
  then have "mock_heartbeat hb ?f m = mock_heartbeat hb f m" for m by (simp add: mock_heartbeat_def log)
  moreover have "fault_severity ?f = fault_severity f" by (simp add: fault_severity_def)
  ultimately show ?thesis by (simp add: mock_frame_def log cong: if_cong)
qed

lemma mock_plain: "mock_frame hb (gen_parsed f) = mock_frame hb (gen_plain f)"
proof
  fix m
  obtain ty seq ts p c where f: "f = (ty, seq, ts, p, c)" by (metis prod_cases5)
  show "mock_frame hb (gen_parsed f) m = mock_frame hb (gen_plain f) m"
    using mock_frame_checksum [where f = "gen_plain f" and hb = hb and m = m and c = "checksum (gen_header f)"] by (simp add: f Let_def)
qed

lemma fold_mock_plain: "fold (mock_frame hb) (map gen_parsed fs) m = fold (mock_frame hb) (map gen_plain fs) m"
  by (induction fs arbitrary: m) (simp_all add: mock_plain del: gen_parsed.simps gen_plain.simps)

definition demo_mock :: mock where
  "demo_mock = fold (mock_frame 350) (map gen_plain gen_frames) mock_init"

lemma demo_mock_loggable: "\<forall>e\<in>set (mk_log demo_mock). loggable_event e"
  by code_simp

lemma demo_mock_counts:
  "(mk_fsm demo_mock = HEALTHY \<and> nack_count demo_mock = 1 \<and> kind_count TIMEOUT demo_mock = 1 \<and> kind_count TX_COMMAND demo_mock = 1
    \<and> kind_count RECOVERY_RESULT demo_mock = 1 \<and> kind_count TX_ACK demo_mock = 16)
   \<and> fold replay_event (mk_log demo_mock) BOOTING = HEALTHY"
  by code_simp

lemma demo_short_run:
  "let m = fold (mock_frame 350) (map gen_plain (take 15 gen_frames)) mock_init
   in mk_fsm m = HEALTHY \<and> fold replay_event (mk_log m) BOOTING = RECOVERING"
  by code_simp

lemma gen_cut: "take (length (gen_buf gen_all) - 5 * 24) (gen_buf gen_all) = concat (map gen_raw (take 15 gen_frames))"
proof -
  have "gen_buf gen_all = concat (map gen_raw (take 15 gen_frames)) @ concat (map gen_raw (drop 15 gen_frames))"
    unfolding gen_all_buf by (metis append_take_drop_id concat_append map_append)
  moreover have "length (concat (map gen_raw (drop 15 gen_frames))) = 5 * 24"
    by (simp add: gen_frames_def gen_beat_frame_def upt_rec Let_def)
  ultimately show ?thesis by simp
qed

section \<open>Properties\<close>

text \<open>Baseline demo.  The generator writes a file on which the supervisor's mock mode with its default timeout returns
  0 after 20 frames, in state HEALTHY, having refused one frame, noticed one timeout, made one recovery
  and acknowledged 16 heartbeats; and the replay of the log that this run writes returns 0 and also ends in
  state HEALTHY, with one timeout: what the documents give as the expected output.  Without the last
  five heartbeats the mock run would be HEALTHY all the same, but the replay of its log RECOVERING.\<close>

theorem baseline_demo:
  "\<exists>bs m r. gen_main [prog, path] True = (0, Some bs)
    \<and> run_mock (Some bs) True (a_hb_timeout_ms default_args) = (0, 20, m) \<and> mk_fsm m = HEALTHY \<and> nack_count m = 1
    \<and> kind_count TIMEOUT m = 1 \<and> kind_count TX_COMMAND m = 1 \<and> kind_count RECOVERY_RESULT m = 1 \<and> kind_count TX_ACK m = 16
    \<and> run_replay (Some (map serialize_event (mk_log m))) True = Some (0, r) \<and> rp_fsm r = HEALTHY \<and> timeouts r = 1
    \<and> (let m' = fold (mock_frame 350) (fst (assembler_feed [] (take (length bs - 5 * 24) bs))) mock_init
       in mk_fsm m' = HEALTHY \<and> fold replay_event (mk_log m') BOOTING = RECOVERING)"
proof -
  have feed: "assembler_feed [] (gen_buf gen_all) = (map gen_parsed gen_frames, [])"
    by (simp add: assembler_feed_def gen_all_buf gen_parse_all [OF gen_frames_short])
  have n: "length gen_frames = 20" by (simp add: gen_frames_def Let_def)
  have run: "run_mock (Some (gen_buf gen_all)) True (a_hb_timeout_ms default_args) = (0, 20, demo_mock)"
    by (simp add: run_mock_def feed n default_args_def demo_mock_def fold_mock_plain)
  obtain r where r: "run_replay (Some (map serialize_event (mk_log demo_mock))) True = Some (0, r)"
    "rp_fsm r = fold replay_event (mk_log demo_mock) BOOTING" "timeouts r = kind_count TIMEOUT demo_mock"
    using replay_lines_serialized [OF demo_mock_loggable, of replay_init] by (auto simp: run_replay_def replay_init_def kind_count_def)
  have "\<forall>f\<in>set (take 15 gen_frames). gen_short f" using gen_frames_short by (auto dest: in_set_takeD)
  then have "fst (assembler_feed [] (take (length (gen_buf gen_all) - 5 * 24) (gen_buf gen_all))) = map gen_parsed (take 15 gen_frames)"
    unfolding gen_cut by (simp add: assembler_feed_def gen_parse_all)
  then have cut: "let m' = fold (mock_frame 350) (fst (assembler_feed [] (take (length (gen_buf gen_all) - 5 * 24) (gen_buf gen_all)))) mock_init
      in mk_fsm m' = HEALTHY \<and> fold replay_event (mk_log m') BOOTING = RECOVERING"
    using demo_short_run by (simp only: fold_mock_plain)
  show ?thesis
    using run r demo_mock_counts cut by (intro exI [of _ "gen_buf gen_all"] exI [of _ demo_mock] exI [of _ r]) (simp add: gen_main_def)
qed

end
