(* ===== verification/Abi.thy ===== *)
theory Abi
  imports Driver_Chrdev Trace_User
begin

text \<open>
  Memory layouts.  Several parts of the system exchange C structures through memory and each has its own
  declaration: the driver's tracepoints (\<open>safety_copro_trace.h\<close>) and the eBPF programs' view of their
  records (\<open>safety_trace.bpf.c\<close>), the values of the eBPF maps and the reporter's view of them
  (\<open>safety_trace_user.c\<close>), the packed structures of the wire (\<open>safety_protocol.h\<close>) and those of the ioctls.  The rules
  of C for offsets, alignment and size are written out below; the declarations are data.
\<close>

section \<open>Definitions\<close>

subsection \<open>Layout of a structure\<close>

text \<open>An integer of so many bytes, an array, a structure with its fields and whether it is packed.\<close>

datatype ctype = CInt nat | CArr ctype nat | CStruct bool "(string \<times> ctype) list"

definition align_up :: "nat \<Rightarrow> nat \<Rightarrow> nat" where
  "align_up a n = (n + a - 1) div a * a"

fun calign :: "ctype \<Rightarrow> nat" and calign_fields :: "(string \<times> ctype) list \<Rightarrow> nat" where
  "calign (CInt n) = n"
| "calign (CArr t n) = calign t"
| "calign (CStruct pck fs) = (if pck then 1 else calign_fields fs)"
| "calign_fields [] = 1"
| "calign_fields ((x, t) # fs) = max (calign t) (calign_fields fs)"

text \<open>The size of a type, and the end of a sequence of fields that starts at a given offset.\<close>

fun csize :: "ctype \<Rightarrow> nat" and cend :: "bool \<Rightarrow> nat \<Rightarrow> (string \<times> ctype) list \<Rightarrow> nat" where
  "csize (CInt n) = n"
| "csize (CArr t n) = n * csize t"
| "csize (CStruct pck fs) = align_up (if pck then 1 else calign_fields fs) (cend pck 0 fs)"
| "cend pck off [] = off"
| "cend pck off ((x, t) # fs) = cend pck (align_up (if pck then 1 else calign t) off + csize t) fs"

text \<open>\<open>offsetof\<close>, with the type of the field.\<close>

fun field_from :: "bool \<Rightarrow> nat \<Rightarrow> (string \<times> ctype) list \<Rightarrow> string \<Rightarrow> (nat \<times> ctype) option" where
  "field_from pck off [] x = None"
| "field_from pck off ((y, t) # fs) x =
     (let off = align_up (if pck then 1 else calign t) off
      in if x = y then Some (off, t) else field_from pck (off + csize t) fs x)"

fun offsetof :: "ctype \<Rightarrow> string \<Rightarrow> (nat \<times> ctype) option" where
  "offsetof (CStruct pck fs) x = field_from pck 0 fs x"
| "offsetof _ x = None"

text \<open>Integers in memory, little-endian; an assignment to a field and its value.\<close>

fun le_bytes :: "nat \<Rightarrow> nat \<Rightarrow> bytes" where
  "le_bytes 0 v = []"
| "le_bytes (Suc n) v = of_nat v # le_bytes n (v div 256)"

fun le_value :: "bytes \<Rightarrow> nat" where
  "le_value [] = 0"
| "le_value (b # bs) = unat b + 256 * le_value bs"

definition store :: "ctype \<Rightarrow> string \<Rightarrow> nat \<Rightarrow> bytes \<Rightarrow> bytes" where
  "store S x v mem = (case offsetof S x of None \<Rightarrow> mem | Some (off, t) \<Rightarrow> memcpy_at mem off (le_bytes (csize t) v))"

definition load :: "ctype \<Rightarrow> string \<Rightarrow> bytes \<Rightarrow> nat" where
  "load S x mem = (case offsetof S x of None \<Rightarrow> 0 | Some (off, t) \<Rightarrow> le_value (take (csize t) (drop off mem)))"

subsection \<open>The tracepoint records\<close>

datatype tp_name = TP_frame_received | TP_frame_dropped | TP_timeout_detected | TP_recovery_queued | TP_poll_wakeup

fun tp_name_of :: "trace_event \<Rightarrow> tp_name" where
  "tp_name_of (safety_frame_received _ _ _) = TP_frame_received"
| "tp_name_of (safety_frame_dropped _ _) = TP_frame_dropped"
| "tp_name_of (safety_timeout_detected _ _) = TP_timeout_detected"
| "tp_name_of (safety_recovery_queued _) = TP_recovery_queued"
| "tp_name_of (safety_poll_wakeup _) = TP_poll_wakeup"

text \<open>\<open>TP_STRUCT__entry\<close> of the driver: the kernel puts its own \<open>struct trace_entry\<close>, the parameter \<open>ent\<close>,
  in front of the fields.\<close>

fun TP_STRUCT :: "tp_name \<Rightarrow> (string \<times> ctype) list" where
  "TP_STRUCT TP_frame_received = [(''seq'', CInt 2), (''type'', CInt 1), (''qlen'', CInt 4)]"
| "TP_STRUCT TP_frame_dropped = [(''seq'', CInt 2), (''type'', CInt 1)]"
| "TP_STRUCT TP_timeout_detected = [(''timeout_ms'', CInt 4), (''count'', CInt 4)]"
| "TP_STRUCT TP_recovery_queued = [(''count'', CInt 4)]"
| "TP_STRUCT TP_poll_wakeup = [(''events'', CInt 4)]"

definition tp_entry :: "ctype \<Rightarrow> tp_name \<Rightarrow> ctype" where
  "tp_entry ent n = CStruct False ((''ent'', ent) # TP_STRUCT n)"

text \<open>\<open>TP_fast_assign\<close> on the reserved record.\<close>

fun TP_fast_assign :: "ctype \<Rightarrow> trace_event \<Rightarrow> bytes \<Rightarrow> bytes" where
  "TP_fast_assign ent (safety_frame_received seq ty qlen) mem =
     (let S = tp_entry ent TP_frame_received
      in store S ''qlen'' (unat qlen) (store S ''type'' (unat ty) (store S ''seq'' (unat seq) mem)))"
| "TP_fast_assign ent (safety_frame_dropped seq ty) mem =
     (let S = tp_entry ent TP_frame_dropped in store S ''type'' (unat ty) (store S ''seq'' (unat seq) mem))"
| "TP_fast_assign ent (safety_timeout_detected ms cnt) mem =
     (let S = tp_entry ent TP_timeout_detected in store S ''count'' (unat cnt) (store S ''timeout_ms'' (unat ms) mem))"
| "TP_fast_assign ent (safety_recovery_queued cnt) mem = store (tp_entry ent TP_recovery_queued) ''count'' (unat cnt) mem"
| "TP_fast_assign ent (safety_poll_wakeup ev) mem = store (tp_entry ent TP_poll_wakeup) ''events'' (unat ev) mem"

text \<open>The eBPF programs' declarations.\<close>

definition safety_tp_common :: ctype where
  "safety_tp_common = CStruct False
     [(''common_type'', CInt 2), (''common_flags'', CInt 1), (''common_preempt_count'', CInt 1), (''common_pid'', CInt 4)]"

definition trace_event_safety_frame_received :: ctype where
  "trace_event_safety_frame_received = CStruct False
     [(''common'', safety_tp_common), (''seq'', CInt 2), (''type'', CInt 1), (''qlen'', CInt 4)]"

definition trace_event_safety_frame_dropped :: ctype where
  "trace_event_safety_frame_dropped = CStruct False [(''common'', safety_tp_common), (''seq'', CInt 2), (''type'', CInt 1)]"

definition trace_event_safety_timeout_detected :: ctype where
  "trace_event_safety_timeout_detected = CStruct False
     [(''common'', safety_tp_common), (''timeout_ms'', CInt 4), (''count'', CInt 4)]"

definition trace_event_safety_recovery_queued :: ctype where
  "trace_event_safety_recovery_queued = CStruct False [(''common'', safety_tp_common), (''count'', CInt 4)]"

definition trace_event_safety_poll_wakeup :: ctype where
  "trace_event_safety_poll_wakeup = CStruct False [(''common'', safety_tp_common), (''events'', CInt 4)]"

fun bpf_ctx :: "tp_name \<Rightarrow> ctype" where
  "bpf_ctx TP_frame_received = trace_event_safety_frame_received"
| "bpf_ctx TP_frame_dropped = trace_event_safety_frame_dropped"
| "bpf_ctx TP_timeout_detected = trace_event_safety_timeout_detected"
| "bpf_ctx TP_recovery_queued = trace_event_safety_recovery_queued"
| "bpf_ctx TP_poll_wakeup = trace_event_safety_poll_wakeup"

text \<open>The program attached to a tracepoint, run on the bytes of the record: the fields it uses are read
  through its own declaration.\<close>

fun on_record :: "bpf_env \<Rightarrow> tp_name \<Rightarrow> bytes \<Rightarrow> bpf_maps \<Rightarrow> bpf_maps" where
  "on_record e TP_frame_received mem m =
     handle_safety_frame_received e (of_nat (load trace_event_safety_frame_received ''seq'' mem)) m"
| "on_record e TP_frame_dropped mem m = handle_safety_frame_dropped e m"
| "on_record e TP_timeout_detected mem m =
     handle_safety_timeout_detected e (of_nat (load trace_event_safety_timeout_detected ''count'' mem)) m"
| "on_record e TP_recovery_queued mem m =
     handle_safety_recovery_queued e (of_nat (load trace_event_safety_recovery_queued ''count'' mem)) m"
| "on_record e TP_poll_wakeup mem m = handle_safety_poll_wakeup e m"

subsection \<open>Values of the maps\<close>

text \<open>As the programs declare them and as the reporter does.\<close>

definition bpf_hist :: ctype where
  "bpf_hist = CStruct False [(''slots'', CArr (CInt 8) MAX_SLOTS), (''count'', CInt 8), (''sum'', CInt 8), (''min'', CInt 8),
     (''max'', CInt 8)]"

definition bpf_timeline_event :: ctype where
  "bpf_timeline_event = CStruct False [(''ts'', CInt 8), (''kind'', CInt 4), (''aux'', CInt 4)]"

definition user_hist :: ctype where
  "user_hist = CStruct False [(''slots'', CArr (CInt 8) 64), (''count'', CInt 8), (''sum'', CInt 8), (''min'', CInt 8),
     (''max'', CInt 8)]"

definition user_timeline_event :: ctype where
  "user_timeline_event = CStruct False [(''ts'', CInt 8), (''kind'', CInt 4), (''aux'', CInt 4)]"

text \<open>What a lookup in a per-CPU array copies out: the values of all CPUs, each rounded up to eight bytes; and where the
  reporter, which has declared an array of values, looks for a field of CPU \<open>c\<close>.\<close>

definition percpu_offset :: "ctype \<Rightarrow> nat \<Rightarrow> string \<Rightarrow> nat option" where
  "percpu_offset V c x = map_option (\<lambda>(off, t). c * align_up 8 (csize V) + off) (offsetof V x)"

definition array_offset :: "ctype \<Rightarrow> nat \<Rightarrow> string \<Rightarrow> nat option" where
  "array_offset V c x = map_option (\<lambda>(off, t). c * csize V + off) (offsetof V x)"

subsection \<open>Wire structures and ioctl arguments\<close>

definition wire_SafetyFrameHeader :: ctype where
  "wire_SafetyFrameHeader = CStruct True [(''magic'', CInt 2), (''version'', CInt 1), (''type'', CInt 1), (''sequence_id'', CInt 2),
     (''payload_length'', CInt 2), (''timestamp_ms'', CInt 4), (''checksum'', CInt 4)]"

definition wire_SafetyHeartbeatPayload :: ctype where
  "wire_SafetyHeartbeatPayload = CStruct True [(''uptime_ms'', CInt 4), (''beat_seq'', CInt 4)]"

definition wire_SafetyTelemetryPayload :: ctype where
  "wire_SafetyTelemetryPayload = CStruct True [(''temperature_c_x10'', CInt 2), (''voltage_mv'', CInt 2), (''cpu_load_pct'', CInt 2),
     (''fault_count'', CInt 2)]"

definition wire_SafetyFaultEventPayload :: ctype where
  "wire_SafetyFaultEventPayload = CStruct True [(''fault_type'', CInt 1), (''severity'', CInt 1), (''detail_code'', CInt 2),
     (''fault_uptime_ms'', CInt 4)]"

definition wire_SafetyCommandPayload :: ctype where
  "wire_SafetyCommandPayload = CStruct True [(''command'', CInt 1), (''arg8'', CInt 1), (''arg16'', CInt 2), (''arg32'', CInt 4)]"

definition wire_SafetyAckPayload :: ctype where
  "wire_SafetyAckPayload = CStruct True [(''acked_sequence_id'', CInt 2), (''reserved'', CInt 2)]"

definition wire_SafetyNackPayload :: ctype where
  "wire_SafetyNackPayload = CStruct True [(''nacked_sequence_id'', CInt 2), (''reason'', CInt 1), (''reserved'', CInt 1)]"

definition wire_SafetyRecoveryReportPayload :: ctype where
  "wire_SafetyRecoveryReportPayload = CStruct True [(''recovered'', CInt 1), (''new_state'', CInt 1), (''reserved'', CInt 2),
     (''recovery_uptime_ms'', CInt 4)]"

definition ioc_stats :: ctype where
  "ioc_stats = CStruct False [(''current_state'', CInt 4), (''heartbeat_count'', CInt 4), (''fault_count'', CInt 4),
     (''dropped_frame_count'', CInt 4), (''timeout_count'', CInt 4), (''retry_count'', CInt 4), (''protocol_error_count'', CInt 4),
     (''rx_frames_total'', CInt 4), (''rx_queue_depth'', CInt 4), (''tx_queue_depth'', CInt 4)]"

definition ioc_frame_io :: ctype where
  "ioc_frame_io = CStruct False [(''len'', CInt 4), (''data'', CArr (CInt 1) SAFETY_MAX_FRAME_SIZE)]"

text \<open>The bytes of a structure whose fields have the given values, padding zero.\<close>

fun image_from :: "bool \<Rightarrow> nat \<Rightarrow> (string \<times> ctype) list \<Rightarrow> nat list \<Rightarrow> bytes" where
  "image_from pck off ((x, t) # fs) (v # vs) =
     (let off' = align_up (if pck then 1 else calign t) off
      in replicate (off' - off) 0 @ le_bytes (csize t) v @ image_from pck (off' + csize t) fs vs)"
| "image_from pck off _ _ = []"

fun cimage :: "ctype \<Rightarrow> nat list \<Rightarrow> bytes" where
  "cimage (CStruct pck fs) vs = (let bs = image_from pck 0 fs vs in bs @ replicate (csize (CStruct pck fs) - length bs) 0)"
| "cimage _ _ = []"

section \<open>Lemmas\<close>

lemma length_le_bytes [simp]: "length (le_bytes n v) = n"
  by (induction n arbitrary: v) auto

lemma le_value_le_bytes: "v < 256 ^ n \<Longrightarrow> le_value (le_bytes n v) = v"
  by (induction n arbitrary: v) (auto simp: unat_of_nat less_mult_imp_div_less mult.commute)

lemma take_drop_memcpy_same: "off + length src \<le> length mem \<Longrightarrow> take (length src) (drop off (memcpy_at mem off src)) = src"
  by (simp add: memcpy_at_def)

lemma take_drop_memcpy_other:
  assumes "off + length src \<le> length mem" and "off' + n \<le> off \<or> off + length src \<le> off'"
  shows "take n (drop off' (memcpy_at mem off src)) = take n (drop off' mem)"
  using assms(2)
proof
  assume "off' + n \<le> off"
  then show ?thesis using assms(1) by (auto simp: memcpy_at_def drop_take min_def)
next
  assume "off + length src \<le> off'"
  then show ?thesis using assms(1) by (simp add: memcpy_at_def)
qed

lemmas layout_defs = tp_entry_def safety_tp_common_def trace_event_safety_frame_received_def trace_event_safety_frame_dropped_def
  trace_event_safety_timeout_detected_def trace_event_safety_recovery_queued_def trace_event_safety_poll_wakeup_def

text \<open>With the kernel's documented record header, eight bytes aligned to four, a field of the driver's record is
  where the eBPF program looks for it.\<close>

lemma same_offset:
  assumes "csize ent = 8" and "calign ent = 4" and "x \<in> fst ` set (TP_STRUCT n)"
  shows "offsetof (bpf_ctx n) x = offsetof (tp_entry ent n) x"
  using assms by (cases n; auto simp: layout_defs align_up_def)

lemma same_size: "csize ent = 8 \<Longrightarrow> calign ent = 4 \<Longrightarrow> csize (bpf_ctx n) = csize (tp_entry ent n)"
  by (cases n) (simp_all add: layout_defs align_up_def)

text \<open>Reading through one declaration what was stored through the other.\<close>

lemma load_stored:
  assumes "offsetof S x = Some (off, t)" and "offsetof S' x' = Some (off', t')" and "off' + csize t' \<le> length mem"
  shows "load S x (store S' x' v mem) =
    (if off = off' \<and> t = t' then le_value (le_bytes (csize t) v)
     else if off + csize t \<le> off' \<or> off' + csize t' \<le> off then load S x mem
     else load S x (store S' x' v mem))"
  using assms take_drop_memcpy_same [of off' "le_bytes (csize t') v" mem] 
    take_drop_memcpy_other [of off' "le_bytes (csize t') v" mem off "csize t"]
  by (auto simp: load_def store_def)

lemma length_store [simp]:
  "offsetof S x = Some (off, t) \<Longrightarrow> off + csize t \<le> length mem \<Longrightarrow> length (store S x v mem) = length mem"
  by (simp add: store_def)

lemma load_unat16: "le_value (le_bytes 2 (unat (w :: u16))) = unat w"
  using unsigned_less [of w] by (intro le_value_le_bytes) simp

lemma load_unat32: "le_value (le_bytes 4 (unat (w :: u32))) = unat w"
  using unsigned_less [of w] by (intro le_value_le_bytes) simp

lemma ucast_drop_bit: "ucast (drop_bit k (w :: 'a::len word)) = (of_nat (unat w div 2 ^ k) :: u8)"
  by (metis drop_bit_eq_div of_nat_unat unat_drop_bit_eq)

lemma le_bytes_2: "le_bytes 2 v = [of_nat v, of_nat (v div 2 ^ 8)]"
  using le_bytes.simps(2) [of "Suc 0" v] by (simp del: le_bytes.simps(2) add: le_bytes.simps(2) [of 0] numeral_2_eq_2 [symmetric])

lemma le_bytes_4: "le_bytes 4 v = [of_nat v, of_nat (v div 2 ^ 8), of_nat (v div 2 ^ 16), of_nat (v div 2 ^ 24)]"
proof -
  have "(4::nat) = Suc (Suc (Suc (Suc 0)))" by simp
  moreover have "v div 256 div 256 = v div 2 ^ 16" "v div 256 div 256 div 256 = v div 2 ^ 24"
    by (simp_all add: div_mult2_eq [symmetric])
  ultimately show ?thesis by (simp only: le_bytes.simps) simp
qed

lemma le16_le_bytes: "le16 w = le_bytes 2 (unat w)"
  unfolding le16_def le_bytes_2 ucast_drop_bit by (simp only: of_nat_unat)

lemma le32_le_bytes: "le32 w = le_bytes 4 (unat w)"
  unfolding le32_def le_bytes_4 ucast_drop_bit by (simp only: of_nat_unat)

lemmas wire_defs = wire_SafetyFrameHeader_def wire_SafetyHeartbeatPayload_def wire_SafetyTelemetryPayload_def
  wire_SafetyFaultEventPayload_def wire_SafetyCommandPayload_def wire_SafetyAckPayload_def wire_SafetyNackPayload_def
  wire_SafetyRecoveryReportPayload_def header_bytes_def heartbeat_bytes_def telemetry_bytes_def fault_event_bytes_def command_bytes_def
  ack_bytes_def nack_bytes_def recovery_report_bytes_def le16_le_bytes le32_le_bytes

section \<open>Properties\<close>

text \<open>C31 (equivalence).  The records of the driver's tracepoints are read correctly by the eBPF programs, although each side
  has its own declaration: if the kernel's record header takes eight bytes with alignment four, as the tracing format files document, then whatever
  the reserved memory held, running the program attached to a tracepoint on the bytes that \<open>TP_fast_assign\<close> leaves there is running it on
  the values the driver passed; the record header is not touched; and every field has the same offset in both declarations,
  which also have the same size.\<close>

theorem tracepoint_abi:
  assumes "csize ent = 8" and "calign ent = 4" and "csize (tp_entry ent (tp_name_of t)) \<le> length mem"
  shows "on_record e (tp_name_of t) (TP_fast_assign ent t mem) m = on_trace e t m
    \<and> take 8 (TP_fast_assign ent t mem) = take 8 mem
    \<and> (\<forall>x \<in> fst ` set (TP_STRUCT (tp_name_of t)). offsetof (bpf_ctx (tp_name_of t)) x = offsetof (tp_entry ent (tp_name_of t)) x)
    \<and> csize (bpf_ctx (tp_name_of t)) = csize (tp_entry ent (tp_name_of t))"
proof -
  have "on_record e (tp_name_of t) (TP_fast_assign ent t mem) m = on_trace e t m"
    using assms by (cases t) (simp_all add: load_stored layout_defs align_up_def Let_def load_unat16 load_unat32)
  moreover have "take 8 (TP_fast_assign ent t mem) = take 8 mem"
    using assms by (cases t) (simp_all add: store_def memcpy_at_def layout_defs align_up_def Let_def)
  ultimately show ?thesis using same_offset [OF assms(1,2)] same_size [OF assms(1,2)] by blast
qed

theorem tracepoint_abi_witness:
  "take 8 (TP_fast_assign safety_tp_common (safety_frame_received 0x1234 7 5) (replicate 16 0xFF)) = replicate 8 0xFF
   \<and> load trace_event_safety_frame_received ''qlen'' (TP_fast_assign safety_tp_common (safety_frame_received 0x1234 7 5) (replicate 16 0xFF)) = 5"
proof -
  have "csize safety_tp_common = 8" "calign safety_tp_common = 4"
    "csize (tp_entry safety_tp_common (tp_name_of (safety_frame_received 0x1234 7 5))) \<le> length (replicate 16 (0xFF::u8))"
    by (simp_all add: layout_defs align_up_def)
  note tracepoint_abi [OF this]
  moreover have "load trace_event_safety_frame_received ''qlen''
      (TP_fast_assign safety_tp_common (safety_frame_received 0x1234 7 5) (replicate 16 0xFF)) = 5"
    by code_simp
  ultimately show ?thesis by simp
qed

text \<open>The other structures that two programs share have the layout both rely on.  The packed declarations of the
  protocol header give exactly the bytes that the model sends and receives (for the frame header and all seven payloads); the
  sizes encoded in the ioctl numbers are those of the argument structures, which have no padding; and the per-CPU
  values of the eBPF maps, which the kernel hands out rounded up to eight bytes, lie where the reporter's array of its own declaration expects
  each field of each CPU.\<close>

theorem shared_structures:
  "header_bytes h = cimage wire_SafetyFrameHeader [unat (magic h), unat (version h), unat (frame_type h), unat (sequence_id h),
      unat (payload_length h), unat (timestamp_ms h), unat (checksum h)]
   \<and> csize wire_SafetyFrameHeader = SAFETY_HEADER_SIZE
   \<and> heartbeat_bytes hb = cimage wire_SafetyHeartbeatPayload [unat (uptime_ms hb), unat (beat_seq hb)]
   \<and> telemetry_bytes tm = cimage wire_SafetyTelemetryPayload [unat (temperature_c_x10 tm), unat (voltage_mv tm), unat (cpu_load_pct tm),
      unat (tm_fault_count tm)]
   \<and> fault_event_bytes fe = cimage wire_SafetyFaultEventPayload [unat (fe_fault_type fe), unat (severity fe), unat (detail_code fe),
      unat (fault_uptime_ms fe)]
   \<and> command_bytes c = cimage wire_SafetyCommandPayload [unat (command c), unat (arg8 c), unat (arg16 c), unat (arg32 c)]
   \<and> ack_bytes a = cimage wire_SafetyAckPayload [unat (acked_sequence_id a), unat (ack_reserved a)]
   \<and> nack_bytes n = cimage wire_SafetyNackPayload [unat (nacked_sequence_id n), unat (reason n), unat (nack_reserved n)]
   \<and> recovery_report_bytes r = cimage wire_SafetyRecoveryReportPayload [unat (recovered r), unat (new_state r), unat (rr_reserved r),
      unat (recovery_uptime_ms r)]
   \<and> IOC_SIZE SAFETY_IOC_GET_STATS = csize ioc_stats \<and> csize ioc_stats = 10 * 4
   \<and> IOC_SIZE SAFETY_IOC_PUSH_RX_FRAME = csize ioc_frame_io \<and> IOC_SIZE SAFETY_IOC_POP_TX_FRAME = csize ioc_frame_io
   \<and> csize ioc_frame_io = 4 + SAFETY_MAX_FRAME_SIZE
   \<and> percpu_offset bpf_hist cpu x = array_offset user_hist cpu x \<and> csize bpf_timeline_event = csize user_timeline_event
   \<and> offsetof bpf_timeline_event x = offsetof user_timeline_event x"
  by (intro conjI; simp add: wire_defs align_up_def ioc_cmd_defs ioc_stats_def ioc_frame_io_def proto_const
      percpu_offset_def array_offset_def bpf_hist_def user_hist_def bpf_timeline_event_def user_timeline_event_def MAX_SLOTS_def)

end
