(* ===== verification/System_Parts.thy ===== *)
theory System_Parts
  imports Linkd Firmware_System Supervisor "HOL-Library.Sublist"
begin

text \<open>
  The whole chain as one transition system: the firmware, the UART in both directions, the link daemon, the
  driver and the supervisor.  A step is a turn of a firmware task or a run of its receive interrupt, the
  reading or the writing part of an iteration of the link daemon, a system call of the supervisor with
  everything it does up to its next one, a step of its recovery worker, an expiry of the watchdog, a run
  of the recovery work, or a system call of a control program.  The UART is a pair of byte streams of which
  each end reads some of what the other has written and it has not read yet; it neither loses nor
  changes bytes, and the daemon's writes do not fail.  Only the daemon pushes received frames into the
  driver and pops frames to be sent.  Three lists that no component reads remember what the
  supervisor has read, what writes to the device were accepted, and which messages the firmware's command task took.
\<close>

section \<open>Definitions\<close>

record ('q, 'm) system =
  sy_fw :: "'m fw_sys"
  sy_drv :: "'q driver_sys"
  sy_framer :: bytes
  sy_uart_out :: bytes
  sy_report :: "link_log list"
  sy_sup :: supervisor
  sy_up :: nat
  sy_down :: nat
  sy_seen :: "bytes list"
  sy_written :: "bytes list"
  sy_handled :: "safety_rx_frame list"

abbreviation sy_dev :: "('q, 'm) system \<Rightarrow> 'q safety_copro_dev" where
  "sy_dev s \<equiv> sys_dev (sy_drv s)"

abbreviation sy_uart_tx :: "('q, 'm) system \<Rightarrow> bytes" where
  "sy_uart_tx s \<equiv> uart_tx (fw (sy_fw s))"

text \<open>The daemon's part of the state, and the state after the daemon has run.\<close>

definition sy_linkd :: "('q, 'm) system \<Rightarrow> 'q linkd" where
  "sy_linkd s = \<lparr>ld_framer = sy_framer s, ld_dev = sy_dev s, ld_uart_out = sy_uart_out s, ld_report = sy_report s\<rparr>"

definition put_linkd :: "'q linkd \<Rightarrow> ('q, 'm) system \<Rightarrow> ('q, 'm) system" where
  "put_linkd l s = s\<lparr>sy_framer := ld_framer l, sy_drv := absorb (sy_drv s) (ld_dev l),
     sy_uart_out := ld_uart_out l, sy_report := ld_report l\<rparr>"

text \<open>Writes to the device, one system call for each frame; the frames that were accepted are noted.\<close>

fun dev_writes :: "(safety_fifo_slot, 'q) kfifo_ops \<Rightarrow> ('q safety_copro_dev \<Rightarrow> kenv) \<Rightarrow> bytes list
    \<Rightarrow> 'q safety_copro_dev \<Rightarrow> bytes list \<times> 'q safety_copro_dev" where
  "dev_writes K e [] dev = ([], dev)"
| "dev_writes K e (f # fs) dev =
     (case safety_write K (e dev) (Some f) (length f) dev of (r, dev) \<Rightarrow>
        case dev_writes K e fs dev of (acc, dev) \<Rightarrow> ((case r of Inl _ \<Rightarrow> acc | Inr _ \<Rightarrow> f # acc), dev))"

text \<open>The supervisor's new state, with the frames it has sent since the old one written to the device.\<close>

definition put_sup :: "supervisor \<Rightarrow> bytes list \<times> 'q safety_copro_dev \<Rightarrow> ('q, 'm) system \<Rightarrow> ('q, 'm) system" where
  "put_sup u w s = s\<lparr>sy_sup := u, sy_drv := absorb (sy_drv s) (snd w), sy_written := sy_written s @ fst w\<rparr>"

definition sent_since :: "supervisor \<Rightarrow> supervisor \<Rightarrow> bytes list" where
  "sent_since u u' = drop (length (dev_out u)) (dev_out u')"

fun handled_by :: "fw_label \<Rightarrow> safety_rx_frame list" where
  "handled_by (L_command m) = [m]"
| "handled_by _ = []"

fun is_read :: "sup_label \<Rightarrow> bool" where
  "is_read (L_read _) = True"
| "is_read _ = False"

inductive sys_step :: "(safety_fifo_slot, 'q) kfifo_ops \<Rightarrow> (safety_rx_frame, 'm) k_msgq_ops \<Rightarrow> u32
    \<Rightarrow> ('q, 'm) system \<Rightarrow> ('q, 'm) system \<Rightarrow> bool" for K M hb where
  fw_turn: "fw_step M l (sy_fw s) f \<Longrightarrow> l \<noteq> L_rx \<Longrightarrow>
     sys_step K M hb s (s\<lparr>sy_fw := f, sy_handled := sy_handled s @ handled_by l\<rparr>)"
| fw_receives: "isr_bytes rounds = take n (drop (sy_down s) (sy_uart_out s)) \<Longrightarrow>
     uart_isr M rounds (rxs (fw (sy_fw s)), g_rx_msgq (fw (sy_fw s))) = (r, q) \<Longrightarrow>
     sys_step K M hb s (s\<lparr>sy_fw := (sy_fw s)\<lparr>fw := (fw (sy_fw s))\<lparr>rxs := r, g_rx_msgq := q\<rparr>\<rparr>,
       sy_down := sy_down s + length (isr_bytes rounds)\<rparr>)"
| linkd_reads: "concat ds = take n (drop (sy_up s) (sy_uart_tx s)) \<Longrightarrow> \<forall>d\<in>set ds. d \<noteq> [] \<Longrightarrow>
     linkd_rx K se e (map UR_bytes ds @ [UR_EAGAIN]) (sy_linkd s) = Some (Goes_on, l) \<Longrightarrow>
     sys_step K M hb s ((put_linkd l s)\<lparr>sy_up := sy_up s + length (concat ds)\<rparr>)"
| linkd_writes: "\<forall>w\<in>set ws. UW_error \<notin> set w \<Longrightarrow> linkd_tx K se werr e ws (sy_linkd s) = Some l \<Longrightarrow>
     sys_step K M hb s (put_linkd l s)"
| sup_reads: "safety_read K True [] 1024 True (sy_dev s) = Some (Inr bs, dev) \<Longrightarrow>
     u = handle_readable hb (Read_bytes bs) (sy_sup s) \<Longrightarrow>
     w = dev_writes K e (sent_since (sy_sup s) u) dev \<Longrightarrow>
     sys_step K M hb s ((put_sup u w s)\<lparr>sy_seen := sy_seen s @ [bs]\<rparr>)"
| sup_runs: "sup_step hb l (sy_sup s) u \<Longrightarrow> \<not> is_read l \<Longrightarrow>
     w = dev_writes K e (sent_since (sy_sup s) u) (sy_dev s) \<Longrightarrow>
     \<forall>ok. l = W_send ok \<longrightarrow> ok = (fst w \<noteq> []) \<Longrightarrow>
     sys_step K M hb s (put_sup u w s)"
| ctl_writes: "valid_frame f \<Longrightarrow> w = dev_writes K e [f] (sy_dev s) \<Longrightarrow> sys_step K M hb s (put_sup (sy_sup s) w s)"
| ctl_ioctl: "safety_ioctl K e cmd arg (sy_dev s) = (r, dev) \<Longrightarrow> arg_ok arg \<Longrightarrow>
     cmd \<noteq> SAFETY_IOC_PUSH_RX_FRAME \<Longrightarrow> cmd \<noteq> SAFETY_IOC_POP_TX_FRAME \<Longrightarrow>
     sys_step K M hb s (s\<lparr>sy_drv := absorb (sy_drv s) dev\<rparr>)"
| watchdog: "timer_armed (sy_drv s) \<Longrightarrow> hb_timer_fn K e (sy_dev s) = (r, dev) \<Longrightarrow>
     sys_step K M hb s (s\<lparr>sy_drv := absorb ((sy_drv s)\<lparr>timer_armed := False\<rparr>) dev\<rparr>)"
| recovery: "work_pending (sy_drv s) \<Longrightarrow> recovery_work_fn K e (sy_dev s) = dev \<Longrightarrow>
     sys_step K M hb s (s\<lparr>sy_drv := absorb ((sy_drv s)\<lparr>work_pending := False\<rparr>) dev\<rparr>)"

inductive sys_reachable :: "(safety_fifo_slot, 'q) kfifo_ops \<Rightarrow> (safety_rx_frame, 'm) k_msgq_ops \<Rightarrow> u32
    \<Rightarrow> ('q, 'm) system \<Rightarrow> ('q, 'm) system \<Rightarrow> bool" for K M hb s0 where
  start: "sys_reachable K M hb s0 s0"
| step: "sys_reachable K M hb s0 s \<Longrightarrow> sys_step K M hb s s' \<Longrightarrow> sys_reachable K M hb s0 s'"

text \<open>Everything has just started: a loaded driver with empty queues, the firmware at boot, the daemon and
  the supervisor ready, nothing on the wires.\<close>

definition sys_start :: "'m \<Rightarrow> 'q driver_sys \<Rightarrow> u32 \<Rightarrow> ('q, 'm) system" where
  "sys_start q d hb = \<lparr>sy_fw = fw_boot q, sy_drv = d, sy_framer = [], sy_uart_out = [], sy_report = [], sy_sup = sup_init hb,
     sy_up = 0, sy_down = 0, sy_seen = [], sy_written = [], sy_handled = []\<rparr>"

section \<open>What each part does to the queues\<close>

text \<open>A frame that the driver makes up.\<close>

definition driver_made :: "safety_fifo_slot \<Rightarrow> bool" where
  "driver_made s \<longleftrightarrow> valid_frame (slot_data s) \<and> \<not> is_heartbeat (slot_data s)"

text \<open>An operation that only makes up frames: at most one is appended to the RX queue, the TX queue is
  left alone, and the link does not come up.\<close>

definition only_makes :: "('q \<Rightarrow> safety_fifo_slot list) \<Rightarrow> 'q safety_copro_dev \<Rightarrow> 'q safety_copro_dev \<Rightarrow> bool" where
  "only_makes elems dev dev' \<longleftrightarrow> tx_fifo dev' = tx_fifo dev
     \<and> (elems (rx_fifo dev') = elems (rx_fifo dev) \<or> (\<exists>s. driver_made s \<and> elems (rx_fifo dev') = elems (rx_fifo dev) @ [s]))
     \<and> (state dev' = SAFETY_LINK_HB_OK \<longrightarrow> state dev = SAFETY_LINK_HB_OK)"

lemma only_makes_same:
  "rx_fifo dev' = rx_fifo dev \<Longrightarrow> tx_fifo dev' = tx_fifo dev \<Longrightarrow> state dev' = state dev \<Longrightarrow> only_makes elems dev dev'"
  by (simp add: only_makes_def)

lemma valid_frame_exact:
  assumes "safety_frame_validate f = SAFETY_VALIDATE_OK" and "length f = 16 + unat (payload_length (header_of_bytes f))"
  shows "valid_frame f"
  using validate_OK_D(2,4) [OF assms(1)] assms(2) by (auto simp: valid_frame_def)

lemma valid_frame_fits: "valid_frame f \<Longrightarrow> rx_header_fits f"
  by (auto simp: valid_frame_def rx_header_fits_def header_ok_def proto_const Let_def)

lemma valid_frame_validates:
  "valid_frame f \<Longrightarrow> safety_frame_validate f = SAFETY_VALIDATE_OK \<and> 16 \<le> length f \<and> length f \<le> SAFETY_MAX_FRAME_SIZE"
  by (auto simp: valid_frame_def header_ok_def proto_const)

lemma synth_slot_made:
  assumes "length p \<le> SAFETY_MAX_PAYLOAD" "ty \<noteq> SAFETY_FRAME_HEARTBEAT"
  shows "driver_made (synth_slot e ty seq p)"
proof -
  let ?h = "safety_frame_init ty seq (of_nat (length p)) (safety_now_ms (ktime_get_ns e 0))"
  have "unat (of_nat (length p) :: u16) = length p" using assms(1) by (simp add: unat_length_payload)
  then have "header_ok ?h p" using assms(1) by (simp add: header_ok_def)
  moreover have "slot_data (synth_slot e ty seq p) = wire_frame ?h p" by (simp add: synth_slot_def)
  ultimately show ?thesis using assms(2) by (auto simp: driver_made_def valid_frame_def is_heartbeat_def)
qed

lemma made_slots: "driver_made (fault_slot e seq ft sev d)" "driver_made (recovery_slot e seq rcv nst)"
  unfolding fault_slot_def recovery_slot_def by (rule synth_slot_made; simp add: proto_const)+

lemma synth_post_makes: "synth_post elems s dev dev' \<Longrightarrow> driver_made s \<Longrightarrow> only_makes elems dev dev'"
  by (auto simp: synth_post_def only_makes_def split: if_splits)

lemma only_makes_upd:
  "only_makes elems d dev' \<Longrightarrow> rx_fifo d = rx_fifo dev \<Longrightarrow> tx_fifo d = tx_fifo dev
     \<Longrightarrow> state d = state dev \<or> state d \<noteq> SAFETY_LINK_HB_OK \<Longrightarrow> only_makes elems dev dev'"
  by (auto simp: only_makes_def)

context driver
begin

lemma timer_makes:
  assumes "dinv dev" shows "only_makes elems dev (snd (hb_timer_fn K e dev))"
proof (rule hb_timer_fn_unfold [where K = K and e = e and dev = dev])
  fix d
  assume d: "hb_timer_fn K e dev = (HRTIMER_NORESTART, kcall Schedule_work
      (snd (safety_synth_fault_event K (later e 2) SAFETY_FAULT_TASK_HANG 1 1 d)))"
    and inv: "\<And>elems qwf. driver_inv K elems qwf dev \<Longrightarrow> driver_inv K elems qwf d"
    and q: "rx_fifo d = rx_fifo dev" "tx_fifo d = tx_fifo dev" "state d = SAFETY_LINK_HB_TIMEOUT"
  from only_makes_upd [OF synth_post_makes [OF synth_fault_event(2) [OF inv [OF assms]] made_slots(1)] q(1,2)] q(3)
  show ?thesis unfolding d by (auto simp: kcall_def only_makes_def)
qed

lemma work_makes:
  assumes "dinv dev" shows "only_makes elems dev (recovery_work_fn K e dev)"
proof (rule recovery_work_fn_unfold [where K = K and e = e and dev = dev])
  fix d
  assume d: "recovery_work_fn K e dev = snd (safety_synth_recovery_report K (later e 1) 1 3 d)"
    and inv: "\<And>elems qwf. driver_inv K elems qwf dev \<Longrightarrow> driver_inv K elems qwf d"
    and q: "rx_fifo d = rx_fifo dev" "tx_fifo d = tx_fifo dev" "state d = SAFETY_LINK_RECOVERING"
  from only_makes_upd [OF synth_post_makes [OF synth_recovery_report(2) [OF inv [OF assms]] made_slots(2)] q(1,2)] q(3)
  show ?thesis unfolding d by simp
qed

lemma ioctl_makes:
  assumes "dinv dev" "cmd \<noteq> SAFETY_IOC_PUSH_RX_FRAME" "cmd \<noteq> SAFETY_IOC_POP_TX_FRAME"
  shows "only_makes elems dev (snd (safety_ioctl K e cmd arg dev))"
proof -
  have "only_makes elems dev (snd (ioc_inject_fault K e arg dev))"
  proof (cases "arg_u32 arg")
    case (Some ft)
    let ?d = "dev\<lparr>fault_count := fault_count dev + 1, last_fault_type := ucast ft, last_fault_detail := 0,
      last_fault_ts_ns := ktime_get_ns e 0\<rparr>"
    have "dinv ?d" using assms(1) by simp
    from synth_post_makes [OF synth_fault_event(2) [OF this] made_slots(1)] Some show ?thesis
      by (simp add: ioc_inject_fault_def only_makes_def Let_def split_beta)
  qed (simp add: ioc_inject_fault_def only_makes_def)
  moreover have "only_makes elems dev (snd (ioc_set_hb_timeout arg dev))" "only_makes elems dev (snd (ioc_reset_stats dev))"
    "only_makes elems dev (safety_recovery_schedule dev)" "snd (ioc_get_stats K arg dev) = dev" "snd (ioc_get_state arg dev) = dev"
    by (auto simp: ioc_set_hb_timeout_def ioc_reset_stats_def safety_timer_rearm_def safety_recovery_schedule_def
        ioc_get_stats_def ioc_get_state_def dev_upd Let_def intro!: only_makes_same split: option.split)
  ultimately show ?thesis using assms(2,3) by (simp add: safety_ioctl_def only_makes_same)
qed

end

context driver
begin

lemma read_takes:
  assumes "dinv dev" and "safety_read K True [] n True dev = Some (Inr bs, d)"
  obtains s ss where "elems (rx_fifo dev) = s # ss" "elems (rx_fifo d) = ss" "bs = slot_data s" "tx_fifo d = tx_fifo dev"
    "state d = state dev" "dinv d"
proof -
  have wf: "wf (rx_fifo dev)" using assms(1) by (simp add: driver_inv_def)
  show thesis
  proof (cases "elems (rx_fifo dev)")
    case Nil
    then show ?thesis using assms(2)
      by (cases rule: pop_frame_cases [OF wf, case_names empty some])
        (simp_all add: safety_read_def safety_read_loop.simps [of K True "[]" dev])
  next
    case (Cons s ss)
    note sl = rx_slot_nonempty [OF assms(1) Cons]
    obtain d' where d': "safety_read_loop K True [] dev = Some (Inr (slot_len s, s), d')" "elems (rx_fifo d') = ss"
      "tx_fifo d' = tx_fifo dev" "state d' = state dev" using read_head [OF wf Cons] sl by metis
    have "dinv d'" using read_loop_inv [OF d'(1) assms(1)] by simp
    then show ?thesis using that [OF Cons] assms(2) d' sl by (auto simp: safety_read_def split: if_splits)
  qed
qed

lemma push_takes:
  fixes e se f
  assumes "dinv (ld_dev l)"
  defines "l' \<equiv> linkd_push K se e f l"
  shows "dinv (ld_dev l') \<and> tx_fifo (ld_dev l') = tx_fifo (ld_dev l)
    \<and> (elems (rx_fifo (ld_dev l')) = elems (rx_fifo (ld_dev l)) \<or> elems (rx_fifo (ld_dev l')) = elems (rx_fifo (ld_dev l)) @ [slot_of f])
    \<and> (state (ld_dev l') = SAFETY_LINK_HB_OK \<longrightarrow> state (ld_dev l) = SAFETY_LINK_HB_OK \<or> is_heartbeat f)"
proof (rule rx_cases [OF assms(1), of f])
  assume f: "length f < 16 \<or> SAFETY_MAX_FRAME_SIZE < length f"
  have "snd (push_rx_frame K (e (ld_dev l)) f (ld_dev l)) = ld_dev l"
  proof (cases "f = [] \<or> SAFETY_MAX_FRAME_SIZE < length f")
    case False
    then show ?thesis by (simp add: push_rx_queue queue_rx_size [OF f])
  qed (auto simp: push_rx_frame_def)
  then have "ld_dev l' = ld_dev l" by (auto simp: l'_def linkd_push_def Let_def split: prod.split sum.split)
  then show ?thesis using assms(1) by simp
next
  assume f: "16 \<le> length f" "length f \<le> SAFETY_MAX_FRAME_SIZE" "\<not> rx_header_fits f"
  then show ?thesis
  proof (rule queue_rx_bad [where K = K and e = "e (ld_dev l)" and dev = "ld_dev l"])
    fix v assume "v \<noteq> SAFETY_VALIDATE_OK"
      "queue_rx_from_linkd K (e (ld_dev l)) f (length f) (ld_dev l) = (Inl EINVAL, record_proto_error v (ld_dev l))"
    moreover have "f \<noteq> []" using f(1) by auto
    ultimately show ?thesis using push_rx_queue [of f K "e (ld_dev l)" "ld_dev l"] f(2) assms(1)
      by (simp add: l'_def linkd_push_def Let_def proto_error_inv)
  qed
next
  assume f: "rx_header_fits f" "length (elems (rx_fifo (ld_dev l))) = unat (fifo_depth (ld_dev l))"
  then have "f \<noteq> []" "length f \<le> SAFETY_MAX_FRAME_SIZE" using rx_header_fits_length [OF f(1)] by auto
  then show ?thesis using push_rx_queue [of f K "e (ld_dev l)" "ld_dev l"] queue_rx_full [OF assms(1) f] rx_noted_inv [OF assms(1)]
    by (simp add: l'_def linkd_push_def Let_def)
next
  assume f: "rx_header_fits f" "length (elems (rx_fifo (ld_dev l))) < unat (fifo_depth (ld_dev l))"
  then show ?thesis using linkd_push_room [OF assms(1) f, of se e] by (simp add: l'_def split: if_splits)
qed

lemma pushes_take:
  fixes e se fs
  assumes "dinv (ld_dev l)"
  defines "l' \<equiv> fold (linkd_push K se e) fs l"
  shows "dinv (ld_dev l') \<and> tx_fifo (ld_dev l') = tx_fifo (ld_dev l) \<and> ld_uart_out l' = ld_uart_out l
    \<and> (\<exists>gs. subseq gs fs \<and> elems (rx_fifo (ld_dev l')) = elems (rx_fifo (ld_dev l)) @ map slot_of gs)
    \<and> (state (ld_dev l') = SAFETY_LINK_HB_OK \<longrightarrow> state (ld_dev l) = SAFETY_LINK_HB_OK \<or> (\<exists>f\<in>set fs. is_heartbeat f))"
  using assms(1) unfolding l'_def
proof (induction fs arbitrary: l)
  case (Cons f fs)
  note p = push_takes [OF Cons.prems, of se e f]
  then obtain gs where gs: "subseq gs fs" "elems (rx_fifo (ld_dev (fold (linkd_push K se e) fs (linkd_push K se e f l)))) =
      elems (rx_fifo (ld_dev (linkd_push K se e f l))) @ map slot_of gs" using Cons.IH [of "linkd_push K se e f l"] by blast
  then have "\<exists>gs. subseq gs (f # fs) \<and> elems (rx_fifo (ld_dev (fold (linkd_push K se e) fs (linkd_push K se e f l)))) =
      elems (rx_fifo (ld_dev l)) @ map slot_of gs"
    using p by (metis append.assoc append_Cons append_Nil list.simps(9) subseq_Cons2 list_emb_Cons)
  then show ?case using p Cons.IH [of "linkd_push K se e f l"] by (auto simp: linkd_push_framer)
qed (auto intro: exI [of _ "[]"])

lemma write_puts:
  assumes "dinv dev" and "valid_frame f" and "safety_write K e (Some f) (length f) dev = (r, d)"
  shows "dinv d \<and> rx_fifo d = rx_fifo dev \<and> state d = state dev
    \<and> elems (tx_fifo d) = elems (tx_fifo dev) @ (case r of Inl _ \<Rightarrow> [] | Inr _ \<Rightarrow> [slot_of f])"
  using write_cases [OF assms(1) refl, of f e] valid_frame_validates [OF assms(2)] write_inv [OF assms(1), of "Some f" "length f" e] assms(3)
  by (auto simp: slot_of_def split: if_splits)

lemma writes_put:
  assumes "dinv dev" and "\<forall>f\<in>set fs. valid_frame f" and "dev_writes K e fs dev = (acc, d)"
  shows "dinv d \<and> rx_fifo d = rx_fifo dev \<and> state d = state dev \<and> elems (tx_fifo d) = elems (tx_fifo dev) @ map slot_of acc
    \<and> subseq acc fs"
  using assms
proof (induction fs arbitrary: dev acc d)
  case (Cons f fs)
  obtain r d1 where w: "safety_write K (e dev) (Some f) (length f) dev = (r, d1)" by fastforce
  obtain acc' d2 where ws: "dev_writes K e fs d1 = (acc', d2)" by fastforce
  have "valid_frame f" using Cons.prems(2) by simp
  note p = write_puts [OF Cons.prems(1) this w]
  with Cons.IH [OF _ _ ws] Cons.prems w ws show ?case by (auto split: sum.splits)
qed simp

end

lemma uart_write_ok:
  "UW_error \<notin> set rs \<Longrightarrow> uart_write_all rs data = Some (ok, taken) \<Longrightarrow> ok \<and> taken = data"
proof (induction rs arbitrary: data taken)
  case Nil
  then show ?case by (simp add: uart_write_all.simps [of "[]"] split: if_splits)
next
  case (Cons r rs)
  note p = Cons.prems(2) [unfolded uart_write_all.simps [of "r # rs"]]
  show ?case using p Cons.prems(1) by (cases r) (auto dest!: Cons.IH [rotated] split: if_splits)
qed

lemma pop_tx_frame_state: "state (snd (pop_tx_frame K e dev)) = state dev"
  by (auto simp: pop_tx_frame_def safety_ioctl_def ioc_cmd_defs ioc_pop_tx_frame_def Let_def
      dest: pop_state(2) split: prod.splits sum.splits ioc_out.splits if_splits)

context driver
begin

lemma tx_writes:
  assumes "dinv (ld_dev l)" and "\<forall>w\<in>set ws. UW_error \<notin> set w" and "linkd_tx K se werr e ws l = Some l'"
  shows "dinv (ld_dev l') \<and> rx_fifo (ld_dev l') = rx_fifo (ld_dev l) \<and> state (ld_dev l') = state (ld_dev l)
    \<and> ld_framer l' = ld_framer l
    \<and> (\<exists>xs. elems (tx_fifo (ld_dev l)) = xs @ elems (tx_fifo (ld_dev l')) \<and> ld_uart_out l' = ld_uart_out l @ concat (map slot_data xs))"
  using assms
proof (induction ws arbitrary: l)
  case Nil
  from Nil.prems(1) show ?case
    by (rule pop_tx_link [where e = "e (ld_dev l)"])
      (use Nil.prems in \<open>auto simp: linkd_tx.simps [of K se werr e "[]"] Let_def intro!: exI [of _ "[]"] split: if_splits\<close>)
next
  case (Cons w ws)
  from Cons.prems(1) show ?case
  proof (cases rule: pop_tx_link [where e = "e (ld_dev l)", case_names empty frame])
    case empty
    then show ?thesis using Cons.prems(1,3) by (auto simp: linkd_tx.simps [of K se werr e "w # ws"] Let_def split: if_splits)
  next
    case (frame sl ss d)
    have st: "state d = state (ld_dev l)" using pop_tx_frame_state [of K "e (ld_dev l)" "ld_dev l"] frame(5) by simp
    have n: "unat (ucast (slot_len sl) :: u32) = length (slot_data sl)" "(ucast (slot_len sl) :: u32) \<noteq> 0"
    proof -
      have l: "slot_len sl = of_nat (length (slot_data sl))" by (simp add: frame(7) [symmetric])
      show u: "unat (ucast (slot_len sl) :: u32) = length (slot_data sl)" unfolding l using frame(8) by simp
      show "(ucast (slot_len sl) :: u32) \<noteq> 0" using u frame(6,7) by (metis unsigned_0 unsigned_eq_0_iff)
    qed
    have d: "take (length (slot_data sl)) (memcpy_at (replicate SAFETY_MAX_FRAME_SIZE 0) 0 (slot_data sl)) = slot_data sl"
      by (simp add: memcpy_at_def)
    obtain ok taken where w: "uart_write_all w (slot_data sl) = Some (ok, taken)"
      using Cons.prems(3) frame(5-8) n d by (subst (asm) linkd_tx.simps) (auto simp: Let_def split: option.splits)
    have ok: "ok" "taken = slot_data sl" using uart_write_ok [OF _ w] Cons.prems(2) by simp_all
    let ?n = "\<lparr>ll_kind = ''pop_tx_uart'', ll_frame_type = link_frame_type_name (frame_type (link_header (slot_data sl))),
       ll_seq = uint (sequence_id (link_header (slot_data sl))), ll_bytes = length (slot_data sl), ll_detail = []\<rparr>"
    let ?l = "link_note ?n (l\<lparr>ld_dev := d, ld_uart_out := ld_uart_out l @ slot_data sl\<rparr>)"
    have step: "linkd_tx K se werr e (w # ws) l = linkd_tx K se werr e ws ?l"
      using frame(5-8) w ok n d by (subst linkd_tx.simps) (simp add: Let_def)
    have "dinv (ld_dev ?l)" "\<forall>w\<in>set ws. UW_error \<notin> set w" using frame(3) Cons.prems(2) by simp_all
    note IH = Cons.IH [OF this Cons.prems(3) [unfolded step]]
    then obtain xs where xs: "ss = xs @ elems (tx_fifo (ld_dev l'))"
      "ld_uart_out l' = ld_uart_out l @ slot_data sl @ concat (map slot_data xs)" using frame(2) by auto
    show ?thesis using IH frame(1,4) st xs by (auto intro!: exI [of _ "sl # xs"])
  qed
qed

end

section \<open>The firmware's receiver\<close>

text \<open>The receiver with a queue that takes everything tells which messages it would put.\<close>

definition log_msgq :: "('m, 'm list) k_msgq_ops" where
  "log_msgq = \<lparr>k_msgq_put = (\<lambda>q m. (q @ [m], True)), k_msgq_get = (\<lambda>q. case q of [] \<Rightarrow> None | m # ms \<Rightarrow> Some (m, ms))\<rparr>"

definition put_all :: "('m, 'q) k_msgq_ops \<Rightarrow> 'm list \<Rightarrow> 'q \<Rightarrow> 'q" where
  "put_all M ms q = fold (\<lambda>m q. fst (k_msgq_put M q m)) ms q"

lemma feed_log:
  obtains r' ms where "rx_feed_byte log_msgq b (r, l) = (r', l @ ms)" "rx_feed_byte M b (r, q) = (r', put_all M ms q)"
proof -
  define agree where "agree x y \<longleftrightarrow> (\<exists>r' ms. x = (r', l @ ms) \<and> y = (r', put_all M ms q))" for x :: "rx_state \<times> safety_rx_frame list" and y
  have same: "agree (r, l) (r, q)" for r by (auto simp: agree_def put_all_def intro!: exI [of _ "[]"])
  have complete: "agree (frame_complete log_msgq (r, l)) (frame_complete M (r, q))" for r
  proof (cases "safety_frame_validate (take (got r) (buf r)) = SAFETY_VALIDATE_OK")
    case True
    let ?m = "\<lparr>rxf_hdr = header_of_bytes (take SAFETY_HEADER_SIZE (buf r)),
      rxf_payload = (if payload_len r \<noteq> 0 then take (unat (payload_len r)) (drop SAFETY_HEADER_SIZE (buf r)) else [])\<rparr>"
    have "frame_complete log_msgq (r, l) = (rx_reset r, l @ [?m])" "frame_complete M (r, q) = (rx_reset r, put_all M [?m] q)"
      using True by (simp_all add: frame_complete_def log_msgq_def put_all_def)
    then show ?thesis unfolding agree_def by blast
  qed (use same [of "rx_reset r"] in \<open>simp add: frame_complete_def\<close>)
  have "agree (rx_feed_byte log_msgq b (r, l)) (rx_feed_byte M b (r, q))"
    using same complete by (simp add: rx_feed_byte_def Let_def split: rx_phase.split)
  then show thesis using that by (auto simp: agree_def)
qed

lemma drain_log:
  "\<exists>r' ms. fifo_drain log_msgq bs (r, l) = (r', l @ ms) \<and> fifo_drain M bs (r, q) = (r', put_all M ms q)"
proof (induction bs arbitrary: r l q)
  case (Cons b bs)
  obtain r1 ms1 where 1: "rx_feed_byte log_msgq b (r, l) = (r1, l @ ms1)" "rx_feed_byte M b (r, q) = (r1, put_all M ms1 q)"
    by (rule feed_log)
  obtain r2 ms2 where "fifo_drain log_msgq bs (r1, l @ ms1) = (r2, (l @ ms1) @ ms2)"
    "fifo_drain M bs (r1, put_all M ms1 q) = (r2, put_all M ms2 (put_all M ms1 q))" using Cons by blast
  with 1 show ?case by (intro exI [of _ r2] exI [of _ "ms1 @ ms2"]) (simp add: put_all_def)
qed (auto simp: put_all_def intro!: exI [of _ "[]"])

lemma drain_log_frames:
  assumes "\<forall>(h, p)\<in>set gs. header_ok h p" "hunting r" "rx_inv r"
  shows "snd (fifo_drain log_msgq (wire_frames gs) (r, l)) = l @ map (\<lambda>(h, p). msg_of h p) gs"
  using assms
proof (induction gs arbitrary: r l)
  case (Cons g gs)
  obtain h p where g: "g = (h, p)" by fastforce
  have ok: "header_ok h p" using Cons.prems(1) g by simp
  obtain r' where r': "fifo_drain log_msgq (wire_frame h p) (r, l) = (r', fst (k_msgq_put log_msgq l (msg_of h p)))"
    "phase r' = RX_HUNT_MAGIC_LO" "rx_inv r'" by (rule feed_frame [OF Cons.prems(2,3) ok])
  have "hunting r'" using r'(2) by (simp add: hunting_def)
  with Cons.IH [OF _ this r'(3)] Cons.prems(1) r'(1) g show ?case
    by (simp add: wire_frames_def fifo_drain_append log_msgq_def)
qed (simp add: wire_frames_def)

context k_msgq
begin

lemma put_all_subseq: "qok q \<Longrightarrow> qok (put_all M ms q) \<and> (\<exists>xs. subseq xs ms \<and> msgs (put_all M ms q) = msgs q @ xs)"
proof (induction ms arbitrary: q)
  case (Cons m ms)
  obtain q' b where q': "k_msgq_put M q m = (q', b)" "qok q'" "msgs q' = msgs q \<or> msgs q' = msgs q @ [m]"
    by (rule put_cases [OF Cons.prems, of m]) auto
  have p: "put_all M (m # ms) q = put_all M ms q'" by (simp add: put_all_def q'(1))
  from Cons.IH [OF q'(2)] obtain xs where "qok (put_all M ms q')" "subseq xs ms" "msgs (put_all M ms q') = msgs q' @ xs" by blast
  then show ?case unfolding p using q'(3) by (metis append.assoc append_Cons append_Nil subseq_Cons2 list_emb_Cons)
qed (auto simp: put_all_def)

end

section \<open>The supervisor\<close>

text \<open>Where the supervisor's frames come from: it acknowledges a heartbeat it has read, or asks for a recovery.\<close>

definition sup_says :: "bytes list \<Rightarrow> bytes \<Rightarrow> bool" where
  "sup_says seen d \<longleftrightarrow>
     (\<exists>f\<in>set seen. \<exists>n. is_heartbeat f \<and> d = build_ack n (timestamp_ms (header_of_bytes f)) (sequence_id (header_of_bytes f)))
     \<or> (\<exists>seq ts. d = build_command seq ts SAFETY_CMD_REQUEST_RECOVERY SAFETY_FAULT_NONE 0 0)"

definition sup_inv :: "bytes list \<Rightarrow> supervisor \<Rightarrow> bool" where
  "sup_inv seen u \<longleftrightarrow> assembler_buf u = [] \<and> (\<forall>d\<in>set (dev_out u). sup_says seen d)
     \<and> (fsm u = HEALTHY \<longrightarrow> (\<exists>f\<in>set seen. is_heartbeat f))"

lemma sup_says_mono: "sup_says seen d \<Longrightarrow> set seen \<subseteq> set seen' \<Longrightarrow> sup_says seen' d"
  by (auto simp: sup_says_def)

lemma sup_says_valid: "sup_says seen d \<Longrightarrow> valid_frame d"
  by (auto simp: sup_says_def)

lemma process_frame_buf [simp]: "assembler_buf (process_frame hb f s) = assembler_buf s"
  by (simp add: process_frame_def is_duplicate_def sup_upd Let_def split_beta)

lemma read_sup_inv:
  assumes "sup_inv seen u" and "valid_frame f"
  shows "sup_inv (seen @ [f]) (handle_readable hb (Read_bytes f) u)
    \<and> take (length (dev_out u)) (dev_out (handle_readable hb (Read_bytes f) u)) = dev_out u"
proof -
  obtain h p where hp: "header_ok h p" "f = wire_frame h p" using assms(2) by (auto simp: valid_frame_def)
  let ?pf = "\<lparr>pf_header = rxf_hdr (msg_of h p), pf_payload = p, pf_result = SAFETY_VALIDATE_OK\<rparr>"
  have eq: "handle_readable hb (Read_bytes f) u = process_frame hb ?pf u"
    unfolding hp(2) by (rule read_wire_frame [OF hp(1)]) (use assms(1) in \<open>simp add: sup_inv_def\<close>)
  have hb: "fresh_heartbeat (dup_seen u) ?pf \<Longrightarrow> is_heartbeat f" using hp by (simp add: fresh_heartbeat_def is_heartbeat_def)
  have hdr: "timestamp_ms (header_of_bytes f) = timestamp_ms h" "sequence_id (header_of_bytes f) = sequence_id h" by (simp_all add: hp(2))
  have "fsm u = HEALTHY \<or> fresh_heartbeat (dup_seen u) ?pf" if "fsm (process_frame hb ?pf u) = HEALTHY"
    using process_frames_healthy [of hb "[?pf]" u] that by auto
  moreover have "\<forall>d\<in>set (dev_out (process_frame hb ?pf u)). sup_says (seen @ [f]) d"
  proof
    fix d assume "d \<in> set (dev_out (process_frame hb ?pf u))"
    then consider "d \<in> set (dev_out u)" | "fresh_heartbeat (dup_seen u) ?pf" "d = answer (sup_tx_seq u) ?pf"
      by (auto simp: process_frame_fields frame_ok_def split: if_splits)
    then show "sup_says (seen @ [f]) d"
    proof cases
      case 1
      then show ?thesis using assms(1) sup_says_mono [of seen d "seen @ [f]"] by (auto simp: sup_inv_def)
    next
      case 2
      then show ?thesis using hb hdr by (auto simp: sup_says_def answer_def frame_ok_def)
    qed
  qed
  ultimately show ?thesis unfolding eq using assms(1) hb by (auto simp: sup_inv_def process_frame_fields)
qed

lemma worker_run_sup [simp]:
  "assembler_buf (worker_run hb l s) = assembler_buf s" "dev_out (worker_run hb l s) = dev_out s" "fsm (worker_run hb l s) = fsm s"
  by (induction hb l s rule: worker_run.induct; subst worker_run.simps; simp split: list.split Request.split)+

lemma timeout_buf [simp]: "assembler_buf (on_heartbeat_timeout hb now s) = assembler_buf s"
  by (simp add: on_heartbeat_timeout_def sup_upd Let_def split_beta)

lemma drain_buf [simp]: "assembler_buf (fold drain_report rs s) = assembler_buf s" "dev_out (fold drain_report rs s) = dev_out s"
  by (induction rs arbitrary: s) (simp_all add: drain_report_def sup_upd Let_def split_beta split: RecoveryOutcome.split)

lemma step_sup_inv:
  assumes "sup_step hb l u u'" and "\<not> is_read l" and "sup_inv seen u"
  shows "sup_inv seen u' \<and> take (length (dev_out u)) (dev_out u') = dev_out u"
  using assms
proof cases
  case (timeout now)
  then show ?thesis using assms(3) apply_event_HEALTHY [of "fsm u" HEARTBEAT_TIMEOUT]
    by (auto simp: sup_inv_def)
next
  case reports
  then show ?thesis using assms(3) by (auto simp: sup_inv_def drain_recovery_reports_def dest: fold_drain_healthy)
next
  case (send seq ts sent)
  then show ?thesis using assms(3) by (auto simp: sup_inv_def worker_send_def sup_upd sup_says_def Let_def)
qed (auto simp: sup_inv_def recovery_stop_def worker_success_def worker_failed_def sup_upd)

section \<open>The firmware's output\<close>

text \<open>A turn of a task adds to the output and does not touch the receiver.\<close>

definition adds :: "'m firmware \<Rightarrow> 'm firmware \<Rightarrow> bool" where
  "adds s s' \<longleftrightarrow> prefix (uart_tx s) (uart_tx s') \<and> rxs s' = rxs s \<and> g_rx_msgq s' = g_rx_msgq s"

lemma adds_refl [simp, intro]: "adds s s"
  by (simp add: adds_def)

lemma adds_trans: "adds s s' \<Longrightarrow> adds s' s'' \<Longrightarrow> adds s s''"
  by (auto simp: adds_def)

lemma adds_fault_state [simp]: "adds (s\<lparr>g_fault_state := g\<rparr>) s' = adds s s'" "adds s (s'\<lparr>g_fault_state := g\<rparr>) = adds s s'"
  by (simp_all add: adds_def)

lemma poll_out_prefix: "prefix out (poll_out_loop fb i n out)"
proof (induction n arbitrary: i out)
  case (Suc n)
  then show ?case using prefix_order.trans [of out "out @ [fb ! i]"] by simp
qed simp

lemma send_adds: "adds s (snd (safety_send_frame e ty p n s))"
  by (simp add: adds_def safety_send_frame_def poll_out_prefix Let_def split: prod.split)

lemma reply_adds: "adds s (send_ack e n s)" "adds s (send_nack e n r s)" "adds s (reply_status e s)" "adds s (emit_fault e ft sev d s)"
  by (simp_all add: send_ack_def send_nack_def reply_status_def emit_fault_def send_adds Let_def)
    (rule send_adds [of "s\<lparr>g_fault_state := g\<rparr>" for g, unfolded adds_fault_state])

lemma handle_command_adds: "adds s (handle_command e m s)"
proof -
  have "adds s (send_ack e1 n (reply_status e2 s))" for e1 e2 n
    using adds_trans reply_adds by blast
  moreover have "adds s (send_ack e1 n (snd (safety_send_frame e2 ty p k (s\<lparr>g_fault_state := g\<rparr>))))" for e1 e2 n ty p k g
    using adds_trans [OF send_adds reply_adds(1)] adds_fault_state(1) by blast
  moreover have "adds s (send_ack e1 n (s\<lparr>g_fault_state := g\<rparr>))" for e1 n g
    using reply_adds(1) [of "s\<lparr>g_fault_state := g\<rparr>"] by simp
  ultimately show ?thesis
    by (simp add: handle_command_def apply_inject_def clear_all_injects_def reply_adds Let_def)
qed

lemma tasks_add:
  "adds s (snd (snd (heartbeat_task e b s)))" "adds s (snd (snd (telemetry_task e t s)))"
  "adds s (snd (snd (fault_monitor_task e pf s)))"
proof -
  show "adds s (snd (snd (heartbeat_task e b s)))" "adds s (snd (snd (telemetry_task e t s)))"
    by (simp_all add: heartbeat_task_def telemetry_task_def send_adds Let_def)
  show "adds s (snd (snd (fault_monitor_task e pf s)))"
    by (cases pf) (simp add: fault_monitor_task_def reply_adds(4) adds_trans [OF reply_adds(4) reply_adds(4)] Let_def)
qed

lemma fw_step_adds:
  assumes "fw_step M l s s'" "l \<noteq> L_rx"
  shows "prefix (uart_tx (fw s)) (uart_tx (fw s')) \<and> rxs (fw s') = rxs (fw s)
    \<and> (case l of L_command m \<Rightarrow> k_msgq_get M (g_rx_msgq (fw s)) = Some (m, g_rx_msgq (fw s')) | _ \<Rightarrow> g_rx_msgq (fw s') = g_rx_msgq (fw s))"
  using assms
proof cases
  case (heartbeat_turn e ms b f)
  then show ?thesis using tasks_add(1) [of "fw s" e "beat s"] by (simp add: adds_def)
next
  case (telemetry_turn e ms t f)
  then show ?thesis using tasks_add(2) [of "fw s" e "tick s"] by (simp add: adds_def)
next
  case (monitor_turn e ms p f)
  then show ?thesis using tasks_add(3) [of "fw s" e "prev_flags s"] by (simp add: adds_def)
next
  case (command_turn m q e f)
  then have "f = handle_command e m ((fw s)\<lparr>g_rx_msgq := q\<rparr>)
      \<or> f = send_nack e (sequence_id (rxf_hdr m)) SAFETY_NACK_UNKNOWN_TYPE ((fw s)\<lparr>g_rx_msgq := q\<rparr>)"
    by (auto simp: command_handler_task_def Let_def split: if_splits)
  then have "adds ((fw s)\<lparr>g_rx_msgq := q\<rparr>) f" using handle_command_adds reply_adds(2) by blast
  then show ?thesis using command_turn by (simp add: adds_def)
qed simp

section \<open>Framing a prefix\<close>

lemma link_loop_wire:
  assumes "\<forall>(h, p)\<in>set fs. header_ok h p"
  shows "link_loop (wire_frames fs) = (map (\<lambda>(h, p). wire_frame h p) fs, [])"
  using assms
proof (induction fs)
  case (Cons x fs)
  obtain h p where x: "x = (h, p)" by fastforce
  then have "header_ok h p" using Cons.prems by simp
  from lnkf.run_frame [OF this, of "wire_frames fs"] Cons x show ?case by (simp add: wire_frames_def)
qed (simp add: wire_frames_def lnk.run_Nil)

lemma link_loop_prefix: "prefix (fst (link_loop xs)) (fst (link_loop (xs @ ys)))"
  using lnk.run_append [of xs ys] by simp

lemma link_loop_kept: "link_loop (snd (link_loop xs)) = ([], snd (link_loop xs))"
  using lnk.run_append [of xs "[]"] by (simp add: prod_eq_iff)

lemma link_pieces_from:
  "feed_pieces link_feed (snd (link_loop xs)) ds = link_loop (snd (link_loop xs) @ concat ds)"
  using lnk.feed_pieces_run [of "snd (link_loop xs)" ds] link_loop_kept [of xs] by (simp add: link_feed_def [abs_def])

lemma prefix_frames:
  assumes "tx_inv f" and "n \<le> length (uart_tx f)"
  obtains fs where "uart_tx f = wire_frames fs" "\<forall>(h, p)\<in>set fs. header_ok h p"
    "prefix (fst (link_loop (take n (uart_tx f)))) (map (\<lambda>(h, p). wire_frame h p) fs)"
proof -
  obtain fs where fs: "uart_tx f = wire_frames fs" "\<forall>(h, p)\<in>set fs. header_ok h p" using assms(1) by (auto simp: tx_inv_def)
  have "prefix (fst (link_loop (take n (uart_tx f)))) (map (\<lambda>(h, p). wire_frame h p) fs)"
    using link_loop_prefix [of "take n (uart_tx f)" "drop n (uart_tx f)"] link_loop_wire [OF fs(2)] fs(1) by simp
  with fs that show thesis by blast
qed

end
