(* ===== verification/System.thy ===== *)
theory System
  imports System_Parts
begin

text \<open>
  Invariants of the whole chain of \<open>System_Parts\<close>, and what follows from them: heartbeats and commands are
  authentic, and the composition runs each component as the component's own transition system does.
\<close>

section \<open>The invariant\<close>

text \<open>From the firmware to the supervisor: the daemon's framer has used up what it has read; the heartbeats
  the supervisor has read, followed by those in the RX queue, are in order some of those that the framer has cut out.\<close>

definition up_inv :: "('q \<Rightarrow> safety_fifo_slot list) \<Rightarrow> ('q, 'm) system \<Rightarrow> bool" where
  "up_inv elems s \<longleftrightarrow> sy_up s \<le> length (sy_uart_tx s)
     \<and> sy_framer s = snd (link_loop (take (sy_up s) (sy_uart_tx s)))
     \<and> subseq (filter is_heartbeat (sy_seen s @ map slot_data (elems (rx_fifo (sy_dev s)))))
         (filter is_heartbeat (fst (link_loop (take (sy_up s) (sy_uart_tx s)))))
     \<and> (state (sy_dev s) = SAFETY_LINK_HB_OK \<longrightarrow>
          (\<exists>f\<in>set (fst (link_loop (take (sy_up s) (sy_uart_tx s)))). is_heartbeat f))
     \<and> (\<forall>x\<in>set (elems (rx_fifo (sy_dev s))). valid_frame (slot_data x))"

text \<open>From the writers to the firmware: the daemon has sent whole frames, which with those in the TX queue are
  in order some of those written; the messages the command task has taken, with those waiting, are in order some
  of those that the receiver has found in the bytes it got.\<close>

definition down_inv :: "('q \<Rightarrow> safety_fifo_slot list) \<Rightarrow> ('m \<Rightarrow> safety_rx_frame list) \<Rightarrow> ('m \<Rightarrow> bool) \<Rightarrow> ('q, 'm) system \<Rightarrow> bool" where
  "down_inv elems msgs qok s \<longleftrightarrow> qok (g_rx_msgq (fw (sy_fw s))) \<and> sy_down s \<le> length (sy_uart_out s)
     \<and> (\<exists>gs. (\<forall>(h, p)\<in>set gs. header_ok h p) \<and> sy_uart_out s = wire_frames gs
          \<and> subseq (map (\<lambda>(h, p). wire_frame h p) gs @ map slot_data (elems (tx_fifo (sy_dev s)))) (sy_written s))
     \<and> (\<exists>ms. fifo_drain log_msgq (take (sy_down s) (sy_uart_out s)) (rxs_init, []) = (rxs (fw (sy_fw s)), ms)
          \<and> subseq (sy_handled s @ msgs (g_rx_msgq (fw (sy_fw s)))) ms)
     \<and> (\<forall>x\<in>set (elems (tx_fifo (sy_dev s))). valid_frame (slot_data x))"

definition sys_inv :: "(safety_fifo_slot, 'q) kfifo_ops \<Rightarrow> ('q \<Rightarrow> safety_fifo_slot list) \<Rightarrow> ('q \<Rightarrow> bool)
    \<Rightarrow> ('m \<Rightarrow> safety_rx_frame list) \<Rightarrow> ('m \<Rightarrow> bool) \<Rightarrow> ('q, 'm) system \<Rightarrow> bool" where
  "sys_inv K elems qwf msgs qok s \<longleftrightarrow> driver_inv K elems qwf (sy_dev s) \<and> tx_inv (fw (sy_fw s))
     \<and> up_inv elems s \<and> down_inv elems msgs qok s \<and> sup_inv (sy_seen s) (sy_sup s)"

lemma absorb_dev [simp]: "sys_dev (absorb s dev) = dev"
  by (simp add: absorb_def)

lemma take_prefix_same: "prefix xs ys \<Longrightarrow> n \<le> length xs \<Longrightarrow> take n ys = take n xs"
  by (auto simp: prefix_def)

lemma subseq_set: "subseq xs ys \<Longrightarrow> set xs \<subseteq> set ys"
  by (induction rule: list_emb.induct) auto

lemma subseq_left: "subseq (xs @ ys) zs \<Longrightarrow> subseq xs zs"
  by (meson subseq_order.trans prefix_imp_subseq prefixI)

lemma take_next:
  assumes "d \<le> length xs" "b = take n (drop d xs)"
  shows "take (d + length b) xs = take d xs @ b \<and> d + length b \<le> length xs"
  using assms(1) unfolding assms(2) by (auto simp: take_add min_def)

text \<open>Steps that only concern the driver.\<close>

lemma makes_sys_inv:
  assumes "sys_inv K elems qwf msgs qok s" and "driver_inv K elems qwf (sys_dev d)" and "only_makes elems (sy_dev s) (sys_dev d)"
  shows "sys_inv K elems qwf msgs qok (s\<lparr>sy_drv := d\<rparr>)"
  using assms by (auto simp: sys_inv_def up_inv_def down_inv_def only_makes_def driver_made_def)

text \<open>What writers put into the TX queue.\<close>

lemma wrote_down_inv:
  assumes "down_inv elems msgs qok s" and "elems (tx_fifo (sys_dev d)) = elems (tx_fifo (sy_dev s)) @ map slot_of acc"
    and "\<forall>f\<in>set acc. valid_frame f"
  shows "down_inv elems msgs qok (s\<lparr>sy_drv := d, sy_written := sy_written s @ acc\<rparr>)"
proof -
  have "map slot_data (map slot_of acc) = acc" by (simp add: slot_of_def comp_def)
  then show ?thesis using assms
    by (auto simp: down_inv_def slot_of_def intro!: list_emb_append_mono [where P = "(=)", of "xs @ ys" _ zs zs for xs ys zs, simplified])
qed

locale safety_system = driver K elems wf + mq: k_msgq M msgs depth qok
  for K :: "(safety_fifo_slot, 'q) kfifo_ops" and elems :: "'q \<Rightarrow> safety_fifo_slot list" and wf :: "'q \<Rightarrow> bool"
    and M :: "(safety_rx_frame, 'm) k_msgq_ops" and msgs :: "'m \<Rightarrow> safety_rx_frame list" and depth :: nat and qok :: "'m \<Rightarrow> bool"
begin

abbreviation sinv :: "('q, 'm) system \<Rightarrow> bool" where "sinv s \<equiv> sys_inv K elems wf msgs qok s"

lemma fw_turn_inv:
  assumes "sinv s" "fw_step M l (sy_fw s) f" "l \<noteq> L_rx"
  shows "sinv (s\<lparr>sy_fw := f, sy_handled := sy_handled s @ handled_by l\<rparr>)"
proof -
  let ?s = "s\<lparr>sy_fw := f, sy_handled := sy_handled s @ handled_by l\<rparr>"
  note a = fw_step_adds [OF assms(2,3)]
  have inv: "up_inv elems s" "down_inv elems msgs qok s" using assms(1) by (simp_all add: sys_inv_def)
  have "take (sy_up s) (uart_tx (fw f)) = take (sy_up s) (sy_uart_tx s)" "sy_up s \<le> length (uart_tx (fw f))"
    using take_prefix_same [of "sy_uart_tx s" "uart_tx (fw f)" "sy_up s"] prefix_length_le [of "sy_uart_tx s" "uart_tx (fw f)"] a inv(1)
    by (simp_all add: up_inv_def)
  then have "up_inv elems ?s" using inv(1) by (simp add: up_inv_def)
  moreover have "down_inv elems msgs qok ?s"
  proof -
    have q: "qok (g_rx_msgq (fw (sy_fw s)))" using inv(2) by (simp add: down_inv_def)
    have "qok (g_rx_msgq (fw f)) \<and> handled_by l @ msgs (g_rx_msgq (fw f)) = msgs (g_rx_msgq (fw (sy_fw s)))"
    proof (cases "\<exists>m. l = L_command m")
      case True
      then obtain m where l: "l = L_command m" by blast
      then have g: "k_msgq_get M (g_rx_msgq (fw (sy_fw s))) = Some (m, g_rx_msgq (fw f))" using a by simp
      show ?thesis
      proof (cases "msgs (g_rx_msgq (fw (sy_fw s)))")
        case (Cons m' ms)
        then show ?thesis using mq.get_some [OF q Cons] g l by auto
      qed (use mq.get_empty [OF q] g in simp)
    next
      case False
      then show ?thesis using a q by (cases l) auto
    qed
    then show ?thesis using inv(2) a by (simp add: down_inv_def)
  qed
  ultimately show ?thesis using assms(1) step_tx_inv [OF assms(2)] by (simp add: sys_inv_def)
qed

lemma fw_receives_inv:
  assumes "sinv s" "isr_bytes rounds = take n (drop (sy_down s) (sy_uart_out s))"
    "uart_isr M rounds (rxs (fw (sy_fw s)), g_rx_msgq (fw (sy_fw s))) = (r, q)"
  shows "sinv (s\<lparr>sy_fw := (sy_fw s)\<lparr>fw := (fw (sy_fw s))\<lparr>rxs := r, g_rx_msgq := q\<rparr>\<rparr>,
       sy_down := sy_down s + length (isr_bytes rounds)\<rparr>)"
proof -
  let ?b = "isr_bytes rounds" and ?o = "sy_uart_out s" and ?d = "sy_down s"
  have inv: "down_inv elems msgs qok s" using assms(1) by (simp add: sys_inv_def)
  then obtain ms where ms: "fifo_drain log_msgq (take ?d ?o) (rxs_init, []) = (rxs (fw (sy_fw s)), ms)"
    "subseq (sy_handled s @ msgs (g_rx_msgq (fw (sy_fw s)))) ms" and q: "qok (g_rx_msgq (fw (sy_fw s)))" and d: "?d \<le> length ?o"
    by (auto simp: down_inv_def)
  have t: "take (?d + length ?b) ?o = take ?d ?o @ ?b" "?d + length ?b \<le> length ?o"
    using take_next [OF d assms(2)] by simp_all
  obtain r' new where new: "fifo_drain log_msgq ?b (rxs (fw (sy_fw s)), ms) = (r', ms @ new)"
    "fifo_drain M ?b (rxs (fw (sy_fw s)), g_rx_msgq (fw (sy_fw s))) = (r', put_all M new (g_rx_msgq (fw (sy_fw s))))"
    using drain_log [of ?b "rxs (fw (sy_fw s))" ms M "g_rx_msgq (fw (sy_fw s))"] by blast
  have r: "r = r'" "q = put_all M new (g_rx_msgq (fw (sy_fw s)))" using assms(3) new(2) by (simp_all add: uart_isr_drain)
  obtain xs where xs: "qok q" "subseq xs new" "msgs q = msgs (g_rx_msgq (fw (sy_fw s))) @ xs"
    using mq.put_all_subseq [OF q, of new] r(2) by blast
  have "subseq (sy_handled s @ msgs q) (ms @ new)" using list_emb_append_mono [OF ms(2) xs(2)] xs(3) by simp
  moreover have "fifo_drain log_msgq (take (?d + length ?b) ?o) (rxs_init, []) = (r, ms @ new)"
    unfolding t(1) fifo_drain_append ms(1) new(1) r(1) ..
  ultimately show ?thesis using assms(1) t(2) xs(1) by (simp add: sys_inv_def up_inv_def down_inv_def)
qed

lemma linkd_reads_inv:
  assumes "sinv s" "concat ds = take n (drop (sy_up s) (sy_uart_tx s))" "\<forall>d\<in>set ds. d \<noteq> []"
    "linkd_rx K se e (map UR_bytes ds @ [UR_EAGAIN]) (sy_linkd s) = Some (Goes_on, l)"
  shows "sinv ((put_linkd l s)\<lparr>sy_up := sy_up s + length (concat ds)\<rparr>)"
proof -
  let ?t = "sy_uart_tx s" and ?u = "sy_up s" and ?c = "concat ds"
  let ?out = "link_loop (take ?u ?t)"
  have inv: "up_inv elems s" "down_inv elems msgs qok s" "dinv (ld_dev (sy_linkd s))" using assms(1) by (simp_all add: sys_inv_def sy_linkd_def)
  have t: "take (?u + length ?c) ?t = take ?u ?t @ ?c" "?u + length ?c \<le> length ?t"
    using take_next [OF _ assms(2)] inv(1) by (simp_all add: up_inv_def)
  let ?new = "link_loop (snd ?out @ ?c)"
  have whole: "link_loop (take (?u + length ?c) ?t) = (fst ?out @ fst ?new, snd ?new)"
    unfolding t(1) using lnk.run_append [of "take ?u ?t" ?c] by simp
  have "feed_pieces link_feed (ld_framer (sy_linkd s)) ds = ?new"
    using link_pieces_from [of "take ?u ?t" ds] inv(1) by (simp add: up_inv_def sy_linkd_def)
  then have l: "l = (fold (linkd_push K se e) (fst ?new) (sy_linkd s))\<lparr>ld_framer := snd ?new\<rparr>"
    using linkd_rx_pieces [OF assms(3), of K se e "sy_linkd s"] assms(4) by simp
  obtain gs where gs: "subseq gs (fst ?new)" "elems (rx_fifo (ld_dev l)) = elems (rx_fifo (sy_dev s)) @ map slot_of gs"
    using pushes_take [OF inv(3), of se e "fst ?new"] by (auto simp: l sy_linkd_def)
  have p: "dinv (ld_dev l)" "tx_fifo (ld_dev l) = tx_fifo (sy_dev s)" "ld_uart_out l = sy_uart_out s"
    "state (ld_dev l) = SAFETY_LINK_HB_OK \<longrightarrow> state (sy_dev s) = SAFETY_LINK_HB_OK \<or> (\<exists>f\<in>set (fst ?new). is_heartbeat f)"
    using pushes_take [OF inv(3), of se e "fst ?new"] by (auto simp: l sy_linkd_def)
  have data: "map slot_data (map slot_of gs) = gs" by (simp add: slot_of_def comp_def)
  have "subseq (filter is_heartbeat (sy_seen s @ map slot_data (elems (rx_fifo (sy_dev s))))) (filter is_heartbeat (fst ?out))"
    using inv(1) by (simp only: up_inv_def)
  from list_emb_append_mono [OF this subseq_filter [OF gs(1), of is_heartbeat]]
  have sub: "subseq (filter is_heartbeat (sy_seen s @ map slot_data (elems (rx_fifo (ld_dev l)))))
      (filter is_heartbeat (fst ?out @ fst ?new))"
    unfolding gs(2) map_append data filter_append append_assoc .
  obtain fs where fs: "\<forall>(h, p)\<in>set fs. header_ok h p"
      "prefix (fst (link_loop (take (?u + length ?c) ?t))) (map (\<lambda>(h, p). wire_frame h p) fs)"
    using prefix_frames [OF _ t(2)] assms(1) by (metis sys_inv_def)
  have "valid_frame f" if "f \<in> set gs" for f
  proof -
    have "f \<in> set (fst ?new)" using that subseq_set [OF gs(1)] by blast
    then have "f \<in> set (map (\<lambda>(h, p). wire_frame h p) fs)" using fs(2) whole set_mono_prefix by fastforce
    then show ?thesis using fs(1) by (fastforce simp: valid_frame_def)
  qed
  then have rx: "\<forall>x\<in>set (elems (rx_fifo (ld_dev l))). valid_frame (slot_data x)" using gs(2) inv(1) by (auto simp: up_inv_def slot_of_def)
  have "up_inv elems ((put_linkd l s)\<lparr>sy_up := ?u + length ?c\<rparr>)"
    using t(2) whole sub rx p(4) inv(1) by (auto simp: up_inv_def put_linkd_def l)
  moreover have "down_inv elems msgs qok ((put_linkd l s)\<lparr>sy_up := ?u + length ?c\<rparr>)"
    using inv(2) p by (simp add: down_inv_def put_linkd_def)
  ultimately show ?thesis using assms(1) p(1) by (simp add: sys_inv_def put_linkd_def)
qed

end

lemma wire_frames_append: "wire_frames (fs @ gs) = wire_frames fs @ wire_frames gs"
  by (simp add: wire_frames_def)

lemma valid_frames_wire:
  assumes "\<forall>x\<in>set xs. valid_frame (slot_data x)"
  shows "\<exists>gs. (\<forall>(h, p)\<in>set gs. header_ok h p) \<and> map slot_data xs = map (\<lambda>(h, p). wire_frame h p) gs"
  using assms
proof (induction xs)
  case (Cons x xs)
  then obtain h p gs where "header_ok h p" "slot_data x = wire_frame h p" "\<forall>(h, p)\<in>set gs. header_ok h p"
    "map slot_data xs = map (\<lambda>(h, p). wire_frame h p) gs" by (auto simp: valid_frame_def)
  then show ?case by (intro exI [of _ "(h, p) # gs"]) simp
qed simp

context safety_system
begin

lemma linkd_writes_inv:
  assumes "sinv s" "\<forall>w\<in>set ws. UW_error \<notin> set w" "linkd_tx K se werr e ws (sy_linkd s) = Some l"
  shows "sinv (put_linkd l s)"
proof -
  have inv: "dinv (ld_dev (sy_linkd s))" "down_inv elems msgs qok s" using assms(1) by (simp_all add: sys_inv_def sy_linkd_def)
  note w = tx_writes [OF inv(1) assms(2,3)]
  then obtain xs where xs: "elems (tx_fifo (sy_dev s)) = xs @ elems (tx_fifo (ld_dev l))"
    "ld_uart_out l = sy_uart_out s @ concat (map slot_data xs)" by (auto simp: sy_linkd_def)
  have tx: "\<forall>x\<in>set (xs @ elems (tx_fifo (ld_dev l))). valid_frame (slot_data x)" using inv(2) xs(1) by (simp add: down_inv_def)
  obtain gs where gs: "\<forall>(h, p)\<in>set gs. header_ok h p" "sy_uart_out s = wire_frames gs"
    "subseq (map (\<lambda>(h, p). wire_frame h p) gs @ map slot_data (elems (tx_fifo (sy_dev s)))) (sy_written s)"
    using inv(2) by (auto simp: down_inv_def)
  obtain gs' where gs': "\<forall>(h, p)\<in>set gs'. header_ok h p" "map slot_data xs = map (\<lambda>(h, p). wire_frame h p) gs'"
    using valid_frames_wire [of xs] tx by auto
  have "\<exists>gs. (\<forall>(h, p)\<in>set gs. header_ok h p) \<and> ld_uart_out l = wire_frames gs
      \<and> subseq (map (\<lambda>(h, p). wire_frame h p) gs @ map slot_data (elems (tx_fifo (ld_dev l)))) (sy_written s)"
    using gs gs' xs by (intro exI [of _ "gs @ gs'"]) (auto simp: wire_frames_def)
  moreover have "take (sy_down s) (ld_uart_out l) = take (sy_down s) (sy_uart_out s)" "sy_down s \<le> length (ld_uart_out l)"
    using inv(2) xs(2) by (simp_all add: down_inv_def)
  ultimately have "down_inv elems msgs qok (put_linkd l s)" using inv(2) tx by (auto simp: down_inv_def put_linkd_def)
  moreover have "up_inv elems (put_linkd l s)" using assms(1) w by (simp add: sys_inv_def up_inv_def put_linkd_def sy_linkd_def)
  ultimately show ?thesis using assms(1) w by (simp add: sys_inv_def put_linkd_def)
qed

lemma put_sup_inv:
  assumes "sinv s" "sup_inv (sy_seen s) u" "\<forall>f\<in>set fs. valid_frame f" "w = dev_writes K e fs (sy_dev s)"
  shows "sinv (put_sup u w s)"
proof -
  obtain acc d where w: "w = (acc, d)" by fastforce
  have "dinv (sy_dev s)" using assms(1) by (simp add: sys_inv_def)
  note p = writes_put [OF this assms(3) assms(4) [unfolded w, symmetric]]
  have a: "\<forall>f\<in>set acc. valid_frame f" using p assms(3) subseq_set [of acc fs] by auto
  have "down_inv elems msgs qok (s\<lparr>sy_drv := absorb (sy_drv s) d, sy_written := sy_written s @ acc\<rparr>)"
    using p assms(1) a by (intro wrote_down_inv) (simp_all add: sys_inv_def)
  then show ?thesis unfolding w using assms(1,2) p by (simp add: put_sup_def sys_inv_def up_inv_def down_inv_def)
qed

lemma sent_since_valid: "sup_inv seen u \<Longrightarrow> \<forall>f\<in>set (sent_since u0 u). valid_frame f"
  by (auto simp: sent_since_def sup_inv_def dest!: in_set_dropD intro: sup_says_valid)

lemma sup_reads_inv:
  assumes "sinv s" "safety_read K True [] 1024 True (sy_dev s) = Some (Inr bs, dev)"
    "u = handle_readable hb (Read_bytes bs) (sy_sup s)" "w = dev_writes K e (sent_since (sy_sup s) u) dev"
  shows "sinv ((put_sup u w s)\<lparr>sy_seen := sy_seen s @ [bs]\<rparr>)"
proof -
  have inv: "dinv (sy_dev s)" "up_inv elems s" "down_inv elems msgs qok s" "sup_inv (sy_seen s) (sy_sup s)"
    using assms(1) by (simp_all add: sys_inv_def)
  obtain x xs where x: "elems (rx_fifo (sy_dev s)) = x # xs" "elems (rx_fifo dev) = xs" "bs = slot_data x"
    "tx_fifo dev = tx_fifo (sy_dev s)" "state dev = state (sy_dev s)" "dinv dev"
    by (rule read_takes [OF inv(1) assms(2)])
  have u: "sup_inv (sy_seen s @ [bs]) u" using read_sup_inv [OF inv(4), of bs hb] inv(2) x(1,3) assms(3) by (simp add: up_inv_def)
  let ?s = "s\<lparr>sy_drv := (sy_drv s)\<lparr>sys_dev := dev\<rparr>, sy_seen := sy_seen s @ [bs], sy_sup := u\<rparr>"
  have "sinv ?s" using assms(1) x u by (simp add: sys_inv_def up_inv_def down_inv_def)
  from put_sup_inv [OF this _ sent_since_valid [OF u], of u w e "sy_sup s"] u assms(4)
  show ?thesis by (simp add: put_sup_def sys_inv_def up_inv_def down_inv_def)
qed

lemma step_sys_inv:
  assumes "sys_step K M hb s s'" "sinv s"
  shows "sinv s'"
proof -
  have inv: "dinv (sy_dev s)" "sup_inv (sy_seen s) (sy_sup s)" using assms(2) by (simp_all add: sys_inv_def)
  show ?thesis
    using assms(1)
  proof cases
    case (sup_runs l u w e)
    then show ?thesis using step_sup_inv [OF _ _ inv(2), of hb l u] put_sup_inv [OF assms(2) _ sent_since_valid] by blast
  next
    case (ctl_writes f w e)
    then show ?thesis using put_sup_inv [OF assms(2) inv(2), of "[f]" w e] by simp
  next
    case (ctl_ioctl e cmd arg r dev)
    then show ?thesis
      using makes_sys_inv [OF assms(2), of "absorb (sy_drv s) dev"] ioctl_makes [OF inv(1), of cmd e arg] ioctl_inv [OF inv(1), of arg e cmd] by simp
  next
    case (watchdog e r dev)
    then show ?thesis
      using makes_sys_inv [OF assms(2), of "absorb ((sy_drv s)\<lparr>timer_armed := False\<rparr>) dev"] timer_makes [OF inv(1), of e]
        hb_timer_link [OF inv(1), of e] by simp
  next
    case (recovery e dev)
    then show ?thesis
      using makes_sys_inv [OF assms(2), of "absorb ((sy_drv s)\<lparr>work_pending := False\<rparr>) dev"] work_makes [OF inv(1), of e]
        recovery_link [OF inv(1), of e] by simp
  qed (use fw_turn_inv [OF assms(2)] fw_receives_inv [OF assms(2)] linkd_reads_inv [OF assms(2)] linkd_writes_inv [OF assms(2)]
      sup_reads_inv [OF assms(2)] in \<open>simp_all\<close>)
qed

lemma start_inv:
  assumes "drv_init K elems wf d" "elems (rx_fifo (sys_dev d)) = []" "elems (tx_fifo (sys_dev d)) = []" "qok q" "msgs q = []"
  shows "sinv (sys_start q d hb)"
  using assms boot_tx_inv [of q] unfolding sys_inv_def up_inv_def down_inv_def sup_inv_def
  by (auto simp: sys_start_def drv_init_def fw_boot_def sup_init_def sup_idle_def arm_heartbeat_timer_def lnk.run_Nil wire_frames_def
      intro!: exI [of _ "[]"])

lemma reachable_sys_inv:
  assumes "sys_reachable K M hb (sys_start q d hb) s" "drv_init K elems wf d" "elems (rx_fifo (sys_dev d)) = []"
    "elems (tx_fifo (sys_dev d)) = []" "qok q" "msgs q = []"
  shows "sinv s"
  using assms(1)
proof induction
  case start
  then show ?case using start_inv [OF assms(2-6)] .
next
  case (step s s')
  then show ?case using step_sys_inv by blast
qed

end

interpretation demo: safety_system bounded_list snd blist_wf "list_msgq n" "\<lambda>q. q" n "\<lambda>q. length q \<le> n" for n
  by unfold_locales

lemma safety_systemI: "kfifo K elems qwf \<Longrightarrow> k_msgq M msgs depth qok \<Longrightarrow> safety_system K elems qwf M msgs depth qok"
  by (intro safety_system.intro driver_kfifo)

text \<open>The message that a frame becomes in the firmware.\<close>

definition frame_msg :: "bytes \<Rightarrow> safety_rx_frame" where
  "frame_msg f = \<lparr>rxf_hdr = header_of_bytes f, rxf_payload = drop SAFETY_HEADER_SIZE f\<rparr>"

lemma frame_msg_wire [simp]: "frame_msg (wire_frame h p) = msg_of h p"
  by (simp add: frame_msg_def msg_of_def SAFETY_HEADER_SIZE_def)

lemma frames_said:
  assumes "sup_says seen d" and "subseq (filter is_heartbeat seen) (filter is_heartbeat (map (\<lambda>(h, p). wire_frame h p) fs))"
  shows "(\<exists>(h, p)\<in>set fs. \<exists>n. frame_type h = SAFETY_FRAME_HEARTBEAT \<and> d = build_ack n (timestamp_ms h) (sequence_id h))
    \<or> (\<exists>seq ts. d = build_command seq ts SAFETY_CMD_REQUEST_RECOVERY SAFETY_FAULT_NONE 0 0)"
  using assms(1) unfolding sup_says_def
proof
  assume "\<exists>f\<in>set seen. \<exists>n. is_heartbeat f \<and> d = build_ack n (timestamp_ms (header_of_bytes f)) (sequence_id (header_of_bytes f))"
  then obtain f n where f: "f \<in> set seen" "is_heartbeat f" "d = build_ack n (timestamp_ms (header_of_bytes f)) (sequence_id (header_of_bytes f))"
    by blast
  then obtain h p where "(h, p) \<in> set fs" "f = wire_frame h p" using subseq_set [OF assms(2)] by auto
  with f show ?thesis by (auto simp: is_heartbeat_def intro!: bexI [of _ "(h, p)"])
qed blast

lemma heartbeat_sent:
  assumes "subseq xs (filter is_heartbeat (map (\<lambda>(h, p). wire_frame h p) fs))" and "f \<in> set xs"
  shows "\<exists>(h, p)\<in>set fs. frame_type h = SAFETY_FRAME_HEARTBEAT"
proof -
  obtain h p where "(h, p) \<in> set fs" "f = wire_frame h p" "is_heartbeat f" using subseq_set [OF assms(1)] assms(2) by auto
  then show ?thesis by (auto simp: is_heartbeat_def)
qed

context safety_system
begin

lemma inv_heartbeats:
  assumes "sinv s"
  obtains fs where "sy_uart_tx s = wire_frames fs" "\<forall>(h, p)\<in>set fs. header_ok h p"
    "subseq (filter is_heartbeat (sy_seen s)) (filter is_heartbeat (map (\<lambda>(h, p). wire_frame h p) fs))"
    "state (sy_dev s) = SAFETY_LINK_HB_OK \<longrightarrow> (\<exists>f. subseq [f] (filter is_heartbeat (map (\<lambda>(h, p). wire_frame h p) fs)))"
proof -
  have inv: "tx_inv (fw (sy_fw s))" "sy_up s \<le> length (sy_uart_tx s)" "up_inv elems s" using assms by (simp_all add: sys_inv_def up_inv_def)
  obtain fs where fs: "sy_uart_tx s = wire_frames fs" "\<forall>(h, p)\<in>set fs. header_ok h p"
    and pre: "prefix (fst (link_loop (take (sy_up s) (sy_uart_tx s)))) (map (\<lambda>(h, p). wire_frame h p) fs)"
    by (rule prefix_frames [OF inv(1,2)])
  have sub: "subseq (filter is_heartbeat (fst (link_loop (take (sy_up s) (sy_uart_tx s)))))
      (filter is_heartbeat (map (\<lambda>(h, p). wire_frame h p) fs))"
    by (rule subseq_filter) (use pre in \<open>auto simp: prefix_def\<close>)
  have "subseq (filter is_heartbeat (sy_seen s)) (filter is_heartbeat (map (\<lambda>(h, p). wire_frame h p) fs))"
    using subseq_order.trans [OF subseq_left sub] inv(3) unfolding up_inv_def filter_append by blast
  moreover have "\<exists>f. subseq [f] (filter is_heartbeat (map (\<lambda>(h, p). wire_frame h p) fs))" if "state (sy_dev s) = SAFETY_LINK_HB_OK"
  proof -
    obtain f where "f \<in> set (fst (link_loop (take (sy_up s) (sy_uart_tx s))))" "is_heartbeat f" using inv(3) \<open>state (sy_dev s) = _\<close> by (auto simp: up_inv_def)
    then have "f \<in> set (filter is_heartbeat (map (\<lambda>(h, p). wire_frame h p) fs))" using subseq_set [OF sub] by auto
    then show ?thesis unfolding subseq_singleton_left by (rule exI)
  qed
  ultimately show thesis using that fs by blast
qed

lemma inv_commands:
  assumes "sinv s"
  shows "subseq (sy_handled s) (map frame_msg (sy_written s))"
proof -
  have inv: "down_inv elems msgs qok s" using assms by (simp add: sys_inv_def)
  then obtain gs ms where gs: "\<forall>(h, p)\<in>set gs. header_ok h p" "sy_uart_out s = wire_frames gs"
    "subseq (map (\<lambda>(h, p). wire_frame h p) gs @ map slot_data (elems (tx_fifo (sy_dev s)))) (sy_written s)"
    and ms: "fifo_drain log_msgq (take (sy_down s) (sy_uart_out s)) (rxs_init, []) = (rxs (fw (sy_fw s)), ms)"
    "subseq (sy_handled s @ msgs (g_rx_msgq (fw (sy_fw s)))) ms" by (auto simp: down_inv_def)
  obtain r' more where "fifo_drain log_msgq (drop (sy_down s) (sy_uart_out s)) (rxs (fw (sy_fw s)), ms) = (r', ms @ more)"
    using drain_log [of "drop (sy_down s) (sy_uart_out s)" "rxs (fw (sy_fw s))" ms M "g_rx_msgq (fw (sy_fw s))"] by blast
  then have "snd (fifo_drain log_msgq (sy_uart_out s) (rxs_init, [])) = ms @ more"
    using fifo_drain_append [of log_msgq "take (sy_down s) (sy_uart_out s)" "drop (sy_down s) (sy_uart_out s)" "(rxs_init, [])"] ms(1) by simp
  moreover have "map frame_msg (map (\<lambda>(h, p). wire_frame h p) gs) = map (\<lambda>(h, p). msg_of h p) gs" by auto
  ultimately have all: "ms @ more = map frame_msg (map (\<lambda>(h, p). wire_frame h p) gs)"
    using drain_log_frames [OF gs(1), of rxs_init "[]"] gs(2) rxs_init_inv by (simp add: hunting_def)
  have "subseq (sy_handled s) (ms @ more)"
    using subseq_left [OF ms(2)] prefix_imp_subseq [of ms "ms @ more"] subseq_order.trans by blast
  moreover have "subseq (map frame_msg (map (\<lambda>(h, p). wire_frame h p) gs)) (map frame_msg (sy_written s))"
    using subseq_left [OF gs(3)] by (rule subseq_map)
  ultimately show ?thesis using all subseq_order.trans by metis
qed

end

section \<open>Projections\<close>

text \<open>A sequence of the driver's own steps, whose calls on kernel objects come after those made before.\<close>

definition drv_goes :: "(safety_fifo_slot, 'q) kfifo_ops \<Rightarrow> 'q driver_sys \<Rightarrow> 'q safety_copro_dev \<Rightarrow> bool" where
  "drv_goes K s dev \<longleftrightarrow> drv_reachable K s (absorb s dev) \<and> prefix (kcalls (sys_dev s)) (kcalls dev)"

lemma absorb_same [simp]: "absorb s (sys_dev s) = s"
  by (simp add: absorb_def new_calls_def)

lemma absorb_absorb:
  assumes "prefix (kcalls (sys_dev s)) (kcalls d1)" and "prefix (kcalls d1) (kcalls d2)"
  shows "absorb (absorb s d1) d2 = absorb s d2"
proof -
  have "new_calls (sys_dev s) d2 = new_calls (sys_dev s) d1 @ new_calls d1 d2"
    using assms by (auto simp: new_calls_def prefix_def)
  then show ?thesis by (auto simp: absorb_def)
qed

lemma drv_reachable_trans: "drv_reachable K s1 s2 \<Longrightarrow> drv_reachable K s0 s1 \<Longrightarrow> drv_reachable K s0 s2"
  by (induction rule: drv_reachable.induct) (auto intro: drv_reachable.step)

lemma drv_goes_refl [simp]: "drv_goes K s (sys_dev s)"
  by (simp add: drv_goes_def drv_reachable.start)

lemma drv_goes_trans:
  assumes "drv_goes K s d1" and "drv_goes K (absorb s d1) d2"
  shows "drv_goes K s d2"
  using assms drv_reachable_trans [of K "absorb s d1" "absorb (absorb s d1) d2" s] absorb_absorb [of s d1 d2]
  by (auto simp: drv_goes_def dest: prefix_order.trans)

lemma drv_goes_step:
  "drv_step K s (absorb s dev) \<Longrightarrow> prefix (kcalls (sys_dev s)) (kcalls dev) \<Longrightarrow> drv_goes K s dev"
  using drv_reachable.step [OF drv_reachable.start] by (simp add: drv_goes_def)

lemma pop_calls:
  "safety_fifo_pop_frame K dev = (n, s, d) \<Longrightarrow> kcalls d = kcalls dev"
  "safety_fifo_pop_tx_frame K dev = (n, s, d) \<Longrightarrow> kcalls d = kcalls dev"
  by (auto simp: safety_fifo_pop_frame_def safety_fifo_pop_tx_frame_def split: prod.splits list.splits if_splits)

lemma read_goes:
  assumes "safety_read K True [] n ok (sys_dev s) = Some (r, d)"
  shows "drv_goes K s d"
  using assms by (intro drv_goes_step drv_step.sys_read [OF assms])
    (auto simp: safety_read_def safety_read_loop.simps [of K True "[]"] dest: pop_calls split: prod.splits if_splits)

lemma pop_tx_goes: "drv_goes K s (snd (pop_tx_frame K e (sys_dev s)))"
proof -
  let ?io = "\<lparr>io_len = 0, io_data = replicate SAFETY_MAX_FRAME_SIZE 0\<rparr>"
  let ?arg = "\<lparr>arg_u32 = Some (io_len ?io), arg_frame = Some ?io, arg_writable = True\<rparr>"
  have "snd (pop_tx_frame K e (sys_dev s)) = snd (safety_ioctl K e SAFETY_IOC_POP_TX_FRAME ?arg (sys_dev s))"
    by (simp add: pop_tx_frame_def Let_def split: prod.split sum.split ioc_out.split)
  moreover have "drv_step K s (absorb s (snd (safety_ioctl K e SAFETY_IOC_POP_TX_FRAME ?arg (sys_dev s))))"
    by (rule step_ioctl) (simp add: arg_ok_def)
  moreover have "kcalls (snd (safety_ioctl K e SAFETY_IOC_POP_TX_FRAME ?arg (sys_dev s))) = kcalls (sys_dev s)"
    by (auto simp: safety_ioctl_def ioc_cmd_defs ioc_pop_tx_frame_def Let_def dest: pop_calls(2) split: prod.splits)
  ultimately show ?thesis using drv_goes_step [of K s] by simp
qed

context driver
begin

lemma push_goes:
  assumes "dinv (sys_dev s)" and "f \<noteq> []" and "length f \<le> SAFETY_MAX_FRAME_SIZE"
  shows "drv_goes K s (snd (push_rx_frame K e f (sys_dev s)))"
proof -
  let ?io = "\<lparr>io_len = of_nat (length f), io_data = memcpy_at (replicate SAFETY_MAX_FRAME_SIZE 0) 0 f\<rparr>"
  let ?arg = "\<lparr>arg_u32 = Some (io_len ?io), arg_frame = Some ?io, arg_writable = True\<rparr>"
  have "snd (push_rx_frame K e f (sys_dev s)) = snd (safety_ioctl K e SAFETY_IOC_PUSH_RX_FRAME ?arg (sys_dev s))"
    using assms(2,3) by (simp add: push_rx_frame_def Let_def split: prod.split sum.split)
  moreover have "drv_step K s (absorb s (snd (safety_ioctl K e SAFETY_IOC_PUSH_RX_FRAME ?arg (sys_dev s))))"
    by (rule step_ioctl) (use assms(3) in \<open>simp add: arg_ok_def memcpy_at_def\<close>)
  moreover have "prefix (kcalls (sys_dev s)) (kcalls (snd (push_rx_frame K e f (sys_dev s))))"
    unfolding push_rx_queue [OF assms(2,3)]
  proof (rule rx_cases [OF assms(1), of f])
    assume "16 \<le> length f" "length f \<le> SAFETY_MAX_FRAME_SIZE" "\<not> rx_header_fits f"
    then show "prefix (kcalls (sys_dev s)) (kcalls (snd (queue_rx_from_linkd K e f (length f) (sys_dev s))))"
      by (rule queue_rx_bad [where K = K and e = e and dev = "sys_dev s"])
        (simp add: record_proto_error_def Let_def split: safety_validate_result.split)
  next
    assume "rx_header_fits f" "length (elems (rx_fifo (sys_dev s))) = unat (fifo_depth (sys_dev s))"
    then show "prefix (kcalls (sys_dev s)) (kcalls (snd (queue_rx_from_linkd K e f (length f) (sys_dev s))))"
      using queue_rx_full [OF assms(1)]
      by (simp add: record_drop_def rx_noted_def record_proto_error_def kcall_def dev_upd Let_def)
  next
    assume "rx_header_fits f" "length (elems (rx_fifo (sys_dev s))) < unat (fifo_depth (sys_dev s))"
    then show "prefix (kcalls (sys_dev s)) (kcalls (snd (queue_rx_from_linkd K e f (length f) (sys_dev s))))"
      by (rule queue_rx_room [OF assms(1), where e = e]) (simp add: safety_timer_rearm_def kcall_def)
  qed (simp add: queue_rx_size)
  ultimately show ?thesis using drv_goes_step [of K s] by simp
qed

lemma linkd_push_goes:
  assumes "dinv (ld_dev l)" and "ld_dev l = sys_dev s"
  shows "drv_goes K s (ld_dev (linkd_push K se e f l))"
proof (cases "f = [] \<or> SAFETY_MAX_FRAME_SIZE < length f")
  case True
  then have "ld_dev (linkd_push K se e f l) = sys_dev s" using assms(2) by (auto simp: linkd_push_def push_rx_frame_def Let_def)
  then show ?thesis by simp
next
  case False
  then have "drv_goes K s (snd (push_rx_frame K (e (ld_dev l)) f (sys_dev s)))" using push_goes [of s f] assms by simp
  then show ?thesis using assms(2) by (auto simp: linkd_push_def Let_def split: prod.split sum.split)
qed

lemma linkd_pushes_go:
  assumes "dinv (ld_dev l)" and "drv_goes K s (ld_dev l)"
  shows "drv_goes K s (ld_dev (fold (linkd_push K se e) fs l))"
  using assms
proof (induction fs arbitrary: l)
  case (Cons f fs)
  have "drv_goes K (absorb s (ld_dev l)) (ld_dev (linkd_push K se e f l))" by (rule linkd_push_goes [OF Cons.prems(1)]) simp
  from drv_goes_trans [OF Cons.prems(2) this] push_takes [OF Cons.prems(1), of se e f] Cons.IH show ?case by simp
qed simp

lemma linkd_tx_goes:
  assumes "linkd_tx K se werr e ws l = Some l'" and "drv_goes K s (ld_dev l)"
  shows "drv_goes K s (ld_dev l')"
  using assms
proof (induction ws arbitrary: l)
  case Nil
  have "drv_goes K s (snd (pop_tx_frame K (e (ld_dev l)) (ld_dev l)))"
    using drv_goes_trans [OF Nil.prems(2) pop_tx_goes, of "e (ld_dev l)"] by simp
  then show ?case using Nil.prems(1) by (subst (asm) linkd_tx.simps) (auto simp: Let_def split: prod.splits sum.splits if_splits)
next
  case (Cons w ws)
  have "drv_goes K s (snd (pop_tx_frame K (e (ld_dev l)) (ld_dev l)))"
    using drv_goes_trans [OF Cons.prems(2) pop_tx_goes, of "e (ld_dev l)"] by simp
  then show ?case using Cons.prems(1) [unfolded linkd_tx.simps [of K se werr e "w # ws"]]
    by (auto simp: Let_def intro!: Cons.IH split: prod.splits sum.splits if_splits option.splits)
qed

lemma write_goes:
  assumes "dinv (sys_dev s)" and "valid_frame f"
  shows "drv_goes K s (snd (safety_write K e (Some f) (length f) (sys_dev s)))"
proof (rule drv_goes_step)
  show "drv_step K s (absorb s (snd (safety_write K e (Some f) (length f) (sys_dev s))))"
    by (rule drv_step.sys_write [OF prod.collapse [symmetric]]) simp
  show "prefix (kcalls (sys_dev s)) (kcalls (snd (safety_write K e (Some f) (length f) (sys_dev s))))"
    using write_cases [OF assms(1) refl, of f e] valid_frame_validates [OF assms(2)]
    by (auto simp: record_drop_def kcall_def dev_upd Let_def split: if_splits)
qed

lemma writes_go:
  assumes "dinv dev" and "\<forall>f\<in>set fs. valid_frame f" and "drv_goes K s dev"
  shows "drv_goes K s (snd (dev_writes K e fs dev))"
  using assms
proof (induction fs arbitrary: dev)
  case (Cons f fs)
  obtain r d where w: "safety_write K (e dev) (Some f) (length f) dev = (r, d)" by fastforce
  have "drv_goes K (absorb s dev) d" using write_goes [of "absorb s dev" f "e dev"] Cons.prems w by simp
  from drv_goes_trans [OF Cons.prems(3) this] write_puts [OF Cons.prems(1) _ w] Cons w show ?case by (simp add: split_beta)
qed simp

end

context safety_system
begin

lemma step_drv:
  assumes "sys_step K M hb s s'" "sinv s"
  shows "drv_reachable K (sy_drv s) (sy_drv s')"
proof -
  have inv: "dinv (sy_dev s)" "dinv (ld_dev (sy_linkd s))" "sup_inv (sy_seen s) (sy_sup s)" using assms(2) by (simp_all add: sys_inv_def sy_linkd_def)
  have go: "drv_reachable K (sy_drv s) (absorb (sy_drv s) dev)" if "drv_goes K (sy_drv s) dev" for dev using that by (simp add: drv_goes_def)
  have one: "drv_reachable K (sy_drv s) d" if "drv_step K (sy_drv s) d" for d using drv_reachable.step [OF drv_reachable.start that] .
  have link: "drv_goes K (sy_drv s) (ld_dev (sy_linkd s))" by (simp add: sy_linkd_def)
  show ?thesis
    using assms(1)
  proof cases
    case (linkd_reads ds n se e l)
    have "drv_goes K (sy_drv s) (ld_dev l)"
      using linkd_rx_pieces [OF linkd_reads(3), of K se e "sy_linkd s"] linkd_reads(4) linkd_pushes_go [OF inv(2) link, of se e] by auto
    then show ?thesis using linkd_reads(1) go by (simp add: put_linkd_def)
  next
    case (linkd_writes ws se werr e l)
    then show ?thesis using linkd_tx_goes [OF linkd_writes(3) link] go by (simp add: put_linkd_def)
  next
    case (sup_reads bs dev u w e)
    have r: "drv_goes K (sy_drv s) dev" "dinv dev" using read_goes [OF sup_reads(2)] read_takes [OF inv(1) sup_reads(2)] by metis+
    have "valid_frame bs" by (rule read_takes [OF inv(1) sup_reads(2)]) (use assms(2) in \<open>simp add: sys_inv_def up_inv_def\<close>)
    then have "sup_inv (sy_seen s @ [bs]) u" using read_sup_inv [OF inv(3)] sup_reads(3) by simp
    from writes_go [OF r(2) sent_since_valid [OF this] r(1)] show ?thesis using sup_reads(1,4) go by (simp add: put_sup_def)
  next
    case (sup_runs l u w e)
    then have "sup_inv (sy_seen s) u" using step_sup_inv [OF _ _ inv(3)] by blast
    from writes_go [OF inv(1) sent_since_valid [OF this], of "sy_drv s"] show ?thesis using sup_runs(1,4) go by (simp add: put_sup_def)
  next
    case (ctl_writes f w e)
    then show ?thesis using writes_go [OF inv(1), of "[f]" "sy_drv s" e] go by (simp add: put_sup_def)
  next
    case (ctl_ioctl e cmd arg r dev)
    then show ?thesis using one drv_step.sys_ioctl by fastforce
  next
    case (watchdog e r dev)
    then show ?thesis using one drv_step.timer_fires by fastforce
  next
    case (recovery e dev)
    then show ?thesis using one drv_step.work_runs by fastforce
  qed (simp_all add: drv_reachable.start)
qed

end

lemma step_fw: "sys_step K M hb s s' \<Longrightarrow> fw_reachable M s0 (sy_fw s) \<Longrightarrow> fw_reachable M s0 (sy_fw s')"
  by (erule sys_step.cases) (auto simp: put_linkd_def put_sup_def intro: fw_reachable.step fw_step.rx_interrupt)

lemma step_sup: "sys_step K M hb s s' \<Longrightarrow> sup_reachable hb u0 (sy_sup s) \<Longrightarrow> sup_reachable hb u0 (sy_sup s')"
  by (erule sys_step.cases) (auto simp: put_linkd_def put_sup_def intro: sup_reachable.step sup_step.read)

section \<open>Properties\<close>

text \<open>C3 (heartbeats are authentic).  In every reachable state of the whole system: the firmware has sent a sequence of
  well-formed frames, and the heartbeats that the supervisor has read are, in order and each at most once,
  some of the heartbeats among them.  If the supervisor is HEALTHY, or the driver's link is up, the
  firmware has sent a heartbeat.  Everything the supervisor has sent is an acknowledgement of a
  heartbeat that the firmware has sent, with its time stamp and number, or a request for recovery.\<close>

theorem heartbeats_authentic:
  assumes "kfifo K elems qwf" and "k_msgq M msgs depth qok" and "drv_init K elems qwf d"
    and "elems (rx_fifo (sys_dev d)) = []" and "elems (tx_fifo (sys_dev d)) = []" and "qok q" and "msgs q = []"
    and "sys_reachable K M hb (sys_start q d hb) s"
  shows "\<exists>fs. sy_uart_tx s = wire_frames fs \<and> (\<forall>(h, p)\<in>set fs. header_ok h p)
    \<and> subseq (filter is_heartbeat (sy_seen s)) (filter is_heartbeat (map (\<lambda>(h, p). wire_frame h p) fs))
    \<and> (fsm (sy_sup s) = HEALTHY \<or> state (sy_dev s) = SAFETY_LINK_HB_OK \<longrightarrow>
         (\<exists>(h, p)\<in>set fs. frame_type h = SAFETY_FRAME_HEARTBEAT))
    \<and> (\<forall>f\<in>set (dev_out (sy_sup s)).
         (\<exists>(h, p)\<in>set fs. \<exists>n. frame_type h = SAFETY_FRAME_HEARTBEAT \<and> f = build_ack n (timestamp_ms h) (sequence_id h))
         \<or> (\<exists>seq ts. f = build_command seq ts SAFETY_CMD_REQUEST_RECOVERY SAFETY_FAULT_NONE 0 0))"
proof -
  note sys = safety_systemI [OF assms(1,2)]
  have inv: "sys_inv K elems qwf msgs qok s" by (rule safety_system.reachable_sys_inv [OF sys assms(8,3-7)])
  then have sup: "sup_inv (sy_seen s) (sy_sup s)" by (simp add: sys_inv_def)
  obtain fs where fs: "sy_uart_tx s = wire_frames fs" "\<forall>(h, p)\<in>set fs. header_ok h p"
    "subseq (filter is_heartbeat (sy_seen s)) (filter is_heartbeat (map (\<lambda>(h, p). wire_frame h p) fs))"
    and up: "state (sy_dev s) = SAFETY_LINK_HB_OK \<longrightarrow> (\<exists>f. subseq [f] (filter is_heartbeat (map (\<lambda>(h, p). wire_frame h p) fs)))"
    by (rule safety_system.inv_heartbeats [OF sys inv])
  have "\<exists>(h, p)\<in>set fs. frame_type h = SAFETY_FRAME_HEARTBEAT" if "fsm (sy_sup s) = HEALTHY \<or> state (sy_dev s) = SAFETY_LINK_HB_OK"
    using that sup up heartbeat_sent [OF fs(3)] heartbeat_sent by (fastforce simp: sup_inv_def)
  moreover have "(\<exists>(h, p)\<in>set fs. \<exists>n. frame_type h = SAFETY_FRAME_HEARTBEAT \<and> f = build_ack n (timestamp_ms h) (sequence_id h))
      \<or> (\<exists>seq ts. f = build_command seq ts SAFETY_CMD_REQUEST_RECOVERY SAFETY_FAULT_NONE 0 0)" if "f \<in> set (dev_out (sy_sup s))" for f
    using that sup by (intro frames_said [OF _ fs(3)]) (simp add: sup_inv_def)
  ultimately show ?thesis using fs by blast
qed

text \<open>A run from the start: the firmware sends a heartbeat, the daemon carries it to the driver, the supervisor reads it.\<close>

abbreviation demo_drv :: "safety_fifo_slot blist driver_sys" where
  "demo_drv \<equiv> \<lparr>sys_dev = ready_dev (2, []) (2, []) 2 1 350, timer_armed = False, work_pending = False\<rparr>"

lemma demo_drv_empty: "snd (rx_fifo (sys_dev demo_drv)) = []" "snd (tx_fifo (sys_dev demo_drv)) = []" "0 < fifo_depth (sys_dev demo_drv)"
  by (simp_all add: ready_dev_def kzalloc_dev_def)

lemma demo_healthy:
  "\<exists>s. sys_reachable bounded_list (list_msgq 8) 350 (sys_start [] demo_drv 350) s \<and> fsm (sy_sup s) = HEALTHY \<and> sy_seen s \<noteq> []"
proof -
  let ?s0 = "sys_start ([] :: safety_rx_frame list) demo_drv 350"
  let ?w = "fw (fw_boot ([] :: safety_rx_frame list))"
  obtain ms b w where t: "heartbeat_task fw_env0 0 ?w = (ms, b, w)" by (metis prod_cases3)
  have "device_is_ready fw_env0" "length (frame_buf ?w) = SAFETY_MAX_FRAME_SIZE" "inject_task_hang (g_fault_state ?w) = 0"
    "in_safe_mode (g_fault_state ?w) = 0" "uart_tx ?w = []" by (simp_all add: fw_env0_def fw_boot_def safety_state_init_def)
  with heartbeat_each_turn [OF _ _ t] obtain h p where f: "uart_tx w = wire_frame h p" "header_ok h p"
    "frame_type h = SAFETY_FRAME_HEARTBEAT" by auto
  define s1 where "s1 = ?s0\<lparr>sy_fw := (sy_fw ?s0)\<lparr>fw := w, beat := b\<rparr>, sy_handled := sy_handled ?s0 @ handled_by L_heartbeat\<rparr>"
  have 1: "sys_step bounded_list (list_msgq 8) 350 ?s0 s1"
    unfolding s1_def by (rule sys_step.fw_turn [OF fw_step.heartbeat_turn])
      (use t in \<open>simp_all add: sys_start_def fw_boot_def\<close>)
  have s1: "sy_up s1 = 0" "sy_uart_tx s1 = wire_frame h p" "sy_sup s1 = sup_init 350"
    "sy_linkd s1 = \<lparr>ld_framer = [], ld_dev = sys_dev demo_drv, ld_uart_out = [], ld_report = []\<rparr>"
    using f(1) by (simp_all add: s1_def sys_start_def sy_linkd_def)
  have ne: "\<forall>d\<in>set [wire_frame h p]. d \<noteq> []" by simp
  obtain l d where l: "linkd_rx bounded_list (\<lambda>_. []) (\<lambda>_. kenv0) (map UR_bytes [wire_frame h p] @ [UR_EAGAIN]) (sy_linkd s1) = Some (Goes_on, l)"
    "safety_read bounded_list True [] 1024 True (ld_dev l) = Some (Inr (wire_frame h p), d)"
    by (rule linkd_one_frame [OF kfifo_bounded_list, of "sy_linkd s1" h p "[wire_frame h p]", OF _ _ _ _ f(2) _ ne])
      (use demo_dev_inv s1(4) demo_drv_empty in simp_all)
  define s2 where "s2 = (put_linkd l s1)\<lparr>sy_up := sy_up s1 + length (concat [wire_frame h p])\<rparr>"
  have 2: "sys_step bounded_list (list_msgq 8) 350 s1 s2"
    unfolding s2_def by (rule sys_step.linkd_reads [OF _ ne l(1), of "length (wire_frame h p)"]) (simp add: s1(1,2))
  let ?u = "handle_readable 350 (Read_bytes (wire_frame h p)) (sy_sup s2)"
  let ?s3 = "(put_sup ?u (dev_writes bounded_list (\<lambda>_. kenv0) (sent_since (sy_sup s2) ?u) d) s2)\<lparr>sy_seen := sy_seen s2 @ [wire_frame h p]\<rparr>"
  have 3: "sys_step bounded_list (list_msgq 8) 350 s2 ?s3"
    by (rule sys_step.sup_reads [OF _ refl refl]) (use l(2) in \<open>simp add: s2_def put_linkd_def\<close>)
  have "fsm ?u = HEALTHY"
    using f read_wire_frame [OF f(2), of "sup_init 350" 350] s1(3)
    by (simp add: s2_def put_linkd_def process_frame_fsm frame_preds apply_event_def)
  then show ?thesis using sys_reachable.step [OF sys_reachable.step [OF sys_reachable.step [OF sys_reachable.start 1] 2] 3]
    by (intro exI [of _ ?s3]) (simp add: put_sup_def)
qed

theorem heartbeats_authentic_witness:
  "\<exists>s fs. fsm (sy_sup s) = HEALTHY \<and> sy_seen s \<noteq> [] \<and> sy_uart_tx (s :: (safety_fifo_slot blist, safety_rx_frame list) system) = wire_frames fs
     \<and> (\<exists>(h, p)\<in>set fs. frame_type h = SAFETY_FRAME_HEARTBEAT)"
proof -
  obtain s where s: "sys_reachable bounded_list (list_msgq 8) 350 (sys_start [] demo_drv 350) s" "fsm (sy_sup s) = HEALTHY" "sy_seen s \<noteq> []"
    using demo_healthy by blast
  from heartbeats_authentic [OF kfifo_bounded_list lmsgq.k_msgq_axioms demo_sys_init demo_drv_empty(1,2) _ _ s(1)] s(2,3)
  show ?thesis by auto
qed

text \<open>C4 (commands are authentic).  In every reachable state of the whole system, the messages that the firmware's
  command task has taken from its queue are, in order and each at most once, frames whose write to the
  device was accepted: the firmware acts on nothing else.\<close>

theorem commands_authentic:
  assumes "kfifo K elems qwf" and "k_msgq M msgs depth qok" and "drv_init K elems qwf d"
    and "elems (rx_fifo (sys_dev d)) = []" and "elems (tx_fifo (sys_dev d)) = []" and "qok q" and "msgs q = []"
    and "sys_reachable K M hb (sys_start q d hb) s"
  shows "subseq (sy_handled s) (map frame_msg (sy_written s))"
proof -
  note sys = safety_systemI [OF assms(1,2)]
  show ?thesis by (rule safety_system.inv_commands [OF sys safety_system.reachable_sys_inv [OF sys assms(8,3-7)]])
qed


lemma demo_command:
  "\<exists>s m. sys_reachable bounded_list (list_msgq 8) 350 (sys_start [] demo_drv 350) s \<and> sy_handled s = [m]"
proof -
  let ?K = "bounded_list :: (safety_fifo_slot, safety_fifo_slot blist) kfifo_ops" and ?M = "list_msgq 8 :: (safety_rx_frame, safety_rx_frame list) k_msgq_ops"
  let ?s0 = "sys_start ([] :: safety_rx_frame list) demo_drv 350"
  define h where "h = safety_frame_init SAFETY_FRAME_COMMAND 3 8 700"
  define p where "p = command_bytes \<lparr>command = SAFETY_CMD_GET_STATUS, arg8 = 0, arg16 = 0, arg32 = 0\<rparr>"
  have ok: "header_ok h p" by (simp add: h_def p_def init_header_ok)
  let ?f = "wire_frame h p"
  have len: "length ?f = 24" by (simp add: p_def)
  then have w: "uart_write_all [UW_wrote 24] ?f = Some (True, ?f)" by (auto simp: uart_write_all.simps)
  have q: "snd (tx_fifo (sys_dev demo_drv)) = []" "0 < fifo_depth (sys_dev demo_drv)" by (rule demo_drv_empty)+
  let ?l = "\<lparr>ld_framer = [], ld_dev = sys_dev demo_drv, ld_uart_out = [], ld_report = []\<rparr>"
  have "driver_inv ?K snd blist_wf (sys_dev demo_drv)" using demo_dev_inv by simp
  from linkd_one_command [OF kfifo_bounded_list this q ok w, of kenv0 "\<lambda>_. []" EIO "\<lambda>_. kenv0" ?l]
  obtain d l where d: "safety_write ?K kenv0 (Some ?f) (length ?f) (sys_dev demo_drv) = (Inr (length ?f), d)"
    and l: "linkd_tx ?K (\<lambda>_. []) EIO (\<lambda>_. kenv0) [[UW_wrote 24]] (?l\<lparr>ld_dev := d\<rparr>) = Some l" "ld_uart_out l = ?f"
    by auto
  define s1 where "s1 = put_sup (sy_sup ?s0) (dev_writes ?K (\<lambda>_. kenv0) [?f] (sy_dev ?s0)) ?s0"
  have 1: "sys_step ?K ?M 350 ?s0 s1" unfolding s1_def by (rule sys_step.ctl_writes [OF _ refl]) (use ok in \<open>auto simp: valid_frame_def\<close>)
  have s1: "sy_linkd s1 = \<lparr>ld_framer = [], ld_dev = d, ld_uart_out = [], ld_report = []\<rparr>" "sy_fw s1 = fw_boot []" "sy_down s1 = 0"
    "sy_handled s1 = []"
    using d by (simp_all add: s1_def put_sup_def sys_start_def sy_linkd_def)
  define s2 where "s2 = put_linkd l s1"
  have 2: "sys_step ?K ?M 350 s1 s2"
    unfolding s2_def by (rule sys_step.linkd_writes [of "[[UW_wrote 24]]" _ "\<lambda>_. []" EIO "\<lambda>_. kenv0"]) (use l s1 in simp_all)
  have s2: "sy_uart_out s2 = ?f" "sy_fw s2 = fw_boot []" "sy_down s2 = 0" "sy_handled s2 = []" using s1 l by (simp_all add: s2_def put_linkd_def)
  let ?i = "[\<lparr>irq_is_pending = True, irq_rx_ready = True, uart_fifo = ?f\<rparr>]"
  obtain r where r: "fifo_drain ?M ?f (rxs_init, []) = (r, fst (k_msgq_put ?M [] (msg_of h p)))"
    by (rule feed_frame [OF _ rxs_init_inv(2) ok]) (simp add: hunting_def rxs_init_inv)
  define s3 where "s3 = s2\<lparr>sy_fw := (sy_fw s2)\<lparr>fw := (fw (sy_fw s2))\<lparr>rxs := r, g_rx_msgq := [msg_of h p]\<rparr>\<rparr>,
       sy_down := sy_down s2 + length (isr_bytes ?i)\<rparr>"
  have 3: "sys_step ?K ?M 350 s2 s3" unfolding s3_def
    by (rule sys_step.fw_receives [of _ "length ?f"]) (use r s2 in \<open>simp_all add: fw_boot_def list_msgq_def\<close>)
  have g: "k_msgq_get ?M (g_rx_msgq (fw (sy_fw s3))) = Some (msg_of h p, [])" by (simp add: s3_def list_msgq_def)
  then obtain w where w: "command_handler_task ?M fw_env0 (fw (sy_fw s3)) = Some w" by (auto simp: command_handler_task_def h_def Let_def)
  let ?s4 = "s3\<lparr>sy_fw := (sy_fw s3)\<lparr>fw := w\<rparr>, sy_handled := sy_handled s3 @ handled_by (L_command (msg_of h p))\<rparr>"
  have 4: "sys_step ?K ?M 350 s3 ?s4" by (rule sys_step.fw_turn [OF fw_step.command_turn [OF g w]]) simp
  have "sy_handled ?s4 = [msg_of h p]" using s2 by (simp add: s3_def)
  moreover have "sys_reachable ?K ?M 350 ?s0 ?s4"
    using sys_reachable.start 1 2 3 4 by (meson sys_reachable.step)
  ultimately show ?thesis by blast
qed

theorem commands_authentic_witness:
  "\<exists>s m. sys_reachable bounded_list (list_msgq 8) 350 (sys_start [] demo_drv 350) s \<and> sy_handled s = [m]
     \<and> m \<in> set (map frame_msg (sy_written s))"
proof -
  obtain s m where s: "sys_reachable bounded_list (list_msgq 8) 350 (sys_start [] demo_drv 350) s" "sy_handled s = [m]"
    using demo_command by blast
  from commands_authentic [OF kfifo_bounded_list lmsgq.k_msgq_axioms demo_sys_init demo_drv_empty(1,2) _ _ s(1)] s
  show ?thesis by (auto simp: subseq_singleton_left)
qed

text \<open>The composition projects to its components.  In every reachable state of the whole system, the driver is
  in a state that its own transition system reaches, the firmware in one that the firmware reaches and
  the supervisor in one that the supervisor reaches: the daemon's turns and the supervisor's answers are
  sequences of system calls that the driver's system allows, and every invariant of a component holds in
  the composition.  In particular the watchdog is armed while the link is up.\<close>

lemma system_projects:
  assumes "kfifo K elems qwf" and "k_msgq M msgs depth qok" and "drv_init K elems qwf d"
    and "elems (rx_fifo (sys_dev d)) = []" and "elems (tx_fifo (sys_dev d)) = []" and "qok q" and "msgs q = []"
    and "sys_reachable K M hb (sys_start q d hb) s"
  shows "drv_reachable K d (sy_drv s) \<and> fw_reachable M (fw_boot q) (sy_fw s) \<and> sup_reachable hb (sup_init hb) (sy_sup s)
    \<and> (state (sy_dev s) = SAFETY_LINK_HB_OK \<longrightarrow> timer_armed (sy_drv s))"
proof -
  note sys = safety_systemI [OF assms(1,2)]
  have "drv_reachable K d (sy_drv s) \<and> fw_reachable M (fw_boot q) (sy_fw s) \<and> sup_reachable hb (sup_init hb) (sy_sup s)"
    using assms(8)
  proof induction
    case start
    then show ?case by (simp add: sys_start_def drv_reachable.start fw_reachable.start sup_reachable.start)
  next
    case (step s s')
    have "sys_inv K elems qwf msgs qok s" by (rule safety_system.reachable_sys_inv [OF sys step.hyps(1) assms(3-7)])
    from drv_reachable_trans [OF safety_system.step_drv [OF sys step.hyps(2) this]] step step_fw step_sup show ?case by blast
  qed
  moreover from driver.reachable_inv [OF driver_kfifo [OF assms(1)] _ assms(3)] this have "link_inv (sy_drv s)" by blast
  ultimately show ?thesis by (simp add: link_inv_def)
qed

end
