(* ===== verification/Spec2Isabelle.thy ===== *)
theory Spec2Isabelle
  imports Driver_Frames Driver_Trace Firmware_Smp Trace_User Supervisor_Main Linkd Bridge Safetyctl Descriptors Fault_Log Abi System
begin

text \<open>
  A verification development for the real-time safety co-processor supervisor.

  \<^bold>\<open>The program.\<close>  A Zephyr firmware (\<open>zephyr/safety_copro_firmware\<close>) sends heartbeats, telemetry and fault
  events as frames over a UART and executes commands.  On the Linux side \<open>safety-linkd\<close> cuts the bytes into
  frames and exchanges them with the kernel driver \<open>safety_copro\<close> (\<open>linux/drivers/safety_copro\<close>), which
  queues them in both directions, watches the heartbeats with a timer and schedules recovery work.
  \<open>safety-supervisord\<close> reads the frames, answers them, runs the health state machine and asks for
  recoveries; \<open>safetyctl\<close> controls the driver by hand; eBPF programs (\<open>ebpf\<close>) measure latencies; the test
  bridge (\<open>bridge\<close>) connects the two sides and injects faults.

  \<^bold>\<open>Layout.\<close>  One theory for each part, in the order in which they build on each other:
  \<^item> \<open>Prelude\<close>: machine integers, error numbers, little-endian layout, numbers in text.
  \<^item> \<open>Protocol\<close>, \<open>Crc\<close>: \<open>include/safety_protocol.h\<close>, the packed structures (a locale for encoders and
    decoders, interpreted for each of them), packing and validation of frames; the CRC against its
    definition by polynomial division, and what it detects.
  \<^item> \<open>Kfifo\<close>, \<open>Driver_State\<close>, \<open>Driver_Queue\<close>, \<open>Driver_Timer\<close>, \<open>Driver_Chrdev\<close>, \<open>Driver_Main\<close>,
    \<open>Driver_Debugfs\<close>: one theory for each source file of the driver.  The kernel's queue is a parameter
    with the laws of the locale \<open>kfifo\<close>, interpreted on a bounded list; calls on kernel objects are
    recorded; the clock and the CPU are read from an environment.  \<open>Driver_System\<close> is the loaded driver
    as a transition system of system calls, timer expiries and runs of the recovery work.
  \<^item> \<open>Sections\<close>, \<open>Driver_Sections\<close>, \<open>Driver_Smp\<close>, \<open>Driver_Frames\<close>: the driver on several CPUs.  Operations are
    programs of atomic sections, with their laws; every driver operation as the program of what it does under
    \<open>dev->lock\<close> and between two acquisitions of it; the interleaving of all calls in progress, and what
    a call in progress is bound to do; the frames that concurrent readers get.
  \<^item> \<open>Firmware_Rx\<close>, \<open>Firmware\<close>, \<open>Firmware_System\<close>: the receiver, byte by byte as in the interrupt
    handler; the tasks as one turn of their loops; the turns in any order.  Zephyr's message queue is a
    parameter with the laws of the locale \<open>k_msgq\<close>.  \<open>Firmware_Smp\<close>: the tasks on two processors, preempted anywhere; a
    turn is the program of its accesses to shared variables, its sequence numbers and its frames, and
    these interleave.
  \<^item> \<open>Ebpf\<close>, \<open>Trace_User\<close>: the tracing programs and the program that reports what they measured;
    \<open>Driver_Trace\<close>: their counters beside the driver's own.
  \<^item> \<open>Framer\<close>: the three framers of the host side; the locale \<open>incremental_parser\<close> shows once that feeding
    a stream piece by piece is feeding it whole.
  \<^item> \<open>Health\<close>, \<open>Replay\<close>, \<open>Supervisor\<close>, \<open>Supervisor_Stop\<close>, \<open>Supervisor_Main\<close>: the supervisor; its state machine and log, the
    replay of a log, the event loop and the recovery worker as the steps of two threads, the end of the
    threads (flags, notifications, waits and joins), and the entry point with the mock and the live mode.
  \<^item> \<open>Linkd\<close>, \<open>Safetyctl\<close>: the link daemon and the control utility on the driver's own system call model.
  \<^item> \<open>Bridge\<close>: the test bridge with its fault injector.
  \<^item> \<open>Descriptors\<close>: the classes that own file descriptors, as operations on the process's table of open
    descriptors, and what the four host programs open and close from start to end.  The kernel's choice of a
    descriptor is a parameter with the law of the locale \<open>fd_kernel\<close>.
  \<^item> \<open>Fault_Log\<close>: the generator of the recorded input (\<open>tests/fixtures/gen_fault_log.cpp\<close>); its
    output in the model is the file \<open>fault_log.bin\<close> beside it.
  \<^item> \<open>Abi\<close>: the rules of C for the layout of structures, and the declarations that two parts have of
    the same memory.
  \<^item> \<open>System_Parts\<close>, \<open>System\<close>: firmware, UART, link daemon, driver, supervisor and control programs as one
    transition system, composed of the steps of the parts; the locale \<open>safety_system\<close> has the laws of the
    two queues, and its lemmas hold for all reachable states.
  \<^item> This theory: what the parts do together.

  \<^bold>\<open>State and operations.\<close>  A C structure or class is a record with the same fields, an enumeration a
  datatype, an integer a word of its width; an operation is a function from the state to its result and
  the new state, errors being values.  What the environment answers (system calls, clocks, allocation) is an
  argument, as a list of answers where a loop asks repeatedly; \<open>None\<close> then says that the loop has not ended
  with the answers given.  So the bounds are those lists, and the properties about loops say for which
  answers they end.  Concurrent parts are step relations, one step for what the code does atomically with respect to
  the other threads: a section of the driver under its lock, one access of a firmware task to a shared
  atomic variable, one frame put out under the transmit mutex, a turn of the event loop, the
  worker between two releases of its lock.  Two models are coarser.  \<open>Driver_System\<close> and the composed system take a whole system call of the driver
  as one step; \<open>Driver_Smp\<close> shows that these states are among those of the interleaved driver, and what
  of them holds, up to the calls in progress, under every interleaving.  \<open>Firmware_System\<close> and the composed system
  take a whole turn of a firmware task as one step, although tasks preempt each other and run on two
  processors: their properties are about executions in which the turns do not overlap, and \<open>Firmware_Smp\<close> has what
  holds of the firmware's output and of safe mode when they do.

  \<^bold>\<open>What is shown.\<close>  Frames: packing and validation are inverse, validation accepts exactly well-formed
  frames, and short bursts of errors are found.  Driver: an invariant of all reachable states, queues in
  order, every branch of the receive and the read path, an armed watchdog whenever the link is up; under every
  interleaving of lock sections the same invariant, the same order of frames, no frame for two readers, and a watchdog
  that is armed or that a call in progress is bound to arm.
  Firmware: valid frames are delivered whatever noise surrounds them, only valid frames are, and the
  receiver recovers from any state and delivers the next frame; commands are answered; with tasks that preempt each other
  the output is a sequence of valid frames whose numbers are each used once and at most three ahead, and in
  safe mode each periodic task sends at most the frame of a turn under way.  Tracing: histograms are exact, percentiles are right within a
  factor of two, the cycle report ends, and the tracer's counts of timeouts, recoveries and drops are the driver's.  Host side: framing does not depend on how reads cut the stream; the
  link daemon loses nothing in either direction while there is room; the log can be read back and replayed;
  the live mode ends when told to, its threads joined and its log complete; answers, outputs and transitions of the supervisor; no descriptor is closed
  twice or lost.  Layouts: what the driver's tracepoints record is what the tracing programs read, and the wire structures have the
  bytes their declarations say.  The composed system: from a heartbeat and a command of one end to the effect at the
  other; in every reachable state the heartbeats that the driver counts and the supervisor accepts were sent by the firmware, in order and
  each at most once, and the commands that the firmware executes were written to the driver.  Several properties
  state what the code does where its comments or documents say something else: the recovery worker that
  does not wait for its deadline, the degradation that no recovery follows, the sequence numbers that are
  never forgotten, the ioctl that gets a value for an address, the frames that go out with their numbers out of order, the heartbeat that
  follows the entry of safe mode, the bridge that counts all pieces where it is to drop heartbeats, the restored heartbeat that the tracer
  reports without one, the commands that it counts as received frames, the watchdog period that two concurrent calls leave behind.

  \<^bold>\<open>Not modelled.\<close>  Texts printed for the user except status lines, summaries, log lines and reports; the copies of the
  protocol header in the driver, the firmware and the host programs, which are identical to the modelled one; memory
  allocation on the host; the file system behind logs; building,
  scripts, tests and kernel configuration.  The kernel, Zephyr, the C++ library's containers and threads
  appear by their documented behaviour only.  The rank that the trace report computes in floating point from a
  percentile and a count is a parameter.  Signals appear as the stop flag that the loops read.
\<close>

section \<open>Across the components\<close>

text \<open>C1 (from the firmware's heartbeat to the supervisor's acknowledgement).  When the firmware's heartbeat
  task takes a turn, outside safe mode and without an injected hang, and the bytes it sends reach a
  link daemon that holds no part of a frame, cut into reads in any way, then the daemon pushes one frame into the driver,
  whose RX queue is empty; the driver's
  link state becomes HB_OK and the supervisor's read returns exactly the frame.  A supervisor that is
  booting, healthy or recovering, holds no part of a frame and has not yet seen a heartbeat with this frame's sequence number
  is then HEALTHY, has armed its timer and has written an ACK for the frame.  (What a supervisor does
  with a number it has seen, and in DEGRADED, is stated separately.)\<close>

theorem heartbeat_end_to_end:
  assumes "device_is_ready fe" and "length (frame_buf w) = SAFETY_MAX_FRAME_SIZE"
    and "inject_task_hang (g_fault_state w) = 0" and "in_safe_mode (g_fault_state w) = 0"
    and "heartbeat_task fe b w = (ms, b', w')" and "uart_tx w' = uart_tx w @ concat ds" and "\<forall>d\<in>set ds. d \<noteq> []"
    and "kfifo K elems qwf" and "driver_inv K elems qwf (ld_dev l)" and "ld_framer l = []"
    and "elems (rx_fifo (ld_dev l)) = []" and "0 < fifo_depth (ld_dev l)"
    and "fsm s \<in> {BOOTING, HEALTHY, RECOVERING}" and "assembler_buf s = []"
    and "(SAFETY_FRAME_HEARTBEAT, sequence_id (header_of_bytes (concat ds))) \<notin> dup_seen s"
  shows "\<exists>h l' d' s'. linkd_rx K strerror e (map UR_bytes ds @ [UR_EAGAIN]) l = Some (Goes_on, l')
    \<and> state (ld_dev l') = SAFETY_LINK_HB_OK \<and> heartbeat_count (ld_dev l') = heartbeat_count (ld_dev l) + 1
    \<and> safety_read K nonblock waits 1024 True (ld_dev l') = Some (Inr (concat ds), d')
    \<and> s' = handle_readable hb (Read_bytes (concat ds)) s \<and> fsm s' = HEALTHY
    \<and> length (timer_settings s') = length (timer_settings s) + 1
    \<and> h = header_of_bytes (concat ds) \<and> dev_out s' = dev_out s @ [build_ack (sup_tx_seq s) (timestamp_ms h) (sequence_id h)]"
proof -
  from heartbeat_each_turn [OF assms(1,2,5)] assms(3,4,6) obtain h p where
    hp: "concat ds = wire_frame h p" "header_ok h p" "frame_type h = SAFETY_FRAME_HEARTBEAT" by auto
  have hbt: "is_heartbeat (wire_frame h p)" using hp by (simp add: is_heartbeat_def)
  obtain l' d' where l': "linkd_rx K strerror e (map UR_bytes ds @ [UR_EAGAIN]) l = Some (Goes_on, l')"
    "heartbeat_count (ld_dev l') = heartbeat_count (ld_dev l) + 1" "state (ld_dev l') = SAFETY_LINK_HB_OK"
    "safety_read K nonblock waits 1024 True (ld_dev l') = Some (Inr (concat ds), d')"
    by (rule linkd_one_frame [OF assms(8-12) hp(2,1) assms(7), where strerror = strerror and e = e and nonblock = nonblock
          and waits = waits]) (simp add: hbt hp(1))
  let ?pf = "\<lparr>pf_header = rxf_hdr (msg_of h p), pf_payload = p, pf_result = SAFETY_VALIDATE_OK\<rparr>"
  have "rxf_hdr (msg_of h p) = header_of_bytes (concat ds)" using hp(1,2) by (simp add: msg_of_def wire_frame_def)
  moreover have "frame_type (rxf_hdr (msg_of h p)) = SAFETY_FRAME_HEARTBEAT" using hp(3) by (simp add: msg_of_def)
  ultimately have fresh: "fresh_heartbeat (dup_seen s) ?pf" "frame_ok ?pf" using assms(15) by (simp_all add: frame_preds)
  have sup: "handle_readable hb (Read_bytes (concat ds)) s = process_frame hb ?pf s"
    using read_wire_frame [OF hp(2) assms(14)] by (simp add: hp(1))
  have "fsm (process_frame hb ?pf s) = HEALTHY"
    using fresh assms(13) hp(3) by (auto simp: process_frame_fsm fresh_heartbeat_def apply_event_def)
  then show ?thesis
    using l' sup fresh hp(1)
    by (intro exI [of _ "header_of_bytes (concat ds)"] exI [of _ l'] exI [of _ d'] exI [of _ "process_frame hb ?pf s"])
      (simp add: process_frame_fields answer_def)
qed

theorem heartbeat_end_to_end_witness:
  "\<exists>ds l'. ds \<noteq> [] \<and> linkd_rx bounded_list (\<lambda>_. []) (\<lambda>_. kenv0) (map UR_bytes ds @ [UR_EAGAIN])
       \<lparr>ld_framer = [], ld_dev = ready_dev (2, []) (2, []) 2 1 350, ld_uart_out = [], ld_report = []\<rparr> = Some (Goes_on, l')
     \<and> state (ld_dev l') = SAFETY_LINK_HB_OK \<and> fsm (handle_readable 350 (Read_bytes (concat ds)) (sup_init 350)) = HEALTHY"
proof -
  let ?w = "fw (fw_boot ([] :: safety_rx_frame list))"
  let ?l = "\<lparr>ld_framer = [], ld_dev = ready_dev (2, []) (2, []) 2 1 350, ld_uart_out = [], ld_report = []\<rparr>
    :: safety_fifo_slot blist linkd"
  obtain ms b' w' where t: "heartbeat_task fw_env0 0 ?w = (ms, b', w')" by (metis prod_cases3)
  have w: "device_is_ready fw_env0" "length (frame_buf ?w) = SAFETY_MAX_FRAME_SIZE" "inject_task_hang (g_fault_state ?w) = 0"
    "in_safe_mode (g_fault_state ?w) = 0" "uart_tx ?w = []"
    by (simp_all add: fw_env0_def fw_boot_def safety_state_init_def)
  from heartbeat_each_turn [OF w(1,2) t] w obtain h p where f: "uart_tx w' = wire_frame h p" by auto
  have l: "snd (rx_fifo (ld_dev ?l)) = []" "0 < fifo_depth (ld_dev ?l)" by (simp_all add: ready_dev_def kzalloc_dev_def)
  from heartbeat_end_to_end [OF w(1-4) t _ _ kfifo_bounded_list, of "[uart_tx w']" ?l "sup_init 350" "\<lambda>_. []" "\<lambda>_. kenv0" True "[]" 350]
  have "\<exists>l'. linkd_rx bounded_list (\<lambda>_. []) (\<lambda>_. kenv0) (map UR_bytes [uart_tx w'] @ [UR_EAGAIN]) ?l = Some (Goes_on, l')
      \<and> state (ld_dev l') = SAFETY_LINK_HB_OK \<and> fsm (handle_readable 350 (Read_bytes (concat [uart_tx w'])) (sup_init 350)) = HEALTHY"
    using w(5) f l demo_dev_inv by (simp del: linkd_rx.simps) blast
  then show ?thesis by (metis list.discI)
qed

text \<open>C2 (from the supervisor's command to the firmware's acknowledgement).  A recovery command of the
  supervisor that is written to a driver with an empty TX queue is accepted, and a turn of the link
  daemon whose UART writes succeed sends exactly its bytes; the firmware's receiver, hunting for a frame,
  puts one message into its queue for them; and the command handler, on this message, clears all
  injected faults and safe mode and sends a recovery report and an ACK with the sequence number of the
  command.\<close>

theorem recovery_command_end_to_end:
  assumes "kfifo K elems qwf" and "driver_inv K elems qwf dev" and "elems (tx_fifo dev) = []" and "0 < fifo_depth dev"
    and "uart_write_all ws (build_command seq ts SAFETY_CMD_REQUEST_RECOVERY SAFETY_FAULT_NONE 0 0) = Some (True, t)"
    and "hunting r" and "rx_inv r"
    and "device_is_ready fe" and "length (frame_buf w) = SAFETY_MAX_FRAME_SIZE"
  defines "f \<equiv> build_command seq ts SAFETY_CMD_REQUEST_RECOVERY SAFETY_FAULT_NONE 0 0"
    and "m \<equiv> msg_of (safety_frame_init SAFETY_FRAME_COMMAND seq 8 ts)
      (command_bytes \<lparr>command = SAFETY_CMD_REQUEST_RECOVERY, arg8 = SAFETY_FAULT_NONE, arg16 = 0, arg32 = 0\<rparr>)"
  shows "\<exists>d l' r' e1 e2 p. safety_write K ke (Some f) (length f) dev = (Inr (length f), d)
    \<and> linkd_tx K strerror werr e [ws] (l\<lparr>ld_dev := d\<rparr>) = Some l' \<and> ld_uart_out l' = ld_uart_out l @ f
    \<and> fifo_drain M f (r, q) = (r', fst (k_msgq_put M q m))
    \<and> g_fault_state (handle_command fe m w) = (g_fault_state w)\<lparr>inject_task_hang := 0, inject_checksum_error := 0,
         inject_critical_fault := 0, in_safe_mode := 0\<rparr>
    \<and> uart_tx (handle_command fe m w) = uart_tx w
         @ wire_frame (fw_header e1 SAFETY_FRAME_RECOVERY_REPORT (tx_sequence w) p) p
         @ wire_frame (fw_header e2 SAFETY_FRAME_ACK (tx_sequence w + 1)
             (ack_bytes \<lparr>acked_sequence_id = seq, ack_reserved = 0\<rparr>)) (ack_bytes \<lparr>acked_sequence_id = seq, ack_reserved = 0\<rparr>)"
proof -
  let ?c = "\<lparr>command = SAFETY_CMD_REQUEST_RECOVERY, arg8 = SAFETY_FAULT_NONE, arg16 = 0, arg32 = 0\<rparr>"
  let ?h = "safety_frame_init SAFETY_FRAME_COMMAND seq 8 ts"
  let ?m = "msg_of ?h (command_bytes ?c)"
  have f: "f = wire_frame ?h (command_bytes ?c)" "header_ok ?h (command_bytes ?c)"
    by (simp_all add: f_def build_wire init_header_ok)
  have c: "cmd_of ?m = ?c" "sequence_id (rxf_hdr ?m) = seq" "cmd_accepted ?m"
    by (simp_all add: cmd_of_def cmd_accepted_def) (simp_all add: msg_of_def)
  obtain d l' where d: "safety_write K ke (Some f) (length f) dev = (Inr (length f), d)"
    "linkd_tx K strerror werr e [ws] (l\<lparr>ld_dev := d\<rparr>) = Some l'" "ld_uart_out l' = ld_uart_out l @ f"
    using linkd_one_command [OF assms(1-4) f(2) assms(5) [folded f_def, unfolded f(1)]] f(1) by metis
  obtain r' where r': "fifo_drain M f (r, q) = (r', fst (k_msgq_put M q ?m))" using feed_frame [OF assms(6,7) f(2)] f(1) by metis
  have buf: "length (frame_buf w) = 272" using assms(9) by (simp add: proto_const)
  obtain x where x: "cmd_extra fe ?c (g_fault_state w) = Some (SAFETY_FRAME_RECOVERY_REPORT, x)"
    by (simp add: cmd_extra_def cmd_consts)
  from command_accepted [OF assms(8) buf c(3)] c x obtain e1 e2 s1 where
    s: "sends e1 (SAFETY_FRAME_RECOVERY_REPORT, x) (w\<lparr>g_fault_state := cmd_effect ?c (g_fault_state w)\<rparr>) s1"
      "sends e2 (SAFETY_FRAME_ACK, ack_bytes \<lparr>acked_sequence_id = seq, ack_reserved = 0\<rparr>) s1 (handle_command fe ?m w)" by auto
  have "uart_tx (handle_command fe ?m w) = uart_tx w
      @ wire_frame (fw_header e1 SAFETY_FRAME_RECOVERY_REPORT (tx_sequence w) x) x
      @ wire_frame (fw_header e2 SAFETY_FRAME_ACK (tx_sequence w + 1)
          (ack_bytes \<lparr>acked_sequence_id = seq, ack_reserved = 0\<rparr>)) (ack_bytes \<lparr>acked_sequence_id = seq, ack_reserved = 0\<rparr>)"
    using sendsD [OF s(1)] sendsD [OF s(2)] by simp
  moreover have "g_fault_state (handle_command fe ?m w) = (g_fault_state w)\<lparr>inject_task_hang := 0, inject_checksum_error := 0,
      inject_critical_fault := 0, in_safe_mode := 0\<rparr>"
    using handle_command_fault_state [of fe ?m w] c by (simp add: cmd_effect_def cmd_consts)
  ultimately show ?thesis unfolding m_def using d r' by blast
qed

theorem recovery_command_end_to_end_witness:
  "let f = build_command 3 700 SAFETY_CMD_REQUEST_RECOVERY SAFETY_FAULT_NONE 0 0;
       l = \<lparr>ld_framer = [], ld_dev = ready_dev (2, []) (2, []) 2 1 350, ld_uart_out = [], ld_report = []\<rparr>
   in \<exists>d l' r' q'. safety_write bounded_list kenv0 (Some f) 24 (ready_dev (2, []) (2, []) 2 1 350) = (Inr 24, d)
     \<and> linkd_tx bounded_list (\<lambda>_. []) EIO (\<lambda>_. kenv0) [[UW_wrote 24]] (l\<lparr>ld_dev := d\<rparr>) = Some l'
     \<and> fifo_drain (list_msgq 8) (ld_uart_out l') (rxs_init, []) = (r', q') \<and> length q' = 1"
proof -
  let ?f = "build_command 3 700 SAFETY_CMD_REQUEST_RECOVERY SAFETY_FAULT_NONE 0 0"
  let ?d0 = "ready_dev (2, []) (2, []) 2 1 350 :: safety_fifo_slot blist safety_copro_dev"
  let ?l = "\<lparr>ld_framer = [], ld_dev = ?d0, ld_uart_out = [], ld_report = []\<rparr>"
  let ?w = "fw (fw_boot ([] :: safety_rx_frame list))"
  have f: "length ?f = 24" by (simp add: build_wire)
  then have w: "uart_write_all [UW_wrote 24] ?f = Some (True, ?f)" by (auto simp: uart_write_all.simps)
  have r: "hunting rxs_init" "rx_inv rxs_init" using rxs_init_inv by (simp_all add: hunting_def)
  have d0: "snd (tx_fifo ?d0) = []" "0 < fifo_depth ?d0" by (simp_all add: ready_dev_def kzalloc_dev_def)
  have fw: "device_is_ready fw_env0" "length (frame_buf ?w) = SAFETY_MAX_FRAME_SIZE" by (simp_all add: fw_env0_def fw_boot_def)
  show ?thesis
    using recovery_command_end_to_end [OF kfifo_bounded_list demo_dev_inv d0 w r fw, of kenv0 "\<lambda>_. []" EIO "\<lambda>_. kenv0" ?l "list_msgq 8" "[]"]
    by (auto simp: f Let_def list_msgq_def)
qed

end
